(* ===== verification/Tacos_Prelude.thy ===== *)
theory Tacos_Prelude
  imports Main "HOL-Library.Word" "HOL-Library.Monad_Syntax" "HOL-Library.Multiset"
begin

text \<open>
  The prelude of the development: the machine integer types of the kernel, the errors of
  \<open>src/src/error.rs\<close>, the result types of fallible code, the integer functions of
  Rust's standard library that the kernel calls, and the generic lemmas on words, bits and
  lists that the component theories share.

  Conventions. A panic of the kernel (a failed \<open>assert!\<close>, an \<open>unwrap\<close> of \<open>None\<close>,
  an index out of range) is the value \<open>None\<close> of an \<open>option\<close>; an \<open>Err\<close> of the
  source is \<open>Inl\<close> of a sum. Arithmetic is that of the release profile, in which the
  kernel is run (\<open>tool/src/test.rs\<close> calls \<open>cargo run -r\<close>): it wraps around.
\<close>

unbundle bit_operations_syntax

section \<open>Machine integers\<close>

type_synonym u8 = "8 word"
type_synonym u16 = "16 word"
type_synonym u32 = "32 word"
type_synonym u64 = "64 word"
type_synonym usize = "64 word"

section \<open>Errors\<close>

datatype os_error =
    BadPtr
  | UnexpectedEOF
  | NoSuchFile
  | UnknownFormat
  | UserError
  | CreateExistInode
  | OpenInvalidInode
  | DiskSectorAllocFail
  | RootDirFull
  | CstrFormatErr
  | ArgumentTooLong
  | InvalidFileMode
  | FileNotOpened

text \<open>The discriminants of the \<open>repr(i32)\<close> enumeration.\<close>

fun os_error_code :: "os_error \<Rightarrow> int" where
  "os_error_code BadPtr = -1"
| "os_error_code UnexpectedEOF = -2"
| "os_error_code NoSuchFile = -3"
| "os_error_code UnknownFormat = -4"
| "os_error_code UserError = -5"
| "os_error_code CreateExistInode = -6"
| "os_error_code OpenInvalidInode = -7"
| "os_error_code DiskSectorAllocFail = -8"
| "os_error_code RootDirFull = -9"
| "os_error_code CstrFormatErr = -10"
| "os_error_code ArgumentTooLong = -11"
| "os_error_code InvalidFileMode = -12"
| "os_error_code FileNotOpened = -13"

type_synonym 'a result = "os_error + 'a"

abbreviation Err :: "os_error \<Rightarrow> 'a result" where
  "Err \<equiv> Inl"

abbreviation Ok :: "'a \<Rightarrow> 'a result" where
  "Ok \<equiv> Inr"

text \<open>\<open>assert!(b)\<close>: go on, or panic.\<close>

definition rust_assert :: "bool \<Rightarrow> unit option" where
  "rust_assert b = (if b then Some () else None)"

lemma rust_assert_simps [simp]:
  "rust_assert True = Some ()" "rust_assert False = None"
  "(rust_assert b = Some u) = b" "(rust_assert b = None) = (\<not> b)"
  by (auto simp: rust_assert_def)

lemma bind_rust_assert [simp]:
  "(rust_assert b \<bind> f) = (if b then f () else None)"
  by (simp add: rust_assert_def)

text \<open>Indexing and slicing of a Rust slice: out of range panics.\<close>

definition slice_get :: "'a list \<Rightarrow> nat \<Rightarrow> 'a option" where
  "slice_get xs i = (if i < length xs then Some (xs ! i) else None)"

definition slice_set :: "'a list \<Rightarrow> nat \<Rightarrow> 'a \<Rightarrow> 'a list option" where
  "slice_set xs i x = (if i < length xs then Some (xs[i := x]) else None)"

text \<open>Replacing the elements of a list from index \<open>i\<close> on by those of another one.\<close>

definition splice :: "'a list \<Rightarrow> nat \<Rightarrow> 'a list \<Rightarrow> 'a list" where
  "splice xs i ys = take i xs @ ys @ drop (i + length ys) xs"

text \<open>\<open>xs[i..i + n]\<close> and \<open>xs[i..].copy_from_slice(ys)\<close> of Rust.\<close>

definition slice_sub :: "'a list \<Rightarrow> nat \<Rightarrow> nat \<Rightarrow> 'a list option" where
  "slice_sub xs i n = (if i + n \<le> length xs then Some (take n (drop i xs)) else None)"

definition slice_copy :: "'a list \<Rightarrow> nat \<Rightarrow> 'a list \<Rightarrow> 'a list option" where
  "slice_copy xs i ys = (if i + length ys \<le> length xs then Some (splice xs i ys) else None)"

text \<open>The half-open range \<open>a..b\<close> of machine integers, as the list a \<open>for\<close> loop runs over.\<close>

definition word_range :: "'a::len word \<Rightarrow> 'a word \<Rightarrow> 'a word list" where
  "word_range a b = map of_nat [unat a..<unat b]"

section \<open>Integer functions of the standard library\<close>

text \<open>The number of bits of a natural number: 64 minus the leading zeros of a \<open>usize\<close>.\<close>

fun bit_len :: "nat \<Rightarrow> nat" where
  "bit_len n = (if n = 0 then 0 else Suc (bit_len (n div 2)))"

declare bit_len.simps [simp del]

text \<open>The number of trailing zero bits of a positive natural number.\<close>

fun tz_nat :: "nat \<Rightarrow> nat" where
  "tz_nat n = (if n = 0 \<or> odd n then 0 else Suc (tz_nat (n div 2)))"

declare tz_nat.simps [simp del]

definition is_power_of_two :: "usize \<Rightarrow> bool" where
  "is_power_of_two w \<longleftrightarrow> list_ex (\<lambda>k. w = push_bit k 1) [0..<64]"

definition leading_zeros :: "usize \<Rightarrow> nat" where
  "leading_zeros w = 64 - bit_len (unat w)"

definition trailing_zeros :: "usize \<Rightarrow> nat" where
  "trailing_zeros w = (if w = 0 then 64 else tz_nat (unat w))"

text \<open>In a release build the result wraps to 0 when it does not fit.\<close>

definition next_power_of_two :: "usize \<Rightarrow> usize" where
  "next_power_of_two w = (if w \<le> 1 then 1 else push_bit (bit_len (unat (w - 1))) 1)"

section \<open>Facts shared by the proofs\<close>

named_theorems unat_simps \<open>facts that move word arithmetic to natural numbers\<close>

subsection \<open>Words as natural numbers\<close>

lemma unat_usize_less [simp]: "unat (w :: usize) < 2 ^ 64"
  using unsigned_less [of w] by simp

lemma unat_u32_less [simp]: "unat (w :: u32) < 2 ^ 32"
  using unsigned_less [of w] by simp

lemma unat_u8_less [simp]: "unat (w :: u8) < 2 ^ 8"
  using unsigned_less [of w] by simp

lemma unat_add_no_wrap:
  fixes x y :: "'a::len word"
  assumes "unat x + unat y < 2 ^ LENGTH('a)"
  shows "unat (x + y) = unat x + unat y"
  using assms by (simp add: unat_add_lem)

lemma unat_diff_no_wrap:
  fixes x y :: "'a::len word"
  assumes "unat y \<le> unat x"
  shows "unat (x - y) = unat x - unat y"
  using assms by (simp add: unat_sub word_le_nat_alt)

lemma unat_of_nat_small:
  assumes "n < 2 ^ LENGTH('a::len)"
  shows "unat (of_nat n :: 'a word) = n"
  using assms by (simp add: unat_of_nat take_bit_nat_eq_self)

lemma unat_exp:
  assumes "k < LENGTH('a::len)"
  shows "unat (2 ^ k :: 'a word) = 2 ^ k"
proof -
  have "(2 ^ k :: 'a word) = of_nat (2 ^ k)"
    by simp
  moreover have "(2::nat) ^ k < 2 ^ LENGTH('a)"
    using assms by simp
  ultimately show ?thesis
    by (simp only: unat_of_nat_small)
qed

lemma unat_mask_exp:
  assumes "k < LENGTH('a::len)"
  shows "unat (mask k :: 'a word) = 2 ^ k - 1"
proof -
  have "unat (1 :: 'a word) \<le> unat (2 ^ k :: 'a word)"
    using assms by (simp add: unat_exp)
  then have "unat (2 ^ k - 1 :: 'a word) = unat (2 ^ k :: 'a word) - unat (1 :: 'a word)"
    by (rule unat_diff_no_wrap)
  then show ?thesis
    using assms by (simp add: mask_eq_exp_minus_1 unat_exp)
qed

lemma unat_take_bit_mod:
  fixes x :: "'a::len word"
  shows "unat (take_bit k x) = unat x mod 2 ^ k"
  by (simp add: unsigned_take_bit_eq flip: take_bit_eq_mod)

lemma and_not_mask_eq_push_drop:
  fixes x :: "'a::len word"
  shows "x AND NOT (mask k) = push_bit k (drop_bit k x)"
  by (rule bit_eqI) (auto simp: bit_simps)

lemma unat_push_drop:
  fixes x :: "'a::len word"
  shows "unat (push_bit k (drop_bit k x)) = unat x div 2 ^ k * 2 ^ k"
proof -
  have "push_bit k (drop_bit k x) = x - take_bit k x"
    using bits_ident [of k x] by (simp add: algebra_simps)
  moreover have "unat (take_bit k x) \<le> unat x"
    by (simp add: unat_take_bit_mod)
  ultimately show ?thesis
    by (simp add: unat_diff_no_wrap unat_take_bit_mod minus_mod_eq_div_mult)
qed

lemma unat_and_not_mask:
  fixes x :: "'a::len word"
  shows "unat (x AND NOT (mask k)) = unat x div 2 ^ k * 2 ^ k"
  by (simp add: and_not_mask_eq_push_drop unat_push_drop)

lemma unat_and_mask:
  fixes x :: "'a::len word"
  shows "unat (x AND mask k) = unat x mod 2 ^ k"
  by (simp flip: take_bit_eq_mask add: unat_take_bit_mod)

lemma xor_aligned_nat:
  fixes p k :: nat
  assumes "2 ^ k dvd p"
  shows "p XOR 2 ^ k = (if 2 ^ Suc k dvd p then p + 2 ^ k else p - 2 ^ k)"
proof -
  have up: "r XOR 2 ^ k = r + 2 ^ k" if "2 ^ Suc k dvd r" for r :: nat
  proof -
    from that obtain q where q: "r = 2 ^ k * (2 * q)" by (auto elim: dvdE)
    have "\<not> bit r k" by (simp add: q bit_iff_odd)
    then have "flip_bit k r = r + 2 ^ k" by (simp add: flip_bit_eq_if set_bit_eq)
    then show ?thesis by (simp add: flip_bit_nat_def push_bit_eq_mult)
  qed
  show ?thesis
  proof (cases "2 ^ Suc k dvd p")
    case True
    then show ?thesis by (simp only: up if_True)
  next
    case False
    from assms obtain q where q: "p = 2 ^ k * q" by (elim dvdE)
    with False have "odd q" by (auto simp: mult.commute)
    then obtain m where m: "q = Suc (2 * m)" using oddE by fastforce
    have r: "2 ^ Suc k dvd p - 2 ^ k" by (simp add: q m algebra_simps)
    have p: "p - 2 ^ k + 2 ^ k = p" by (simp add: q m)
    have "p XOR 2 ^ k = (p - 2 ^ k XOR 2 ^ k) XOR 2 ^ k" by (simp only: up [OF r] p)
    also have "\<dots> = p - 2 ^ k" by (simp add: xor.assoc)
    finally show ?thesis using False by simp
  qed
qed

lemma unat_xor:
  fixes x y :: "'a::len word"
  shows "unat (x XOR y) = unat x XOR unat y"
  by (simp add: unsigned_xor_eq)

lemma word_eq_unatI:
  fixes x y :: "'a::len word"
  shows "unat x = unat y \<Longrightarrow> x = y"
  by (simp add: word_unat_eq_iff)

subsection \<open>Lists\<close>

lemma slice_get_simps [simp]: "i < length xs \<Longrightarrow> slice_get xs i = Some (xs ! i)"
  by (simp add: slice_get_def)

lemma slice_set_simps [simp]: "i < length xs \<Longrightarrow> slice_set xs i x = Some (xs[i := x])"
  by (simp add: slice_set_def)

lemma length_splice [simp]: "i + length ys \<le> length xs \<Longrightarrow> length (splice xs i ys) = length xs"
  by (simp add: splice_def)

lemma splice_Nil [simp]: "splice xs i [] = xs"
  by (simp add: splice_def)

lemma nth_splice:
  "i + length ys \<le> length xs \<Longrightarrow> j < length xs \<Longrightarrow>
   splice xs i ys ! j = (if i \<le> j \<and> j < i + length ys then ys ! (j - i) else xs ! j)"
  by (auto simp: splice_def nth_append)

lemma splice_append:
  "i + length xs + length ys \<le> length zs \<Longrightarrow>
   splice (splice zs i xs) (i + length xs) ys = splice zs i (xs @ ys)"
  by (simp add: splice_def ac_simps)

lemma upt_split:
  assumes "a \<le> b" "b \<le> (c::nat)"
  shows "[a..<c] = [a..<b] @ [b..<c]"
  using assms upt_add_eq_append [of a b "c - b"] by simp

lemma slice_sub_simps [simp]: "i + n \<le> length xs \<Longrightarrow> slice_sub xs i n = Some (take n (drop i xs))"
  by (simp add: slice_sub_def)

lemma slice_copy_simps [simp]: "i + length ys \<le> length xs \<Longrightarrow> slice_copy xs i ys = Some (splice xs i ys)"
  by (simp add: slice_copy_def)

lemma word_range_empty [simp]: "unat b \<le> unat a \<Longrightarrow> word_range a b = []"
  by (simp add: word_range_def)

lemma unat_suc_less:
  fixes a b :: "'a::len word"
  assumes "unat a < unat b"
  shows "unat (a + 1) = unat a + 1"
proof -
  have "unat b < 2 ^ LENGTH('a)" by (rule unsigned_less)
  moreover have "unat (1 :: 'a word) = 1" by simp
  ultimately have "unat a + unat (1 :: 'a word) < 2 ^ LENGTH('a)" using assms by linarith
  then show ?thesis by (simp add: unat_add_no_wrap)
qed

lemma word_range_Cons:
  fixes a b :: "'a::len word"
  assumes "unat a < unat b"
  shows "word_range a b = a # word_range (a + 1) b"
  using assms unat_suc_less [OF assms] by (simp add: word_range_def upt_conv_Cons)

lemma set_word_range:
  fixes a b :: "'a::len word"
  shows "set (word_range a b) = {w. unat a \<le> unat w \<and> unat w < unat b}"
proof -
  have u: "unat (of_nat i :: 'a word) = i" if "i < unat b" for i
    using that unsigned_less [of b] by (intro unat_of_nat_small) (rule less_trans)
  have "w \<in> of_nat ` {unat a..<unat b}" if "unat a \<le> unat w" "unat w < unat b" for w :: "'a word"
    using that by (intro image_eqI [of _ _ "unat w"]) auto
  then show ?thesis by (auto simp: word_range_def u)
qed

lemma unat_image_range:
  fixes a b :: "'a::len word"
  shows "unat ` set (word_range a b) = {unat a..<unat b}"
proof -
  have "i \<in> unat ` {w :: 'a word. unat a \<le> unat w \<and> unat w < unat b}" if "unat a \<le> i" "i < unat b" for i
  proof -
    have "unat (of_nat i :: 'a word) = i"
      using that unsigned_less [of b] by (intro unat_of_nat_small) (rule less_trans)
    then show ?thesis using that by (intro image_eqI [where x = "of_nat i :: 'a word"]) simp_all
  qed
  then show ?thesis by (auto simp: set_word_range)
qed

text \<open>
  \<open>find\<close> over an ascending range returns the least element that satisfies the predicate.
\<close>

lemma find_word_range_None:
  "find P (word_range a b) = None \<longleftrightarrow> (\<forall>w. unat a \<le> unat w \<and> unat w < unat b \<longrightarrow> \<not> P w)"
  by (auto simp: find_None_iff set_word_range)

lemma find_word_range_Some:
  fixes a b :: "'a::len word"
  assumes "find P (word_range a b) = Some i"
  shows "unat a \<le> unat i \<and> unat i < unat b \<and> P i \<and>
    (\<forall>w. unat a \<le> unat w \<and> unat w < unat i \<longrightarrow> \<not> P w)"
  using assms
proof (induction "unat b - unat a" arbitrary: a)
  case 0
  then show ?case by simp
next
  case (Suc d)
  then have lt: "unat a < unat b" by simp
  then have u: "unat (a + 1) = unat a + 1" by (rule unat_suc_less)
  show ?case
  proof (cases "P a")
    case True
    then show ?thesis using Suc.prems lt by (auto simp: word_range_Cons)
  next
    case False
    have "d = unat b - unat (a + 1)" using Suc.hyps(2) u by simp
    from Suc.hyps(1) [OF this] Suc.prems False lt u
    have IH: "unat (a + 1) \<le> unat i \<and> unat i < unat b \<and> P i \<and>
      (\<forall>w. unat (a + 1) \<le> unat w \<and> unat w < unat i \<longrightarrow> \<not> P w)"
      by (simp add: word_range_Cons)
    have "\<not> P w" if "unat a \<le> unat w" "unat w < unat i" for w
    proof (cases "w = a")
      case False
      then have "unat a \<noteq> unat w" using word_eq_unatI by blast
      then show ?thesis using IH that u by simp
    qed (use \<open>\<not> P a\<close> in simp)
    then show ?thesis using IH u by simp
  qed
qed

lemma find_SomeD:
  "find P xs = Some x \<Longrightarrow> P x"
  "find P xs = Some x \<Longrightarrow> x \<in> set xs"
  by (induction xs) (auto split: if_splits)

subsection \<open>Powers of two\<close>

lemma bit_len_less: "n < 2 ^ bit_len n"
proof (induction n rule: bit_len.induct)
  case (1 n)
  then show ?case by (subst bit_len.simps) (cases "n = 0", auto)
qed

lemma bit_len_least: "0 < n \<Longrightarrow> 2 ^ (bit_len n - 1) \<le> n"
proof (induction n rule: bit_len.induct)
  case (1 n)
  show ?case
  proof (cases "n div 2 = 0")
    case True
    with 1 show ?thesis by (simp add: bit_len.simps)
  next
    case False
    then have "2 ^ (bit_len (n div 2) - 1) \<le> n div 2" using 1 by simp
    moreover have "bit_len n - 1 = Suc (bit_len (n div 2) - 1)"
      using False "1.prems" by (simp add: bit_len.simps [of n] bit_len.simps [of "n div 2"])
    ultimately show ?thesis by simp
  qed
qed

lemma bit_len_le_iff: "bit_len n \<le> k \<longleftrightarrow> n < 2 ^ k"
proof
  assume "bit_len n \<le> k"
  then have "(2::nat) ^ bit_len n \<le> 2 ^ k" by simp
  then show "n < 2 ^ k" using bit_len_less [of n] by linarith
next
  assume a: "n < 2 ^ k"
  show "bit_len n \<le> k"
  proof (cases "n = 0")
    case True
    then show ?thesis by (simp add: bit_len.simps)
  next
    case False
    then have "(2::nat) ^ (bit_len n - 1) < 2 ^ k" using bit_len_least [of n] a by linarith
    then show ?thesis by simp
  qed
qed

lemma tz_nat_dvd: "2 ^ tz_nat n dvd n"
proof (induction n rule: tz_nat.induct)
  case (1 n)
  then show ?case by (subst tz_nat.simps) (auto elim!: evenE)
qed

lemma tz_nat_maximal: "0 < n \<Longrightarrow> \<not> 2 ^ Suc (tz_nat n) dvd n"
proof (induction n rule: tz_nat.induct)
  case (1 n)
  then show ?case by (subst tz_nat.simps) (auto elim!: evenE)
qed

lemma tz_nat_power [simp]: "tz_nat (2 ^ k) = k"
  by (induction k) (simp_all add: tz_nat.simps)

lemma dvd_tz_nat: "0 < n \<Longrightarrow> 2 ^ k dvd n \<longleftrightarrow> k \<le> tz_nat n"
proof
  assume "0 < n" "2 ^ k dvd n"
  then show "k \<le> tz_nat n"
    using tz_nat_maximal [of n] by (meson dvd_trans le_imp_power_dvd not_less_eq_eq)
next
  assume "k \<le> tz_nat n"
  then show "2 ^ k dvd n"
    using tz_nat_dvd [of n] by (meson dvd_trans le_imp_power_dvd)
qed

lemma is_power_of_two_iff: "is_power_of_two w \<longleftrightarrow> (\<exists>k<64. w = 2 ^ k)"
  by (auto simp: is_power_of_two_def list_ex_iff)

lemma is_power_of_two_exp [simp]: "k < 64 \<Longrightarrow> is_power_of_two (2 ^ k)"
  by (auto simp: is_power_of_two_iff)

lemma trailing_zeros_exp [simp]:
  assumes "k < 64"
  shows "trailing_zeros (2 ^ k) = k"
proof -
  have "unat (2 ^ k :: usize) = 2 ^ k" using assms by (simp add: unat_exp)
  moreover from this have "(2 ^ k :: usize) \<noteq> 0" by (metis unat_0 power_not_zero zero_neq_numeral)
  ultimately show ?thesis by (simp add: trailing_zeros_def)
qed

lemma dvd_trailing_zeros:
  "w \<noteq> 0 \<Longrightarrow> 2 ^ k dvd unat w \<longleftrightarrow> k \<le> trailing_zeros w"
  by (simp add: trailing_zeros_def dvd_tz_nat unat_gt_0)

end
