(* ===== verification/Io.thy ===== *)
theory Io
  imports Tacos_Prelude
begin

text \<open>
  The byte-stream interface of the kernel (\<open>src/src/io.rs\<close>) and the file descriptor that
  implements it (\<open>File\<close> in \<open>src/src/fs.rs\<close>). A file calls its inode through the trait
  object \<open>Arc<dyn Vnode>\<close>: the table of methods is the record \<open>vnode_ops\<close>, over the
  state \<open>'s\<close> of whatever implements it. The locale \<open>vnode\<close> states the contract of an
  inode; \<open>read_exact\<close>, \<open>write_all\<close> and the typed reads and writes are proved correct
  once, against that contract. The in-memory inode and the disk inode interpret it.

  A buffer is a pair of an address (inodes on disk look at it to decide how to transfer a
  sector) and its bytes. The result of an operation that may panic is an \<open>option\<close>.
\<close>

section \<open>The virtual inode\<close>

record 's vnode_ops =
  vn_read_at :: "'s \<Rightarrow> usize \<Rightarrow> u8 list \<Rightarrow> usize \<Rightarrow> (usize result \<times> u8 list) option"
  vn_write_at :: "'s \<Rightarrow> usize \<Rightarrow> u8 list \<Rightarrow> usize \<Rightarrow> (usize result \<times> 's) option"
  vn_deny_write :: "'s \<Rightarrow> 's"
  vn_allow_write :: "'s \<Rightarrow> 's"
  vn_inum :: "'s \<Rightarrow> usize"
  vn_len :: "'s \<Rightarrow> usize"
  vn_resize :: "'s \<Rightarrow> usize \<Rightarrow> (unit result \<times> 's) option"
  vn_close :: "'s \<Rightarrow> 's option"

section \<open>Files\<close>

record File =
  pos :: usize
  deny_write :: bool

definition file_new :: File where
  "file_new = \<lparr>pos = 0, deny_write = False\<rparr>"

definition file_set_len :: "'s vnode_ops \<Rightarrow> 's \<Rightarrow> usize \<Rightarrow> (unit result \<times> 's) option" where
  "file_set_len ops s n = vn_resize ops s n"

definition file_inum :: "'s vnode_ops \<Rightarrow> 's \<Rightarrow> usize" where
  "file_inum ops s = vn_inum ops s"

definition file_read ::
  "'s vnode_ops \<Rightarrow> 's \<Rightarrow> File \<Rightarrow> usize \<Rightarrow> u8 list \<Rightarrow> (usize result \<times> u8 list \<times> File) option" where
  "file_read ops s f p buf = do {
     (r, buf) \<leftarrow> vn_read_at ops s p buf (pos f);
     (case r of
        Err e \<Rightarrow> Some (Err e, buf, f)
      | Ok cnt \<Rightarrow> Some (Ok cnt, buf, f\<lparr>pos := pos f + cnt\<rparr>))
   }"

definition file_write ::
  "'s vnode_ops \<Rightarrow> 's \<Rightarrow> File \<Rightarrow> usize \<Rightarrow> u8 list \<Rightarrow> (usize result \<times> 's \<times> File) option" where
  "file_write ops s f p buf = do {
     (r, s) \<leftarrow> vn_write_at ops s p buf (pos f);
     (case r of
        Err e \<Rightarrow> Some (Err e, s, f)
      | Ok cnt \<Rightarrow> Some (Ok cnt, s, f\<lparr>pos := pos f + cnt\<rparr>))
   }"

definition file_deny_write :: "'s vnode_ops \<Rightarrow> 's \<Rightarrow> File \<Rightarrow> 's \<times> File" where
  "file_deny_write ops s f = (vn_deny_write ops s, f\<lparr>deny_write := True\<rparr>)"

definition file_drop :: "'s vnode_ops \<Rightarrow> 's \<Rightarrow> File \<Rightarrow> 's" where
  "file_drop ops s f = (if deny_write f then vn_allow_write ops s else s)"

section \<open>Reading and writing whole buffers\<close>

text \<open>
  The loop of \<open>read_exact\<close>. The buffer is the whole one; \<open>done\<close> bytes of it are filled
  and \<open>left\<close> bytes are still to come, so that the slice the source keeps in \<open>buf\<close> is
  \<open>drop done buf\<close>. A count above the length of the slice panics.
\<close>

function read_exact_loop :: "'s vnode_ops \<Rightarrow> 's \<Rightarrow> File \<Rightarrow> usize \<Rightarrow> u8 list \<Rightarrow> nat \<Rightarrow> nat \<Rightarrow>
    (unit result \<times> u8 list \<times> File) option" where
  "read_exact_loop ops s f p buf done left =
     (if left = 0 then Some (Ok (), buf, f)
      else do {
        (r, b, f) \<leftarrow> file_read ops s f (p + of_nat done) (drop done buf);
        (case r of
           Err e \<Rightarrow> Some (Err e, take done buf @ b, f)
         | Ok n \<Rightarrow>
             if n = 0 then Some (Err UnexpectedEOF, take done buf @ b, f)
             else if left < unat n then None
             else read_exact_loop ops s f p (take done buf @ b) (done + unat n) (left - unat n))
      })"
  by pat_completeness auto
termination
  by (relation "measure (\<lambda>(_, _, _, _, _, _, left). left)") (auto simp: unat_gt_0)

declare read_exact_loop.simps [simp del]

definition read_exact :: "'s vnode_ops \<Rightarrow> 's \<Rightarrow> File \<Rightarrow> usize \<Rightarrow> u8 list \<Rightarrow>
    (unit result \<times> u8 list \<times> File) option" where
  "read_exact ops s f p buf = read_exact_loop ops s f p buf 0 (length buf)"

text \<open>
  \<open>read_into\<close>: the target type is given by its size and by the reading \<open>dec\<close> of its
  bytes; \<open>p\<close> is the address of the vector it allocates.
\<close>

definition read_into :: "'s vnode_ops \<Rightarrow> 's \<Rightarrow> File \<Rightarrow> usize \<Rightarrow> nat \<Rightarrow> (u8 list \<Rightarrow> 't) \<Rightarrow>
    ('t result \<times> File) option" where
  "read_into ops s f p sz dec = do {
     (r, v, f) \<leftarrow> read_exact ops s f p (replicate sz 0);
     (case r of
        Err e \<Rightarrow> Some (Err e, f)
      | Ok _ \<Rightarrow> Some (if p = 0 then Err BadPtr else Ok (dec v), f))
   }"

function write_all :: "'s vnode_ops \<Rightarrow> 's \<Rightarrow> File \<Rightarrow> usize \<Rightarrow> u8 list \<Rightarrow>
    (unit result \<times> 's \<times> File) option" where
  "write_all ops s f p buf =
     (if buf = [] then Some (Ok (), s, f)
      else do {
        (r, s, f) \<leftarrow> file_write ops s f p buf;
        (case r of
           Err e \<Rightarrow> Some (Err e, s, f)
         | Ok n \<Rightarrow>
             if n = 0 then Some (Err UnexpectedEOF, s, f)
             else if length buf < unat n then None
             else write_all ops s f (p + n) (drop (unat n) buf))
      })"
  by pat_completeness auto
termination
  by (relation "measure (\<lambda>(_, _, _, _, buf). length buf)") (auto simp: unat_gt_0)

declare write_all.simps [simp del]

definition write_from :: "'s vnode_ops \<Rightarrow> 's \<Rightarrow> File \<Rightarrow> usize \<Rightarrow> ('t \<Rightarrow> u8 list) \<Rightarrow> 't \<Rightarrow>
    (unit result \<times> 's \<times> File) option" where
  "write_from ops s f p enc v = write_all ops s f p (enc v)"

section \<open>Seeking\<close>

datatype seek_from = Start usize | End usize | Current usize

text \<open>
  The arguments of \<open>End\<close> and \<open>Current\<close> are \<open>isize\<close>: the word is read as signed.
  \<open>max(0)\<close> is the maximum of signed integers.
\<close>

definition signed_max_0 :: "usize \<Rightarrow> usize" where
  "signed_max_0 w = (if sint w < 0 then 0 else w)"

definition seek :: "'s vnode_ops \<Rightarrow> 's \<Rightarrow> File \<Rightarrow> seek_from \<Rightarrow> usize result \<times> File" where
  "seek ops s f where_to =
     (let ilen = vn_len ops s;
          cur = pos f;
          new_pos = (case where_to of
                       Start u \<Rightarrow> u
                     | End i \<Rightarrow> signed_max_0 (ilen + i)
                     | Current i \<Rightarrow> signed_max_0 (cur + i))
      in (Ok new_pos, f\<lparr>pos := new_pos\<rparr>))"

definition rewind :: "'s vnode_ops \<Rightarrow> 's \<Rightarrow> File \<Rightarrow> unit result \<times> File" where
  "rewind ops s f = (case seek ops s f (Start 0) of (r, f) \<Rightarrow> (map_sum id (\<lambda>_. ()) r, f))"

definition stream_position :: "'s vnode_ops \<Rightarrow> 's \<Rightarrow> File \<Rightarrow> usize result \<times> File" where
  "stream_position ops s f = seek ops s f (Current 0)"

lemma rewind_eq [simp]: "rewind ops s f = (Ok (), f\<lparr>pos := 0\<rparr>)"
  by (simp add: rewind_def seek_def)

lemma sint_small:
  assumes "unat (w :: usize) < 2 ^ 63"
  shows "sint w = int (unat w)"
proof -
  have u: "int (unat w) = uint w" by simp
  have "int (unat w) < int (2 ^ 63)" using assms by (simp only: of_nat_less_iff)
  then have lt: "uint w < 2 ^ 63" by (simp add: u)
  have "- (2 ^ 63) \<le> uint w" by (rule order_trans [OF _ uint_ge_0]) simp
  then have "signed_take_bit 63 (uint w) = uint w" using lt by (rule signed_take_bit_int_eq_self)
  then show ?thesis by (simp add: sint_uint)
qed

lemma signed_max_0_small [simp]: "unat w < 2 ^ 63 \<Longrightarrow> signed_max_0 w = w"
  by (simp add: signed_max_0_def sint_small)

text \<open>Seeking relative to the current position, when nothing overflows.\<close>

lemma seek_Current_back:
  assumes "unat k \<le> unat (pos f)" "unat (pos f) < 2 ^ 63"
  shows "seek ops s f (Current (- k)) = (Ok (pos f - k), f\<lparr>pos := pos f - k\<rparr>)"
proof -
  have "unat (pos f - k) < 2 ^ 63" using assms by (simp only: unat_diff_no_wrap)
  then show ?thesis by (simp add: seek_def Let_def)
qed

section \<open>The contract of an inode\<close>

text \<open>
  \<open>contents\<close> are the bytes of the file, \<open>inv\<close> the inode's invariant, \<open>writable\<close> says
  that writes are not denied, and \<open>buf_ok p n\<close> that the \<open>n\<close> bytes at \<open>p\<close> can be used
  as a buffer. A read returns the bytes that are left in the file, up to the size of the
  buffer; past the end it returns either \<open>Ok 0\<close> or an error; a write inside the file
  replaces bytes and keeps the rest.
\<close>

locale vnode =
  fixes ops :: "'s vnode_ops"
    and inv :: "'s \<Rightarrow> bool"
    and contents :: "'s \<Rightarrow> u8 list"
    and writable :: "'s \<Rightarrow> bool"
    and buf_ok :: "usize \<Rightarrow> nat \<Rightarrow> bool"
  assumes buf_small: "buf_ok p n \<Longrightarrow> n < 2 ^ 63"
    and buf_suffix: "buf_ok p n \<Longrightarrow> k \<le> n \<Longrightarrow> buf_ok (p + of_nat k) (n - k)"
    and len_law: "inv s \<Longrightarrow> unat (vn_len ops s) = length (contents s) \<and> length (contents s) < 2 ^ 63"
    and read_law: "inv s \<Longrightarrow> buf_ok p (length buf) \<Longrightarrow> unat off < length (contents s) \<Longrightarrow>
      n = min (length buf) (length (contents s) - unat off) \<Longrightarrow>
      vn_read_at ops s p buf off =
        Some (Ok (of_nat n), take n (drop (unat off) (contents s)) @ drop n buf)"
    and read_end: "inv s \<Longrightarrow> buf_ok p (length buf) \<Longrightarrow> length (contents s) \<le> unat off \<Longrightarrow>
      vn_read_at ops s p buf off = Some (Ok 0, buf) \<or>
      vn_read_at ops s p buf off = Some (Err UnexpectedEOF, buf)"
    and write_law: "inv s \<Longrightarrow> writable s \<Longrightarrow> buf_ok p (length buf) \<Longrightarrow> buf \<noteq> [] \<Longrightarrow>
      unat off + length buf \<le> length (contents s) \<Longrightarrow>
      \<exists>s'. vn_write_at ops s p buf off = Some (Ok (of_nat (length buf)), s') \<and> inv s' \<and>
        writable s' \<and> contents s' = splice (contents s) (unat off) buf"
begin

lemma unat_of_nat_buf: "buf_ok p n \<Longrightarrow> k \<le> n \<Longrightarrow> unat (of_nat k :: usize) = k"
  using buf_small [of p n] by (intro unat_of_nat_small) simp

lemma read_exact_ok:
  assumes "inv s" "buf_ok p (length buf)" "unat (pos f) + length buf \<le> length (contents s)"
  shows "read_exact ops s f p buf =
    Some (Ok (), take (length buf) (drop (unat (pos f)) (contents s)),
      f\<lparr>pos := pos f + of_nat (length buf)\<rparr>)"
proof (cases "buf = []")
  case True
  then show ?thesis by (simp add: read_exact_def read_exact_loop.simps)
next
  case False
  let ?n = "length buf"
  have u: "unat (of_nat ?n :: usize) = ?n" using unat_of_nat_buf [OF assms(2)] by simp
  then have nz: "(of_nat ?n :: usize) \<noteq> 0" using False by (metis length_0_conv unat_0)
  have "vn_read_at ops s p buf (pos f) =
      Some (Ok (of_nat ?n), take ?n (drop (unat (pos f)) (contents s)) @ drop ?n buf)"
    using assms False less_le_trans [of "unat (pos f)" "unat (pos f) + ?n"] by (intro read_law) auto
  then have rd: "file_read ops s f p buf = Some (Ok (of_nat ?n),
      take ?n (drop (unat (pos f)) (contents s)), f\<lparr>pos := pos f + of_nat ?n\<rparr>)"
    by (simp add: file_read_def)
  show ?thesis unfolding read_exact_def
    using False rd u nz by (subst read_exact_loop.simps) (simp add: read_exact_loop.simps)
qed

lemma read_exact_loop_end:
  assumes "inv s" "buf_ok (p + of_nat done) (length buf - done)" "done < length buf"
    "length (contents s) \<le> unat (pos f)"
  shows "read_exact_loop ops s f p buf done (length buf - done) = Some (Err UnexpectedEOF, buf, f)"
proof -
  from read_end [of s "p + of_nat done" "drop done buf" "pos f"] assms
  have "file_read ops s f (p + of_nat done) (drop done buf) = Some (Ok 0, drop done buf, f) \<or>
      file_read ops s f (p + of_nat done) (drop done buf) = Some (Err UnexpectedEOF, drop done buf, f)"
    by (auto simp: file_read_def)
  then show ?thesis using assms(3) by (subst read_exact_loop.simps) auto
qed

lemma read_exact_eof:
  assumes "inv s" "buf_ok p (length buf)" "length (contents s) < unat (pos f) + length buf" "buf \<noteq> []"
  shows "\<exists>b f'. read_exact ops s f p buf = Some (Err UnexpectedEOF, b, f') \<and>
    deny_write f' = deny_write f \<and> length b = length buf"
proof (cases "length (contents s) \<le> unat (pos f)")
  case True
  then show ?thesis
    using read_exact_loop_end [of s p 0 buf f] assms by (simp add: read_exact_def)
next
  case False
  define n where n_def: "n = length (contents s) - unat (pos f)"
  have n: "0 < n" "n < length buf" "unat (pos f) + n = length (contents s)"
    using False assms(3) by (auto simp: n_def)
  have u: "unat (of_nat n :: usize) = n" using unat_of_nat_buf [OF assms(2)] n by simp
  then have nz: "(of_nat n :: usize) \<noteq> 0" using n by (metis less_numeral_extra(3) unat_0)
  let ?b = "take n (drop (unat (pos f)) (contents s)) @ drop n buf"
  let ?f = "f\<lparr>pos := pos f + of_nat n\<rparr>"
  have len: "length ?b = length buf" using n by simp
  have rd: "file_read ops s f p buf = Some (Ok (of_nat n), ?b, ?f)"
    using read_law [OF assms(1,2), of "pos f" n] False n n_def by (simp add: file_read_def)
  have p: "unat (pos f + of_nat n) = length (contents s)"
    using len_law [OF assms(1)] u n by (subst unat_add_no_wrap) auto
  have "read_exact_loop ops s ?f p ?b n (length ?b - n) = Some (Err UnexpectedEOF, ?b, ?f)"
    by (rule read_exact_loop_end) (use assms buf_suffix [OF assms(2), of n] n p len in auto)
  then have "read_exact ops s f p buf = Some (Err UnexpectedEOF, ?b, ?f)"
    unfolding read_exact_def using rd u nz n len assms(4)
    by (subst read_exact_loop.simps) (simp add: not_less)
  then show ?thesis using len by auto
qed

lemma write_all_ok:
  assumes "inv s" "writable s" "buf_ok p (length buf)" "unat (pos f) + length buf \<le> length (contents s)"
  shows "\<exists>s'. write_all ops s f p buf = Some (Ok (), s', f\<lparr>pos := pos f + of_nat (length buf)\<rparr>) \<and>
    inv s' \<and> writable s' \<and> contents s' = splice (contents s) (unat (pos f)) buf"
proof (cases "buf = []")
  case True
  then show ?thesis using assms by (simp add: write_all.simps splice_def)
next
  case False
  let ?n = "length buf"
  have u: "unat (of_nat ?n :: usize) = ?n" using unat_of_nat_buf [OF assms(3)] by simp
  then have nz: "(of_nat ?n :: usize) \<noteq> 0" using False by (metis length_0_conv unat_0)
  from write_law [OF assms(1-3) False assms(4)] obtain s' where
    "vn_write_at ops s p buf (pos f) = Some (Ok (of_nat ?n), s')" and s': "inv s'" "writable s'"
    "contents s' = splice (contents s) (unat (pos f)) buf" by blast
  then have "file_write ops s f p buf = Some (Ok (of_nat ?n), s', f\<lparr>pos := pos f + of_nat ?n\<rparr>)"
    by (simp add: file_write_def)
  then have "write_all ops s f p buf = Some (Ok (), s', f\<lparr>pos := pos f + of_nat ?n\<rparr>)"
    using False u nz by (subst write_all.simps) (simp add: write_all.simps)
  then show ?thesis using s' by blast
qed

text \<open>What a typed write stored, a typed read at the same position returns.\<close>

lemma write_from_read_into:
  assumes "inv s" "writable s" "buf_ok p sz" "buf_ok q sz" "q \<noteq> 0" "length (enc v) = sz"
    "dec (enc v) = v" "unat (pos f) + sz \<le> length (contents s)"
  shows "\<exists>s' f'. write_from ops s f p enc v = Some (Ok (), s', f') \<and> inv s' \<and>
    read_into ops s' (f'\<lparr>pos := pos f\<rparr>) q sz dec = Some (Ok v, f')"
proof -
  from write_all_ok [of s p "enc v" f] assms obtain s' where
    w: "write_all ops s f p (enc v) = Some (Ok (), s', f\<lparr>pos := pos f + of_nat sz\<rparr>)" "inv s'"
    "contents s' = splice (contents s) (unat (pos f)) (enc v)" by auto
  have len: "length (contents s') = length (contents s)" using w(3) assms by simp
  have "read_exact ops s' (f\<lparr>pos := pos f\<rparr>) q (replicate sz 0) =
      Some (Ok (), take sz (drop (unat (pos f)) (contents s')), f\<lparr>pos := pos f + of_nat sz\<rparr>)"
    using read_exact_ok [of s' q "replicate sz 0" "f\<lparr>pos := pos f\<rparr>"] w(2) assms len by simp
  moreover have "take sz (drop (unat (pos f)) (contents s')) = enc v"
    using assms by (simp add: w(3) splice_def)
  ultimately show ?thesis using w assms by (auto simp: write_from_def read_into_def)
qed

end

end
