(* ===== verification/Inmem.thy ===== *)
theory Inmem
  imports Io
begin

text \<open>
  The in-memory pseudo file system (\<open>src/src/fs/inmem.rs\<close>): a file is a byte buffer that
  never grows. Its inode is an instance of the contract \<open>vnode\<close>. The methods whose body is
  \<open>unimplemented!()\<close> panic.
\<close>

section \<open>The inode\<close>

text \<open>The boxed slice of an inode: where it is, and its bytes.\<close>

record mem_inode =
  mi_ptr :: usize
  mi_buf :: "u8 list"

definition mem_inum :: "mem_inode \<Rightarrow> usize" where
  "mem_inum i = mi_ptr i"

definition mem_len :: "mem_inode \<Rightarrow> usize" where
  "mem_len i = of_nat (length (mi_buf i))"

definition mem_read_at ::
  "mem_inode \<Rightarrow> usize \<Rightarrow> u8 list \<Rightarrow> usize \<Rightarrow> (usize result \<times> u8 list) option" where
  "mem_read_at i p buf off =
     (if mem_len i \<le> off then Some (Err UnexpectedEOF, buf)
      else do {
        let len = min (unat (mem_len i - off)) (length buf);
        src \<leftarrow> slice_sub (mi_buf i) (unat off) len;
        buf \<leftarrow> slice_copy buf 0 src;
        Some (Ok (of_nat len), buf)
      })"

definition mem_write_at ::
  "mem_inode \<Rightarrow> usize \<Rightarrow> u8 list \<Rightarrow> usize \<Rightarrow> (usize result \<times> mem_inode) option" where
  "mem_write_at i p buf off =
     (if mem_len i \<le> off then Some (Err UnexpectedEOF, i)
      else do {
        let len = min (unat (mem_len i - off)) (length buf);
        src \<leftarrow> slice_sub buf 0 len;
        bytes \<leftarrow> slice_copy (mi_buf i) (unat off) src;
        Some (Ok (of_nat len), i\<lparr>mi_buf := bytes\<rparr>)
      })"

definition mem_ops :: "mem_inode vnode_ops" where
  "mem_ops = \<lparr>vn_read_at = mem_read_at, vn_write_at = mem_write_at,
     vn_deny_write = id, vn_allow_write = id, vn_inum = mem_inum, vn_len = mem_len,
     vn_resize = (\<lambda>_ _. None), vn_close = (\<lambda>_. None)\<rparr>"

section \<open>The file system\<close>

text \<open>
  \<open>MemFs\<close> keeps a weak reference to every inode it opened; the inodes themselves live in the
  store, under the identity of their allocation. \<open>q\<close> is the address of the boxed bytes.
\<close>

record mem_fs =
  oft :: "nat list"
  mem_store :: "mem_inode list"

definition mem_mount :: "mem_fs result" where
  "mem_mount = Ok \<lparr>oft = [], mem_store = []\<rparr>"

definition mem_open :: "mem_fs \<Rightarrow> usize \<Rightarrow> u8 list \<Rightarrow> (nat \<times> File) result \<times> mem_fs" where
  "mem_open fs q ident =
     (let vnode = length (mem_store fs)
      in (Ok (vnode, file_new),
          fs\<lparr>oft := oft fs @ [vnode], mem_store := mem_store fs @ [\<lparr>mi_ptr = q, mi_buf = ident\<rparr>]\<rparr>))"

section \<open>The contract\<close>

text \<open>Rust bounds the size of an allocation by \<open>isize::MAX\<close>.\<close>

definition mem_inode_inv :: "mem_inode \<Rightarrow> bool" where
  "mem_inode_inv i \<longleftrightarrow> length (mi_buf i) < 2 ^ 63"

definition small_buf :: "usize \<Rightarrow> nat \<Rightarrow> bool" where
  "small_buf p n \<longleftrightarrow> n < 2 ^ 63"

lemma unat_mem_len [simp]: "mem_inode_inv i \<Longrightarrow> unat (mem_len i) = length (mi_buf i)"
  by (simp add: mem_len_def mem_inode_inv_def unat_of_nat_small)

lemma mem_past_end: "mem_inode_inv i \<Longrightarrow> mem_len i \<le> off \<longleftrightarrow> length (mi_buf i) \<le> unat off"
  by (simp add: word_le_nat_alt)

lemma unat_mem_left: 
  "mem_inode_inv i \<Longrightarrow> unat off < length (mi_buf i) \<Longrightarrow>
   unat (mem_len i - off) = length (mi_buf i) - unat off"
  by (subst unat_diff_no_wrap) simp_all

lemmas mem_simps = mem_past_end unat_mem_left mem_ops_def splice_def min.commute Let_def

interpretation memfile: vnode mem_ops mem_inode_inv mi_buf "\<lambda>_. True" small_buf
proof
  show "small_buf p n \<Longrightarrow> n < 2 ^ 63" for p n by (simp add: small_buf_def)
  show "small_buf p n \<Longrightarrow> k \<le> n \<Longrightarrow> small_buf (p + of_nat k) (n - k)" for p n k
    by (simp add: small_buf_def)
  show "mem_inode_inv s \<Longrightarrow> unat (vn_len mem_ops s) = length (mi_buf s) \<and> length (mi_buf s) < 2 ^ 63"
    for s by (simp add: mem_ops_def, simp add: mem_inode_inv_def)
  show "vn_read_at mem_ops s p buf off =
      Some (Ok (of_nat n), take n (drop (unat off) (mi_buf s)) @ drop n buf)"
    if "mem_inode_inv s" "unat off < length (mi_buf s)"
      "n = min (length buf) (length (mi_buf s) - unat off)" for s p buf off n
    using that by (auto simp: mem_read_at_def mem_simps)
  show "vn_read_at mem_ops s p buf off = Some (Ok 0, buf) \<or>
      vn_read_at mem_ops s p buf off = Some (Err UnexpectedEOF, buf)"
    if "mem_inode_inv s" "length (mi_buf s) \<le> unat off" for s p buf off
    using that by (simp add: mem_read_at_def mem_simps)
  show "\<exists>s'. vn_write_at mem_ops s p buf off = Some (Ok (of_nat (length buf)), s') \<and>
      mem_inode_inv s' \<and> True \<and> mi_buf s' = splice (mi_buf s) (unat off) buf"
    if "mem_inode_inv s" "buf \<noteq> []" "unat off + length buf \<le> length (mi_buf s)" for s p buf off
  proof -
    have "0 < length buf" using that(2) by simp
    then have "unat off < length (mi_buf s)" using that(3) by linarith
    moreover have "mem_inode_inv (s\<lparr>mi_buf := splice (mi_buf s) (unat off) buf\<rparr>)"
      using that by (simp add: mem_inode_inv_def)
    ultimately show ?thesis using that by (simp add: mem_write_at_def mem_simps)
  qed
qed

section \<open>Properties\<close>

text \<open>
  \<open>read_exact\<close> on an in-memory file fills the buffer with the bytes at the cursor and
  moves the cursor behind them exactly when the file has that many bytes left; otherwise it
  returns \<open>UnexpectedEOF\<close>. It always returns.
\<close>

lemma mem_read_exact_correct:
  assumes "mem_inode_inv i" "length buf < 2 ^ 63" "buf \<noteq> []"
  shows "if unat (pos f) + length buf \<le> length (mi_buf i)
    then read_exact mem_ops i f p buf =
      Some (Ok (), take (length buf) (drop (unat (pos f)) (mi_buf i)),
        f\<lparr>pos := pos f + of_nat (length buf)\<rparr>)
    else \<exists>b f'. read_exact mem_ops i f p buf = Some (Err UnexpectedEOF, b, f') \<and>
      length b = length buf"
  using memfile.read_exact_ok [of i p buf f] memfile.read_exact_eof [of i p buf f] assms
  by (auto simp: small_buf_def)

text \<open>
  A typed value written to an in-memory file is read back unchanged from the same
  position, for every type whose bytes determine its value.
\<close>

lemma mem_write_read_roundtrip:
  assumes "mem_inode_inv i" "length (enc v) = sz" "dec (enc v) = v" "q \<noteq> 0"
    "unat (pos f) + sz \<le> length (mi_buf i)"
  shows "\<exists>i' f'. write_from mem_ops i f p enc v = Some (Ok (), i', f') \<and>
    read_into mem_ops i' (f'\<lparr>pos := pos f\<rparr>) q sz dec = Some (Ok v, f')"
proof -
  have "sz < 2 ^ 63" using assms(1,5) by (simp add: mem_inode_inv_def)
  then show ?thesis
    using memfile.write_from_read_into [of i p sz q enc v dec f] assms by (auto simp: small_buf_def)
qed

end
