(* ===== verification/Scheduler.thy ===== *)
theory Scheduler
  imports Tacos_Prelude
begin

text \<open>
  The thread schedulers (\<open>src/src/thread/scheduler.rs\<close>, \<open>scheduler/fcfs.rs\<close> and
  \<open>scheduler/priority.rs\<close>). A thread is named by its identifier. A \<open>VecDeque\<close> is a list
  from its front to its back: \<open>push_front\<close> conses, \<open>pop_back\<close> takes the last element.

  The trait \<open>Schedule\<close> is the locale \<open>scheduler\<close>. Its two operations get what the
  implementations read from outside: the effective priorities of all threads (atomics inside
  the threads), the current thread and whether that one is running. Both schedulers interpret
  the locale; \<open>Manager\<close> uses one of them, chosen by a feature of the build.
\<close>

type_synonym tid = nat

section \<open>First come, first served\<close>

type_synonym fcfs = "tid list"

definition fcfs_default :: fcfs where
  "fcfs_default = []"

definition fcfs_register :: "(tid \<Rightarrow> u32) \<Rightarrow> fcfs \<Rightarrow> tid \<Rightarrow> fcfs option" where
  "fcfs_register prio q t = Some (t # q)"

definition fcfs_schedule :: "(tid \<Rightarrow> u32) \<Rightarrow> tid \<Rightarrow> bool \<Rightarrow> fcfs \<Rightarrow> (tid option \<times> fcfs) option" where
  "fcfs_schedule prio cur running q = Some (if q = [] then (None, []) else (Some (last q), butlast q))"

section \<open>Priority scheduling\<close>

type_synonym prio_sched = "tid list list"

definition prio_default :: prio_sched where
  "prio_default = replicate 64 []"

definition prio_register :: "(tid \<Rightarrow> u32) \<Rightarrow> prio_sched \<Rightarrow> tid \<Rightarrow> prio_sched option" where
  "prio_register prio ps t = do {
     q \<leftarrow> slice_get ps (unat (prio t));
     slice_set ps (unat (prio t)) (t # q)
   }"

text \<open>
  The inner loop of \<open>update_priority\<close>: the threads \<open>xs\<close> popped from the front of queue
  \<open>i\<close>, one after the other. Those whose priority is still \<open>i\<close> go to \<open>temp\<close>, the
  others to the back of the queue of their priority.
\<close>

fun drain_queue :: "(tid \<Rightarrow> u32) \<Rightarrow> nat \<Rightarrow> prio_sched \<Rightarrow> tid list \<Rightarrow> tid list \<Rightarrow> (prio_sched \<times> tid list) option" where
  "drain_queue prio i ps temp [] = Some (ps, temp)"
| "drain_queue prio i ps temp (x # xs) =
     (if prio x = of_nat i then drain_queue prio i ps (temp @ [x]) xs
      else do {
        q \<leftarrow> slice_get ps (unat (prio x));
        ps \<leftarrow> slice_set ps (unat (prio x)) (q @ [x]);
        drain_queue prio i ps temp xs
      })"

fun update_queues :: "(tid \<Rightarrow> u32) \<Rightarrow> prio_sched \<Rightarrow> nat list \<Rightarrow> prio_sched option" where
  "update_queues prio ps [] = Some ps"
| "update_queues prio ps (i # is) = do {
     xs \<leftarrow> slice_get ps i;
     (ps, temp) \<leftarrow> drain_queue prio i ps [] xs;
     ps \<leftarrow> slice_set ps i temp;
     update_queues prio ps is
   }"

definition update_priority :: "(tid \<Rightarrow> u32) \<Rightarrow> prio_sched \<Rightarrow> prio_sched option" where
  "update_priority prio ps = update_queues prio ps [0..<64]"

fun pick_thread :: "(tid \<Rightarrow> u32) \<Rightarrow> tid \<Rightarrow> bool \<Rightarrow> prio_sched \<Rightarrow> nat list \<Rightarrow> (tid option \<times> prio_sched) option" where
  "pick_thread prio cur running ps [] = Some (None, ps)"
| "pick_thread prio cur running ps (i # is) = do {
     q \<leftarrow> slice_get ps i;
     if q = [] then pick_thread prio cur running ps is
     else (let chosen = last q; rest = butlast q
           in if prio chosen < prio cur \<and> running
              then Some (None, ps[i := rest @ [chosen]])
              else Some (Some chosen, ps[i := rest]))
   }"

definition prio_schedule :: "(tid \<Rightarrow> u32) \<Rightarrow> tid \<Rightarrow> bool \<Rightarrow> prio_sched \<Rightarrow> (tid option \<times> prio_sched) option" where
  "prio_schedule prio cur running ps = do {
     ps \<leftarrow> update_priority prio ps;
     pick_thread prio cur running ps (rev [0..<64])
   }"

section \<open>The contract of a scheduler\<close>

text \<open>Calling a scheduler for a thread that cannot go on, again and again.\<close>

fun run_all :: "((tid \<Rightarrow> u32) \<Rightarrow> tid \<Rightarrow> bool \<Rightarrow> 'q \<Rightarrow> (tid option \<times> 'q) option) \<Rightarrow>
    (tid \<Rightarrow> u32) \<Rightarrow> tid \<Rightarrow> 'q \<Rightarrow> nat \<Rightarrow> tid list option" where
  "run_all sch prio cur q 0 = Some []"
| "run_all sch prio cur q (Suc n) = do {
     (r, q) \<leftarrow> sch prio cur False q;
     (case r of None \<Rightarrow> Some [] | Some t \<Rightarrow> map_option ((#) t) (run_all sch prio cur q n))
   }"

text \<open>
  \<open>ready\<close> are the registered threads, \<open>ok\<close> the invariant of the scheduler's own data and
  \<open>good\<close> the priorities it can handle. A scheduler never loses or invents a thread, and it
  must choose one when the current thread cannot go on.
\<close>

locale scheduler =
  fixes register :: "(tid \<Rightarrow> u32) \<Rightarrow> 'q \<Rightarrow> tid \<Rightarrow> 'q option"
    and schedule :: "(tid \<Rightarrow> u32) \<Rightarrow> tid \<Rightarrow> bool \<Rightarrow> 'q \<Rightarrow> (tid option \<times> 'q) option"
    and ready :: "'q \<Rightarrow> tid multiset"
    and ok :: "'q \<Rightarrow> bool"
    and good :: "u32 \<Rightarrow> bool"
  assumes register_law: "ok q \<Longrightarrow> good (prio t) \<Longrightarrow>
      \<exists>q'. register prio q t = Some q' \<and> ok q' \<and> ready q' = add_mset t (ready q)"
    and schedule_law: "ok q \<Longrightarrow> \<forall>t \<in># ready q. good (prio t) \<Longrightarrow>
      \<exists>r q'. schedule prio cur running q = Some (r, q') \<and> ok q' \<and>
        (case r of None \<Rightarrow> ready q' = ready q \<and> (running \<or> ready q = {#})
         | Some t \<Rightarrow> ready q = add_mset t (ready q'))"
begin

lemma run_all_everyone:
  assumes "ok q" "\<forall>t \<in># ready q. good (prio t)" "size (ready q) \<le> n"
  shows "\<exists>ts. run_all schedule prio cur q n = Some ts \<and> mset ts = ready q"
  using assms
proof (induction n arbitrary: q)
  case 0
  then show ?case by simp
next
  case (Suc n)
  from schedule_law [OF Suc.prems(1,2), of cur False] obtain r q' where
    s: "schedule prio cur False q = Some (r, q')" "ok q'"
    "case r of None \<Rightarrow> ready q' = ready q \<and> (False \<or> ready q = {#}) | Some t \<Rightarrow> ready q = add_mset t (ready q')"
    by blast
  show ?case
  proof (cases r)
    case None
    then show ?thesis using s by simp
  next
    case (Some t)
    then have "\<exists>ts. run_all schedule prio cur q' n = Some ts \<and> mset ts = ready q'"
      using s Suc.prems by (intro Suc.IH) auto
    then show ?thesis using s Some by auto
  qed
qed

end

section \<open>First come, first served, as a scheduler\<close>

interpretation fcfs: scheduler fcfs_register fcfs_schedule mset "\<lambda>_. True" "\<lambda>_. True"
proof
  show "\<exists>q'. fcfs_register prio q t = Some q' \<and> True \<and> mset q' = add_mset t (mset q)" for prio q t
    by (simp add: fcfs_register_def)
  have "mset q = add_mset (last q) (mset (butlast q))" if "q \<noteq> []" for q :: fcfs
  proof -
    have "mset q = mset (butlast q @ [last q])" using that by simp
    then show ?thesis by (simp only: mset_append mset.simps) simp
  qed
  then show "\<exists>r q'. fcfs_schedule prio cur running q = Some (r, q') \<and> True \<and>
      (case r of None \<Rightarrow> mset q' = mset q \<and> (running \<or> mset q = {#})
       | Some t \<Rightarrow> mset q = add_mset t (mset q'))" for prio cur running q
    by (simp add: fcfs_schedule_def)
qed

section \<open>The queues of the priority scheduler\<close>

definition prio_ready :: "prio_sched \<Rightarrow> tid multiset" where
  "prio_ready ps = mset (concat ps)"

definition prio_ok :: "prio_sched \<Rightarrow> bool" where
  "prio_ok ps \<longleftrightarrow> length ps = 64"

definition good_prio :: "u32 \<Rightarrow> bool" where
  "good_prio p \<longleftrightarrow> p < 64"

lemma good_prio_unat: "good_prio p \<longleftrightarrow> unat p < 64"
  by (simp add: good_prio_def word_less_nat_alt)

lemma prio_ready_sum: "prio_ready ps = (\<Sum>j<length ps. mset (ps ! j))"
proof -
  have "mset (concat ps) = sum_list (map mset ps)" by (induction ps) simp_all
  then show ?thesis by (simp add: prio_ready_def sum_list_sum_nth atLeast0LessThan)
qed

lemma mem_prio_ready: "t \<in># prio_ready ps \<longleftrightarrow> (\<exists>j<length ps. t \<in> set (ps ! j))"
  by (simp add: prio_ready_def) (metis in_set_conv_nth)

text \<open>Every thread is queued under its current priority.\<close>

definition in_order :: "(tid \<Rightarrow> u32) \<Rightarrow> prio_sched \<Rightarrow> nat \<Rightarrow> bool" where
  "in_order prio ps n \<longleftrightarrow> (\<forall>j<n. \<forall>t\<in>set (ps ! j). unat (prio t) = j)"

lemma eq_of_nat_iff:
  assumes "i < 64"
  shows "(p :: u32) = of_nat i \<longleftrightarrow> unat p = i"
proof -
  have "unat (of_nat i :: u32) = i" using assms by (intro unat_of_nat_small) simp
  then show ?thesis by (simp add: word_unat_eq_iff)
qed

lemma drain_queue_eq:
  assumes "length ps = 64" "i < 64" "\<forall>x\<in>set xs. good_prio (prio x)"
  shows "\<exists>ps'. drain_queue prio i ps temp xs = Some (ps', temp @ filter (\<lambda>x. unat (prio x) = i) xs) \<and>
    length ps' = 64 \<and>
    (\<forall>j<64. ps' ! j = ps ! j @ (if j = i then [] else filter (\<lambda>x. unat (prio x) = j) xs))"
  using assms
proof (induction xs arbitrary: ps temp)
  case Nil
  then show ?case by simp
next
  case (Cons x xs)
  show ?case
  proof (cases "unat (prio x) = i")
    case True
    then show ?thesis
      using Cons.IH [of ps "temp @ [x]"] Cons.prems by (auto simp: eq_of_nat_iff)
  next
    case False
    let ?p = "unat (prio x)"
    let ?ps = "ps[?p := ps ! ?p @ [x]]"
    have p: "?p < 64" using Cons.prems by (simp add: good_prio_unat)
    from Cons.IH [of ?ps temp] Cons.prems obtain ps' where
      "drain_queue prio i ?ps temp xs = Some (ps', temp @ filter (\<lambda>x. unat (prio x) = i) xs)"
      "length ps' = 64"
      "\<forall>j<64. ps' ! j = ?ps ! j @ (if j = i then [] else filter (\<lambda>x. unat (prio x) = j) xs)" by auto
    then show ?thesis using False p Cons.prems by (auto simp: eq_of_nat_iff nth_list_update)
  qed
qed

lemma sum_filter_prio:
  assumes "\<forall>x\<in>set xs. good_prio (prio x)"
  shows "(\<Sum>j<64. mset (filter (\<lambda>x. unat (prio x) = j) xs)) = mset xs"
  using assms
proof (induction xs)
  case Nil
  then show ?case by simp
next
  case (Cons x xs)
  have "(\<Sum>j<64. mset (filter (\<lambda>x. unat (prio x) = j) (x # xs))) =
      (\<Sum>j<64. (if j = unat (prio x) then {#x#} else {#}) + mset (filter (\<lambda>x. unat (prio x) = j) xs))"
    by (intro sum.cong) auto
  also have "\<dots> = {#x#} + mset xs"
    using Cons by (simp add: sum.distrib good_prio_unat)
  finally show ?case by simp
qed

lemma drain_step:
  assumes "prio_ok ps" "i < 64" "\<forall>t \<in># prio_ready ps. good_prio (prio t)" "in_order prio ps i"
  shows "\<exists>ps' temp. drain_queue prio i ps [] (ps ! i) = Some (ps', temp) \<and> prio_ok (ps'[i := temp]) \<and>
    prio_ready (ps'[i := temp]) = prio_ready ps \<and> in_order prio (ps'[i := temp]) (Suc i)"
proof -
  let ?xs = "ps ! i" and ?f = "\<lambda>j. filter (\<lambda>x. unat (prio x) = j)"
  have len: "length ps = 64" using assms(1) by (simp add: prio_ok_def)
  have xs: "\<forall>x\<in>set ?xs. good_prio (prio x)" using assms(2,3) len by (auto simp: mem_prio_ready)
  from drain_queue_eq [OF len assms(2) xs, of "[]"] obtain ps' where
    ps': "drain_queue prio i ps [] ?xs = Some (ps', ?f i ?xs)" "length ps' = 64"
    "\<forall>j<64. ps' ! j = ps ! j @ (if j = i then [] else ?f j ?xs)" by auto
  let ?ps = "ps'[i := ?f i ?xs]"
  have nth: "?ps ! j = (if j = i then [] else ps ! j) @ ?f j ?xs" if "j < 64" for j
    using that ps'(2,3) assms(2) by (auto simp: nth_list_update)
  have "prio_ready ?ps = (\<Sum>j<64. mset ((if j = i then [] else ps ! j) @ ?f j ?xs))"
    using ps'(2) by (simp add: prio_ready_sum nth del: mset_append)
  also have "\<dots> = (\<Sum>j<64. if j = i then {#} else mset (ps ! j)) + mset ?xs"
    using sum_filter_prio [OF xs] by (simp add: sum.distrib if_distrib [of mset] cong: if_cong)
  also have "\<dots> = (\<Sum>j<64. mset (ps ! j))"
  proof -
    have "(\<Sum>j<64. mset (ps ! j)) = (\<Sum>j<64. (if j = i then mset ?xs else {#}) + (if j = i then {#} else mset (ps ! j)))"
      by (intro sum.cong) auto
    then show ?thesis using assms(2) by (simp add: sum.distrib add.commute)
  qed
  finally have "prio_ready ?ps = prio_ready ps" by (simp add: prio_ready_sum len)
  moreover have "in_order prio ?ps (Suc i)"
    unfolding in_order_def
  proof (intro allI impI ballI)
    fix j t assume "j < Suc i" "t \<in> set (?ps ! j)"
    then show "unat (prio t) = j"
      using nth [of j] assms(2,4) by (cases "j = i") (auto simp: in_order_def)
  qed
  moreover have "prio_ok ?ps" using ps'(2) by (simp add: prio_ok_def)
  ultimately show ?thesis using ps'(1) by blast
qed

lemma update_queues_correct:
  assumes "prio_ok ps" "k \<le> 64" "\<forall>t \<in># prio_ready ps. good_prio (prio t)" "in_order prio ps k"
  shows "\<exists>ps'. update_queues prio ps [k..<64] = Some ps' \<and> prio_ok ps' \<and>
    prio_ready ps' = prio_ready ps \<and> in_order prio ps' 64"
  using assms
proof (induction "64 - k" arbitrary: k ps)
  case 0
  then show ?case by simp
next
  case (Suc d)
  then have k: "k < 64" by simp
  from drain_step [OF Suc.prems(1) k Suc.prems(3,4)] obtain ps' temp where
    d: "drain_queue prio k ps [] (ps ! k) = Some (ps', temp)" "prio_ok (ps'[k := temp])"
    "prio_ready (ps'[k := temp]) = prio_ready ps" "in_order prio (ps'[k := temp]) (Suc k)" by blast
  have "k < length ps" "k < length ps'" using k Suc.prems(1) d(2) by (simp_all add: prio_ok_def)
  then have "update_queues prio ps (k # [Suc k..<64]) = update_queues prio (ps'[k := temp]) [Suc k..<64]"
    using d(1) by simp
  moreover have "\<exists>ps''. update_queues prio (ps'[k := temp]) [Suc k..<64] = Some ps'' \<and> prio_ok ps'' \<and>
    prio_ready ps'' = prio_ready (ps'[k := temp]) \<and> in_order prio ps'' 64"
    using d Suc.prems Suc.hyps(2) k by (intro Suc.hyps(1)) auto
  ultimately show ?case using k d(3) by (simp add: upt_conv_Cons)
qed

lemma update_priority_correct:
  assumes "prio_ok ps" "\<forall>t \<in># prio_ready ps. good_prio (prio t)"
  shows "\<exists>ps'. update_priority prio ps = Some ps' \<and> prio_ok ps' \<and>
    prio_ready ps' = prio_ready ps \<and> in_order prio ps' 64"
  unfolding update_priority_def
  by (rule update_queues_correct [OF assms(1) _ assms(2)]) (simp_all add: in_order_def)

lemma pick_thread_empty:
  "length ps = 64 \<Longrightarrow> n \<le> 64 \<Longrightarrow> \<forall>j<n. ps ! j = [] \<Longrightarrow>
   pick_thread prio cur running ps (rev [0..<n]) = Some (None, ps)"
  by (induction n) auto

lemma pick_thread_skip:
  assumes "length ps = 64" "n \<le> 64" "i < n" "\<forall>j. i < j \<and> j < n \<longrightarrow> ps ! j = []"
  shows "pick_thread prio cur running ps (rev [0..<n]) = pick_thread prio cur running ps (rev [0..<Suc i])"
  using assms
proof (induction n)
  case 0
  then show ?case by simp
next
  case (Suc n)
  then show ?case by (cases "i = n") auto
qed

text \<open>The highest queue that is not empty.\<close>

lemma top_queue:
  assumes "length ps = 64" "prio_ready ps \<noteq> {#}"
  obtains i where "i < 64" "ps ! i \<noteq> []" "\<forall>j. i < j \<and> j < 64 \<longrightarrow> ps ! j = []"
proof -
  let ?S = "{j. j < 64 \<and> ps ! j \<noteq> []}"
  from assms obtain t where "t \<in># prio_ready ps" by (meson multiset_nonemptyE)
  then have ne: "?S \<noteq> {}" using assms(1) by (auto simp: mem_prio_ready)
  have fin: "finite ?S" by simp
  have "Max ?S \<in> ?S" using Max_in [OF fin ne] .
  moreover have "ps ! j = []" if "Max ?S < j" "j < 64" for j
    using that Max_ge [OF fin, of j] by fastforce
  ultimately show thesis using that [of "Max ?S"] by blast
qed

lemma prio_ready_pop:
  assumes "length ps = 64" "i < 64" "ps ! i \<noteq> []"
  shows "prio_ready ps = add_mset (last (ps ! i)) (prio_ready (ps[i := butlast (ps ! i)]))"
proof -
  have q: "mset (ps ! i) = add_mset (last (ps ! i)) (mset (butlast (ps ! i)))"
  proof -
    have "mset (ps ! i) = mset (butlast (ps ! i) @ [last (ps ! i)])" using assms(3) by simp
    then show ?thesis by (simp only: mset_append mset.simps) simp
  qed
  have "prio_ready ps = mset (ps ! i) + (\<Sum>j\<in>{..<64} - {i}. mset (ps ! j))"
    using assms by (simp add: prio_ready_sum sum.remove [of _ i])
  moreover have "prio_ready (ps[i := butlast (ps ! i)]) =
      mset (butlast (ps ! i)) + (\<Sum>j\<in>{..<64} - {i}. mset (ps ! j))"
    using assms by (simp add: prio_ready_sum sum.remove [of _ i])
  ultimately show ?thesis using q by simp
qed

text \<open>What a call of the priority scheduler may end in.\<close>

lemma prio_schedule_cases:
  assumes "prio_ok ps" "\<forall>t \<in># prio_ready ps. good_prio (prio t)"
  shows "\<exists>r ps'. prio_schedule prio cur running ps = Some (r, ps') \<and> prio_ok ps' \<and>
    (case r of
       None \<Rightarrow> prio_ready ps' = prio_ready ps \<and>
         (prio_ready ps = {#} \<or> running \<and> (\<forall>u \<in># prio_ready ps. prio u < prio cur))
     | Some t \<Rightarrow> prio_ready ps = add_mset t (prio_ready ps') \<and>
         (\<forall>u \<in># prio_ready ps. prio u \<le> prio t) \<and> (running \<longrightarrow> prio cur \<le> prio t))"
proof -
  from update_priority_correct [OF assms] obtain qs where qs: "update_priority prio ps = Some qs"
    "prio_ok qs" "prio_ready qs = prio_ready ps" "in_order prio qs 64" by blast
  have len: "length qs = 64" using qs(2) by (simp add: prio_ok_def)
  show ?thesis
  proof (cases "prio_ready ps = {#}")
    case True
    then have "\<forall>j<64. qs ! j = []" using qs(3) len by (metis ex_in_conv mem_prio_ready empty_iff set_mset_empty set_empty)
    then have "prio_schedule prio cur running ps = Some (None, qs)"
      using qs(1) pick_thread_empty [OF len, of 64] by (simp add: prio_schedule_def)
    then show ?thesis using True qs(2,3) by simp
  next
    case False
    then obtain i where i: "i < 64" "qs ! i \<noteq> []" "\<forall>j. i < j \<and> j < 64 \<longrightarrow> qs ! j = []"
      using top_queue [OF len] qs(3) by metis
    let ?t = "last (qs ! i)"
    have run: "prio_schedule prio cur running ps =
        (if prio ?t < prio cur \<and> running then Some (None, qs) else Some (Some ?t, qs[i := butlast (qs ! i)]))"
      using qs(1) pick_thread_skip [OF len _ i(1,3)] i(1,2) len
      by (simp add: prio_schedule_def Let_def)
    have pt: "unat (prio ?t) = i" using qs(4) i by (simp add: in_order_def)
    have max: "prio u \<le> prio ?t" if "u \<in># prio_ready ps" for u
    proof -
      from that obtain j where j: "j < 64" "u \<in> set (qs ! j)" using qs(3) len mem_prio_ready by metis
      then have "unat (prio u) = j" using qs(4) by (simp add: in_order_def)
      moreover have "j \<le> i" using i(3) j by (metis empty_iff list.set(1) not_less)
      ultimately show ?thesis using pt by (simp add: word_le_nat_alt)
    qed
    show ?thesis
    proof (cases "prio ?t < prio cur \<and> running")
      case True
      then have "\<forall>u \<in># prio_ready ps. prio u < prio cur" using max by fastforce
      then show ?thesis using True run qs(2,3) by simp
    next
      case False
      have "prio_ready ps = add_mset ?t (prio_ready (qs[i := butlast (qs ! i)]))"
        using prio_ready_pop [OF len i(1,2)] qs(3) by simp
      moreover have "prio_ok (qs[i := butlast (qs ! i)])" using len by (simp add: prio_ok_def)
      ultimately show ?thesis using False run max by auto
    qed
  qed
qed

lemma prio_register_law:
  assumes "prio_ok ps" "good_prio (prio t)"
  shows "\<exists>ps'. prio_register prio ps t = Some ps' \<and> prio_ok ps' \<and> prio_ready ps' = add_mset t (prio_ready ps)"
proof -
  let ?p = "unat (prio t)"
  have p: "?p < length ps" "length ps = 64" using assms by (simp_all add: prio_ok_def good_prio_unat)
  have "prio_ready (ps[?p := t # ps ! ?p]) = add_mset t (prio_ready ps)"
    using p by (simp add: prio_ready_sum sum.remove [of _ ?p])
  then show ?thesis using p by (simp add: prio_register_def prio_ok_def)
qed

interpretation prio: scheduler prio_register prio_schedule prio_ready prio_ok good_prio
proof
  show "\<exists>q'. prio_register prio q t = Some q' \<and> prio_ok q' \<and> prio_ready q' = add_mset t (prio_ready q)"
    if "prio_ok q" "good_prio (prio t)" for q prio t
    by (rule prio_register_law [of q prio t]) (fact that)+
  show "\<exists>r q'. prio_schedule prio cur running q = Some (r, q') \<and> prio_ok q' \<and>
      (case r of None \<Rightarrow> prio_ready q' = prio_ready q \<and> (running \<or> prio_ready q = {#})
       | Some t \<Rightarrow> prio_ready q = add_mset t (prio_ready q'))"
    if "prio_ok q" "\<forall>t \<in># prio_ready q. good_prio (prio t)" for q prio cur running
    using prio_schedule_cases [OF that, of cur running] by (fastforce split: option.splits)
qed

section \<open>The order of service\<close>

fun register_all :: "((tid \<Rightarrow> u32) \<Rightarrow> 'q \<Rightarrow> tid \<Rightarrow> 'q option) \<Rightarrow> (tid \<Rightarrow> u32) \<Rightarrow> 'q \<Rightarrow> tid list \<Rightarrow> 'q option" where
  "register_all reg prio q [] = Some q"
| "register_all reg prio q (t # ts) = do { q \<leftarrow> reg prio q t; register_all reg prio q ts }"

text \<open>The reference: by descending priority, and in the order of registration among equals.\<close>

definition by_priority :: "(tid \<Rightarrow> u32) \<Rightarrow> tid list \<Rightarrow> tid list" where
  "by_priority prio ts = concat (map (\<lambda>i. filter (\<lambda>t. unat (prio t) = i) ts) (rev [0..<64]))"

definition service_order :: "prio_sched \<Rightarrow> tid list" where
  "service_order ps = concat (map (\<lambda>i. rev (ps ! i)) (rev [0..<64]))"

lemma update_in_order:
  assumes "prio_ok ps" "in_order prio ps 64" "k \<le> 64"
  shows "update_queues prio ps [k..<64] = Some ps"
  using assms(3)
proof (induction "64 - k" arbitrary: k)
  case 0
  then show ?case by simp
next
  case (Suc d)
  then have k: "k < 64" "length ps = 64" using assms(1) by (auto simp: prio_ok_def)
  have all: "\<forall>x\<in>set (ps ! k). unat (prio x) = k" using assms(2) k by (simp add: in_order_def)
  then have "\<forall>x\<in>set (ps ! k). good_prio (prio x)" using k by (simp add: good_prio_unat)
  from drain_queue_eq [OF k(2,1) this, of "[]"] all obtain ps' where
    d: "drain_queue prio k ps [] (ps ! k) = Some (ps', ps ! k)" "length ps' = 64"
    "\<forall>j<64. ps' ! j = ps ! j @ (if j = k then [] else filter (\<lambda>x. unat (prio x) = j) (ps ! k))" by auto
  have "filter (\<lambda>x. unat (prio x) = j) (ps ! k) = []" if "j \<noteq> k" for j
    using all that by (auto simp: filter_empty_conv)
  then have "ps' = ps" using d(2,3) k(2) by (intro nth_equalityI) auto
  then have "update_queues prio ps (k # [Suc k..<64]) = update_queues prio ps [Suc k..<64]"
    using d(1) k by simp
  then show ?case using Suc k(1) by (simp add: upt_conv_Cons)
qed

lemma service_order_top:
  assumes "length ps = 64" "i < 64" "ps ! i \<noteq> []" "\<forall>j. i < j \<and> j < 64 \<longrightarrow> ps ! j = []"
  shows "service_order ps = last (ps ! i) # service_order (ps[i := butlast (ps ! i)])"
proof -
  have split: "rev [0..<64] = rev [Suc i..<64] @ i # rev [0..<i]"
    using assms(2) upt_add_eq_append [of 0 i "64 - i"] by (simp add: upt_conv_Cons)
  have high: "concat (map (\<lambda>j. rev (qs ! j)) (rev [Suc i..<64])) = []"
    if "\<forall>j. i < j \<and> j < 64 \<longrightarrow> qs ! j = []" for qs :: prio_sched
    using that by auto
  have eq: "service_order qs = rev (qs ! i) @ concat (map (\<lambda>j. rev (qs ! j)) (rev [0..<i]))"
    if "\<forall>j. i < j \<and> j < 64 \<longrightarrow> qs ! j = []" for qs :: prio_sched
    unfolding service_order_def split
    by (simp only: map_append list.map concat_append concat.simps high [OF that] append_Nil)
  let ?q = "ps[i := butlast (ps ! i)]"
  have "service_order ?q = rev (butlast (ps ! i)) @ concat (map (\<lambda>j. rev (ps ! j)) (rev [0..<i]))"
  proof -
    have low: "map (\<lambda>j. rev (?q ! j)) (rev [0..<i]) = map (\<lambda>j. rev (ps ! j)) (rev [0..<i])"
      by (intro map_cong) auto
    have "service_order ?q = rev (?q ! i) @ concat (map (\<lambda>j. rev (?q ! j)) (rev [0..<i]))"
      using assms by (intro eq) simp
    then show ?thesis unfolding low using assms by simp
  qed
  moreover have "rev (ps ! i) = last (ps ! i) # rev (butlast (ps ! i))"
    using assms(3) by (metis append_butlast_last_id rev_eq_Cons_iff rev_rev_ident)
  ultimately show ?thesis using eq [OF assms(4)] by simp
qed

lemma run_all_in_order:
  assumes "prio_ok ps" "in_order prio ps 64" "size (prio_ready ps) \<le> n"
  shows "run_all prio_schedule prio cur ps n = Some (service_order ps)"
  using assms
proof (induction n arbitrary: ps)
  case 0
  then have "\<forall>j<64. ps ! j = []"
    by (metis empty_iff le_zero_eq list.set(1) mem_prio_ready prio_ok_def set_empty set_mset_empty
        size_eq_0_iff_empty last_in_set)
  then show ?case by (simp add: service_order_def)
next
  case (Suc n)
  have len: "length ps = 64" using Suc.prems(1) by (simp add: prio_ok_def)
  have up: "update_priority prio ps = Some ps"
    using update_in_order [OF Suc.prems(1,2), of 0] by (simp add: update_priority_def)
  show ?case
  proof (cases "prio_ready ps = {#}")
    case True
    then have "\<forall>j<64. ps ! j = []"
      by (metis empty_iff list.set(1) mem_prio_ready len set_empty set_mset_empty last_in_set)
    then show ?thesis
      using up pick_thread_empty [OF len, of 64] by (simp add: prio_schedule_def service_order_def)
  next
    case False
    then obtain i where i: "i < 64" "ps ! i \<noteq> []" "\<forall>j. i < j \<and> j < 64 \<longrightarrow> ps ! j = []"
      using top_queue [OF len] by metis
    let ?ps = "ps[i := butlast (ps ! i)]"
    have "prio_schedule prio cur False ps = Some (Some (last (ps ! i)), ?ps)"
      using up pick_thread_skip [OF len _ i(1,3)] i(1,2) len by (simp add: prio_schedule_def Let_def)
    moreover have "in_order prio ?ps 64"
    proof -
      have "set (?ps ! j) \<subseteq> set (ps ! j)" for j
        using len i(1) by (cases "j = i") (auto dest: in_set_butlastD)
      then show ?thesis using Suc.prems(2) unfolding in_order_def by blast
    qed
    moreover have "size (prio_ready ?ps) \<le> n" using prio_ready_pop [OF len i(1,2)] Suc.prems(3) by simp
    ultimately show ?thesis
      using Suc.IH [of ?ps] len service_order_top [OF len i] by (simp add: prio_ok_def)
  qed
qed

lemma register_all_in_order:
  assumes "prio_ok ps" "in_order prio ps 64" "\<forall>t\<in>set ts. good_prio (prio t)"
  shows "\<exists>ps'. register_all prio_register prio ps ts = Some ps' \<and> prio_ok ps' \<and> in_order prio ps' 64 \<and>
    prio_ready ps' = mset ts + prio_ready ps \<and>
    (\<forall>i<64. ps' ! i = rev (filter (\<lambda>t. unat (prio t) = i) ts) @ ps ! i)"
  using assms
proof (induction ts arbitrary: ps)
  case Nil
  then show ?case by simp
next
  case (Cons t ts)
  let ?p = "unat (prio t)"
  let ?ps = "ps[?p := t # ps ! ?p]"
  have p: "?p < 64" "length ps = 64" using Cons.prems by (simp_all add: prio_ok_def good_prio_unat)
  have reg: "prio_register prio ps t = Some ?ps" using p by (simp add: prio_register_def)
  have "prio_ready ?ps = add_mset t (prio_ready ps)"
    using prio_register_law [of ps prio t] reg Cons.prems by simp
  moreover have "in_order prio ?ps 64"
    using Cons.prems(2) p by (auto simp: in_order_def nth_list_update)
  ultimately show ?case
    using Cons.IH [of ?ps] Cons.prems p reg by (auto simp: prio_ok_def nth_list_update)
qed

section \<open>Properties\<close>

text \<open>
  C9. The priority scheduler chooses a thread of the highest current priority, whatever
  happened to priorities since the threads were registered: it removes exactly that thread, and
  it keeps the running thread exactly when no thread is ready or every ready one has a
  strictly lower priority. It does not panic as long as priorities are below 64.
\<close>

theorem prio_schedule_highest:
  assumes "prio_ok ps" "\<forall>t \<in># prio_ready ps. good_prio (prio t)"
  shows "\<exists>r ps'. prio_schedule prio cur running ps = Some (r, ps') \<and> prio_ok ps' \<and>
    (case r of
       None \<Rightarrow> prio_ready ps' = prio_ready ps \<and>
         (prio_ready ps = {#} \<or> running \<and> (\<forall>u \<in># prio_ready ps. prio u < prio cur))
     | Some t \<Rightarrow> prio_ready ps = add_mset t (prio_ready ps') \<and>
         (\<forall>u \<in># prio_ready ps. prio u \<le> prio t) \<and> (running \<longrightarrow> prio cur \<le> prio t))"
  by (rule prio_schedule_cases [OF assms])

text \<open>
  Threads 5 and 6 were queued under the priorities 3 and 8; by now thread 5 has been given
  priority 40. It is chosen.
\<close>

theorem prio_schedule_highest_witness:
  "\<exists>r ps'. prio_schedule (\<lambda>t. if t = 5 then 40 else if t = 6 then 8 else 31) 0 True
      ((replicate 64 [])[3 := [5], 8 := [6]]) = Some (r, ps') \<and> r = Some 5 \<and> prio_ok ps' \<and>
    prio_ready ((replicate 64 [])[3 := [5], 8 := [6]]) = add_mset 5 (prio_ready ps')"
proof -
  let ?prio = "\<lambda>t. if t = 5 then 40 else if t = 6 then 8 else 31 :: u32"
  let ?ps = "(replicate 64 [])[3 := [5], 8 := [6 :: tid]]"
  have ready: "prio_ready ?ps = {#5, 6#}" by (simp add: prio_ready_def eval_nat_numeral)
  have "\<forall>t \<in># prio_ready ?ps. good_prio (?prio t)" unfolding ready by (simp add: good_prio_def)
  from prio_schedule_highest [OF _ this, of 0 True] show ?thesis
    unfolding ready by (auto simp: prio_ok_def split: option.splits if_splits)
qed

text \<open>
  As long as priorities do not change, threads are served by descending priority and in
  the order of their registration among equals, and each of them once.
\<close>

lemma prio_service_order:
  assumes "\<forall>t\<in>set ts. good_prio (prio t)"
  shows "\<exists>ps. register_all prio_register prio prio_default ts = Some ps \<and>
    run_all prio_schedule prio cur ps (length ts) = Some (by_priority prio ts)"
proof -
  have "prio_ok prio_default" "in_order prio prio_default 64" "prio_ready prio_default = {#}"
    by (simp_all add: prio_ok_def prio_default_def in_order_def prio_ready_def)
  from register_all_in_order [OF this(1,2) assms] this(3) obtain ps where
    ps: "register_all prio_register prio prio_default ts = Some ps" "prio_ok ps" "in_order prio ps 64"
    "prio_ready ps = mset ts" "\<forall>i<64. ps ! i = rev (filter (\<lambda>t. unat (prio t) = i) ts) @ prio_default ! i"
    by auto
  have "map (\<lambda>i. rev (ps ! i)) (rev [0..<64]) = map (\<lambda>i. filter (\<lambda>t. unat (prio t) = i) ts) (rev [0..<64])"
    using ps(5) by (intro map_cong) (simp_all add: prio_default_def)
  then have "service_order ps = by_priority prio ts" by (simp only: service_order_def by_priority_def)
  then show ?thesis using run_all_in_order [OF ps(2,3), of "length ts" cur] ps(1,4) by simp
qed

text \<open>
  Neither scheduler loses a thread: calling it for a thread that cannot go on yields
  every registered thread exactly once.
\<close>

lemma schedulers_serve_everyone:
  "(\<exists>ts. run_all fcfs_schedule prio cur q (length q) = Some ts \<and> mset ts = mset q) \<and>
   (prio_ok ps \<and> (\<forall>t \<in># prio_ready ps. good_prio (prio t)) \<longrightarrow>
     (\<exists>ts. run_all prio_schedule prio cur ps (size (prio_ready ps)) = Some ts \<and> mset ts = prio_ready ps))"
  using fcfs.run_all_everyone [where q = q and prio = prio and n = "length q" and cur = cur]
    prio.run_all_everyone [where q = ps and prio = prio and n = "size (prio_ready ps)" and cur = cur]
  by auto

end
