(* ===== verification/Mem_Utils.thy ===== *)
theory Mem_Utils
  imports Tacos_Prelude
begin

text \<open>
  Address arithmetic: the layout constants of \<open>src/src/mem/layout.rs\<close>, the physical
  addresses, rounding and page alignment of \<open>src/src/mem/utils.rs\<close>. Addresses are
  \<open>usize\<close>, a 64-bit word; the lemmas say what each function computes on natural numbers
  and which operands keep it from wrapping around.
\<close>

section \<open>Layout\<close>

definition VM_BASE :: usize where
  "VM_BASE = 0xFFFFFFC080000000"

definition PM_BASE :: usize where
  "PM_BASE = 0x0000000080000000"

definition KERN_BASE :: usize where
  "KERN_BASE = 0x0000000080200000"

definition VM_OFFSET :: usize where
  "VM_OFFSET = VM_BASE - PM_BASE"

definition PLIC_BASE :: usize where
  "PLIC_BASE = 0xC000000 + VM_OFFSET"

definition MMIO_BASE :: usize where
  "MMIO_BASE = 0x10001000 + VM_OFFSET"

definition PG_SHIFT :: nat where
  "PG_SHIFT = 12"

definition PG_MASK :: usize where
  "PG_MASK = push_bit PG_SHIFT 1 - 1"

definition PG_SIZE :: usize where
  "PG_SIZE = push_bit PG_SHIFT 1"

section \<open>Rounding\<close>

definition round_up :: "usize \<Rightarrow> usize \<Rightarrow> usize option" where
  "round_up n align = do {
     rust_assert (is_power_of_two align);
     Some ((n + align - 1) AND NOT (align - 1))
   }"

definition div_round_up :: "usize \<Rightarrow> usize \<Rightarrow> usize option" where
  "div_round_up n align = do {
     rust_assert (is_power_of_two align);
     r \<leftarrow> round_up n align;
     Some (r div align)
   }"

definition round_down :: "usize \<Rightarrow> usize \<Rightarrow> usize option" where
  "round_down n align = do {
     rust_assert (is_power_of_two align);
     Some (n AND NOT (align - 1))
   }"

text \<open>The shift amount is masked to six bits, as a release build does.\<close>

definition prev_power_of_two :: "usize \<Rightarrow> usize" where
  "prev_power_of_two num =
     push_bit (unat (64 - of_nat (leading_zeros num) - 1 :: usize) mod 64) 1"

definition page_floor :: "usize \<Rightarrow> usize" where
  "page_floor a = push_bit PG_SHIFT (drop_bit PG_SHIFT a)"

definition page_ceil :: "usize \<Rightarrow> usize" where
  "page_ceil a = push_bit PG_SHIFT (drop_bit PG_SHIFT (a + PG_SIZE - 1))"

definition is_page_aligned :: "usize \<Rightarrow> bool" where
  "is_page_aligned a \<longleftrightarrow> page_floor a = a"

section \<open>Physical addresses\<close>

datatype phys_addr = PhysAddr usize

fun phys_value :: "phys_addr \<Rightarrow> usize" where
  "phys_value (PhysAddr a) = a"

definition phys_ppn :: "phys_addr \<Rightarrow> usize" where
  "phys_ppn p = drop_bit PG_SHIFT (phys_value p)"

definition into_va :: "phys_addr \<Rightarrow> usize" where
  "into_va p = phys_value p + VM_OFFSET"

definition from_pa :: "usize \<Rightarrow> phys_addr" where
  "from_pa a = PhysAddr a"

definition in_kernel_space :: "usize \<Rightarrow> bool" where
  "in_kernel_space va \<longleftrightarrow> va AND VM_OFFSET = VM_OFFSET"

text \<open>\<open>PhysAddr::from\<close> on a virtual address: panics outside the kernel space.\<close>

definition phys_from_va :: "usize \<Rightarrow> phys_addr option" where
  "phys_from_va va = do {
     rust_assert (in_kernel_space va);
     Some (PhysAddr (va - VM_OFFSET))
   }"

text \<open>
  \<open>translate\<close> of \<open>src/src/mem.rs\<close>: a user address becomes a kernel address through the
  page table of the current thread; \<open>pte_pa va\<close> is the physical page of the entry
  \<open>get_pte(va)\<close>, if there is one.
\<close>

definition in_same_page :: "usize \<Rightarrow> usize \<Rightarrow> bool" where
  "in_same_page va1 va2 \<longleftrightarrow> va1 div PG_SIZE = va2 div PG_SIZE"

definition translate :: "(usize \<Rightarrow> phys_addr option) \<Rightarrow> usize \<Rightarrow> usize \<Rightarrow> usize option" where
  "translate pte_pa va len =
     (if in_kernel_space va then Some va
      else if \<not> in_same_page va (va + len - 1) then None
      else (let pageoff = va AND 0xFFF
            in map_option (\<lambda>pa. into_va pa OR pageoff) (pte_pa va)))"

text \<open>\<open>Translate\<close> for pointers to a value of \<open>sz\<close> bytes, and for slices of such values.\<close>

definition translate_ptr :: "(usize \<Rightarrow> phys_addr option) \<Rightarrow> usize \<Rightarrow> usize \<Rightarrow> usize option" where
  "translate_ptr pte_pa sz p = translate pte_pa p sz"

definition translate_slice :: "(usize \<Rightarrow> phys_addr option) \<Rightarrow> usize \<Rightarrow> usize \<times> usize \<Rightarrow> (usize \<times> usize) option" where
  "translate_slice pte_pa sz s = (let (p, len) = s in map_option (\<lambda>va. (va, len)) (translate pte_pa p (len * sz)))"

definition phys_floor :: "phys_addr \<Rightarrow> phys_addr" where
  "phys_floor p = PhysAddr (page_floor (phys_value p))"

definition phys_ceil :: "phys_addr \<Rightarrow> phys_addr" where
  "phys_ceil p = PhysAddr (page_ceil (phys_value p))"

definition phys_is_aligned :: "phys_addr \<Rightarrow> bool" where
  "phys_is_aligned p \<longleftrightarrow> phys_floor p = p"

section \<open>Lemmas\<close>

lemma VM_OFFSET_eq: "VM_OFFSET = 0xFFFFFFC000000000"
  by (simp add: VM_OFFSET_def VM_BASE_def PM_BASE_def)

lemma VM_OFFSET_not_mask: "VM_OFFSET = NOT (mask 38)"
  by (simp add: VM_OFFSET_eq mask_eq_exp_minus_1)

lemma PG_SIZE_eq [simp]: "PG_SIZE = 4096"
  by (simp add: PG_SIZE_def PG_SHIFT_def)

lemma PG_MASK_eq_mask: "PG_MASK = mask 12"
  by (simp add: PG_MASK_def PG_SHIFT_def mask_eq_exp_minus_1)

lemma align_minus_one: "(2 ^ k :: usize) - 1 = mask k"
  by (simp add: mask_eq_exp_minus_1)

lemma round_down_exp:
  "k < 64 \<Longrightarrow> round_down n (2 ^ k) = Some (n AND NOT (mask k))"
  by (simp add: round_down_def align_minus_one)

lemma round_up_exp:
  "k < 64 \<Longrightarrow> round_up n (2 ^ k) = Some ((n + mask k) AND NOT (mask k))"
  by (simp add: round_up_def add_diff_eq flip: align_minus_one)

lemma unat_round_up:
  assumes "k < 64" "unat n + 2 ^ k \<le> 2 ^ 64"
  shows "unat ((n + mask k) AND NOT (mask k) :: usize) = (unat n + 2 ^ k - 1) div 2 ^ k * 2 ^ k"
proof -
  have "unat (n + mask k) = unat n + (2 ^ k - 1)"
    using assms by (subst unat_add_no_wrap) (auto simp: unat_mask_exp)
  then show ?thesis
    by (simp add: unat_and_not_mask)
qed

lemma page_floor_unat [unat_simps]: "unat (page_floor a) = unat a div 4096 * 4096"
  by (simp add: page_floor_def PG_SHIFT_def unat_push_drop)

lemma is_page_aligned_iff: "is_page_aligned a \<longleftrightarrow> 4096 dvd unat a"
  by (auto simp: is_page_aligned_def word_unat_eq_iff page_floor_unat dvd_div_mult_self)
    (metis dvd_triv_right)

lemma ceil_multiple:
  fixes n k :: nat
  shows "n \<le> (n + 2 ^ k - 1) div 2 ^ k * 2 ^ k"
    and "2 ^ k dvd m \<Longrightarrow> n \<le> m \<Longrightarrow> (n + 2 ^ k - 1) div 2 ^ k * 2 ^ k \<le> m"
proof -
  let ?a = "(2::nat) ^ k"
  have "n + ?a - 1 = (n + ?a - 1) div ?a * ?a + (n + ?a - 1) mod ?a"
    by (simp only: div_mult_mod_eq)
  moreover have "(n + ?a - 1) mod ?a < ?a" by simp
  ultimately show "n \<le> (n + ?a - 1) div ?a * ?a" by linarith
  assume "?a dvd m" "n \<le> m"
  then obtain q where q: "m = ?a * q" by (elim dvdE)
  have "0 < ?a" by simp
  then have "n + ?a - 1 < ?a * q + ?a" using \<open>n \<le> m\<close> unfolding q by linarith
  then have "n + ?a - 1 < ?a * (q + 1)" by simp
  then have "(n + ?a - 1) div ?a < q + 1"
    by (simp add: div_less_iff_less_mult mult.commute)
  then show "(n + ?a - 1) div ?a * ?a \<le> m" by (simp add: q)
qed

lemma in_kernel_space_iff: "in_kernel_space va \<longleftrightarrow> 2 ^ 64 - 2 ^ 38 \<le> unat va"
proof -
  have "in_kernel_space va \<longleftrightarrow> unat (va AND NOT (mask 38)) = unat VM_OFFSET"
    by (simp add: in_kernel_space_def VM_OFFSET_not_mask word_unat_eq_iff)
  also have "\<dots> \<longleftrightarrow> unat va div 2 ^ 38 * 2 ^ 38 = 2 ^ 64 - 2 ^ 38"
    by (simp only: unat_and_not_mask) (simp add: VM_OFFSET_eq)
  also have "\<dots> \<longleftrightarrow> 2 ^ 64 - 2 ^ 38 \<le> unat va"
    using unat_usize_less [of va] by simp arith
  finally show ?thesis .
qed

lemma unat_VM_OFFSET: "unat VM_OFFSET = 2 ^ 64 - 2 ^ 38"
  by (simp add: VM_OFFSET_eq)

lemma phys_from_va_into_va:
  assumes "unat (phys_value p) < 2 ^ 38"
  shows "phys_from_va (into_va p) = Some p"
proof -
  have "unat (into_va p) = unat (phys_value p) + (2 ^ 64 - 2 ^ 38)"
    using assms by (simp add: into_va_def unat_add_no_wrap unat_VM_OFFSET)
  then have "in_kernel_space (into_va p)" by (simp add: in_kernel_space_iff)
  then show ?thesis by (cases p) (simp add: phys_from_va_def into_va_def)
qed

lemma into_va_phys_from_va:
  assumes "phys_from_va va = Some p"
  shows "into_va p = va \<and> unat (phys_value p) < 2 ^ 38"
proof -
  from assms have k: "2 ^ 64 - 2 ^ 38 \<le> unat va" and p: "p = PhysAddr (va - VM_OFFSET)"
    by (auto simp: phys_from_va_def in_kernel_space_iff split: if_splits)
  have "unat (va - VM_OFFSET) = unat va - (2 ^ 64 - 2 ^ 38)"
    using k by (subst unat_diff_no_wrap) (simp_all add: unat_VM_OFFSET)
  moreover have "unat va < 2 ^ 64" by (rule unat_usize_less)
  ultimately have "unat (va - VM_OFFSET) < 2 ^ 38" using k by simp
  then show ?thesis by (simp add: p into_va_def)
qed

lemma leading_zeros_bounds: "w \<noteq> 0 \<Longrightarrow> leading_zeros w < 64"
  by (simp add: leading_zeros_def bit_len.simps [of "unat w"] unat_gt_0)

lemma bit_len_usize: "bit_len (unat (w :: usize)) \<le> 64"
  using unat_usize_less [of w] by (simp add: bit_len_le_iff)

lemma prev_power_of_two_exp:
  assumes "num \<noteq> 0"
  shows "prev_power_of_two num = 2 ^ (bit_len (unat num) - 1)"
proof -
  let ?l = "leading_zeros num"
  have l: "?l < 64" using assms by (rule leading_zeros_bounds)
  have b: "0 < bit_len (unat num)" using assms by (simp add: bit_len.simps [of "unat num"] unat_gt_0)
  have "64 - of_nat ?l - 1 = (of_nat (64 - ?l - 1) :: usize)"
    using l by (simp add: of_nat_diff)
  moreover have "unat (of_nat (64 - ?l - 1) :: usize) = 64 - ?l - 1"
    using l by (subst unat_of_nat_small) auto
  moreover have "64 - ?l - 1 = bit_len (unat num) - 1"
    using bit_len_usize [of num] by (simp add: leading_zeros_def)
  ultimately show ?thesis
    using bit_len_usize [of num] b by (simp add: prev_power_of_two_def)
qed

section \<open>Slices of user memory\<close>

text \<open>An empty slice at the start of a page is refused: its last byte would lie in the page before it.\<close>

lemma translate_slice_empty:
  assumes "\<not> in_kernel_space va" "is_page_aligned va"
  shows "translate_slice pte_pa sz (va, 0) = None"
proof -
  have "va div PG_SIZE \<noteq> (va - 1) div PG_SIZE"
  proof (cases "va = 0")
    case True
    show ?thesis unfolding True by (simp add: PG_SIZE_def PG_SHIFT_def word_unat_eq_iff unat_div unsigned_minus_1_eq_mask mask_eq_exp_minus_1)
  next
    case False
    then have z: "unat va \<noteq> 0" by (simp add: word_unat_eq_iff)
    then have u: "unat (va - 1) = unat va - 1" by (subst unat_diff_no_wrap) simp_all
    obtain k where k: "unat va = 4096 * k" using assms(2) by (auto simp: is_page_aligned_iff)
    have "(4096 * k - 1) div 4096 \<noteq> k" using z k by (cases k) simp_all
    then show ?thesis using u k by (simp add: PG_SIZE_def PG_SHIFT_def word_unat_eq_iff unat_div)
  qed
  then show ?thesis using assms(1) by (simp add: translate_slice_def translate_def in_same_page_def)
qed

text \<open>The length of a slice is multiplied without a check: a long slice of user memory can pass as a short one.\<close>

lemma translate_slice_wraps:
  "translate_slice pte_pa 8 (va, 2 ^ 61 + 1) = map_option (\<lambda>(p, _). (p, 2 ^ 61 + 1)) (translate_slice pte_pa 8 (va, 1))"
proof -
  have "(2 ^ 61 + 1) * 8 = (8 :: usize)" by (simp add: word_unat_eq_iff)
  then show ?thesis by (simp only: translate_slice_def prod.case Let_def mult_1 option.map_comp comp_def)
qed

end
