(* ===== verification/Threads.thy ===== *)
theory Threads
  imports Scheduler Mem_Utils
begin

text \<open>
  Kernel threads and their manager (\<open>src/src/thread.rs\<close>, \<open>thread/imp.rs\<close>,
  \<open>thread/manager.rs\<close>), the sleep queue (\<open>sleepq.rs\<close>) and the timer tick
  (\<open>sbi/timer.rs\<close>, the timer branch of \<open>trap.rs\<close>).

  The kernel runs on one hart. Its state holds all threads, the scheduler's data, the current
  thread, the interrupt level and, for every thread that is not current, the level it restores
  when control comes back to it: the local \<open>old\<close> of its call of \<open>Manager::schedule\<close>, or
  \<open>true\<close> for a thread that never ran, since \<open>kernel_thread\<close> turns interrupts on. A call of
  \<open>schedule\<close> is one transition: it ends when the next thread has done \<open>schedule_tail\<close> and
  restored its own level. The operations take the scheduler's \<open>register\<close> and
  \<open>schedule\<close> as arguments, since the build chooses the scheduler.
\<close>

section \<open>Threads\<close>

datatype status = Ready | Running | Blocked | Dying

record donation =
  donner :: tid
  acceptor :: tid
  donner_priority :: u32
  prev_priority :: u32
  is_donner :: bool
  lockid :: u32

record thread =
  t_name :: string
  t_stack_word :: usize
  t_status :: status
  t_priority :: u32
  t_priority_setted :: "u32 option"
  t_pagetable :: "nat option"
  t_donationq :: "donation list"
  t_stored_prev :: "u32 \<times> u32"

definition PRI_DEFAULT :: u32 where
  "PRI_DEFAULT = 31"

definition PRI_MAX :: u32 where
  "PRI_MAX = 63"

definition PRI_MIN :: u32 where
  "PRI_MIN = 0"

definition MAGIC :: usize where
  "MAGIC = 0xdeadbeef"

text \<open>
  \<open>Builder::build\<close> and \<open>Thread::new\<close>: the word at the bottom of the fresh stack is the
  magic number.
\<close>

definition thread_new :: "string \<Rightarrow> u32 \<Rightarrow> nat option \<Rightarrow> thread" where
  "thread_new name prio pt = \<lparr>t_name = name, t_stack_word = MAGIC, t_status = Ready,
     t_priority = prio, t_priority_setted = None, t_pagetable = pt, t_donationq = [],
     t_stored_prev = (0xFFFFFFFF, 0)\<rparr>"

definition overflow :: "thread \<Rightarrow> bool" where
  "overflow t \<longleftrightarrow> t_stack_word t \<noteq> MAGIC"

section \<open>The sleep queue\<close>

record sleep_data =
  sd_ticks :: int
  sd_thread :: tid

text \<open>
  \<open>Ord\<close> is reversed, so that the greatest element of the \<open>BinaryHeap\<close> is one that wakes
  up first. Which of several equal elements \<open>pop\<close> returns is not specified; \<open>pick\<close> makes
  that choice.
\<close>

type_synonym heap_pick = "sleep_data list \<Rightarrow> nat"

definition picks_first :: "heap_pick \<Rightarrow> bool" where
  "picks_first pick \<longleftrightarrow> (\<forall>q. q \<noteq> [] \<longrightarrow>
     pick q < length q \<and> (\<forall>d\<in>set q. sd_ticks (q ! pick q) \<le> sd_ticks d))"

definition sq_len :: "sleep_data list \<Rightarrow> nat" where
  "sq_len q = length q"

definition sq_push :: "sleep_data list \<Rightarrow> sleep_data \<Rightarrow> sleep_data list" where
  "sq_push q d = d # q"

definition sq_pop :: "heap_pick \<Rightarrow> sleep_data list \<Rightarrow> (sleep_data \<times> sleep_data list) option" where
  "sq_pop pick q = (if q = [] then None
     else Some (q ! pick q, take (pick q) q @ drop (Suc (pick q)) q))"

definition sq_peek_time :: "heap_pick \<Rightarrow> sleep_data list \<Rightarrow> int option" where
  "sq_peek_time pick q = (if q = [] then None else Some (sd_ticks (q ! pick q)))"

section \<open>The kernel state\<close>

text \<open>
  \<open>cont\<close> is where a thread is inside a function of \<open>thread.rs\<close> that is not atomic: in
  \<open>sleep\<close> after the push to the sleep queue, in \<open>sleep\<close> after its status was set to
  \<open>Blocked\<close>, or in \<open>set_priority\<close> before \<open>priority_setted\<close> is recorded.
\<close>

datatype continuation = Run | Sleep_queued | Sleep_blocked | Prio_stored u32

record 'q kernel =
  threads :: "tid \<Rightarrow> thread"
  sched :: 'q
  current :: tid
  all_threads :: "tid list"
  intr :: bool
  resume_intr :: "tid \<Rightarrow> bool"
  active_pt :: "nat option"
  next_tid :: tid
  sleepers :: "sleep_data list"
  ticks :: int
  cont :: "tid \<Rightarrow> continuation"

definition status_of :: "'q kernel \<Rightarrow> tid \<Rightarrow> status" where
  "status_of k t = t_status (threads k t)"

definition prio_of :: "'q kernel \<Rightarrow> tid \<Rightarrow> u32" where
  "prio_of k t = t_priority (threads k t)"

definition set_status :: "'q kernel \<Rightarrow> tid \<Rightarrow> status \<Rightarrow> 'q kernel" where
  "set_status k t s = k\<lparr>threads := (threads k)(t := (threads k t)\<lparr>t_status := s\<rparr>)\<rparr>"

text \<open>\<open>interrupt::set\<close>: the new level, and the old one returned.\<close>

definition interrupt_set :: "'q kernel \<Rightarrow> bool \<Rightarrow> bool \<times> 'q kernel" where
  "interrupt_set k level = (intr k, if intr k \<noteq> level then k\<lparr>intr := level\<rparr> else k)"

type_synonym 'q reg_op = "(tid \<Rightarrow> u32) \<Rightarrow> 'q \<Rightarrow> tid \<Rightarrow> 'q option"
type_synonym 'q sch_op = "(tid \<Rightarrow> u32) \<Rightarrow> tid \<Rightarrow> bool \<Rightarrow> 'q \<Rightarrow> (tid option \<times> 'q) option"

section \<open>The manager\<close>

definition sched_register :: "'q reg_op \<Rightarrow> 'q kernel \<Rightarrow> tid \<Rightarrow> 'q kernel option" where
  "sched_register reg k t = do {
     q \<leftarrow> reg (prio_of k) (sched k) t;
     Some (k\<lparr>sched := q\<rparr>)
   }"

definition manager_register :: "'q reg_op \<Rightarrow> 'q kernel \<Rightarrow> tid \<Rightarrow> 'q kernel option" where
  "manager_register reg k t = do {
     k \<leftarrow> sched_register reg k t;
     Some (k\<lparr>all_threads := all_threads k @ [t]\<rparr>)
   }"

definition schedule_tail :: "'q reg_op \<Rightarrow> 'q kernel \<Rightarrow> tid \<Rightarrow> 'q kernel option" where
  "schedule_tail reg k previous = do {
     rust_assert (\<not> intr k);
     k \<leftarrow> (case status_of k previous of
             Dying \<Rightarrow> Some (k\<lparr>all_threads := filter (\<lambda>t. t \<noteq> previous) (all_threads k)\<rparr>)
           | Running \<Rightarrow> sched_register reg (set_status k previous Ready) previous
           | Blocked \<Rightarrow> Some k
           | Ready \<Rightarrow> None);
     Some (k\<lparr>active_pt := t_pagetable (threads k (current k))\<rparr>)
   }"

definition manager_schedule :: "'q reg_op \<Rightarrow> 'q sch_op \<Rightarrow> 'q kernel \<Rightarrow> 'q kernel option" where
  "manager_schedule reg sch k = do {
     let (old, k) = interrupt_set k False;
     let cur = current k;
     (next, q) \<leftarrow> sch (prio_of k) cur (status_of k cur = Running) (sched k);
     let k = k\<lparr>sched := q\<rparr>;
     rust_assert (status_of k cur = Running \<or> next \<noteq> None);
     rust_assert (\<not> overflow (threads k cur));
     (case next of
        None \<Rightarrow> Some (snd (interrupt_set k old))
      | Some n \<Rightarrow> do {
          rust_assert (status_of k n = Ready);
          rust_assert (\<not> overflow (threads k n));
          let k = set_status k n Running;
          let k = k\<lparr>current := n, resume_intr := (resume_intr k)(cur := old)\<rparr>;
          k \<leftarrow> schedule_tail reg k cur;
          Some (snd (interrupt_set k (resume_intr k n)))
        })
   }"

text \<open>
  The state \<open>Manager::get\<close> builds on first use: the boot thread, which is running, and the
  idle thread, which calls \<open>schedule\<close> in a loop.
\<close>

definition initial_tid :: tid where
  "initial_tid = 0"

definition idle_tid :: tid where
  "idle_tid = 1"

definition manager_init :: "'q reg_op \<Rightarrow> 'q \<Rightarrow> bool \<Rightarrow> 'q kernel option" where
  "manager_init reg q level = manager_register reg
     \<lparr>threads = (\<lambda>_. thread_new ''Default'' PRI_DEFAULT None)
        (initial_tid := (thread_new ''Initial'' PRI_DEFAULT None)\<lparr>t_status := Running\<rparr>,
         idle_tid := thread_new ''Idle'' PRI_MIN None),
      sched = q, current = initial_tid, all_threads = [initial_tid], intr = level,
      resume_intr = (\<lambda>_. True), active_pt = None, next_tid = 2, sleepers = [], ticks = 0,
      cont = (\<lambda>_. Run)\<rparr> idle_tid"

section \<open>Operations on threads\<close>

definition thread_exit :: "'q reg_op \<Rightarrow> 'q sch_op \<Rightarrow> 'q kernel \<Rightarrow> 'q kernel option" where
  "thread_exit reg sch k = do {
     let c = current k;
     k \<leftarrow> manager_schedule reg sch (set_status k c Dying);
     rust_assert (current k \<noteq> c);
     Some k
   }"

definition thread_block :: "'q reg_op \<Rightarrow> 'q sch_op \<Rightarrow> 'q kernel \<Rightarrow> 'q kernel option" where
  "thread_block reg sch k = manager_schedule reg sch (set_status k (current k) Blocked)"

definition wake_up :: "'q reg_op \<Rightarrow> 'q kernel \<Rightarrow> tid \<Rightarrow> 'q kernel option" where
  "wake_up reg k t = do {
     rust_assert (status_of k t = Blocked);
     sched_register reg (set_status k t Ready) t
   }"

definition spawn :: "'q reg_op \<Rightarrow> 'q sch_op \<Rightarrow> 'q kernel \<Rightarrow> string \<Rightarrow> u32 \<Rightarrow> nat option \<Rightarrow> 'q kernel option" where
  "spawn reg sch k name prio pt = do {
     let t = next_tid k;
     let k = k\<lparr>next_tid := t + 1, threads := (threads k)(t := thread_new name prio pt),
               resume_intr := (resume_intr k)(t := True), cont := (cont k)(t := Run)\<rparr>;
     k \<leftarrow> manager_register reg k t;
     manager_schedule reg sch k
   }"

definition get_priority :: "'q kernel \<Rightarrow> u32" where
  "get_priority k = prio_of k (current k)"

text \<open>\<open>set_priority\<close>: the store and the call of \<open>schedule\<close>; the rest runs when it returns.\<close>

definition set_priority_store :: "'q reg_op \<Rightarrow> 'q sch_op \<Rightarrow> 'q kernel \<Rightarrow> u32 \<Rightarrow> 'q kernel option" where
  "set_priority_store reg sch k p = (let c = current k in
     manager_schedule reg sch (k\<lparr>threads := (threads k)(c := (threads k c)\<lparr>t_priority := p\<rparr>),
       cont := (cont k)(c := Prio_stored p)\<rparr>))"

definition set_priority_record :: "'q kernel \<Rightarrow> u32 \<Rightarrow> 'q kernel" where
  "set_priority_record k p = (let c = current k in
     k\<lparr>threads := (threads k)(c := (threads k c)\<lparr>t_priority_setted := Some p\<rparr>), cont := (cont k)(c := Run)\<rparr>)"

text \<open>Addition of \<open>i64\<close>, which wraps around in a release build.\<close>

definition i64_add :: "int \<Rightarrow> int \<Rightarrow> int" where
  "i64_add a b = signed_take_bit 63 (a + b)"

text \<open>
  \<open>sleep\<close>, in three parts: the push with interrupts off, the change of status, and the call of
  \<open>schedule\<close>. Interrupts are on again (if they were) between the parts.
\<close>

definition sleep_push :: "'q kernel \<Rightarrow> int \<Rightarrow> 'q kernel" where
  "sleep_push k n =
     (if n \<le> 0 then k
      else k\<lparr>sleepers := sq_push (sleepers k) \<lparr>sd_ticks = i64_add (ticks k) n, sd_thread = current k\<rparr>,
             cont := (cont k)(current k := Sleep_queued)\<rparr>)"

definition sleep_mark :: "'q kernel \<Rightarrow> 'q kernel" where
  "sleep_mark k = (set_status k (current k) Blocked)\<lparr>cont := (cont k)(current k := Sleep_blocked)\<rparr>"

definition sleep_switch :: "'q reg_op \<Rightarrow> 'q sch_op \<Rightarrow> 'q kernel \<Rightarrow> 'q kernel option" where
  "sleep_switch reg sch k = manager_schedule reg sch (k\<lparr>cont := (cont k)(current k := Run)\<rparr>)"

section \<open>The timer interrupt\<close>

text \<open>
  The loop of \<open>tick\<close> wakes up the sleepers that are due. The number of rounds is bounded by
  the length of the queue, which each round shortens.
\<close>

fun wake_due :: "'q reg_op \<Rightarrow> heap_pick \<Rightarrow> int \<Rightarrow> nat \<Rightarrow> 'q kernel \<Rightarrow> 'q kernel option" where
  "wake_due reg pick now 0 k = Some k"
| "wake_due reg pick now (Suc n) k =
     (if sq_len (sleepers k) = 0 then Some k
      else do {
        time \<leftarrow> sq_peek_time pick (sleepers k);
        if time \<le> now then do {
          (d, q) \<leftarrow> sq_pop pick (sleepers k);
          k \<leftarrow> wake_up reg (k\<lparr>sleepers := q\<rparr>) (sd_thread d);
          wake_due reg pick now n k
        } else Some k
      })"

definition tick :: "'q reg_op \<Rightarrow> heap_pick \<Rightarrow> 'q kernel \<Rightarrow> 'q kernel option" where
  "tick reg pick k = do {
     let k = k\<lparr>ticks := i64_add (ticks k) 1\<rparr>;
     let (old, k) = interrupt_set k False;
     k \<leftarrow> wake_due reg pick (ticks k) (sq_len (sleepers k)) k;
     Some (snd (interrupt_set k old))
   }"

definition timer_trap :: "'q reg_op \<Rightarrow> 'q sch_op \<Rightarrow> heap_pick \<Rightarrow> 'q kernel \<Rightarrow> 'q kernel option" where
  "timer_trap reg sch pick k = do {
     k \<leftarrow> tick reg pick k;
     manager_schedule reg sch k
   }"

section \<open>The invariant of the manager\<close>

definition core_inv :: "('q \<Rightarrow> tid multiset) \<Rightarrow> ('q \<Rightarrow> bool) \<Rightarrow> (u32 \<Rightarrow> bool) \<Rightarrow> 'q kernel \<Rightarrow> bool" where
  "core_inv ready ok good k \<longleftrightarrow>
     ok (sched k) \<and> (\<forall>t. count (ready (sched k)) t \<le> 1) \<and>
     (\<forall>t \<in># ready (sched k). t \<in> set (all_threads k) \<and> status_of k t = Ready) \<and>
     current k \<in> set (all_threads k) \<and> status_of k (current k) \<noteq> Ready \<and>
     (\<forall>t \<in> set (all_threads k). t = current k \<or> t \<in># ready (sched k) \<or> status_of k t = Blocked) \<and>
     distinct (all_threads k) \<and>
     (\<forall>t \<in> set (all_threads k). t < next_tid k \<and> good (prio_of k t) \<and> \<not> overflow (threads k t)) \<and>
     idle_tid \<in> set (all_threads k) \<and> status_of k idle_tid \<noteq> Blocked \<and>
     (current k = idle_tid \<longrightarrow> status_of k idle_tid = Running)"

text \<open>What a call of \<open>schedule\<close> does not touch.\<close>

definition same_rest :: "'q kernel \<Rightarrow> 'q kernel \<Rightarrow> bool" where
  "same_rest k k' \<longleftrightarrow> next_tid k' = next_tid k \<and> sleepers k' = sleepers k \<and> ticks k' = ticks k \<and>
     cont k' = cont k \<and> (\<forall>t. (threads k' t)\<lparr>t_status := Ready\<rparr> = (threads k t)\<lparr>t_status := Ready\<rparr>)"

lemma same_rest_prio: "same_rest k k' \<Longrightarrow> prio_of k' t = prio_of k t"
  unfolding same_rest_def prio_of_def by (metis thread.select_convs(4) thread.update_convs(3) thread.surjective)

lemma status_of_simps [simp]:
  "status_of (set_status k t s) u = (if u = t then s else status_of k u)"
  "status_of (k\<lparr>sched := q\<rparr>) u = status_of k u"
  "status_of (k\<lparr>intr := b\<rparr>) u = status_of k u"
  "status_of (k\<lparr>current := c\<rparr>) u = status_of k u"
  "status_of (k\<lparr>resume_intr := f\<rparr>) u = status_of k u"
  "status_of (k\<lparr>active_pt := p\<rparr>) u = status_of k u"
  "status_of (k\<lparr>all_threads := a\<rparr>) u = status_of k u"
  "status_of (k\<lparr>cont := cc\<rparr>) u = status_of k u"
  "status_of (k\<lparr>sleepers := sl\<rparr>) u = status_of k u"
  "status_of (k\<lparr>ticks := tt\<rparr>) u = status_of k u"
  "status_of (k\<lparr>next_tid := n\<rparr>) u = status_of k u"
  by (simp_all add: status_of_def set_status_def)

lemma prio_of_simps [simp]:
  "prio_of (set_status k t s) = prio_of k"
  "prio_of (k\<lparr>sched := q\<rparr>) = prio_of k"
  "prio_of (k\<lparr>intr := b\<rparr>) = prio_of k"
  "prio_of (k\<lparr>current := c\<rparr>) = prio_of k"
  "prio_of (k\<lparr>resume_intr := f\<rparr>) = prio_of k"
  "prio_of (k\<lparr>active_pt := p\<rparr>) = prio_of k"
  "prio_of (k\<lparr>all_threads := a\<rparr>) = prio_of k"
  "prio_of (k\<lparr>cont := cc\<rparr>) = prio_of k"
  "prio_of (k\<lparr>sleepers := sl\<rparr>) = prio_of k"
  "prio_of (k\<lparr>ticks := tt\<rparr>) = prio_of k"
  "prio_of (k\<lparr>next_tid := n\<rparr>) = prio_of k"
  by (auto simp: prio_of_def set_status_def)

lemma set_status_simps [simp]:
  "sched (set_status k t s) = sched k" "current (set_status k t s) = current k"
  "all_threads (set_status k t s) = all_threads k" "intr (set_status k t s) = intr k"
  "resume_intr (set_status k t s) = resume_intr k" "next_tid (set_status k t s) = next_tid k"
  "sleepers (set_status k t s) = sleepers k" "ticks (set_status k t s) = ticks k"
  "cont (set_status k t s) = cont k" "active_pt (set_status k t s) = active_pt k"
  "overflow (threads (set_status k t s) u) = overflow (threads k u)"
  "t_pagetable (threads (set_status k t s) u) = t_pagetable (threads k u)"
  by (simp_all add: set_status_def overflow_def)

lemma interrupt_set_simps [simp]:
  "fst (interrupt_set k b) = intr k" "snd (interrupt_set k b) = k\<lparr>intr := b\<rparr>"
  by (simp_all add: interrupt_set_def)

lemma interrupt_set_eq: "interrupt_set k b = (intr k, k\<lparr>intr := b\<rparr>)"
  by (simp add: interrupt_set_def)

lemma count_le_1_add: "(\<forall>t. count M t \<le> 1) \<Longrightarrow> x \<notin># M \<Longrightarrow> (\<forall>t. count (add_mset x M) t \<le> 1)"
  by (auto simp: not_in_iff)

text \<open>What a call of \<open>schedule\<close> achieves.\<close>

definition schedule_outcome :: "('q kernel \<Rightarrow> bool) \<Rightarrow> 'q kernel \<Rightarrow> 'q kernel \<Rightarrow> bool" where
  "schedule_outcome P k k' \<longleftrightarrow> P k' \<and> same_rest k k' \<and> status_of k' (current k') = Running \<and>
     (\<forall>t. status_of k' t = Blocked \<longleftrightarrow> status_of k t = Blocked) \<and>
     set (all_threads k') = set (all_threads k) - (if status_of k (current k) = Dying then {current k} else {}) \<and>
     (if current k' = current k then intr k' = intr k \<and> resume_intr k' = resume_intr k
      else intr k' = resume_intr k (current k') \<and> resume_intr k' = (resume_intr k)(current k := intr k) \<and>
        active_pt k' = t_pagetable (threads k (current k')))"

context scheduler
begin

abbreviation inv_k :: "'q kernel \<Rightarrow> bool" where
  "inv_k \<equiv> core_inv ready ok good"

lemma schedule_None:
  assumes "inv_k k" "schedule (prio_of k) (current k) (status_of k (current k) = Running) (sched k) = Some (None, q)"
    "ok q" "ready q = ready (sched k)" "status_of k (current k) = Running \<or> ready (sched k) = {#}"
  shows "manager_schedule register schedule k = Some (k\<lparr>sched := q\<rparr>) \<and> schedule_outcome inv_k k (k\<lparr>sched := q\<rparr>)"
proof -
  have run: "status_of k (current k) = Running"
    using assms(1,5) by (auto simp: core_inv_def)
  have "\<not> overflow (threads k (current k))" using assms(1) by (simp add: core_inv_def)
  then have "manager_schedule register schedule k = Some (k\<lparr>sched := q\<rparr>)"
    using assms(2) run by (simp add: manager_schedule_def interrupt_set_eq)
  moreover have "inv_k (k\<lparr>sched := q\<rparr>)" using assms(1,3,4) by (simp add: core_inv_def)
  ultimately show ?thesis using run by (simp add: schedule_outcome_def same_rest_def)
qed


text \<open>After the switch to \<open>n\<close>, before \<open>schedule_tail\<close>.\<close>

lemma schedule_Some:
  assumes "inv_k k" "schedule (prio_of k) (current k) (status_of k (current k) = Running) (sched k) = Some (Some n, q)"
    "ok q" "ready (sched k) = add_mset n (ready q)"
  shows "\<exists>k'. manager_schedule register schedule k = Some k' \<and> schedule_outcome inv_k k k'"
proof -
  let ?c = "current k"
  note inv = assms(1) [unfolded core_inv_def]
  have n: "n \<in> set (all_threads k)" "status_of k n = Ready" "n \<noteq> ?c" "\<not> overflow (threads k n)"
    using inv assms(4) by auto
  have cnt: "\<forall>t. count (ready q) t \<le> 1" "n \<notin># ready q" "?c \<notin># ready q"
  proof -
    have c: "count (ready (sched k)) t \<le> 1" for t using inv by blast
    have "count (ready q) t \<le> 1" for t using c [of t] unfolding assms(4) by (simp split: if_splits)
    then show "\<forall>t. count (ready q) t \<le> 1" by blast
    show "n \<notin># ready q" using c [of n] unfolding assms(4) by (simp add: not_in_iff)
    show "?c \<notin># ready q" using inv assms(4) by auto
  qed
  define k1 where "k1 = (set_status (k\<lparr>intr := False, sched := q\<rparr>) n Running)
    \<lparr>current := n, resume_intr := (resume_intr k)(?c := intr k)\<rparr>"
  have k1: "sched k1 = q" "current k1 = n" "all_threads k1 = all_threads k" "intr k1 = False"
    "status_of k1 t = (if t = n then Running else status_of k t)" "prio_of k1 = prio_of k"
    "next_tid k1 = next_tid k" "overflow (threads k1 t) = overflow (threads k t)"
    "t_pagetable (threads k1 t) = t_pagetable (threads k t)"
    "resume_intr k1 = (resume_intr k)(?c := intr k)" for t
    by (simp_all add: k1_def)
  have rest: "same_rest k k1" by (simp add: k1_def same_rest_def set_status_def)
  have start: "manager_schedule register schedule k = do {
      k' \<leftarrow> schedule_tail register k1 ?c; Some (snd (interrupt_set k' (resume_intr k' n))) }"
    using assms(2) inv n by (simp add: manager_schedule_def interrupt_set_eq k1_def Let_def)
  have fin: ?thesis
    if tail: "schedule_tail register k1 ?c = Some k2" and "inv_k k2" "same_rest k k2" "current k2 = n"
      "status_of k2 n = Running" "\<And>t. status_of k2 t = Blocked \<longleftrightarrow> status_of k t = Blocked"
      "set (all_threads k2) = set (all_threads k) - (if status_of k ?c = Dying then {?c} else {})"
      "resume_intr k2 = resume_intr k1" "active_pt k2 = t_pagetable (threads k n)" for k2
  proof -
    have "manager_schedule register schedule k = Some (k2\<lparr>intr := resume_intr k2 n\<rparr>)"
      using start tail by simp
    moreover have "inv_k (k2\<lparr>intr := resume_intr k2 n\<rparr>)" using that(2) by (simp add: core_inv_def)
    moreover have "same_rest k (k2\<lparr>intr := resume_intr k2 n\<rparr>)" using that(3) by (simp add: same_rest_def)
    ultimately show ?thesis using that(4-) k1(10) n(3) by (simp add: schedule_outcome_def)
  qed
  show ?thesis
  proof (cases "status_of k ?c")
    case Dying
    let ?k2 = "k1\<lparr>all_threads := filter (\<lambda>t. t \<noteq> ?c) (all_threads k), active_pt := t_pagetable (threads k n)\<rparr>"
    have "schedule_tail register k1 ?c = Some ?k2"
      using Dying n(3) by (simp add: schedule_tail_def k1)
    moreover have "inv_k ?k2"
      using inv Dying n cnt assms(3,4) k1 by (auto simp: core_inv_def)
    ultimately show ?thesis using Dying n k1 rest by (intro fin [of ?k2]) (auto simp: same_rest_def)
  next
    case Blocked
    let ?k2 = "k1\<lparr>active_pt := t_pagetable (threads k n)\<rparr>"
    have "schedule_tail register k1 ?c = Some ?k2"
      using Blocked n(3) by (simp add: schedule_tail_def k1)
    moreover have "inv_k ?k2"
      using inv Blocked n cnt assms(3,4) k1 by (auto simp: core_inv_def)
    ultimately show ?thesis using Blocked n k1 rest by (intro fin [of ?k2]) (auto simp: same_rest_def)
  next
    case Running
    have "good (prio_of k ?c)" using inv by blast
    from register_law [OF assms(3), of "prio_of k" ?c, OF this] obtain q2 where
      q2: "register (prio_of k) q ?c = Some q2" "ok q2" "ready q2 = add_mset ?c (ready q)" by blast
    let ?k2 = "(set_status k1 ?c Ready)\<lparr>sched := q2, active_pt := t_pagetable (threads k n)\<rparr>"
    have "schedule_tail register k1 ?c = Some ?k2"
      using Running n(3) q2(1) by (simp add: schedule_tail_def sched_register_def k1)
    moreover have "inv_k ?k2"
      using inv Running n cnt assms(4) k1 q2 count_le_1_add [OF cnt(1,3)] by (auto simp: core_inv_def)
    moreover have "same_rest k ?k2"
      using rest by (simp add: same_rest_def set_status_def)
    ultimately show ?thesis using Running n k1 by (intro fin [of ?k2]) auto
  next
    case Ready
    then show ?thesis using inv by simp
  qed
qed

end

lemma core_inv_simps [simp]:
  "core_inv ready ok good (k\<lparr>cont := c\<rparr>) = core_inv ready ok good k"
  "core_inv ready ok good (k\<lparr>sleepers := sl\<rparr>) = core_inv ready ok good k"
  "core_inv ready ok good (k\<lparr>ticks := n\<rparr>) = core_inv ready ok good k"
  "core_inv ready ok good (k\<lparr>intr := b\<rparr>) = core_inv ready ok good k"
  by (simp_all add: core_inv_def)

lemma schedule_outcomeD:
  assumes "schedule_outcome P k k'"
  shows "P k'" "next_tid k' = next_tid k" "sleepers k' = sleepers k" "ticks k' = ticks k" "cont k' = cont k"
    "status_of k' (current k') = Running" "status_of k' t = Blocked \<longleftrightarrow> status_of k t = Blocked"
    "set (all_threads k') = set (all_threads k) - (if status_of k (current k) = Dying then {current k} else {})"
    "prio_of k' t = prio_of k t"
  using assms same_rest_prio [of k k' t] unfolding schedule_outcome_def same_rest_def by blast+

context scheduler
begin

lemma schedule_correct:
  assumes "inv_k k"
  shows "\<exists>k'. manager_schedule register schedule k = Some k' \<and> schedule_outcome inv_k k k'"
proof -
  have "\<forall>t \<in># ready (sched k). good (prio_of k t)" using assms by (auto simp: core_inv_def)
  moreover have "ok (sched k)" using assms by (simp add: core_inv_def)
  ultimately obtain r q where s: "schedule (prio_of k) (current k) (status_of k (current k) = Running) (sched k) = Some (r, q)"
    "ok q" "case r of None \<Rightarrow> ready q = ready (sched k) \<and> (status_of k (current k) = Running \<or> ready (sched k) = {#})
      | Some t \<Rightarrow> ready (sched k) = add_mset t (ready q)"
    using schedule_law by blast
  show ?thesis
  proof (cases r)
    case None
    then show ?thesis using schedule_None [OF assms, of q] s by auto
  next
    case (Some n)
    then show ?thesis using schedule_Some [OF assms, of n q] s by simp
  qed
qed

text \<open>A change of the current thread's status, before a call of \<open>schedule\<close>.\<close>

lemma inv_set_current:
  assumes "inv_k k" "current k \<noteq> idle_tid" "s \<noteq> Ready"
  shows "inv_k (set_status k (current k) s)"
proof -
  have "current k \<notin># ready (sched k)" using assms(1) by (auto simp: core_inv_def)
  then show ?thesis using assms by (auto simp: core_inv_def)
qed

lemma block_correct:
  assumes "inv_k k" "current k \<noteq> idle_tid"
  shows "\<exists>k'. thread_block register schedule k = Some k' \<and>
    schedule_outcome inv_k (set_status k (current k) Blocked) k' \<and> current k' \<noteq> current k"
proof -
  obtain k' where k': "thread_block register schedule k = Some k'"
    "schedule_outcome inv_k (set_status k (current k) Blocked) k'"
    using schedule_correct [OF inv_set_current [OF assms, of Blocked]] by (auto simp: thread_block_def)
  then have "status_of k' (current k') = Running" "status_of k' (current k) = Blocked"
    by (auto simp: schedule_outcome_def)
  then have "current k' \<noteq> current k" by auto
  with k' show ?thesis by blast
qed

lemma exit_correct:
  assumes "inv_k k" "current k \<noteq> idle_tid"
  shows "\<exists>k'. thread_exit register schedule k = Some k' \<and>
    schedule_outcome inv_k (set_status k (current k) Dying) k' \<and> current k' \<noteq> current k"
proof -
  obtain k' where k': "manager_schedule register schedule (set_status k (current k) Dying) = Some k'"
    "schedule_outcome inv_k (set_status k (current k) Dying) k'"
    using schedule_correct [OF inv_set_current [OF assms, of Dying]] by auto
  then have "current k \<notin> set (all_threads k')" "current k' \<in> set (all_threads k')"
    by (auto simp: schedule_outcome_def core_inv_def)
  then have "current k' \<noteq> current k" by auto
  with k' show ?thesis by (auto simp: thread_exit_def)
qed

lemma wake_up_correct:
  assumes "inv_k k" "t \<in> set (all_threads k)" "t \<noteq> current k" "status_of k t = Blocked"
  shows "\<exists>q. wake_up register k t = Some ((set_status k t Ready)\<lparr>sched := q\<rparr>) \<and>
    inv_k ((set_status k t Ready)\<lparr>sched := q\<rparr>) \<and> ready q = add_mset t (ready (sched k))"
proof -
  have "ok (sched k)" "good (prio_of k t)" using assms(1,2) by (auto simp: core_inv_def)
  then obtain q where q: "register (prio_of k) (sched k) t = Some q" "ok q" "ready q = add_mset t (ready (sched k))"
    using register_law by blast
  have nin: "t \<notin># ready (sched k)" using assms(1,4) by (auto simp: core_inv_def)
  have "inv_k ((set_status k t Ready)\<lparr>sched := q\<rparr>)"
    using assms q count_le_1_add [OF _ nin] by (auto simp: core_inv_def)
  then show ?thesis using assms(4) q by (auto simp: wake_up_def sched_register_def)
qed

lemma wake_up_panics: "status_of k t \<noteq> Blocked \<Longrightarrow> wake_up register k t = None"
  by (simp add: wake_up_def)

lemma spawn_correct:
  assumes "inv_k k" "good p"
  shows "\<exists>k1 k'. spawn register schedule k name p pt = Some k' \<and> schedule_outcome inv_k k1 k' \<and>
    all_threads k1 = all_threads k @ [next_tid k] \<and> next_tid k1 = Suc (next_tid k) \<and> current k1 = current k \<and>
    threads k1 = (threads k)(next_tid k := thread_new name p pt) \<and> sleepers k1 = sleepers k \<and>
    ticks k1 = ticks k \<and> cont k1 = (cont k)(next_tid k := Run) \<and> intr k1 = intr k"
proof -
  let ?t = "next_tid k"
  let ?k = "k\<lparr>next_tid := ?t + 1, threads := (threads k)(?t := thread_new name p pt),
               resume_intr := (resume_intr k)(?t := True), cont := (cont k)(?t := Run)\<rparr>"
  have new: "?t \<notin> set (all_threads k)" using assms(1) by (auto simp: core_inv_def)
  have pe: "prio_of ?k ?t = p" by (simp add: prio_of_def thread_new_def)
  have "ok (sched k)" using assms(1) by (simp add: core_inv_def)
  then obtain q where q: "register (prio_of ?k) (sched k) ?t = Some q" "ok q"
    "ready q = add_mset ?t (ready (sched k))"
    using register_law [of "sched k" "prio_of ?k" ?t] assms(2) pe by auto
  let ?k1 = "?k\<lparr>sched := q, all_threads := all_threads k @ [?t]\<rparr>"
  have nin: "?t \<notin># ready (sched k)" using assms(1) new by (auto simp: core_inv_def)
  have "inv_k ?k1"
    using assms new q(2,3) count_le_1_add [OF _ nin] unfolding core_inv_def status_of_def prio_of_def
    by (auto simp: overflow_def thread_new_def less_Suc_eq)
  then obtain k' where "manager_schedule register schedule ?k1 = Some k'" "schedule_outcome inv_k ?k1 k'"
    using schedule_correct by blast
  moreover have "spawn register schedule k name p pt = manager_schedule register schedule ?k1"
    using q(1) by (simp add: spawn_def manager_register_def sched_register_def Let_def)
  ultimately show ?thesis by (intro exI [of _ ?k1] exI [of _ k']) simp
qed

lemma set_priority_store_correct:
  assumes "inv_k k" "good p"
  shows "\<exists>k1 k'. set_priority_store register schedule k p = Some k' \<and> schedule_outcome inv_k k1 k' \<and>
    k1 = k\<lparr>threads := (threads k)(current k := (threads k (current k))\<lparr>t_priority := p\<rparr>),
      cont := (cont k)(current k := Prio_stored p)\<rparr>"
proof -
  let ?k1 = "k\<lparr>threads := (threads k)(current k := (threads k (current k))\<lparr>t_priority := p\<rparr>),
      cont := (cont k)(current k := Prio_stored p)\<rparr>"
  have "inv_k ?k1"
    using assms unfolding core_inv_def status_of_def prio_of_def by (auto simp: overflow_def)
  then show ?thesis using schedule_correct [of ?k1] by (auto simp: set_priority_store_def Let_def)
qed

end

section \<open>Sleeping\<close>

definition sleeping :: "'q kernel \<Rightarrow> tid set" where
  "sleeping k = sd_thread ` set (sleepers k)"

text \<open>
  A thread sleeps in the queue once; it is blocked, or it was interrupted between the two
  parts of \<open>sleep\<close>. Every blocked thread is in the queue, so somebody will wake it up.
\<close>

definition sleeper_ok :: "bool \<Rightarrow> status \<Rightarrow> continuation \<Rightarrow> bool" where
  "sleeper_ok queued st c \<longleftrightarrow> (queued \<longleftrightarrow> st = Blocked \<or> c = Sleep_queued) \<and>
     \<not> (st = Blocked \<and> c = Sleep_queued)"

definition sleep_core :: "'q kernel \<Rightarrow> bool" where
  "sleep_core k \<longleftrightarrow>
     distinct (map sd_thread (sleepers k)) \<and> cont k idle_tid = Run \<and>
     sleeping k \<subseteq> set (all_threads k) \<and>
     (\<forall>t \<in> set (all_threads k). sleeper_ok (t \<in> sleeping k) (status_of k t) (cont k t))"

definition sleep_inv :: "'q kernel \<Rightarrow> bool" where
  "sleep_inv k \<longleftrightarrow> sleep_core k \<and> status_of k (current k) \<noteq> Dying \<and>
     (status_of k (current k) = Blocked \<longrightarrow> cont k (current k) = Sleep_blocked)"

text \<open>
  The window in which a timer interrupt breaks \<open>sleep\<close>: a thread is due that is still
  current, or that is in the queue without being blocked.
\<close>

definition sleep_race :: "'q kernel \<Rightarrow> bool" where
  "sleep_race k \<longleftrightarrow> (\<exists>d \<in> set (sleepers k). sd_ticks d \<le> i64_add (ticks k) 1 \<and>
     (status_of k (sd_thread d) \<noteq> Blocked \<or> sd_thread d = current k))"

section \<open>Steps of the kernel\<close>

datatype action =
    Yield
  | Spawn string u32 "nat option"
  | Exit
  | Set_priority u32
  | Set_priority_end
  | Sleep int
  | Sleep_mark
  | Sleep_switch
  | Timer

fun perform :: "'q reg_op \<Rightarrow> 'q sch_op \<Rightarrow> heap_pick \<Rightarrow> 'q kernel \<Rightarrow> action \<Rightarrow> 'q kernel option" where
  "perform reg sch pick k Yield = manager_schedule reg sch k"
| "perform reg sch pick k (Spawn name p pt) = spawn reg sch k name p pt"
| "perform reg sch pick k Exit = thread_exit reg sch k"
| "perform reg sch pick k (Set_priority p) = set_priority_store reg sch k p"
| "perform reg sch pick k Set_priority_end =
     (case cont k (current k) of Prio_stored p \<Rightarrow> Some (set_priority_record k p) | _ \<Rightarrow> None)"
| "perform reg sch pick k (Sleep n) = Some (sleep_push k n)"
| "perform reg sch pick k Sleep_mark = Some (sleep_mark k)"
| "perform reg sch pick k Sleep_switch = sleep_switch reg sch k"
| "perform reg sch pick k Timer = timer_trap reg sch pick k"

text \<open>
  Which actions the current thread may do next. The idle thread only yields. The timer may
  interrupt whenever interrupts are on; the executions considered are those without the race.
\<close>

fun enabled :: "(u32 \<Rightarrow> bool) \<Rightarrow> 'q kernel \<Rightarrow> action \<Rightarrow> bool" where
  "enabled good k Yield \<longleftrightarrow> cont k (current k) = Run"
| "enabled good k (Spawn name p pt) \<longleftrightarrow> cont k (current k) = Run \<and> current k \<noteq> idle_tid \<and> good p"
| "enabled good k Exit \<longleftrightarrow> cont k (current k) = Run \<and> current k \<noteq> idle_tid"
| "enabled good k (Set_priority p) \<longleftrightarrow> cont k (current k) = Run \<and> current k \<noteq> idle_tid \<and> good p"
| "enabled good k Set_priority_end \<longleftrightarrow> (case cont k (current k) of Prio_stored p \<Rightarrow> True | _ \<Rightarrow> False)"
| "enabled good k (Sleep n) \<longleftrightarrow> cont k (current k) = Run \<and> current k \<noteq> idle_tid"
| "enabled good k Sleep_mark \<longleftrightarrow> cont k (current k) = Sleep_queued"
| "enabled good k Sleep_switch \<longleftrightarrow> cont k (current k) = Sleep_blocked"
| "enabled good k Timer \<longleftrightarrow> intr k \<and> \<not> sleep_race k"

inductive reachable :: "'q reg_op \<Rightarrow> 'q sch_op \<Rightarrow> heap_pick \<Rightarrow> (u32 \<Rightarrow> bool) \<Rightarrow> 'q \<Rightarrow> 'q kernel \<Rightarrow> bool"
  for reg sch pick good q0 where
  start: "manager_init reg q0 level = Some k \<Longrightarrow> reachable reg sch pick good q0 k"
| step: "reachable reg sch pick good q0 k \<Longrightarrow> enabled good k a \<Longrightarrow>
    perform reg sch pick k a = Some k' \<Longrightarrow> reachable reg sch pick good q0 k'"

definition kernel_inv :: "('q \<Rightarrow> tid multiset) \<Rightarrow> ('q \<Rightarrow> bool) \<Rightarrow> (u32 \<Rightarrow> bool) \<Rightarrow> 'q kernel \<Rightarrow> bool" where
  "kernel_inv ready ok good k \<longleftrightarrow> core_inv ready ok good k \<and> sleep_inv k"

context scheduler
begin

text \<open>A call of \<open>schedule\<close> by a thread that is running or blocked keeps the sleepers.\<close>

lemma sleep_inv_schedule:
  assumes "schedule_outcome inv_k k k'" "status_of k (current k) \<noteq> Dying" "sleep_core k"
  shows "kernel_inv ready ok good k'"
proof -
  note out = schedule_outcomeD [OF assms(1)]
  have eqs: "sleepers k' = sleepers k" "cont k' = cont k" "sleeping k' = sleeping k"
    "set (all_threads k') = set (all_threads k)" "status_of k' (current k') = Running"
    using out(3,5,6,8) assms(2) by (simp_all add: sleeping_def)
  have "sleeper_ok b (status_of k' t) c = sleeper_ok b (status_of k t) c" for b t c
    by (simp add: sleeper_ok_def out(7))
  then have "sleep_core k'" using assms(3) unfolding sleep_core_def eqs by blast
  then show ?thesis using out(1) eqs(5) by (simp add: kernel_inv_def sleep_inv_def)
qed

lemma kernel_inv_schedule:
  assumes "kernel_inv ready ok good k"
  shows "\<exists>k'. manager_schedule register schedule k = Some k' \<and> kernel_inv ready ok good k'"
proof -
  have inv: "inv_k k" "sleep_core k" "status_of k (current k) \<noteq> Dying"
    using assms by (simp_all add: kernel_inv_def sleep_inv_def)
  from schedule_correct [OF inv(1)] obtain k' where
    "manager_schedule register schedule k = Some k'" "schedule_outcome inv_k k k'" by blast
  then show ?thesis using sleep_inv_schedule [OF _ inv(3,2)] by blast
qed

end

lemma remove_nth_facts:
  assumes "i < length q" "distinct (map f q)"
  defines "r \<equiv> take i q @ drop (Suc i) q"
  shows "set q = insert (q ! i) (set r)" "f (q ! i) \<notin> f ` set r" "distinct (map f r)" "length q = Suc (length r)"
proof -
  have q: "q = take i q @ q ! i # drop (Suc i) q" using assms(1) by (rule id_take_nth_drop)
  then have m: "map f q = map f (take i q) @ f (q ! i) # map f (drop (Suc i) q)" by (metis list.simps(9) map_append)
  show "set q = insert (q ! i) (set r)" unfolding r_def by (subst q) auto
  show "f (q ! i) \<notin> f ` set r" "distinct (map f r)"
    using assms(2) unfolding m r_def by auto
  show "length q = Suc (length r)" using assms(1) by (simp add: r_def)
qed

context scheduler
begin

text \<open>The loop of \<open>tick\<close> wakes exactly the threads that are due.\<close>

lemma wake_due_correct:
  assumes "picks_first pick" "inv_k k" "distinct (map sd_thread (sleepers k))" "length (sleepers k) \<le> n"
    and "\<forall>d \<in> set (sleepers k). sd_ticks d \<le> now \<longrightarrow> sd_thread d \<in> set (all_threads k) \<and>
      sd_thread d \<noteq> current k \<and> status_of k (sd_thread d) = Blocked"
  shows "\<exists>k'. wake_due register pick now n k = Some k' \<and> inv_k k' \<and>
    set (sleepers k') = {d \<in> set (sleepers k). now < sd_ticks d} \<and> distinct (map sd_thread (sleepers k')) \<and>
    (\<forall>t. status_of k' t = (if t \<in> sd_thread ` {d \<in> set (sleepers k). sd_ticks d \<le> now} then Ready else status_of k t)) \<and>
    current k' = current k \<and> all_threads k' = all_threads k \<and> cont k' = cont k \<and> ticks k' = ticks k \<and>
    intr k' = intr k"
  using assms(2-)
proof (induction n arbitrary: k)
  case 0
  then show ?case by (intro exI [of _ k]) simp
next
  case (Suc n)
  show ?case
  proof (cases "sleepers k = []")
    case True
    then show ?thesis using Suc.prems by (intro exI [of _ k]) (simp add: sq_len_def)
  next
    case False
    define i where "i = pick (sleepers k)"
    have i: "i < length (sleepers k)" "\<forall>d\<in>set (sleepers k). sd_ticks (sleepers k ! i) \<le> sd_ticks d"
      using assms(1) False by (simp_all add: picks_first_def i_def)
    let ?d = "sleepers k ! i" and ?r = "take i (sleepers k) @ drop (Suc i) (sleepers k)"
    note r = remove_nth_facts [OF i(1) Suc.prems(2)]
    show ?thesis
    proof (cases "sd_ticks ?d \<le> now")
      case late: False
      then have "\<forall>d\<in>set (sleepers k). now < sd_ticks d" using i(2) by force
      then have "{d \<in> set (sleepers k). now < sd_ticks d} = set (sleepers k)"
        "{d \<in> set (sleepers k). sd_ticks d \<le> now} = {}" by auto
      moreover have "wake_due register pick now (Suc n) k = Some k"
        using False late by (simp add: sq_len_def sq_peek_time_def flip: i_def)
      ultimately show ?thesis using Suc.prems by (intro exI [of _ k]) (auto simp del: wake_due.simps)
    next
      case due: True
      let ?t = "sd_thread ?d" and ?k = "k\<lparr>sleepers := ?r\<rparr>"
      have t: "?t \<in> set (all_threads k)" "?t \<noteq> current k" "status_of k ?t = Blocked"
        using Suc.prems(4) i(1) due by simp_all
      have "inv_k ?k" using Suc.prems(1) by (simp add: core_inv_def)
      from wake_up_correct [OF this, of ?t] t obtain q where
        q: "wake_up register ?k ?t = Some ((set_status ?k ?t Ready)\<lparr>sched := q\<rparr>)"
        "inv_k ((set_status ?k ?t Ready)\<lparr>sched := q\<rparr>)" by auto
      let ?k2 = "(set_status ?k ?t Ready)\<lparr>sched := q\<rparr>"
      have step: "wake_due register pick now (Suc n) k = wake_due register pick now n ?k2"
        using False due q(1) by (simp add: sq_len_def sq_peek_time_def sq_pop_def flip: i_def)
      have "\<exists>k'. wake_due register pick now n ?k2 = Some k' \<and> inv_k k' \<and>
        set (sleepers k') = {d \<in> set (sleepers ?k2). now < sd_ticks d} \<and> distinct (map sd_thread (sleepers k')) \<and>
        (\<forall>t. status_of k' t = (if t \<in> sd_thread ` {d \<in> set (sleepers ?k2). sd_ticks d \<le> now} then Ready else status_of ?k2 t)) \<and>
        current k' = current ?k2 \<and> all_threads k' = all_threads ?k2 \<and> cont k' = cont ?k2 \<and> ticks k' = ticks ?k2 \<and>
        intr k' = intr ?k2"
      proof (rule Suc.IH)
        show "inv_k ?k2" by (rule q(2))
        show "distinct (map sd_thread (sleepers ?k2))" using r(3) by simp
        show "length (sleepers ?k2) \<le> n" using r(4) Suc.prems(3) by simp
        show "\<forall>d\<in>set (sleepers ?k2). sd_ticks d \<le> now \<longrightarrow> sd_thread d \<in> set (all_threads ?k2) \<and>
          sd_thread d \<noteq> current ?k2 \<and> status_of ?k2 (sd_thread d) = Blocked"
        proof (intro ballI impI)
          fix d assume d: "d \<in> set (sleepers ?k2)" "sd_ticks d \<le> now"
          then have "d \<in> set ?r" by simp
          then have "d \<in> set (sleepers k)" "sd_thread d \<in> sd_thread ` set ?r" using r(1) by blast+
          moreover from this(2) have "sd_thread d \<noteq> ?t" using r(2) by metis
          ultimately show "sd_thread d \<in> set (all_threads ?k2) \<and>
            sd_thread d \<noteq> current ?k2 \<and> status_of ?k2 (sd_thread d) = Blocked"
            using Suc.prems(4) d(2) by simp
        qed
      qed
      then obtain k' where k': "wake_due register pick now n ?k2 = Some k'" "inv_k k'"
        "set (sleepers k') = {d \<in> set ?r. now < sd_ticks d}" "distinct (map sd_thread (sleepers k'))"
        "\<And>t. status_of k' t = (if t \<in> sd_thread ` {d \<in> set ?r. sd_ticks d \<le> now} then Ready else status_of ?k2 t)"
        "current k' = current k" "all_threads k' = all_threads k" "cont k' = cont k" "ticks k' = ticks k"
        "intr k' = intr k" by auto
      have "set (sleepers k') = {d \<in> set (sleepers k). now < sd_ticks d}"
        unfolding k'(3) r(1) using due by auto
      moreover have "status_of k' t = (if t \<in> sd_thread ` {d \<in> set (sleepers k). sd_ticks d \<le> now} then Ready else status_of k t)" for t
        unfolding k'(5) r(1) using due by auto
      ultimately show ?thesis using step k' by (intro exI [of _ k']) simp
    qed
  qed
qed


text \<open>A thread that runs outside \<open>sleep\<close> is not in the queue.\<close>

lemma current_awake:
  assumes "kernel_inv ready ok good k" "cont k (current k) \<noteq> Sleep_queued" "cont k (current k) \<noteq> Sleep_blocked"
  shows "status_of k (current k) = Running" "current k \<notin> sleeping k"
proof -
  have in_all: "current k \<in> set (all_threads k)" "status_of k (current k) \<noteq> Ready"
    using assms(1) by (simp_all add: kernel_inv_def core_inv_def)
  show st: "status_of k (current k) = Running"
    using assms in_all(2) by (cases "status_of k (current k)") (auto simp: kernel_inv_def sleep_inv_def)
  show "current k \<notin> sleeping k"
    using assms(1,2) in_all(1) st by (auto simp: kernel_inv_def sleep_inv_def sleep_core_def sleeper_ok_def)
qed

lemma exit_step:
  assumes "kernel_inv ready ok good k" "cont k (current k) = Run" "current k \<noteq> idle_tid"
  shows "\<exists>k'. thread_exit register schedule k = Some k' \<and> kernel_inv ready ok good k'"
proof -
  note awake = current_awake [OF assms(1)]
  have inv: "inv_k k" "sleep_core k" using assms(1) by (simp_all add: kernel_inv_def sleep_inv_def)
  from exit_correct [OF inv(1) assms(3)] obtain k' where
    k': "thread_exit register schedule k = Some k'"
    "schedule_outcome inv_k (set_status k (current k) Dying) k'" by blast
  note out = schedule_outcomeD [OF k'(2)]
  have eqs: "sleepers k' = sleepers k" "cont k' = cont k" "sleeping k' = sleeping k"
    "set (all_threads k') = set (all_threads k) - {current k}" "status_of k' (current k') = Running"
    using out(3,5,6,8) by (simp_all add: sleeping_def)
  have same: "sleeper_ok b (status_of k' t) c = sleeper_ok b (status_of k t) c" if "t \<noteq> current k" for b t c
    using that out(7) [of t] by (simp add: sleeper_ok_def)
  have "current k \<notin> sleeping k" using awake(2) assms(2) by simp
  then have "sleep_core k'"
    using inv(2) same unfolding sleep_core_def eqs by blast
  then show ?thesis using k'(1) out(1) eqs(5) by (auto simp: kernel_inv_def sleep_inv_def)
qed

lemma spawn_step:
  assumes "kernel_inv ready ok good k" "good p"
  shows "\<exists>k'. spawn register schedule k name p pt = Some k' \<and> kernel_inv ready ok good k'"
proof -
  have inv: "inv_k k" "sleep_core k" "status_of k (current k) \<noteq> Dying"
    using assms(1) by (simp_all add: kernel_inv_def sleep_inv_def)
  have new: "next_tid k \<notin> set (all_threads k)" "idle_tid \<in> set (all_threads k)" "current k \<in> set (all_threads k)"
    using inv(1) by (auto simp: core_inv_def)
  from spawn_correct [OF inv(1) assms(2)] obtain k1 k' where
    k': "spawn register schedule k name p pt = Some k'" "schedule_outcome inv_k k1 k'"
    and k1: "all_threads k1 = all_threads k @ [next_tid k]" "current k1 = current k"
    "threads k1 = (threads k)(next_tid k := thread_new name p pt)" "sleepers k1 = sleepers k"
    "cont k1 = (cont k)(next_tid k := Run)" by blast
  have st: "status_of k1 t = (if t = next_tid k then Ready else status_of k t)" for t
    by (simp add: status_of_def k1(3) thread_new_def)
  have sl: "sleeping k1 = sleeping k" by (simp add: sleeping_def k1(4))
  have sub: "sleeping k \<subseteq> set (all_threads k)" using inv(2) by (simp add: sleep_core_def)
  have "sleeper_ok (t \<in> sleeping k1) (status_of k1 t) (cont k1 t)" if "t \<in> set (all_threads k1)" for t
  proof (cases "t = next_tid k")
    case True
    then have "t \<notin> sleeping k" using new(1) sub by blast
    then show ?thesis using True by (simp add: sl st k1(5) sleeper_ok_def)
  next
    case False
    then show ?thesis using that inv(2) by (simp add: sl st k1(1,5) sleep_core_def)
  qed
  then have "sleep_core k1"
    using inv(2) new unfolding sleep_core_def sl k1(4) by (auto simp: k1(1,5))
  moreover have "status_of k1 (current k1) \<noteq> Dying" using inv(3) by (simp add: st k1(2))
  ultimately show ?thesis using k' sleep_inv_schedule [of k1 k'] by blast
qed

lemma set_priority_step:
  assumes "kernel_inv ready ok good k" "good p" "cont k (current k) = Run" "current k \<noteq> idle_tid"
  shows "\<exists>k'. set_priority_store register schedule k p = Some k' \<and> kernel_inv ready ok good k'"
proof -
  have inv: "inv_k k" "sleep_core k" using assms(1) by (simp_all add: kernel_inv_def sleep_inv_def)
  from set_priority_store_correct [OF inv(1) assms(2)] obtain k1 k' where
    k': "set_priority_store register schedule k p = Some k'" "schedule_outcome inv_k k1 k'"
    and k1: "k1 = k\<lparr>threads := (threads k)(current k := (threads k (current k))\<lparr>t_priority := p\<rparr>),
      cont := (cont k)(current k := Prio_stored p)\<rparr>" by blast
  have st: "status_of k1 t = status_of k t" for t by (simp add: status_of_def k1)
  have f: "sleepers k1 = sleepers k" "all_threads k1 = all_threads k" "sleeping k1 = sleeping k"
    "current k1 = current k" "cont k1 = (cont k)(current k := Prio_stored p)"
    by (simp_all add: k1 sleeping_def)
  have awake: "status_of k (current k) = Running" "current k \<notin> sleeping k"
    using current_awake [OF assms(1)] assms(3) by simp_all
  have "sleeper_ok (t \<in> sleeping k) (status_of k1 t) (cont k1 t)" if "t \<in> set (all_threads k)" for t
  proof (cases "t = current k")
    case True
    then show ?thesis using awake by (simp add: f st sleeper_ok_def)
  next
    case False
    then show ?thesis using that inv(2) by (simp add: f st sleep_core_def)
  qed
  then have "sleep_core k1"
    using inv(2) assms(4) unfolding sleep_core_def f(1-3) by (simp add: f)
  moreover have "status_of k1 (current k1) \<noteq> Dying" using current_awake(1) [OF assms(1)] assms(3) by (simp add: st f)
  ultimately show ?thesis using k' sleep_inv_schedule [of k1 k'] by blast
qed


lemma set_priority_end_step:
  assumes "kernel_inv ready ok good k" "cont k (current k) = Prio_stored p"
  shows "kernel_inv ready ok good (set_priority_record k p)"
proof -
  have inv: "inv_k k" "sleep_core k" using assms(1) by (simp_all add: kernel_inv_def sleep_inv_def)
  have awake: "status_of k (current k) = Running" "current k \<notin> sleeping k"
    using current_awake [OF assms(1)] assms(2) by simp_all
  let ?k = "set_priority_record k p"
  have f: "all_threads ?k = all_threads k" "sleeping ?k = sleeping k" "sleepers ?k = sleepers k"
    "status_of ?k t = status_of k t" "cont ?k = (cont k)(current k := Run)" "current ?k = current k"
    "sched ?k = sched k" "prio_of ?k t = prio_of k t" "next_tid ?k = next_tid k"
    "overflow (threads ?k t) = overflow (threads k t)" for t
    by (simp_all add: set_priority_record_def sleeping_def Let_def status_of_def prio_of_def overflow_def)
  have "sleeper_ok (t \<in> sleeping k) (status_of ?k t) (cont ?k t)" if "t \<in> set (all_threads k)" for t
  proof (cases "t = current k")
    case True
    then show ?thesis using awake by (simp add: f sleeper_ok_def)
  next
    case False
    then show ?thesis using that inv(2) by (simp add: f sleep_core_def)
  qed
  then have "sleep_core ?k" using inv(2) unfolding sleep_core_def f(1-3) by (simp add: f)
  moreover have "inv_k ?k" using inv(1) unfolding core_inv_def by (simp add: f)
  ultimately show ?thesis using awake by (simp add: kernel_inv_def sleep_inv_def f)
qed

lemma sleep_call_step:
  assumes "kernel_inv ready ok good k" "cont k (current k) = Run" "current k \<noteq> idle_tid"
  shows "kernel_inv ready ok good (sleep_push k n)"
proof (cases "n \<le> 0")
  case True
  then show ?thesis using assms(1) by (simp add: sleep_push_def)
next
  case False
  have inv: "inv_k k" "sleep_core k" using assms(1) by (simp_all add: kernel_inv_def sleep_inv_def)
  have awake: "status_of k (current k) = Running" "current k \<notin> sleeping k"
    using current_awake [OF assms(1)] assms(2) by simp_all
  let ?k = "sleep_push k n"
  have f: "all_threads ?k = all_threads k" "sleeping ?k = insert (current k) (sleeping k)"
    "status_of ?k t = status_of k t" "cont ?k = (cont k)(current k := Sleep_queued)" "current ?k = current k" for t
    using False by (simp_all add: sleep_push_def sleeping_def sq_push_def)
  have "sleeper_ok (t \<in> sleeping ?k) (status_of ?k t) (cont ?k t)" if "t \<in> set (all_threads k)" for t
  proof (cases "t = current k")
    case True
    then show ?thesis using awake by (simp add: f sleeper_ok_def)
  next
    case False
    then show ?thesis using that inv(2) by (simp add: f sleep_core_def)
  qed
  moreover have "distinct (map sd_thread (sleepers ?k))"
    using inv(2) awake(2) False by (simp add: sleep_push_def sq_push_def sleep_core_def sleeping_def image_iff)
  moreover have "current k \<in> set (all_threads k)" using inv(1) by (simp add: core_inv_def)
  ultimately have "sleep_core ?k"
    using inv(2) assms(3) unfolding sleep_core_def f(1) by (simp add: f)
  moreover have "inv_k ?k" using inv(1) False by (simp add: sleep_push_def core_inv_def)
  ultimately show ?thesis using awake by (simp add: kernel_inv_def sleep_inv_def f)
qed

lemma sleep_mark_step:
  assumes "kernel_inv ready ok good k" "cont k (current k) = Sleep_queued"
  shows "kernel_inv ready ok good (sleep_mark k)"
proof -
  have inv: "inv_k k" "sleep_core k" using assms(1) by (simp_all add: kernel_inv_def sleep_inv_def)
  have in_all: "current k \<in> set (all_threads k)" using inv(1) by (simp add: core_inv_def)
  have ni: "current k \<noteq> idle_tid" using inv(2) assms(2) by (auto simp: sleep_core_def)
  let ?k = "sleep_mark k"
  have f: "all_threads ?k = all_threads k" "sleeping ?k = sleeping k" "sleepers ?k = sleepers k"
    "status_of ?k t = (if t = current k then Blocked else status_of k t)"
    "cont ?k = (cont k)(current k := Sleep_blocked)" "current ?k = current k" for t
    by (simp_all add: sleep_mark_def sleeping_def)
  have "sleeper_ok (current k \<in> sleeping k) (status_of k (current k)) Sleep_queued"
    using inv(2) in_all assms(2) by (auto simp: sleep_core_def)
  then have q: "current k \<in> sleeping k" by (simp add: sleeper_ok_def)
  have "sleeper_ok (t \<in> sleeping k) (status_of ?k t) (cont ?k t)" if "t \<in> set (all_threads k)" for t
  proof (cases "t = current k")
    case True
    then show ?thesis using q by (simp add: f sleeper_ok_def)
  next
    case False
    then show ?thesis using that inv(2) by (simp add: f sleep_core_def)
  qed
  then have "sleep_core ?k" using inv(2) ni unfolding sleep_core_def f(1-3) by (simp add: f)
  moreover have "inv_k ?k"
    using inv_set_current [OF inv(1) ni, of Blocked] by (simp add: sleep_mark_def)
  ultimately show ?thesis by (simp add: kernel_inv_def sleep_inv_def f)
qed

lemma sleep_switch_step:
  assumes "kernel_inv ready ok good k" "cont k (current k) = Sleep_blocked"
  shows "\<exists>k'. sleep_switch register schedule k = Some k' \<and> kernel_inv ready ok good k'"
proof -
  have inv: "inv_k k" "sleep_core k" "status_of k (current k) \<noteq> Dying"
    using assms(1) by (simp_all add: kernel_inv_def sleep_inv_def)
  let ?k = "k\<lparr>cont := (cont k)(current k := Run)\<rparr>"
  have "sleeper_ok (t \<in> sleeping k) (status_of k t) (cont ?k t)" if "t \<in> set (all_threads k)" for t
  proof (cases "t = current k")
    case True
    then show ?thesis using that inv(2) assms(2) by (fastforce simp: sleep_core_def sleeper_ok_def)
  next
    case False
    then show ?thesis using that inv(2) by (simp add: sleep_core_def)
  qed
  then have "sleep_core ?k" using inv(2) by (simp add: sleep_core_def sleeping_def)
  moreover have "inv_k ?k" using inv(1) by (simp add: core_inv_def)
  ultimately show ?thesis
    using schedule_correct [of ?k] sleep_inv_schedule [of ?k] inv(3) by (auto simp: sleep_switch_def)
qed

lemma tick_step:
  assumes "kernel_inv ready ok good k" "\<not> sleep_race k" "picks_first pick"
  shows "\<exists>k'. tick register pick k = Some k' \<and> kernel_inv ready ok good k' \<and>
    set (sleepers k') = {d \<in> set (sleepers k). i64_add (ticks k) 1 < sd_ticks d} \<and>
    (\<forall>d \<in> set (sleepers k). sd_ticks d \<le> i64_add (ticks k) 1 \<longrightarrow> status_of k' (sd_thread d) = Ready)"
proof -
  have inv: "inv_k k" "sleep_core k" "status_of k (current k) \<noteq> Dying"
    "status_of k (current k) = Blocked \<longrightarrow> cont k (current k) = Sleep_blocked"
    using assms(1) by (simp_all add: kernel_inv_def sleep_inv_def)
  define now where "now = i64_add (ticks k) 1"
  let ?k = "k\<lparr>ticks := now, intr := False\<rparr>"
  let ?due = "sd_thread ` {d \<in> set (sleepers k). sd_ticks d \<le> now}"
  have due: "sd_thread d \<in> set (all_threads k)" "sd_thread d \<noteq> current k" "status_of k (sd_thread d) = Blocked"
    if "d \<in> set (sleepers k)" "sd_ticks d \<le> now" for d
    using that assms(2) inv(2) by (auto simp: sleep_race_def now_def sleep_core_def sleeping_def)
  have "inv_k ?k" using inv(1) by (simp add: core_inv_def)
  from wake_due_correct [OF assms(3) this, of "length (sleepers k)" now] inv(2) due obtain k1 where
    k1: "wake_due register pick now (length (sleepers k)) ?k = Some k1" "inv_k k1"
    "set (sleepers k1) = {d \<in> set (sleepers k). now < sd_ticks d}" "distinct (map sd_thread (sleepers k1))"
    "\<forall>t. status_of k1 t = (if t \<in> ?due then Ready else status_of k t)"
    "current k1 = current k" "all_threads k1 = all_threads k" "cont k1 = cont k" "intr k1 = False"
    by (auto simp: sleep_core_def)
  let ?k' = "k1\<lparr>intr := intr k\<rparr>"
  have res: "tick register pick k = Some ?k'"
    using k1(1) by (simp add: tick_def interrupt_set_eq sq_len_def Let_def flip: now_def)
  have kinv: "kernel_inv ready ok good ?k'"
  proof -
    have sl: "t \<in> sleeping k1 \<longleftrightarrow> t \<in> sleeping k \<and> t \<notin> ?due" for t
    proof -
      have "d = d'" if "d \<in> set (sleepers k)" "d' \<in> set (sleepers k)" "sd_thread d = sd_thread d'" for d d'
        using that inv(2) by (auto simp: sleep_core_def distinct_map dest: inj_onD)
      then show ?thesis unfolding sleeping_def k1(3) by fastforce
    qed
    have "sleeper_ok (t \<in> sleeping k1) (status_of k1 t) (cont k t)" if "t \<in> set (all_threads k)" for t
    proof (cases "t \<in> ?due")
      case True
      then obtain d where "d \<in> set (sleepers k)" "sd_ticks d \<le> now" "t = sd_thread d" by blast
      then have "status_of k t = Blocked" using due(3) [of d] by simp
      moreover have "sleeper_ok (t \<in> sleeping k) (status_of k t) (cont k t)"
        using that inv(2) by (simp add: sleep_core_def)
      ultimately have "cont k t \<noteq> Sleep_queued" by (simp add: sleeper_ok_def)
      moreover have "t \<notin> sleeping k1" "status_of k1 t = Ready" using True sl k1(5) by simp_all
      ultimately show ?thesis by (simp add: sleeper_ok_def)
    next
      case False
      then have "t \<in> sleeping k1 \<longleftrightarrow> t \<in> sleeping k" "status_of k1 t = status_of k t"
        using sl [of t] k1(5) by auto
      then show ?thesis using that inv(2) by (simp add: sleep_core_def)
    qed
    moreover have "sleeping k1 \<subseteq> set (all_threads k)" using sl inv(2) by (auto simp: sleep_core_def)
    ultimately have "sleep_core k1" using inv(2) k1(4,7,8) by (simp add: sleep_core_def)
    then have "sleep_core ?k'" by (simp add: sleep_core_def sleeping_def)
    moreover have "current k \<notin> ?due"
    proof
      assume "current k \<in> ?due"
      then obtain d where "d \<in> set (sleepers k)" "sd_ticks d \<le> now" "current k = sd_thread d" by blast
      then show False using due(2) [of d] by simp
    qed
    then have "status_of k1 (current k1) = status_of k (current k)" using k1(5,6) by auto
    moreover have "inv_k ?k'" using k1(2) by (simp add: core_inv_def)
    ultimately show ?thesis using inv(3,4) k1(6,8) by (simp add: kernel_inv_def sleep_inv_def)
  qed
  have woken: "status_of ?k' (sd_thread d) = Ready" if "d \<in> set (sleepers k)" "sd_ticks d \<le> now" for d
  proof -
    have "sd_thread d \<in> ?due" using that by blast
    then show ?thesis using k1(5) by simp
  qed
  have "set (sleepers ?k') = {d \<in> set (sleepers k). now < sd_ticks d}" using k1(3) by simp
  then show ?thesis
    unfolding now_def [symmetric] using woken by (intro exI [of _ ?k'] conjI res kinv) blast+
qed


lemma perform_correct:
  assumes "kernel_inv ready ok good k" "enabled good k a" "picks_first pick"
  shows "\<exists>k'. perform register schedule pick k a = Some k' \<and> kernel_inv ready ok good k'"
proof (cases a)
  case Yield
  then show ?thesis using kernel_inv_schedule [OF assms(1)] by simp
next
  case (Spawn name p pt)
  then show ?thesis using spawn_step [OF assms(1)] assms(2) by simp
next
  case Exit
  then show ?thesis using exit_step [OF assms(1)] assms(2) by simp
next
  case (Set_priority p)
  then show ?thesis using set_priority_step [OF assms(1)] assms(2) by simp
next
  case Set_priority_end
  then obtain p where p: "cont k (current k) = Prio_stored p"
    using assms(2) by (auto split: continuation.splits)
  then show ?thesis using set_priority_end_step [OF assms(1) p] Set_priority_end by simp
next
  case (Sleep n)
  then show ?thesis using sleep_call_step [OF assms(1)] assms(2) by simp
next
  case Sleep_mark
  then show ?thesis using sleep_mark_step [OF assms(1)] assms(2) by simp
next
  case Sleep_switch
  then show ?thesis using sleep_switch_step [OF assms(1)] assms(2) by simp
next
  case Timer
  then obtain k1 where k1: "tick register pick k = Some k1" "kernel_inv ready ok good k1"
    using tick_step [OF assms(1) _ assms(3)] assms(2) by auto
  then show ?thesis using kernel_inv_schedule [OF k1(2)] Timer by (simp add: timer_trap_def)
qed

lemma init_correct:
  assumes "ok q0" "ready q0 = {#}" "good PRI_DEFAULT" "good PRI_MIN"
  shows "\<exists>k. manager_init register q0 level = Some k \<and> kernel_inv ready ok good k"
proof -
  define k0 where "k0 = \<lparr>threads = (\<lambda>_. thread_new ''Default'' PRI_DEFAULT None)
        (initial_tid := (thread_new ''Initial'' PRI_DEFAULT None)\<lparr>t_status := Running\<rparr>,
         idle_tid := thread_new ''Idle'' PRI_MIN None),
      sched = q0, current = initial_tid, all_threads = [initial_tid], intr = level,
      resume_intr = (\<lambda>_. True), active_pt = None, next_tid = 2, sleepers = [], ticks = 0,
      cont = (\<lambda>_. Run)\<rparr>"
  have "good (prio_of k0 idle_tid)" using assms(4) by (simp add: k0_def prio_of_def thread_new_def)
  from register_law [OF assms(1), of "prio_of k0" idle_tid, OF this] assms(2) obtain q where
    q: "register (prio_of k0) q0 idle_tid = Some q" "ok q" "ready q = {#idle_tid#}" by auto
  let ?k = "k0\<lparr>sched := q, all_threads := [initial_tid, idle_tid]\<rparr>"
  have "manager_init register q0 level = Some ?k"
    using q(1) unfolding manager_init_def k0_def [symmetric]
    by (simp add: manager_register_def sched_register_def) (simp add: k0_def)
  moreover have "inv_k ?k"
    using q assms unfolding core_inv_def status_of_def prio_of_def
    by (auto simp: k0_def thread_new_def overflow_def initial_tid_def idle_tid_def)
  moreover have "sleep_inv ?k"
    by (auto simp: sleep_inv_def sleep_core_def sleeping_def sleeper_ok_def status_of_def k0_def
        thread_new_def initial_tid_def idle_tid_def)
  ultimately show ?thesis by (auto simp: kernel_inv_def)
qed

lemma reachable_inv:
  assumes "reachable register schedule pick good q0 k" "picks_first pick"
    "ok q0" "ready q0 = {#}" "good PRI_DEFAULT" "good PRI_MIN"
  shows "kernel_inv ready ok good k"
  using assms(1)
proof (induction rule: reachable.induct)
  case (start level k)
  then show ?case using init_correct [OF assms(3-6), of level] by auto
next
  case (step k a k')
  then show ?case using perform_correct [OF step.IH step.hyps(2) assms(2)] by auto
qed

end

context scheduler
begin

text \<open>How the outcome of \<open>Manager::schedule\<close> follows the choice of the scheduler.\<close>

lemma schedule_follows:
  assumes "inv_k k" "manager_schedule register schedule k = Some k'"
  shows "\<exists>r q. schedule (prio_of k) (current k) (status_of k (current k) = Running) (sched k) = Some (r, q) \<and>
    (case r of None \<Rightarrow> current k' = current k \<and> sched k' = q
     | Some n \<Rightarrow> current k' = n \<and> (\<forall>t \<in># ready (sched k'). t \<in># ready q \<or>
         t = current k \<and> status_of k (current k) = Running))"
proof -
  let ?c = "current k"
  have "\<forall>t \<in># ready (sched k). good (prio_of k t)" "ok (sched k)" "good (prio_of k ?c)"
    using assms(1) by (auto simp: core_inv_def)
  note g = this
  from schedule_law [OF g(2,1), of ?c "status_of k ?c = Running"] obtain r q where
    s: "schedule (prio_of k) ?c (status_of k ?c = Running) (sched k) = Some (r, q)" "ok q" by blast
  from register_law [OF s(2), of "prio_of k" ?c, OF g(3)] obtain q2 where
    q2: "register (prio_of k) q ?c = Some q2" "ready q2 = add_mset ?c (ready q)" by blast
  have n: "current k' = n \<and> (\<forall>t \<in># ready (sched k'). t \<in># ready q \<or> t = ?c \<and> status_of k ?c = Running)"
    if "r = Some n" for n
  proof -
    define k1 where "k1 = (set_status (k\<lparr>intr := False, sched := q\<rparr>) n Running)
      \<lparr>current := n, resume_intr := (resume_intr k)(?c := intr k)\<rparr>"
    have k1: "sched k1 = q" "current k1 = n" "prio_of k1 = prio_of k"
      "status_of k1 ?c = (if ?c = n then Running else status_of k ?c)" by (simp_all add: k1_def)
    have s': "schedule (prio_of k) ?c (status_of k ?c = Running) (sched k) = Some (Some n, q)"
      using s(1) that by simp
    have r: "status_of k n = Ready"
      using assms(2) by (simp add: manager_schedule_def interrupt_set_eq Let_def s' split: if_splits)
    then have ne: "?c \<noteq> n" using assms(1) by (auto simp: core_inv_def)
    obtain k2 where k2: "schedule_tail register k1 ?c = Some k2" "k' = k2\<lparr>intr := resume_intr k2 n\<rparr>"
      using assms(2)
      by (auto simp: manager_schedule_def interrupt_set_eq Let_def k1_def s' bind_eq_Some_conv split: if_splits)
    then show ?thesis
      using k1 ne q2
      by (auto simp: schedule_tail_def sched_register_def bind_eq_Some_conv split: status.splits if_splits)
  qed
  moreover have "current k' = ?c \<and> sched k' = q" if "r = None"
    using assms(2) s(1) unfolding that
    by (simp add: manager_schedule_def interrupt_set_eq Let_def split: if_splits) auto
  ultimately show ?thesis
    using s(1) by (intro exI [of _ r] exI [of _ q] conjI) (simp_all split: option.split)
qed

end

section \<open>Instances\<close>



lemma prio_start:
  "prio_ok prio_default" "prio_ready prio_default = {#}" "good_prio PRI_DEFAULT" "good_prio PRI_MIN"
  by (simp_all add: prio_ok_def prio_default_def prio_ready_def good_prio_def PRI_DEFAULT_def PRI_MIN_def)

lemma i64_add_exact:
  assumes "- (2 ^ 63) \<le> a + b" "a + b < 2 ^ 63"
  shows "i64_add a b = a + b"
  using assms by (simp add: i64_add_def signed_take_bit_int_eq_self)

lemma i64_add_wraps:
  assumes "2 ^ 63 \<le> a + b" "a + b < 2 ^ 64"
  shows "i64_add a b = a + b - 2 ^ 64"
proof -
  have "signed_take_bit 63 (a + b) = (a + b + 2 ^ 63) mod 2 ^ 64 - 2 ^ 63"
    by (simp add: signed_take_bit_eq_take_bit_shift take_bit_eq_mod)
  also have "(a + b + 2 ^ 63) mod 2 ^ 64 = (a + b + 2 ^ 63 - 2 ^ 64) mod 2 ^ 64"
    using mod_add_self2 [of "a + b + 2 ^ 63 - 2 ^ 64" "2 ^ 64"] by (simp only: diff_add_cancel)
  also have "\<dots> = a + b + 2 ^ 63 - 2 ^ 64" using assms by (intro mod_pos_pos_trivial) auto
  finally show ?thesis by (simp add: i64_add_def)
qed

section \<open>Properties\<close>



text \<open>The same holds with the first-come-first-served scheduler, for all priorities.\<close>

lemma fcfs_kernel_never_panics:
  assumes "picks_first pick" "reachable fcfs_register fcfs_schedule pick (\<lambda>_. True) fcfs_default k"
  shows "kernel_inv mset (\<lambda>_. True) (\<lambda>_. True) k \<and>
    (\<forall>a. enabled (\<lambda>_. True) k a \<longrightarrow> perform fcfs_register fcfs_schedule pick k a \<noteq> None)"
proof -
  have inv: "kernel_inv mset (\<lambda>_. True) (\<lambda>_. True) k"
    by (rule fcfs.reachable_inv [OF assms(2,1)]) (simp_all add: fcfs_default_def)
  show ?thesis using inv fcfs.perform_correct [OF inv _ assms(1)] by auto
qed

lemma schedule_top:
  assumes "core_inv prio_ready prio_ok good_prio k"
    and "manager_schedule prio_register prio_schedule k = Some k'"
  shows "\<forall>t \<in># prio_ready (sched k'). prio_of k' t \<le> prio_of k' (current k')"
proof -
  have k': "schedule_outcome (core_inv prio_ready prio_ok good_prio) k k'"
    using prio.schedule_correct [OF assms(1)] assms(2) by auto
  obtain r q where r: "prio_schedule (prio_of k) (current k) (status_of k (current k) = Running) (sched k) = Some (r, q)"
    "case r of None \<Rightarrow> current k' = current k \<and> sched k' = q
     | Some n \<Rightarrow> current k' = n \<and> (\<forall>t \<in># prio_ready (sched k'). t \<in># prio_ready q \<or>
         t = current k \<and> status_of k (current k) = Running)"
    using prio.schedule_follows [OF assms] by blast
  have ok: "prio_ok (sched k)" "\<forall>t \<in># prio_ready (sched k). good_prio (prio_of k t)"
    using assms(1) by (auto simp: core_inv_def)
  note cases = prio_schedule_cases [OF ok, of "current k" "status_of k (current k) = Running"]
  have "prio_of k t \<le> prio_of k (current k')" if "t \<in># prio_ready (sched k')" for t
  proof (cases r)
    case None
    then show ?thesis using cases r that by auto
  next
    case (Some n)
    then show ?thesis using cases r that by auto
  qed
  then show ?thesis by (simp only: schedule_outcomeD(9) [OF k']) blast
qed

text \<open>
  C8. Priority scheduling. After a call of \<open>schedule\<close> no ready thread has a higher priority
  than the current one, with the priorities as they are at that moment, donations included.
\<close>

theorem schedule_runs_highest:
  assumes "core_inv prio_ready prio_ok good_prio k"
  shows "\<exists>k'. manager_schedule prio_register prio_schedule k = Some k' \<and>
    core_inv prio_ready prio_ok good_prio k' \<and> status_of k' (current k') = Running \<and>
    (\<forall>t \<in># prio_ready (sched k'). prio_of k' t \<le> prio_of k' (current k'))"
proof -
  obtain k' where k': "manager_schedule prio_register prio_schedule k = Some k'"
    "schedule_outcome (core_inv prio_ready prio_ok good_prio) k k'"
    using prio.schedule_correct [OF assms] by blast
  note out = schedule_outcomeD [OF k'(2)]
  show ?thesis using k'(1) out(1,6) schedule_top [OF assms k'(1)] by blast
qed

theorem schedule_runs_highest_witness:
  "\<exists>k k'. manager_init prio_register prio_default True = Some k \<and>
    manager_schedule prio_register prio_schedule k = Some k' \<and>
    (\<forall>t \<in># prio_ready (sched k'). prio_of k' t \<le> prio_of k' (current k'))"
proof -
  obtain k where k: "manager_init prio_register prio_default True = Some k" "kernel_inv prio_ready prio_ok good_prio k"
    using prio.init_correct [OF prio_start] by blast
  then have "core_inv prio_ready prio_ok good_prio k" by (simp add: kernel_inv_def)
  from schedule_runs_highest [OF this] show ?thesis using k(1) by blast
qed

text \<open>
  A timer tick outside the race wakes up exactly the sleepers that are due: they leave
  the queue and become ready, all others stay in it, and the invariant is kept.
\<close>

lemma tick_wakes_due:
  assumes "kernel_inv prio_ready prio_ok good_prio k" "\<not> sleep_race k" "picks_first pick"
  shows "\<exists>k'. tick prio_register pick k = Some k' \<and> kernel_inv prio_ready prio_ok good_prio k' \<and>
    set (sleepers k') = {d \<in> set (sleepers k). i64_add (ticks k) 1 < sd_ticks d} \<and>
    (\<forall>d \<in> set (sleepers k). sd_ticks d \<le> i64_add (ticks k) 1 \<longrightarrow> status_of k' (sd_thread d) = Ready)"
  by (rule prio.tick_step [OF assms])

text \<open>
  The race of \<open>sleep\<close>. The function turns interrupts on again after it put the thread
  into the sleep queue and before it marks it as blocked. If a running thread asks to sleep for
  one tick while nobody else sleeps and the timer interrupts it there, the kernel panics: the
  assertion of \<open>wake_up\<close> fails.
\<close>

lemma sleep_race_panics:
  assumes "status_of k (current k) = Running" "sleepers k = []" "picks_first pick"
  shows "timer_trap reg sch pick (sleep_push k 1) = None"
proof -
  define d where "d = \<lparr>sd_ticks = i64_add (ticks k) 1, sd_thread = current k\<rparr>"
  have "pick [d] < length [d]" using assms(3) unfolding picks_first_def by blast
  then have p: "pick [d] = 0" by simp
  have "sleepers (sleep_push k 1) = [d]" "ticks (sleep_push k 1) = ticks k"
    "status_of (sleep_push k 1) (current k) = Running"
    using assms(1,2) by (simp_all add: sleep_push_def sq_push_def d_def)
  then have "tick reg pick (sleep_push k 1) = None"
    by (simp add: tick_def interrupt_set_eq Let_def sq_len_def sq_peek_time_def sq_pop_def p wake_up_def)
      (simp add: d_def)
  then show ?thesis by (simp add: timer_trap_def)
qed

text \<open>
  The wake-up time. A thread that sleeps for \<open>n\<close> ticks is queued for exactly \<open>n\<close> ticks
  from now as long as that is below \<open>2 ^ 63\<close>; beyond, the sum wraps around and the thread is
  due at the next tick.
\<close>

lemma sleep_wake_time:
  assumes "0 < n" "n < 2 ^ 63" "0 \<le> ticks k" "ticks k < 2 ^ 63 - 1"
  shows "\<exists>w. sleepers (sleep_push k n) = \<lparr>sd_ticks = w, sd_thread = current k\<rparr> # sleepers k \<and>
    (if ticks k + n < 2 ^ 63 then w = ticks k + n else w < i64_add (ticks k) 1)"
proof -
  have "i64_add (ticks k) n = (if ticks k + n < 2 ^ 63 then ticks k + n else ticks k + n - 2 ^ 64)"
    using assms i64_add_exact [of "ticks k" n] i64_add_wraps [of "ticks k" n] by auto
  moreover have "i64_add (ticks k) 1 = ticks k + 1" using assms by (intro i64_add_exact) auto
  ultimately show ?thesis using assms by (simp add: sleep_push_def sq_push_def)
qed

end
