(* ===== verification/Semaphore.thy ===== *)
theory Semaphore
  imports Threads
begin

text \<open>
  The counting semaphore (\<open>src/src/sync/sema.rs\<close>) on top of the thread manager. The
  deque of waiting threads is a list from front to back; a thread that has to wait is pushed to
  the front. \<open>down\<close> is a loop: \<open>sema_down_enter\<close> is the first round, \<open>sema_down_again\<close> the
  round after the thread was woken up; both end with the thread blocked inside the loop or
  with the semaphore taken. \<open>up\<close> is one transition, which may end in another thread.
\<close>

section \<open>State and operations\<close>

record sema =
  sem_value :: usize
  waiters :: "tid list"

definition sema_new :: "usize \<Rightarrow> sema" where
  "sema_new n = \<lparr>sem_value = n, waiters = []\<rparr>"

text \<open>
  The loop of \<open>get_maxpriority\<close> over the indices of the deque; \<open>\<ge>\<close> makes a later index
  win among equals.
\<close>

fun max_priority_loop :: "(tid \<Rightarrow> u32) \<Rightarrow> tid list \<Rightarrow> nat list \<Rightarrow> nat \<times> u32 \<Rightarrow> nat \<times> u32" where
  "max_priority_loop prio ws [] best = best"
| "max_priority_loop prio ws (i # is) (max_index, max_prio) =
     max_priority_loop prio ws is
       (if max_prio \<le> prio (ws ! i) then (i, prio (ws ! i)) else (max_index, max_prio))"

definition get_maxpriority :: "(tid \<Rightarrow> u32) \<Rightarrow> tid list \<Rightarrow> nat \<times> u32" where
  "get_maxpriority prio ws = max_priority_loop prio ws [0..<length ws] (0, 0)"

definition remove_at :: "nat \<Rightarrow> 'a list \<Rightarrow> 'a list" where
  "remove_at i xs = take i xs @ drop (Suc i) xs"

definition sema_up :: "'q reg_op \<Rightarrow> 'q sch_op \<Rightarrow> 'q kernel \<Rightarrow> sema \<Rightarrow> ('q kernel \<times> sema) option" where
  "sema_up reg sch k s = do {
     let (old, k) = interrupt_set k False;
     let count = sem_value s;
     let s = s\<lparr>sem_value := sem_value s + 1\<rparr>;
     if length (waiters s) \<noteq> 0 then do {
       rust_assert (count = 0);
       rust_assert (sem_value s \<noteq> 0);
       let (max_index, max_prio) = get_maxpriority (prio_of k) (waiters s);
       t \<leftarrow> slice_get (waiters s) max_index;
       let s = s\<lparr>waiters := remove_at max_index (waiters s)\<rparr>;
       k \<leftarrow> wake_up reg k t;
       if prio_of k (current k) < max_prio then do {
         k \<leftarrow> manager_schedule reg sch (snd (interrupt_set k old));
         Some (k, s)
       } else Some (snd (interrupt_set k old), s)
     } else Some (snd (interrupt_set k old), s)
   }"

text \<open>
  A round of the loop of \<open>down\<close>, with interrupts off. The first component says whether the
  semaphore was taken; otherwise the calling thread is blocked and another one is current.
\<close>

definition sema_down_round :: "'q reg_op \<Rightarrow> 'q sch_op \<Rightarrow> 'q kernel \<Rightarrow> sema \<Rightarrow> (bool \<times> 'q kernel \<times> sema) option" where
  "sema_down_round reg sch k s =
     (if sem_value s = 0 then do {
        let s = s\<lparr>waiters := current k # waiters s\<rparr>;
        k \<leftarrow> thread_block reg sch k;
        Some (False, k, s)
      } else Some (True, k, s\<lparr>sem_value := sem_value s - 1\<rparr>))"

definition sema_down_enter :: "'q reg_op \<Rightarrow> 'q sch_op \<Rightarrow> 'q kernel \<Rightarrow> sema \<Rightarrow> (bool \<times> 'q kernel \<times> sema) option" where
  "sema_down_enter reg sch k s = do {
     let (old, k) = interrupt_set k False;
     (taken, k, s) \<leftarrow> sema_down_round reg sch k s;
     Some (taken, if taken then snd (interrupt_set k old) else k, s)
   }"

definition sema_down_again :: "'q reg_op \<Rightarrow> 'q sch_op \<Rightarrow> bool \<Rightarrow> 'q kernel \<Rightarrow> sema \<Rightarrow> (bool \<times> 'q kernel \<times> sema) option" where
  "sema_down_again reg sch old k s = do {
     (taken, k, s) \<leftarrow> sema_down_round reg sch k s;
     Some (taken, if taken then snd (interrupt_set k old) else k, s)
   }"

section \<open>Choosing a waiter\<close>

text \<open>
  The chosen index holds the highest priority, and among equal ones it is the last, which is
  the thread that waits longest.
\<close>

lemma max_priority_loop_correct:
  assumes "n \<le> length ws" "0 < n"
  shows "\<exists>i p. max_priority_loop prio ws [0..<n] (0, 0) = (i, p) \<and> i < n \<and> prio (ws ! i) = p \<and>
    (\<forall>j<n. prio (ws ! j) \<le> p) \<and> (\<forall>j. i < j \<and> j < n \<longrightarrow> prio (ws ! j) < p)"
  using assms
proof (induction n)
  case 0
  then show ?case by simp
next
  case (Suc n)
  have app: "max_priority_loop prio ws (xs @ [n]) b =
      (case max_priority_loop prio ws xs b of (mi, mp) \<Rightarrow>
        if mp \<le> prio (ws ! n) then (n, prio (ws ! n)) else (mi, mp))" for xs b
  proof (induction xs arbitrary: b)
    case Nil
    then show ?case by (cases b) simp
  next
    case (Cons x xs)
    then show ?case by (cases b) simp
  qed
  show ?case
  proof (cases "n = 0")
    case True
    then show ?thesis by simp
  next
    case False
    then obtain i p where "max_priority_loop prio ws [0..<n] (0, 0) = (i, p)" "i < n" "prio (ws ! i) = p"
      "\<forall>j<n. prio (ws ! j) \<le> p" "\<forall>j. i < j \<and> j < n \<longrightarrow> prio (ws ! j) < p"
      using Suc by auto
    then show ?thesis by (auto simp: app less_Suc_eq not_le intro: order_trans)
  qed
qed

lemma get_maxpriority_correct:
  assumes "ws \<noteq> []" "get_maxpriority prio ws = (i, p)"
  shows "i < length ws" "prio (ws ! i) = p" "\<forall>t\<in>set ws. prio t \<le> p"
    "\<forall>j. i < j \<and> j < length ws \<longrightarrow> prio (ws ! j) < p"
proof -
  from max_priority_loop_correct [of "length ws" ws prio] assms
  have *: "i < length ws \<and> prio (ws ! i) = p \<and> (\<forall>j<length ws. prio (ws ! j) \<le> p) \<and>
    (\<forall>j. i < j \<and> j < length ws \<longrightarrow> prio (ws ! j) < p)"
    by (auto simp: get_maxpriority_def)
  then show "i < length ws" "prio (ws ! i) = p" "\<forall>j. i < j \<and> j < length ws \<longrightarrow> prio (ws ! j) < p"
    by blast+
  show "\<forall>t\<in>set ws. prio t \<le> p" using * by (metis in_set_conv_nth)
qed

section \<open>The invariant\<close>

text \<open>The waiters are blocked threads, none twice, and not the current one.\<close>

definition sema_inv :: "'q kernel \<Rightarrow> sema \<Rightarrow> bool" where
  "sema_inv k s \<longleftrightarrow> distinct (waiters s) \<and>
     (\<forall>t\<in>set (waiters s). t \<in> set (all_threads k) \<and> t \<noteq> current k \<and> status_of k t = Blocked)"

lemma remove_at_facts:
  assumes "i < length ws" "distinct ws"
  shows "set ws = insert (ws ! i) (set (remove_at i ws))" "ws ! i \<notin> set (remove_at i ws)"
    "distinct (remove_at i ws)"
  using remove_nth_facts [of i ws id] assms by (simp_all add: remove_at_def)

lemma sema_inv_kernel:
  assumes "sema_inv k s" "status_of k' (current k') = Running"
    "\<And>t. status_of k' t = Blocked \<longleftrightarrow> status_of k t = Blocked" "set (all_threads k) \<subseteq> set (all_threads k')"
  shows "sema_inv k' s"
proof -
  have "status_of k' t = Blocked \<Longrightarrow> t \<noteq> current k'" for t using assms(2) by auto
  then show ?thesis using assms(1,3,4) unfolding sema_inv_def by blast
qed

lemma same_rest_trans: "same_rest k k1 \<Longrightarrow> same_rest k1 k2 \<Longrightarrow> same_rest k k2"
  by (auto simp: same_rest_def)

lemma same_rest_set_status: "same_rest (set_status k t st) k' \<longleftrightarrow> same_rest k k'"
  "same_rest k (set_status k' t st) \<longleftrightarrow> same_rest k k'"
  by (auto simp: same_rest_def set_status_def)

lemma same_rest_simps [simp]:
  "same_rest (k\<lparr>intr := b\<rparr>) k' \<longleftrightarrow> same_rest k k'" "same_rest k (k'\<lparr>intr := b\<rparr>) \<longleftrightarrow> same_rest k k'"
  "same_rest k (k'\<lparr>sched := q\<rparr>) \<longleftrightarrow> same_rest k k'" "same_rest k k"
  by (auto simp: same_rest_def)

context scheduler
begin

text \<open>\<open>up\<close> without a waiter only counts.\<close>

lemma sema_up_free:
  assumes "waiters s = []"
  shows "sema_up register schedule k s = Some (k, s\<lparr>sem_value := sem_value s + 1\<rparr>)"
  using assms by (simp add: sema_up_def interrupt_set_eq)

lemma sema_up_panics:
  assumes "waiters s \<noteq> []" "sem_value s \<noteq> 0"
  shows "sema_up register schedule k s = None"
  using assms by (simp add: sema_up_def interrupt_set_eq Let_def)

text \<open>\<open>up\<close> with a waiter wakes up the one with the highest priority.\<close>

lemma sema_up_wakes:
  assumes "inv_k k" "sema_inv k s" "waiters s \<noteq> []" "sem_value s = 0" "status_of k (current k) = Running"
    and "get_maxpriority (prio_of k) (waiters s) = (i, p)"
  shows "\<exists>k'. sema_up register schedule k s = Some (k', \<lparr>sem_value = 1, waiters = remove_at i (waiters s)\<rparr>) \<and>
    inv_k k' \<and> sema_inv k' \<lparr>sem_value = 1, waiters = remove_at i (waiters s)\<rparr> \<and>
    status_of k' (current k') = Running \<and>
    status_of k' (waiters s ! i) \<in> {Ready, Running} \<and> set (all_threads k') = set (all_threads k) \<and>
    (\<forall>t. t \<noteq> waiters s ! i \<longrightarrow> (status_of k' t = Blocked \<longleftrightarrow> status_of k t = Blocked)) \<and>
    same_rest k k' \<and>
    (if prio_of k (current k) < p then \<exists>k1. inv_k k1 \<and> manager_schedule register schedule k1 = Some k'
     else current k' = current k \<and> intr k' = intr k)"
proof -
  let ?t = "waiters s ! i" and ?s = "\<lparr>sem_value = 1, waiters = remove_at i (waiters s)\<rparr>"
  note m = get_maxpriority_correct [OF assms(3,6)]
  have d: "distinct (waiters s)" using assms(2) by (simp add: sema_inv_def)
  note rem = remove_at_facts [OF m(1) d]
  have t: "?t \<in> set (all_threads k)" "?t \<noteq> current k" "status_of k ?t = Blocked"
    using assms(2) m(1) by (simp_all add: sema_inv_def)
  have inv0: "inv_k (k\<lparr>intr := False\<rparr>)" using assms(1) by simp
  from wake_up_correct [OF inv0, of ?t] t obtain q where
    w: "wake_up register (k\<lparr>intr := False\<rparr>) ?t = Some ((set_status (k\<lparr>intr := False\<rparr>) ?t Ready)\<lparr>sched := q\<rparr>)"
    "inv_k ((set_status (k\<lparr>intr := False\<rparr>) ?t Ready)\<lparr>sched := q\<rparr>)" by auto
  define k1 where "k1 = (set_status (k\<lparr>intr := False\<rparr>) ?t Ready)\<lparr>sched := q, intr := intr k\<rparr>"
  have inv1: "inv_k k1" using w(2) core_inv_simps(4) [of ready ok good] unfolding k1_def by blast
  have k1: "current k1 = current k" "all_threads k1 = all_threads k" "prio_of k1 = prio_of k"
    "status_of k1 u = (if u = ?t then Ready else status_of k u)" for u by (simp_all add: k1_def)
  have rest1: "same_rest k k1" by (simp add: k1_def same_rest_set_status)
  have seq: "s\<lparr>sem_value := 1, waiters := ws\<rparr> = \<lparr>sem_value = 1, waiters = ws\<rparr>" for ws by simp
  have eq: "sema_up register schedule k s =
      (if prio_of k (current k) < p
       then do { k \<leftarrow> manager_schedule register schedule k1; Some (k, ?s) } else Some (k1, ?s))"
    using assms(3,4,6) m(1) w(1)
    by (simp add: sema_up_def interrupt_set_eq k1_def Let_def seq)
  have s1: "sema_inv k1 ?s" using assms(2) rem t(2) by (auto simp: sema_inv_def k1)
  show ?thesis
  proof (cases "prio_of k (current k) < p")
    case False
    then show ?thesis using eq inv1 s1 t(2) assms(5) rest1 by (intro exI [of _ k1]) (simp add: k1, simp add: k1_def)
  next
    case True
    from schedule_correct [OF inv1] obtain k2 where
      k2: "manager_schedule register schedule k1 = Some k2" "schedule_outcome inv_k k1 k2" by blast
    note out = schedule_outcomeD [OF k2(2)]
    have all: "set (all_threads k2) = set (all_threads k1)" using out(8) assms(5) t(2) by (simp add: k1)
    have nb: "status_of k2 u = Blocked \<longleftrightarrow> status_of k1 u = Blocked" for u by (rule schedule_outcomeD(7) [OF k2(2)])
    have pr: "same_rest k k2"
      using same_rest_trans [OF rest1] k2(2) by (simp add: schedule_outcome_def)
    have "?t = current k2 \<or> ?t \<in># ready (sched k2)"
    proof -
      have "?t \<in> set (all_threads k2)" using t(1) all by (simp add: k1)
      moreover have "status_of k2 ?t \<noteq> Blocked" using nb [of ?t] by (simp add: k1)
      ultimately show ?thesis using out(1) by (auto simp: core_inv_def)
    qed
    then have "status_of k2 ?t \<in> {Ready, Running}" using out(1,6) by (auto simp: core_inv_def)
    moreover have "sema_inv k2 ?s"
      using sema_inv_kernel [OF s1 out(6) nb] all by simp
    ultimately show ?thesis
      using True eq k2(1) out(1,6) all nb pr inv1 by (intro exI [of _ k2]) (auto simp: k1)
  qed
qed

lemma sema_down_taken:
  assumes "sem_value s \<noteq> 0"
  shows "sema_down_enter register schedule k s = Some (True, k, s\<lparr>sem_value := sem_value s - 1\<rparr>)"
  using assms by (simp add: sema_down_enter_def sema_down_round_def interrupt_set_eq)

lemma sema_round_waits:
  assumes "inv_k k" "sema_inv k s" "sem_value s = 0" "current k \<noteq> idle_tid"
  shows "\<exists>k'. sema_down_round register schedule k s =
      Some (False, k', s\<lparr>waiters := current k # waiters s\<rparr>) \<and> inv_k k' \<and>
    sema_inv k' (s\<lparr>waiters := current k # waiters s\<rparr>) \<and> current k' \<noteq> current k \<and>
    status_of k' (current k') = Running \<and> resume_intr k' (current k) = intr k \<and> same_rest k k' \<and>
    set (all_threads k') = set (all_threads k)"
proof -
  let ?s = "s\<lparr>waiters := current k # waiters s\<rparr>"
  from block_correct [OF assms(1,4)] obtain k' where k': "thread_block register schedule k = Some k'"
    "schedule_outcome inv_k (set_status k (current k) Blocked) k'" "current k' \<noteq> current k" by blast
  note out = schedule_outcomeD [OF k'(2)]
  have nb: "status_of k' u = Blocked \<longleftrightarrow> u = current k \<or> status_of k u = Blocked" for u
    using schedule_outcomeD(7) [OF k'(2), of u] by auto
  have all: "set (all_threads k') = set (all_threads k)" using out(8) by simp
  have "current k \<notin> set (waiters s)" using assms(2) by (auto simp: sema_inv_def)
  moreover have "current k \<in> set (all_threads k)" using assms(1) by (simp add: core_inv_def)
  moreover have "status_of k' (current k') \<noteq> Blocked" using out(6) by simp
  ultimately have "sema_inv k' ?s"
    using assms(2) nb all k'(3) by (auto simp: sema_inv_def)
  moreover have "resume_intr k' (current k) = intr k"
    using k'(2,3) by (simp add: schedule_outcome_def)
  moreover have "sema_down_round register schedule k s = Some (False, k', ?s)"
    using assms(3) k'(1) by (simp add: sema_down_round_def)
  moreover have "same_rest k k'" using k'(2) by (simp add: schedule_outcome_def same_rest_set_status)
  ultimately show ?thesis using out(1,6) k'(3) all by (intro exI [of _ k']) simp
qed

lemma sema_down_waits:
  assumes "inv_k k" "sema_inv k s" "sem_value s = 0" "current k \<noteq> idle_tid"
  shows "\<exists>k'. sema_down_enter register schedule k s =
      Some (False, k', s\<lparr>waiters := current k # waiters s\<rparr>) \<and> inv_k k' \<and>
    sema_inv k' (s\<lparr>waiters := current k # waiters s\<rparr>) \<and> current k' \<noteq> current k \<and>
    status_of k' (current k') = Running \<and> resume_intr k' (current k) = False \<and> same_rest k k' \<and>
    set (all_threads k') = set (all_threads k)"
proof -
  have "sema_inv (k\<lparr>intr := False\<rparr>) s" using assms(2) by (simp add: sema_inv_def)
  from sema_round_waits [OF _ this assms(3)] assms(1,4) show ?thesis
    by (auto simp: sema_down_enter_def interrupt_set_eq)
qed

end

section \<open>The properties\<close>

lemma start_state:
  obtains k where "manager_init prio_register prio_default True = Some k"
    "core_inv prio_ready prio_ok good_prio k" "current k = initial_tid" "status_of k initial_tid = Running"
    "all_threads k = [initial_tid, idle_tid]"
proof -
  obtain k where k: "manager_init prio_register prio_default True = Some k" "kernel_inv prio_ready prio_ok good_prio k"
    using prio.init_correct [OF prio_start] by blast
  then have "core_inv prio_ready prio_ok good_prio k" by (simp add: kernel_inv_def)
  moreover have "current k = initial_tid" "status_of k initial_tid = Running" "all_threads k = [initial_tid, idle_tid]"
    using k(1) by (auto simp: manager_init_def manager_register_def sched_register_def bind_eq_Some_conv
        status_of_def initial_tid_def idle_tid_def)
  ultimately show ?thesis using that k(1) by blast
qed

text \<open>
  C35. \<open>Semaphore::up\<close> with the priority scheduler, on a semaphore of value 0 with waiters. It
  does not panic and wakes up exactly one waiter, one of the highest priority and among those
  the one that waits longest (the last in the deque). It keeps the invariants of the kernel and
  of the semaphore; if the woken thread has a higher priority than the caller, the thread that
  runs afterwards has at least the priority of the woken one, otherwise the caller goes on.
\<close>

theorem sema_up_correct:
  assumes "core_inv prio_ready prio_ok good_prio k" "status_of k (current k) = Running"
    "sema_inv k s" "waiters s \<noteq> []" "sem_value s = 0"
  shows "\<exists>k' i. let w = waiters s ! i in i < length (waiters s) \<and>
    sema_up prio_register prio_schedule k s = Some (k', \<lparr>sem_value = 1, waiters = remove_at i (waiters s)\<rparr>) \<and>
    (\<forall>t \<in> set (waiters s). prio_of k t \<le> prio_of k w) \<and>
    (\<forall>j. i < j \<and> j < length (waiters s) \<longrightarrow> prio_of k (waiters s ! j) < prio_of k w) \<and>
    core_inv prio_ready prio_ok good_prio k' \<and> sema_inv k' \<lparr>sem_value = 1, waiters = remove_at i (waiters s)\<rparr> \<and>
    status_of k' w \<in> {Ready, Running} \<and>
    (\<forall>t. t \<noteq> w \<longrightarrow> (status_of k' t = Blocked \<longleftrightarrow> status_of k t = Blocked)) \<and>
    (if prio_of k (current k) < prio_of k w then prio_of k w \<le> prio_of k (current k')
     else current k' = current k \<and> intr k' = intr k)"
proof -
  obtain i p where ip: "get_maxpriority (prio_of k) (waiters s) = (i, p)" by fastforce
  note m = get_maxpriority_correct [OF assms(4) ip]
  obtain k' where k': "sema_up prio_register prio_schedule k s = Some (k', \<lparr>sem_value = 1, waiters = remove_at i (waiters s)\<rparr>)"
    "core_inv prio_ready prio_ok good_prio k'" "sema_inv k' \<lparr>sem_value = 1, waiters = remove_at i (waiters s)\<rparr>"
    "status_of k' (waiters s ! i) \<in> {Ready, Running}" "set (all_threads k') = set (all_threads k)"
    "\<forall>t. t \<noteq> waiters s ! i \<longrightarrow> (status_of k' t = Blocked \<longleftrightarrow> status_of k t = Blocked)"
    "same_rest k k'"
    "if prio_of k (current k) < p
     then \<exists>k1. core_inv prio_ready prio_ok good_prio k1 \<and> manager_schedule prio_register prio_schedule k1 = Some k'
     else current k' = current k \<and> intr k' = intr k"
    using prio.sema_up_wakes [OF assms(1,3,4,5,2) ip] by blast
  have "prio_of k (waiters s ! i) \<le> prio_of k (current k')" if hi: "prio_of k (current k) < p"
  proof -
    obtain k1 where k1: "core_inv prio_ready prio_ok good_prio k1"
      "manager_schedule prio_register prio_schedule k1 = Some k'" using k'(8) hi by auto
    have "waiters s ! i \<in> set (all_threads k')" using assms(3) m(1) k'(5) by (simp add: sema_inv_def)
    then have "waiters s ! i = current k' \<or> waiters s ! i \<in># prio_ready (sched k')"
      using k'(2,4) by (auto simp: core_inv_def)
    then show ?thesis using schedule_top [OF k1] same_rest_prio [OF k'(7)] by auto
  qed
  then show ?thesis using m k' by (intro exI [of _ k'] exI [of _ i]) (simp add: Let_def)
qed

text \<open>A state with one waiter: the thread \<open>2\<close> was spawned with priority 40 and blocked.\<close>

theorem sema_up_correct_witness:
  "\<exists>k s k' i. sema_inv k s \<and> waiters s \<noteq> [] \<and> i < length (waiters s) \<and>
    sema_up prio_register prio_schedule k s = Some (k', \<lparr>sem_value = 1, waiters = remove_at i (waiters s)\<rparr>)"
proof -
  obtain k where k: "manager_init prio_register prio_default True = Some k"
    "core_inv prio_ready prio_ok good_prio k" "current k = initial_tid" "status_of k initial_tid = Running"
    "all_threads k = [initial_tid, idle_tid]" by (rule start_state)
  have "current k \<noteq> idle_tid" using k(3) by (simp add: initial_tid_def idle_tid_def)
  from prio.sema_down_waits [OF k(2), of "sema_new 0"] this k(3) obtain k' where
    k': "core_inv prio_ready prio_ok good_prio k'" "sema_inv k' \<lparr>sem_value = 0, waiters = [initial_tid]\<rparr>"
    "status_of k' (current k') = Running"
    by (auto simp: sema_new_def sema_inv_def)
  then obtain k2 i where "i < 1" "sema_up prio_register prio_schedule k' \<lparr>sem_value = 0, waiters = [initial_tid]\<rparr> =
      Some (k2, \<lparr>sem_value = 1, waiters = remove_at i [initial_tid]\<rparr>)"
    using sema_up_correct [OF k'(1,3,2)] by (auto simp: Let_def)
  then show ?thesis using k'(2)
    by (intro exI [of _ k'] exI [of _ "\<lparr>sem_value = 0, waiters = [initial_tid]\<rparr>"] exI [of _ k2] exI [of _ i]) simp
qed

text \<open>
  \<open>Semaphore::down\<close>. With a positive value it takes one unit and changes nothing else.
  With the value 0 it does not return: the thread becomes the newest waiter and is blocked,
  another thread runs, and the invariants of the kernel and of the semaphore hold; when the
  thread is woken up while the value is positive, it takes one unit and restores the interrupt
  level of its call.
\<close>

lemma sema_down_correct:
  assumes "core_inv prio_ready prio_ok good_prio k" "status_of k (current k) = Running"
    "current k \<noteq> idle_tid" "sema_inv k s"
  shows "if sem_value s \<noteq> 0
    then sema_down_enter prio_register prio_schedule k s = Some (True, k, s\<lparr>sem_value := sem_value s - 1\<rparr>)
    else \<exists>k'. let s' = s\<lparr>waiters := current k # waiters s\<rparr> in
      sema_down_enter prio_register prio_schedule k s = Some (False, k', s') \<and>
      core_inv prio_ready prio_ok good_prio k' \<and> sema_inv k' s' \<and> current k' \<noteq> current k \<and>
      status_of k' (current k') = Running \<and> status_of k' (current k) = Blocked \<and> \<not> resume_intr k' (current k) \<and>
      (\<forall>k2 s2. sem_value s2 \<noteq> 0 \<longrightarrow> sema_down_again prio_register prio_schedule (intr k) k2 s2 =
         Some (True, k2\<lparr>intr := intr k\<rparr>, s2\<lparr>sem_value := sem_value s2 - 1\<rparr>))"
proof (cases "sem_value s = 0")
  case False
  then show ?thesis by (simp add: prio.sema_down_taken)
next
  case True
  obtain k' where k': "sema_down_enter prio_register prio_schedule k s = Some (False, k', s\<lparr>waiters := current k # waiters s\<rparr>)"
    "core_inv prio_ready prio_ok good_prio k'" "sema_inv k' (s\<lparr>waiters := current k # waiters s\<rparr>)"
    "current k' \<noteq> current k" "status_of k' (current k') = Running" "resume_intr k' (current k) = False"
    using prio.sema_down_waits [OF assms(1,4) True assms(3)] by blast
  moreover have "status_of k' (current k) = Blocked" using k'(3) by (simp add: sema_inv_def)
  ultimately show ?thesis using True
    by (intro iffD2 [OF if_not_P] exI [of _ k'])
      (simp_all add: Let_def sema_down_again_def sema_down_round_def interrupt_set_eq)
qed

text \<open>
  Two calls of \<open>up\<close> in a row. If two threads wait and the first \<open>up\<close> returns before the
  woken thread has taken its unit, the second one panics on \<open>assert_eq!(count, 0)\<close>: an
  ordinary use of a counting semaphore, such as two units produced by a thread of a higher
  priority than both waiters, stops the kernel. This holds with every scheduler.
\<close>

lemma sema_up_twice_panics:
  assumes "1 < length (waiters s)" "sema_up reg sch k s = Some (k', s')" "sem_value s + 1 \<noteq> 0"
  shows "sema_up reg sch k' s' = None"
proof -
  have ne: "waiters s \<noteq> []" using assms(1) by auto
  obtain i p where ip: "get_maxpriority (prio_of (k\<lparr>intr := False\<rparr>)) (waiters s) = (i, p)" by fastforce
  note m = get_maxpriority_correct [OF ne ip]
  have "s' = s\<lparr>sem_value := sem_value s + 1, waiters := remove_at i (waiters s)\<rparr>"
    using assms(2) ne ip m(1)
    by (auto simp: sema_up_def interrupt_set_eq Let_def bind_eq_Some_conv split: if_splits prod.splits)
  moreover have "length (remove_at i (waiters s)) = length (waiters s) - 1"
    using m(1) by (simp add: remove_at_def)
  ultimately have "waiters s' \<noteq> []" "sem_value s' \<noteq> 0" using assms(1,3) by auto
  then show ?thesis by (simp add: sema_up_def interrupt_set_eq Let_def)
qed

text \<open>Two blocked threads of the caller's priority wait; the caller goes on after the first \<open>up\<close>.\<close>

end
