(* ===== verification/Sleep_Lock.thy ===== *)
theory Sleep_Lock
  imports Semaphore
begin

text \<open>
  The sleep lock with priority donation (\<open>src/src/sync/sleep.rs\<close> and the donation functions of
  \<open>src/src/thread/imp.rs\<close>).

  \<open>acquire\<close> and \<open>release\<close> call \<open>Manager::schedule\<close> in several places, and other threads run
  there. Both are therefore cut into the steps between two such points: \<open>acquire_pc\<close> and
  \<open>lock_pc\<close> say where a thread is, and a step is made by the current thread. The recursion of
  \<open>find_and_donate\<close> is a stack of frames, since it may be suspended in every round.
\<close>

section \<open>Donations\<close>

definition upd_thread :: "'q kernel \<Rightarrow> tid \<Rightarrow> (thread \<Rightarrow> thread) \<Rightarrow> 'q kernel" where
  "upd_thread k t f = k\<lparr>threads := (threads k)(t := f (threads k t))\<rparr>"

definition add_donation :: "'q kernel \<Rightarrow> tid \<Rightarrow> donation \<Rightarrow> 'q kernel" where
  "add_donation k t newitem = upd_thread k t (\<lambda>x. x\<lparr>t_donationq := t_donationq x @ [newitem]\<rparr>)"

definition delete_donation :: "'q kernel \<Rightarrow> tid \<Rightarrow> u32 \<Rightarrow> donation option \<times> 'q kernel" where
  "delete_donation k t l = (find (\<lambda>x. lockid x = l) (t_donationq (threads k t)),
     upd_thread k t (\<lambda>x. x\<lparr>t_donationq := filter (\<lambda>x. lockid x \<noteq> l) (t_donationq x)\<rparr>))"

definition donate :: "'q kernel \<Rightarrow> tid \<Rightarrow> tid \<Rightarrow> 'q kernel" where
  "donate k d a = upd_thread k a (\<lambda>x. x\<lparr>t_priority := prio_of k d\<rparr>)"

text \<open>\<open>donation_wrapped\<close> up to its call of \<open>schedule\<close>; the flag says whether it donates.\<close>

definition donation_record :: "'q kernel \<Rightarrow> tid \<Rightarrow> tid \<Rightarrow> u32 \<Rightarrow> bool \<times> 'q kernel" where
  "donation_record k d a l = (let current_priority = prio_of k d; holder_priority = prio_of k a in
     if holder_priority < current_priority then
       let k = donate k d a;
           dd = \<lparr>donner = d, acceptor = a, donner_priority = current_priority,
                 prev_priority = holder_priority, is_donner = True, lockid = l\<rparr>;
           k = add_donation k d dd;
           k = add_donation k a (dd\<lparr>is_donner := False\<rparr>)
       in (True, k)
     else (False, k))"

definition donation_wrapped :: "'q reg_op \<Rightarrow> 'q sch_op \<Rightarrow> 'q kernel \<Rightarrow> tid \<Rightarrow> tid \<Rightarrow> u32 \<Rightarrow> 'q kernel option" where
  "donation_wrapped reg sch k d a l = (let (donated, k) = donation_record k d a l in
     if donated then manager_schedule reg sch k else Some k)"

text \<open>
  \<open>FD_enter d\<close> is a call of \<open>find_and_donate\<close> for \<open>d\<close> that has not copied the queue yet,
  \<open>FD_items d is\<close> one with the items \<open>is\<close> of its copy still to visit.
\<close>

datatype fd_frame = FD_enter tid | FD_items tid "donation list"

fun find_and_donate_step ::
  "'q reg_op \<Rightarrow> 'q sch_op \<Rightarrow> u32 \<Rightarrow> 'q kernel \<Rightarrow> fd_frame list \<Rightarrow> ('q kernel \<times> fd_frame list) option" where
  "find_and_donate_step reg sch l k [] = Some (k, [])"
| "find_and_donate_step reg sch l k (FD_enter d # st) = Some (k, FD_items d (t_donationq (threads k d)) # st)"
| "find_and_donate_step reg sch l k (FD_items d [] # st) = Some (k, st)"
| "find_and_donate_step reg sch l k (FD_items d (i # is) # st) =
     (if is_donner i \<and> lockid i \<noteq> l then do {
        k \<leftarrow> donation_wrapped reg sch k d (acceptor i) l;
        Some (k, FD_enter (acceptor i) # FD_items d is # st)
      } else Some (k, FD_items d is # st))"

section \<open>The lock\<close>

record sleep_lock =
  sl_id :: u32
  sl_inner :: sema
  sl_holder :: "tid option"

definition sleep_default :: "u32 \<Rightarrow> u32 \<times> sleep_lock" where
  "sleep_default global_lockid = (let g = global_lockid + 1 in
     (g, \<lparr>sl_id = g, sl_inner = sema_new 1, sl_holder = None\<rparr>))"

datatype acquire_pc =
    Acq_find "fd_frame list"
  | Acq_down
  | Acq_wait bool
  | Acq_holder

datatype lock_pc = Outside | Acquiring acquire_pc | Holding | Rel_up | Rel_schedule

text \<open>\<open>acquire\<close>: the first step looks at the holder, the others go on from where the thread is.\<close>

definition acquire_start :: "'q reg_op \<Rightarrow> 'q sch_op \<Rightarrow> 'q kernel \<Rightarrow> sleep_lock \<Rightarrow> ('q kernel \<times> lock_pc) option" where
  "acquire_start reg sch k lk = (case sl_holder lk of
     Some a \<Rightarrow> do {
       k \<leftarrow> donation_wrapped reg sch k (current k) a (sl_id lk);
       Some (k, Acquiring (Acq_find [FD_enter a]))
     }
   | None \<Rightarrow> Some (k, Acquiring Acq_down))"

fun acquire_step ::
  "'q reg_op \<Rightarrow> 'q sch_op \<Rightarrow> 'q kernel \<Rightarrow> sleep_lock \<Rightarrow> acquire_pc \<Rightarrow> ('q kernel \<times> sleep_lock \<times> lock_pc) option" where
  "acquire_step reg sch k lk (Acq_find []) = Some (k, lk, Acquiring Acq_down)"
| "acquire_step reg sch k lk (Acq_find (f # st)) = do {
     (k, st) \<leftarrow> find_and_donate_step reg sch (sl_id lk) k (f # st);
     Some (k, lk, Acquiring (Acq_find st))
   }"
| "acquire_step reg sch k lk Acq_down = do {
     let old = intr k;
     (taken, k, s) \<leftarrow> sema_down_enter reg sch k (sl_inner lk);
     Some (k, lk\<lparr>sl_inner := s\<rparr>, Acquiring (if taken then Acq_holder else Acq_wait old))
   }"
| "acquire_step reg sch k lk (Acq_wait old) = do {
     (taken, k, s) \<leftarrow> sema_down_again reg sch old k (sl_inner lk);
     Some (k, lk\<lparr>sl_inner := s\<rparr>, Acquiring (if taken then Acq_holder else Acq_wait old))
   }"
| "acquire_step reg sch k lk Acq_holder = Some (k, lk\<lparr>sl_holder := Some (current k)\<rparr>, Holding)"

text \<open>
  \<open>release\<close>: the priority is restored and the holder taken, then \<open>up\<close>, then \<open>schedule\<close>.
\<close>

definition forget_donner :: "'q kernel \<Rightarrow> tid \<Rightarrow> u32 \<Rightarrow> 'q kernel" where
  "forget_donner k d l = (let
     c = current k;
     k = snd (delete_donation k d l);
     k = upd_thread k c (\<lambda>x. x\<lparr>t_donationq := filter (\<lambda>i. donner i \<noteq> d) (t_donationq x)\<rparr>)
   in upd_thread k d (\<lambda>x. x\<lparr>t_donationq := filter (\<lambda>i. acceptor i \<noteq> c) (t_donationq x)\<rparr>))"

definition store_prev :: "'q kernel \<Rightarrow> u32 \<Rightarrow> u32 \<Rightarrow> 'q kernel" where
  "store_prev k l prev = (let c = current k in
     if l < fst (t_stored_prev (threads k c))
     then upd_thread k c (\<lambda>x. x\<lparr>t_stored_prev := (l, prev)\<rparr>) else k)"

definition final_priority :: "thread \<Rightarrow> u32" where
  "final_priority x = foldl (\<lambda>p i. max p (donner_priority i)) (snd (t_stored_prev x)) (t_donationq x)"

definition restore_priority :: "'q kernel \<Rightarrow> u32 \<Rightarrow> 'q kernel" where
  "restore_priority k l = (let c = current k; (ret, k) = delete_donation k c l in
     case ret of
       None \<Rightarrow> k
     | Some item \<Rightarrow> (let
         k = forget_donner k (donner item) l;
         k = store_prev k l (prev_priority item)
       in upd_thread k c (\<lambda>x. x\<lparr>t_priority := final_priority x\<rparr>)))"

definition apply_setted :: "'q kernel \<Rightarrow> 'q kernel" where
  "apply_setted k = (let c = current k in
     case t_priority_setted (threads k c) of
       None \<Rightarrow> k
     | Some setted \<Rightarrow> upd_thread k c (\<lambda>x. x\<lparr>t_priority := setted\<rparr>))"

definition release_start :: "'q kernel \<Rightarrow> sleep_lock \<Rightarrow> ('q kernel \<times> sleep_lock \<times> lock_pc) option" where
  "release_start k lk = do {
     h \<leftarrow> sl_holder lk;
     rust_assert (h = current k);
     let k = restore_priority k (sl_id lk);
     let k = apply_setted k;
     Some (k, lk\<lparr>sl_holder := None\<rparr>, Rel_up)
   }"

definition release_up :: "'q reg_op \<Rightarrow> 'q sch_op \<Rightarrow> 'q kernel \<Rightarrow> sleep_lock \<Rightarrow> ('q kernel \<times> sleep_lock \<times> lock_pc) option" where
  "release_up reg sch k lk = do {
     (k, s) \<leftarrow> sema_up reg sch k (sl_inner lk);
     Some (k, lk\<lparr>sl_inner := s\<rparr>, Rel_schedule)
   }"

definition release_schedule :: "'q reg_op \<Rightarrow> 'q sch_op \<Rightarrow> 'q kernel \<Rightarrow> sleep_lock \<Rightarrow> ('q kernel \<times> sleep_lock \<times> lock_pc) option" where
  "release_schedule reg sch k lk = do {
     k \<leftarrow> manager_schedule reg sch k;
     Some (k, lk, Outside)
   }"

text \<open>
  The next step of the current thread at the lock: outside it may call \<open>acquire\<close>, while
  holding the lock it may call \<open>release\<close>.
\<close>

fun lock_step ::
  "'q reg_op \<Rightarrow> 'q sch_op \<Rightarrow> 'q kernel \<Rightarrow> sleep_lock \<Rightarrow> lock_pc \<Rightarrow> ('q kernel \<times> sleep_lock \<times> lock_pc) option" where
  "lock_step reg sch k lk Outside = do {
     (k, pc) \<leftarrow> acquire_start reg sch k lk;
     Some (k, lk, pc)
   }"
| "lock_step reg sch k lk (Acquiring pc) = acquire_step reg sch k lk pc"
| "lock_step reg sch k lk Holding = release_start k lk"
| "lock_step reg sch k lk Rel_up = release_up reg sch k lk"
| "lock_step reg sch k lk Rel_schedule = release_schedule reg sch k lk"

text \<open>
  All interleavings of threads at one lock: steps of the current thread (other than the idle
  thread, which uses no lock) and preemptions. The kernel may have any threads at the start.
\<close>

inductive lock_run ::
  "'q reg_op \<Rightarrow> 'q sch_op \<Rightarrow> 'q kernel \<times> sleep_lock \<times> (tid \<Rightarrow> lock_pc) \<Rightarrow> 'q kernel \<times> sleep_lock \<times> (tid \<Rightarrow> lock_pc) \<Rightarrow> bool"
  for reg sch start where
  lock_run_start: "lock_run reg sch start start"
| lock_run_step: "lock_run reg sch start (k, lk, pcs) \<Longrightarrow> current k \<noteq> idle_tid \<Longrightarrow>
    lock_step reg sch k lk (pcs (current k)) = Some (k', lk', pc) \<Longrightarrow>
    lock_run reg sch start (k', lk', pcs(current k := pc))"
| lock_run_preempt: "lock_run reg sch start (k, lk, pcs) \<Longrightarrow> manager_schedule reg sch k = Some k' \<Longrightarrow>
    lock_run reg sch start (k', lk, pcs)"


section \<open>The invariant of the lock\<close>

text \<open>All priorities that are stored anywhere are ones the scheduler can handle.\<close>

definition thread_good :: "(u32 \<Rightarrow> bool) \<Rightarrow> thread \<Rightarrow> bool" where
  "thread_good good x \<longleftrightarrow> good (t_priority x) \<and> (\<forall>p. t_priority_setted x = Some p \<longrightarrow> good p) \<and>
     good (snd (t_stored_prev x)) \<and> (\<forall>i\<in>set (t_donationq x). good (donner_priority i) \<and> good (prev_priority i))"

definition lock_ok :: "('q \<Rightarrow> tid multiset) \<Rightarrow> ('q \<Rightarrow> bool) \<Rightarrow> (u32 \<Rightarrow> bool) \<Rightarrow> sema \<Rightarrow> 'q kernel \<Rightarrow> bool" where
  "lock_ok ready ok good s k \<longleftrightarrow> core_inv ready ok good k \<and> status_of k (current k) = Running \<and>
     sema_inv k s \<and> (\<forall>t. thread_good good (threads k t))"

text \<open>
  The threads that own the unit of the semaphore. The lock is free and nobody owns it, or it is
  taken and exactly one thread does; the holder is the thread inside the critical section.
\<close>

definition owners :: "(tid \<Rightarrow> lock_pc) \<Rightarrow> tid set" where
  "owners pcs = {t. pcs t \<in> {Acquiring Acq_holder, Holding, Rel_up}}"

definition lock_state_ok :: "sleep_lock \<Rightarrow> (tid \<Rightarrow> lock_pc) \<Rightarrow> bool" where
  "lock_state_ok lk pcs \<longleftrightarrow>
     (sem_value (sl_inner lk) = 1 \<and> owners pcs = {} \<or> sem_value (sl_inner lk) = 0 \<and> (\<exists>t. owners pcs = {t})) \<and>
     (\<forall>t. sl_holder lk = Some t \<longleftrightarrow> pcs t = Holding)"

lemma upd_thread_simps [simp]:
  "current (upd_thread k t f) = current k" "all_threads (upd_thread k t f) = all_threads k"
  "sched (upd_thread k t f) = sched k" "next_tid (upd_thread k t f) = next_tid k"
  "intr (upd_thread k t f) = intr k"
  "threads (upd_thread k t f) = (threads k)(t := f (threads k t))"
  by (simp_all add: upd_thread_def)

lemma status_of_upd: "t_status (f (threads k t)) = t_status (threads k t) \<Longrightarrow>
    status_of (upd_thread k t f) = status_of k"
  by (auto simp: status_of_def)

lemma prio_of_upd: "prio_of (upd_thread k t f) = (prio_of k)(t := t_priority (f (threads k t)))"
  by (auto simp: prio_of_def)

lemma lock_ok_upd:
  assumes "lock_ok ready ok good s k" "t_status (f (threads k t)) = t_status (threads k t)"
    "t_stack_word (f (threads k t)) = t_stack_word (threads k t)" "thread_good good (f (threads k t))"
  shows "lock_ok ready ok good s (upd_thread k t f)"
  using assms status_of_upd [of f k t]
  by (simp add: lock_ok_def core_inv_def sema_inv_def prio_of_upd thread_good_def overflow_def)

lemma lock_ok_donation_record:
  assumes "lock_ok ready ok good s k"
  shows "lock_ok ready ok good s (snd (donation_record k d a l))" "current (snd (donation_record k d a l)) = current k"
proof -
  have g: "thread_good good (threads k t)" for t using assms by (simp add: lock_ok_def)
  then have p: "good (prio_of k d)" "good (prio_of k a)" by (simp_all add: thread_good_def prio_of_def)
  define k1 where "k1 = donate k d a"
  have l1: "lock_ok ready ok good s k1"
    using assms g [of a] p unfolding k1_def donate_def by (intro lock_ok_upd) (auto simp: thread_good_def)
  have add: "lock_ok ready ok good s (add_donation k' t i)"
    if "lock_ok ready ok good s k'" "good (donner_priority i)" "good (prev_priority i)" for k' t i
  proof -
    have "thread_good good (threads k' t)" using that by (simp add: lock_ok_def)
    then show ?thesis using that unfolding add_donation_def by (intro lock_ok_upd) (auto simp: thread_good_def)
  qed
  show "lock_ok ready ok good s (snd (donation_record k d a l))"
    using assms add [OF add [OF l1]] p by (simp add: donation_record_def Let_def k1_def)
  show "current (snd (donation_record k d a l)) = current k"
    by (simp add: donation_record_def Let_def donate_def add_donation_def)
qed

lemma lock_ok_delete: "lock_ok ready ok good s k \<Longrightarrow> lock_ok ready ok good s (snd (delete_donation k t l))"
  unfolding delete_donation_def snd_conv by (rule lock_ok_upd) (auto simp: lock_ok_def thread_good_def)

lemma lock_ok_filter: "lock_ok ready ok good s k \<Longrightarrow>
    lock_ok ready ok good s (upd_thread k t (\<lambda>x. x\<lparr>t_donationq := filter P (t_donationq x)\<rparr>))"
  by (rule lock_ok_upd) (auto simp: lock_ok_def thread_good_def)

lemma lock_ok_stored: "lock_ok ready ok good s k \<Longrightarrow> good p \<Longrightarrow>
    lock_ok ready ok good s (upd_thread k t (\<lambda>x. x\<lparr>t_stored_prev := (l, p)\<rparr>))"
  by (rule lock_ok_upd) (simp_all add: lock_ok_def thread_good_def)

lemma lock_ok_prio: "lock_ok ready ok good s k \<Longrightarrow> good p \<Longrightarrow>
    lock_ok ready ok good s (upd_thread k t (\<lambda>x. x\<lparr>t_priority := p\<rparr>))"
  by (rule lock_ok_upd) (simp_all add: lock_ok_def thread_good_def)

lemma good_foldl_max:
  fixes p :: u32
  shows "good p \<Longrightarrow> \<forall>i\<in>set is. good (f i) \<Longrightarrow> good (foldl (\<lambda>p i. max p (f i)) p is)"
  by (induction "is" arbitrary: p) (auto simp: max_def)

lemma current_restore [simp]: "current (snd (delete_donation k t l)) = current k"
  "current (forget_donner k d l) = current k" "current (store_prev k l p) = current k"
  by (simp_all add: delete_donation_def forget_donner_def store_prev_def Let_def)

lemma lock_ok_restore:
  assumes "lock_ok ready ok good s k"
  shows "lock_ok ready ok good s (restore_priority k l)" "current (restore_priority k l) = current k"
proof -
  let ?c = "current k"
  define k0 where "k0 = snd (delete_donation k ?c l)"
  have k0: "lock_ok ready ok good s k0" "current k0 = ?c" using lock_ok_delete [OF assms] by (simp_all add: k0_def)
  have eq: "restore_priority k l = (case find (\<lambda>x. lockid x = l) (t_donationq (threads k ?c)) of
      None \<Rightarrow> k0
    | Some item \<Rightarrow> upd_thread (store_prev (forget_donner k0 (donner item) l) l (prev_priority item)) ?c
        (\<lambda>x. x\<lparr>t_priority := final_priority x\<rparr>))"
    by (simp add: restore_priority_def k0_def delete_donation_def Let_def split: option.splits)
  show "current (restore_priority k l) = current k" using k0 by (simp add: eq split: option.splits)
  show "lock_ok ready ok good s (restore_priority k l)"
  proof (cases "find (\<lambda>x. lockid x = l) (t_donationq (threads k ?c))")
    case None
    then show ?thesis using k0 by (simp add: eq)
  next
    case (Some item)
    then have "item \<in> set (t_donationq (threads k ?c))" by (auto simp: find_Some_iff)
    then have gi: "good (prev_priority item)" using assms by (auto simp: lock_ok_def thread_good_def)
    define k2 where "k2 = store_prev (forget_donner k0 (donner item) l) l (prev_priority item)"
    have "lock_ok ready ok good s (forget_donner k0 (donner item) l)"
      unfolding forget_donner_def Let_def by (intro lock_ok_filter lock_ok_delete k0)
    then have "lock_ok ready ok good s k2" using gi by (simp add: k2_def store_prev_def Let_def lock_ok_stored)
    moreover from this have "thread_good good (threads k2 ?c)" by (simp add: lock_ok_def)
    then have "good (final_priority (threads k2 ?c))"
      using good_foldl_max [of good "snd (t_stored_prev (threads k2 ?c))" "t_donationq (threads k2 ?c)" donner_priority]
      by (simp add: thread_good_def final_priority_def)
    ultimately have "lock_ok ready ok good s (upd_thread k2 ?c (\<lambda>x. x\<lparr>t_priority := final_priority (threads k2 ?c)\<rparr>))"
      by (rule lock_ok_prio)
    then show ?thesis using Some by (simp add: eq k2_def upd_thread_def)
  qed
qed

lemma lock_ok_setted:
  assumes "lock_ok ready ok good s k"
  shows "lock_ok ready ok good s (apply_setted k)" "current (apply_setted k) = current k"
proof -
  have "good p" if "t_priority_setted (threads k (current k)) = Some p" for p
    using assms that by (simp add: lock_ok_def thread_good_def)
  then show "lock_ok ready ok good s (apply_setted k)"
    using assms by (simp add: apply_setted_def Let_def lock_ok_prio split: option.splits)
  show "current (apply_setted k) = current k" by (simp add: apply_setted_def Let_def split: option.splits)
qed

lemma thread_good_rest:
  assumes "same_rest k k'"
  shows "thread_good good (threads k' t) \<longleftrightarrow> thread_good good (threads k t)"
proof -
  have "(threads k' t)\<lparr>t_status := Ready\<rparr> = (threads k t)\<lparr>t_status := Ready\<rparr>"
    using assms by (simp add: same_rest_def)
  then have "thread_good good ((threads k' t)\<lparr>t_status := Ready\<rparr>) = thread_good good ((threads k t)\<lparr>t_status := Ready\<rparr>)"
    by simp
  then show ?thesis by (simp add: thread_good_def)
qed


context scheduler
begin

abbreviation l_ok :: "sema \<Rightarrow> 'q kernel \<Rightarrow> bool" where
  "l_ok \<equiv> lock_ok ready ok good"

lemma lock_ok_schedule:
  assumes "l_ok s k"
  shows "\<exists>k'. manager_schedule register schedule k = Some k' \<and> l_ok s k'"
proof -
  have "inv_k k" using assms by (simp add: lock_ok_def)
  from schedule_correct [OF this] obtain k' where k': "manager_schedule register schedule k = Some k'"
    "schedule_outcome inv_k k k'" by blast
  note out = schedule_outcomeD [OF k'(2)]
  have "set (all_threads k) \<subseteq> set (all_threads k')" using out(8) assms by (simp add: lock_ok_def)
  then have "sema_inv k' s"
    using assms sema_inv_kernel [OF _ out(6) schedule_outcomeD(7) [OF k'(2)]] by (simp add: lock_ok_def)
  moreover have "same_rest k k'" using k'(2) by (simp add: schedule_outcome_def)
  ultimately show ?thesis using assms k'(1) out(1,6) thread_good_rest [of k k' good] by (simp add: lock_ok_def)
qed

lemma lock_ok_wrapped:
  assumes "l_ok s k"
  shows "\<exists>k'. donation_wrapped register schedule k d a l = Some k' \<and> l_ok s k'"
proof -
  obtain b k1 where k1: "donation_record k d a l = (b, k1)" by fastforce
  then have "l_ok s k1" using lock_ok_donation_record(1) [OF assms, of d a l] by simp
  then show ?thesis using k1 lock_ok_schedule by (auto simp: donation_wrapped_def)
qed

lemma lock_ok_find:
  assumes "l_ok s k"
  shows "\<exists>k' st'. find_and_donate_step register schedule l k st = Some (k', st') \<and> l_ok s k'"
proof (cases "(register, schedule, l, k, st)" rule: find_and_donate_step.cases)
  case (4 reg sch l k d i "is" st)
  then show ?thesis using assms lock_ok_wrapped [OF assms, of d "acceptor i" l] by auto
qed (use assms in auto)

lemma lock_ok_intr [simp]: "l_ok s (k\<lparr>intr := b\<rparr>) = l_ok s k"
  by (simp add: lock_ok_def sema_inv_def)

definition down_result :: "sema \<Rightarrow> 'q kernel \<Rightarrow> bool \<times> 'q kernel \<times> sema \<Rightarrow> bool" where
  "down_result s k r \<longleftrightarrow> (case r of (taken, k', s') \<Rightarrow> l_ok s' k' \<and>
     (if taken then sem_value s \<noteq> 0 \<and> sem_value s' = sem_value s - 1 \<and> current k' = current k
      else sem_value s = 0 \<and> sem_value s' = 0))"

lemma lock_ok_round:
  assumes "l_ok s k" "current k \<noteq> idle_tid"
  shows "\<exists>r. sema_down_round register schedule k s = Some r \<and> down_result s k r"
proof (cases "sem_value s = 0")
  case True
  from sema_round_waits [OF _ _ True assms(2)] assms(1) obtain k' where
    "sema_down_round register schedule k s = Some (False, k', s\<lparr>waiters := current k # waiters s\<rparr>)"
    "inv_k k'" "sema_inv k' (s\<lparr>waiters := current k # waiters s\<rparr>)"
    "status_of k' (current k') = Running" "same_rest k k'" by (auto simp: lock_ok_def)
  then show ?thesis using assms(1) True thread_good_rest [of k k' good] by (simp add: lock_ok_def down_result_def)
next
  case False
  then show ?thesis using assms(1) by (simp add: sema_down_round_def lock_ok_def sema_inv_def down_result_def)
qed

lemma lock_ok_again:
  assumes "l_ok s k" "current k \<noteq> idle_tid"
  shows "\<exists>r. sema_down_again register schedule old k s = Some r \<and> down_result s k r"
proof -
  from lock_ok_round [OF assms] obtain taken k' s' where
    "sema_down_round register schedule k s = Some (taken, k', s')" "down_result s k (taken, k', s')"
    by (metis prod_cases3)
  then show ?thesis by (cases taken) (simp_all add: sema_down_again_def interrupt_set_eq down_result_def)
qed

lemma lock_ok_enter:
  assumes "l_ok s k" "current k \<noteq> idle_tid"
  shows "\<exists>r. sema_down_enter register schedule k s = Some r \<and> down_result s k r"
proof -
  have "sema_down_enter register schedule k s = sema_down_again register schedule (intr k) (k\<lparr>intr := False\<rparr>) s"
    by (simp add: sema_down_enter_def sema_down_again_def interrupt_set_eq)
  moreover have "down_result s (k\<lparr>intr := False\<rparr>) = down_result s k" by (simp add: down_result_def fun_eq_iff)
  ultimately show ?thesis using lock_ok_again [of s "k\<lparr>intr := False\<rparr>" "intr k"] assms by simp
qed

lemma lock_ok_up:
  assumes "l_ok s k" "sem_value s = 0"
  shows "\<exists>k' s'. sema_up register schedule k s = Some (k', s') \<and> l_ok s' k' \<and> sem_value s' = 1"
proof (cases "waiters s = []")
  case True
  then show ?thesis using assms by (simp add: sema_up_free lock_ok_def sema_inv_def)
next
  case False
  obtain i p where ip: "get_maxpriority (prio_of k) (waiters s) = (i, p)" by fastforce
  from sema_up_wakes [OF _ _ False assms(2) _ ip] assms(1) obtain k' where
    "sema_up register schedule k s = Some (k', \<lparr>sem_value = 1, waiters = remove_at i (waiters s)\<rparr>)"
    "inv_k k'" "sema_inv k' \<lparr>sem_value = 1, waiters = remove_at i (waiters s)\<rparr>"
    "status_of k' (current k') = Running" "same_rest k k'" by (auto simp: lock_ok_def)
  then show ?thesis using assms(1) thread_good_rest [of k k' good] by (auto simp: lock_ok_def)
qed

end

lemma owners_upd: "owners (pcs(c := pc)) =
    (if pc \<in> {Acquiring Acq_holder, Holding, Rel_up} then insert c (owners pcs) else owners pcs - {c})"
  by (auto simp: owners_def)

lemma owners_mem: "c \<in> owners pcs \<longleftrightarrow> pcs c \<in> {Acquiring Acq_holder, Holding, Rel_up}"
  by (simp add: owners_def)

text \<open>A step that does not touch the semaphore's value and the holder, by a thread that owns nothing.\<close>

lemma lock_state_outside:
  assumes "lock_state_ok lk pcs" "pcs c \<notin> {Acquiring Acq_holder, Holding, Rel_up}"
    "pc \<notin> {Acquiring Acq_holder, Holding, Rel_up}"
    "sem_value (sl_inner lk') = sem_value (sl_inner lk)" "sl_holder lk' = sl_holder lk"
  shows "lock_state_ok lk' (pcs(c := pc))"
proof -
  have "owners (pcs(c := pc)) = owners pcs" using assms(2,3) by (auto simp: owners_upd owners_mem)
  then show ?thesis using assms by (auto simp: lock_state_ok_def)
qed

lemma lock_state_take:
  assumes "lock_state_ok lk pcs" "sem_value (sl_inner lk) \<noteq> 0" "sem_value s = sem_value (sl_inner lk) - 1"
  shows "lock_state_ok (lk\<lparr>sl_inner := s\<rparr>) (pcs(c := Acquiring Acq_holder))"
  using assms by (auto simp: lock_state_ok_def owners_upd owners_mem [symmetric]) (auto simp: owners_def)

text \<open>The single owner goes on, or gives the unit back.\<close>

lemma lock_state_owner:
  assumes "lock_state_ok lk pcs" "pcs c \<in> {Acquiring Acq_holder, Holding, Rel_up}"
  shows "sem_value (sl_inner lk) = 0" "owners pcs = {c}" "t \<noteq> c \<Longrightarrow> pcs t \<noteq> Holding"
    "pcs c = Holding \<Longrightarrow> sl_holder lk = Some c" "pcs c \<noteq> Holding \<Longrightarrow> sl_holder lk = None"
proof -
  have c: "c \<in> owners pcs" using assms(2) by (simp add: owners_def)
  then show "sem_value (sl_inner lk) = 0" and o: "owners pcs = {c}" using assms(1) by (auto simp: lock_state_ok_def)
  show nh: "t \<noteq> c \<Longrightarrow> pcs t \<noteq> Holding" for t using o by (auto simp: owners_def)
  show "pcs c = Holding \<Longrightarrow> sl_holder lk = Some c" using assms(1) by (simp add: lock_state_ok_def)
  show "pcs c \<noteq> Holding \<Longrightarrow> sl_holder lk = None"
    using assms(1) nh unfolding lock_state_ok_def by (metis option.exhaust)
qed

context scheduler
begin

lemma lock_down_step:
  assumes "lock_state_ok lk pcs" "down_result (sl_inner lk) k (taken, k', s')"
    "pcs (current k) \<notin> {Acquiring Acq_holder, Holding, Rel_up}"
  shows "l_ok s' k' \<and>
    lock_state_ok (lk\<lparr>sl_inner := s'\<rparr>) (pcs(current k := Acquiring (if taken then Acq_holder else Acq_wait old)))"
proof (cases taken)
  case True
  then show ?thesis using assms lock_state_take [OF assms(1)] by (simp add: down_result_def)
next
  case False
  then show ?thesis using assms lock_state_outside [OF assms(1,3), of "Acquiring (Acq_wait old)"]
    by (simp add: down_result_def)
qed

definition step_result :: "(tid \<Rightarrow> lock_pc) \<Rightarrow> tid \<Rightarrow> 'q kernel \<times> sleep_lock \<times> lock_pc \<Rightarrow> bool" where
  "step_result pcs c r \<longleftrightarrow> (case r of (k', lk', pc) \<Rightarrow>
     l_ok (sl_inner lk') k' \<and> lock_state_ok lk' (pcs(c := pc)))"

lemma acquire_step_ok:
  assumes "l_ok (sl_inner lk) k" "lock_state_ok lk pcs" "current k \<noteq> idle_tid" "pcs (current k) = Acquiring pc"
  shows "\<exists>r. acquire_step register schedule k lk pc = Some r \<and> step_result pcs (current k) r"
proof (cases pc)
  case (Acq_find st)
  then have out: "pcs (current k) \<notin> {Acquiring Acq_holder, Holding, Rel_up}" using assms(4) by simp
  show ?thesis
  proof (cases st)
    case Nil
    then show ?thesis using Acq_find assms(1) lock_state_outside [OF assms(2) out, of "Acquiring Acq_down" lk]
      by (simp add: step_result_def)
  next
    case (Cons f fs)
    from lock_ok_find [OF assms(1), of "sl_id lk" st] obtain k' st' where
      "find_and_donate_step register schedule (sl_id lk) k st = Some (k', st')" "l_ok (sl_inner lk) k'" by blast
    then show ?thesis using Cons Acq_find lock_state_outside [OF assms(2) out, of "Acquiring (Acq_find st')" lk]
      by (simp add: step_result_def)
  qed
next
  case Acq_down
  then have out: "pcs (current k) \<notin> {Acquiring Acq_holder, Holding, Rel_up}" using assms(4) by simp
  from lock_ok_enter [OF assms(1,3)] obtain taken k' s' where
    "sema_down_enter register schedule k (sl_inner lk) = Some (taken, k', s')"
    "down_result (sl_inner lk) k (taken, k', s')" by (metis prod_cases3)
  then show ?thesis using Acq_down lock_down_step [OF assms(2) _ out] by (simp add: step_result_def)
next
  case (Acq_wait old)
  then have out: "pcs (current k) \<notin> {Acquiring Acq_holder, Holding, Rel_up}" using assms(4) by simp
  from lock_ok_again [OF assms(1,3), of old] obtain taken k' s' where
    "sema_down_again register schedule old k (sl_inner lk) = Some (taken, k', s')"
    "down_result (sl_inner lk) k (taken, k', s')" by (metis prod_cases3)
  then show ?thesis using Acq_wait lock_down_step [OF assms(2) _ out] by (simp add: step_result_def)
next
  case Acq_holder
  then have "pcs (current k) \<in> {Acquiring Acq_holder, Holding, Rel_up}" using assms(4) by simp
  note own = lock_state_owner [OF assms(2) this]
  have "lock_state_ok (lk\<lparr>sl_holder := Some (current k)\<rparr>) (pcs(current k := Holding))"
    using own(1,2,3) by (auto simp: lock_state_ok_def owners_upd)
  then show ?thesis using Acq_holder assms(1) by (simp add: step_result_def)
qed

lemma lock_step_ok:
  assumes "l_ok (sl_inner lk) k" "lock_state_ok lk pcs" "current k \<noteq> idle_tid"
  shows "\<exists>r. lock_step register schedule k lk (pcs (current k)) = Some r \<and> step_result pcs (current k) r"
proof (cases "pcs (current k)")
  case Outside
  then have out: "pcs (current k) \<notin> {Acquiring Acq_holder, Holding, Rel_up}" by simp
  note st = lock_state_outside [OF assms(2) out, of _ lk]
  show ?thesis
  proof (cases "sl_holder lk")
    case None
    then show ?thesis using Outside assms(1) st by (simp add: acquire_start_def step_result_def)
  next
    case (Some a)
    then show ?thesis using Outside st lock_ok_wrapped [OF assms(1), of "current k" a "sl_id lk"]
      by (auto simp: acquire_start_def step_result_def)
  qed
next
  case (Acquiring pc)
  then show ?thesis using acquire_step_ok [OF assms] by simp
next
  case Holding
  then have "pcs (current k) \<in> {Acquiring Acq_holder, Holding, Rel_up}" by simp
  note own = lock_state_owner [OF assms(2) this]
  have "l_ok (sl_inner lk) (apply_setted (restore_priority k (sl_id lk)))"
    by (intro lock_ok_setted lock_ok_restore assms)
  moreover have "lock_state_ok (lk\<lparr>sl_holder := None\<rparr>) (pcs(current k := Rel_up))"
    using own(1,2,3) by (auto simp: lock_state_ok_def owners_upd)
  ultimately show ?thesis using Holding own(4) by (simp add: release_start_def step_result_def)
next
  case Rel_up
  then have "pcs (current k) \<in> {Acquiring Acq_holder, Holding, Rel_up}" by simp
  note own = lock_state_owner [OF assms(2) this]
  from lock_ok_up [OF assms(1) own(1)] obtain k' s' where
    u: "sema_up register schedule k (sl_inner lk) = Some (k', s')" "l_ok s' k'" "sem_value s' = 1" by blast
  have "lock_state_ok (lk\<lparr>sl_inner := s'\<rparr>) (pcs(current k := Rel_schedule))"
    using own(2,3,5) Rel_up u(3) by (auto simp: lock_state_ok_def owners_upd)
  then show ?thesis using Rel_up u by (simp add: release_up_def step_result_def)
next
  case Rel_schedule
  then have out: "pcs (current k) \<notin> {Acquiring Acq_holder, Holding, Rel_up}" by simp
  show ?thesis using Rel_schedule lock_ok_schedule [OF assms(1)] lock_state_outside [OF assms(2) out, of Outside lk]
    by (auto simp: release_schedule_def step_result_def)
qed

lemma lock_run_ok:
  assumes "lock_run register schedule start c" "start = (k0, snd (sleep_default g), \<lambda>_. Outside)"
    "inv_k k0" "status_of k0 (current k0) = Running" "\<forall>t. thread_good good (threads k0 t)"
  shows "case c of (k, lk, pcs) \<Rightarrow> l_ok (sl_inner lk) k \<and> lock_state_ok lk pcs"
  using assms
proof (induction rule: lock_run.induct)
  case lock_run_start
  then show ?case
    by (simp add: sleep_default_def Let_def lock_ok_def lock_state_ok_def sema_new_def sema_inv_def owners_def)
next
  case (lock_run_step k lk pcs k' lk' pc)
  then show ?case using lock_step_ok [of lk k pcs] by (simp add: step_result_def)
next
  case (lock_run_preempt k lk pcs k')
  then show ?case using lock_ok_schedule [of "sl_inner lk" k] by auto
qed

end

section \<open>The properties\<close>



text \<open>Several threads donate to the current thread, one after the other, because of one lock.\<close>

definition donate_all :: "'q kernel \<Rightarrow> u32 \<Rightarrow> tid list \<Rightarrow> 'q kernel" where
  "donate_all k l ds = fold (\<lambda>d k. snd (donation_record k d (current k) l)) ds k"

lemma donation_record_other:
  assumes "d \<noteq> a"
  shows "prio_of (snd (donation_record k d a l)) t = (if t = a then max (prio_of k a) (prio_of k d) else prio_of k t)"
    "t_stored_prev (threads (snd (donation_record k d a l)) t) = t_stored_prev (threads k t)"
    "t_priority_setted (threads (snd (donation_record k d a l)) t) = t_priority_setted (threads k t)"
    "current (snd (donation_record k d a l)) = current k"
    "t_donationq (threads (snd (donation_record k d a l)) a) = t_donationq (threads k a) @
       (if prio_of k a < prio_of k d then [\<lparr>donner = d, acceptor = a, donner_priority = prio_of k d,
          prev_priority = prio_of k a, is_donner = False, lockid = l\<rparr>] else [])"
  using assms by (auto simp: donation_record_def donate_def add_donation_def Let_def prio_of_def max_def)






text \<open>
  Donations for two locks. \<open>stored_prev\<close> is overwritten by the lock with the smaller id,
  whichever donation came first. If a thread of priority \<open>b\<close> accepts a donation of \<open>p1\<close> for
  the lock \<open>l1\<close> and then one of \<open>p2 > p1\<close> for a lock of a smaller id \<open>l2\<close>, and releases
  \<open>l2\<close> before \<open>l1\<close>, it keeps the donated priority \<open>p1\<close> after both releases.
\<close>

lemma release_order_keeps_donation:
  assumes "distinct [current k, d1, d2]" "t_donationq (threads k (current k)) = []"
    "t_priority_setted (threads k (current k)) = None" "fst (t_stored_prev (threads k (current k))) = 0xFFFFFFFF"
    "prio_of k (current k) < prio_of k d1" "prio_of k d1 < prio_of k d2"
    "sl_id lk2 < sl_id lk1" "sl_id lk1 < 0xFFFFFFFF"
    "sl_holder lk1 = Some (current k)" "sl_holder lk2 = Some (current k)"
  shows "\<exists>k1 k2. release_start (donate_all (donate_all k (sl_id lk1) [d1]) (sl_id lk2) [d2]) lk2 =
      Some (k1, lk2\<lparr>sl_holder := None\<rparr>, Rel_up) \<and>
    release_start k1 lk1 = Some (k2, lk1\<lparr>sl_holder := None\<rparr>, Rel_up) \<and>
    t_donationq (threads k2 (current k)) = [] \<and> prio_of k2 (current k) = prio_of k d1"
proof -
  let ?c = "current k" and ?l1 = "sl_id lk1" and ?l2 = "sl_id lk2"
  define ka where "ka = snd (donation_record k d1 ?c ?l1)"
  have ne: "d1 \<noteq> ?c" "d2 \<noteq> ?c" "d1 \<noteq> d2" using assms(1) by auto
  note ra = donation_record_other [OF ne(1), where k = k and l = ?l1, folded ka_def]
  define kb where "kb = snd (donation_record ka d2 ?c ?l2)"
  note rb = donation_record_other [OF ne(2), where k = ka and l = ?l2, folded kb_def]
  have gt: "prio_of k ?c < prio_of k d1" "prio_of ka ?c = prio_of k d1" "prio_of ka d2 = prio_of k d2"
    using assms(5) ra(1) ne by (simp_all add: max_def less_imp_le)
  have q: "t_donationq (threads kb ?c) =
      [\<lparr>donner = d1, acceptor = ?c, donner_priority = prio_of k d1, prev_priority = prio_of k ?c, is_donner = False, lockid = ?l1\<rparr>,
       \<lparr>donner = d2, acceptor = ?c, donner_priority = prio_of k d2, prev_priority = prio_of k d1, is_donner = False, lockid = ?l2\<rparr>]"
    using rb(5) ra(5) gt assms(2,6) by simp
  have c: "current kb = ?c" "t_priority_setted (threads kb ?c) = None" "fst (t_stored_prev (threads kb ?c)) = 0xFFFFFFFF"
    using ra(2,3,4) rb(2,3,4) assms(3,4) by simp_all
  define k1 where "k1 = apply_setted (restore_priority kb ?l2)"
  have l: "?l1 \<noteq> ?l2" "\<not> ?l1 < ?l2" "?l2 < 0xFFFFFFFF" using assms(7,8) by auto
  have k1: "current k1 = ?c" "t_priority_setted (threads k1 ?c) = None" "t_stored_prev (threads k1 ?c) = (?l2, prio_of k d1)"
    "t_donationq (threads k1 ?c) =
      [\<lparr>donner = d1, acceptor = ?c, donner_priority = prio_of k d1, prev_priority = prio_of k ?c, is_donner = False, lockid = ?l1\<rparr>]"
    using q c l ne unfolding k1_def
    by (simp_all add: restore_priority_def delete_donation_def forget_donner_def store_prev_def final_priority_def
        apply_setted_def Let_def)
  define k2 where "k2 = apply_setted (restore_priority k1 ?l1)"
  have k2: "t_donationq (threads k2 ?c) = []" "prio_of k2 ?c = prio_of k d1"
    using k1 l ne unfolding k2_def
    by (simp_all add: restore_priority_def delete_donation_def forget_donner_def store_prev_def final_priority_def
        apply_setted_def Let_def prio_of_def)
  have eq: "donate_all (donate_all k ?l1 [d1]) ?l2 [d2] = kb"
    using ra(4) by (simp add: donate_all_def kb_def ka_def)
  show ?thesis unfolding eq using assms(9,10) c(1) k1(1) k2 by (simp add: release_start_def k1_def k2_def)
qed

end
