(* ===== verification/Condvar.thy ===== *)
theory Condvar
  imports Sleep_Lock
begin

text \<open>
  The condition variable (\<open>src/src/sync/condvar.rs\<close>): a deque of semaphores of value 0, one per
  call of \<open>wait\<close>. The semaphores are shared (\<open>Arc\<close>), so they live in a store and the deque
  holds their names. \<open>cv_borrowed\<close> is the borrow flag of the \<open>RefCell\<close>: a mutable borrow
  while it is set panics. As in the sleep lock, \<open>wait\<close> and \<open>notify_all\<close> are cut into the steps
  between two calls of the scheduler.
\<close>

section \<open>State and operations\<close>

record condvar =
  cv_queue :: "nat list"
  cv_semas :: "nat \<Rightarrow> sema"
  cv_next :: nat
  cv_borrowed :: bool

definition condvar_new :: condvar where
  "condvar_new = \<lparr>cv_queue = [], cv_semas = (\<lambda>_. sema_new 0), cv_next = 0, cv_borrowed = False\<rparr>"

text \<open>Where a thread is inside \<open>wait\<close>: at the lock with its semaphore's name, or at the semaphore.\<close>

datatype wait_pc =
    Wait_release nat lock_pc
  | Wait_down nat
  | Wait_again nat bool
  | Wait_acquire lock_pc
  | Wait_done

definition wait_start :: "condvar \<Rightarrow> (condvar \<times> wait_pc) option" where
  "wait_start cv = do {
     let s = cv_next cv;
     let cv = cv\<lparr>cv_semas := (cv_semas cv)(s := sema_new 0), cv_next := s + 1\<rparr>;
     rust_assert (\<not> cv_borrowed cv);
     Some (cv\<lparr>cv_queue := s # cv_queue cv\<rparr>, Wait_release s Holding)
   }"

fun wait_step :: "'q reg_op \<Rightarrow> 'q sch_op \<Rightarrow> 'q kernel \<Rightarrow> sleep_lock \<Rightarrow> condvar \<Rightarrow> wait_pc \<Rightarrow>
    ('q kernel \<times> sleep_lock \<times> condvar \<times> wait_pc) option" where
  "wait_step reg sch k lk cv (Wait_release s pc) = do {
     (k, lk, pc) \<leftarrow> lock_step reg sch k lk pc;
     Some (k, lk, cv, if pc = Outside then Wait_down s else Wait_release s pc)
   }"
| "wait_step reg sch k lk cv (Wait_down s) = do {
     let old = intr k;
     (taken, k, sm) \<leftarrow> sema_down_enter reg sch k (cv_semas cv s);
     Some (k, lk, cv\<lparr>cv_semas := (cv_semas cv)(s := sm)\<rparr>, if taken then Wait_acquire Outside else Wait_again s old)
   }"
| "wait_step reg sch k lk cv (Wait_again s old) = do {
     (taken, k, sm) \<leftarrow> sema_down_again reg sch old k (cv_semas cv s);
     Some (k, lk, cv\<lparr>cv_semas := (cv_semas cv)(s := sm)\<rparr>, if taken then Wait_acquire Outside else Wait_again s old)
   }"
| "wait_step reg sch k lk cv (Wait_acquire pc) = do {
     (k, lk, pc) \<leftarrow> lock_step reg sch k lk pc;
     Some (k, lk, cv, if pc = Holding then Wait_done else Wait_acquire pc)
   }"
| "wait_step reg sch k lk cv Wait_done = Some (k, lk, cv, Wait_done)"

text \<open>The loop of \<open>notify_one\<close> over the indices; the priority of a semaphore is its \<open>get_maxpriority\<close>.\<close>

fun choose_loop :: "(nat \<Rightarrow> u32) \<Rightarrow> nat list \<Rightarrow> nat \<times> u32 \<Rightarrow> nat \<times> u32" where
  "choose_loop prio [] best = best"
| "choose_loop prio (i # is) (chosen_index, max_priority) =
     choose_loop prio is (if max_priority \<le> prio i then (i, prio i) else (chosen_index, max_priority))"

definition sema_prio :: "'q kernel \<Rightarrow> condvar \<Rightarrow> nat \<Rightarrow> u32" where
  "sema_prio k cv i = snd (get_maxpriority (prio_of k) (waiters (cv_semas cv (cv_queue cv ! i))))"

definition cv_up :: "'q reg_op \<Rightarrow> 'q sch_op \<Rightarrow> 'q kernel \<Rightarrow> condvar \<Rightarrow> nat \<Rightarrow> ('q kernel \<times> condvar) option" where
  "cv_up reg sch k cv s = do {
     (k, sm) \<leftarrow> sema_up reg sch k (cv_semas cv s);
     Some (k, cv\<lparr>cv_semas := (cv_semas cv)(s := sm)\<rparr>)
   }"

definition notify_one :: "'q reg_op \<Rightarrow> 'q sch_op \<Rightarrow> 'q kernel \<Rightarrow> condvar \<Rightarrow> ('q kernel \<times> condvar) option" where
  "notify_one reg sch k cv = do {
     let (chosen_index, _) = (if cv_queue cv \<noteq> []
       then choose_loop (sema_prio k cv) [0..<length (cv_queue cv)] (0, 0) else (0, 0));
     rust_assert (\<not> cv_borrowed cv);
     (if chosen_index < length (cv_queue cv) then do {
        let s = cv_queue cv ! chosen_index;
        cv_up reg sch k (cv\<lparr>cv_queue := remove_at chosen_index (cv_queue cv)\<rparr>) s
      } else Some (k, cv))
   }"

text \<open>
  \<open>notify_all\<close>: the borrow for the iteration is alive during the calls of \<open>up\<close>; one step per
  element, then the borrow ends and the deque is cleared.
\<close>

definition notify_all_start :: "condvar \<Rightarrow> condvar \<times> nat list" where
  "notify_all_start cv = (cv\<lparr>cv_borrowed := True\<rparr>, cv_queue cv)"

fun notify_all_step :: "'q reg_op \<Rightarrow> 'q sch_op \<Rightarrow> 'q kernel \<Rightarrow> condvar \<Rightarrow> nat list \<Rightarrow> ('q kernel \<times> condvar \<times> nat list option) option" where
  "notify_all_step reg sch k cv (s # ss) = do {
     (k, cv) \<leftarrow> cv_up reg sch k cv s;
     Some (k, cv, Some ss)
   }"
| "notify_all_step reg sch k cv [] = Some (k, cv\<lparr>cv_borrowed := False, cv_queue := []\<rparr>, None)"

section \<open>Which waiter is woken up\<close>

text \<open>The loop is the one of \<open>get_maxpriority\<close>, over the semaphores instead of the threads.\<close>

lemma choose_loop_eq:
  "max_priority_loop (\<lambda>i. prio i) [0..<n] is b = choose_loop prio is b" if "\<forall>i\<in>set is. i < n"
  using that by (induction "is" arbitrary: b) (auto split: prod.splits)

lemma choose_correct:
  assumes "0 < n" "choose_loop prio [0..<n] (0, 0) = (i, p)"
  shows "i < n" "\<forall>j<n. prio j \<le> prio i" "\<forall>j. i < j \<and> j < n \<longrightarrow> prio j < prio i"
proof -
  have g: "get_maxpriority prio [0..<n] = (i, p)"
    using assms(2) choose_loop_eq [of "[0..<n]" n prio] by (simp add: get_maxpriority_def)
  have "[0..<n] \<noteq> []" using assms(1) by simp
  note m = get_maxpriority_correct [OF this g]
  show "i < n" "\<forall>j<n. prio j \<le> prio i" "\<forall>j. i < j \<and> j < n \<longrightarrow> prio j < prio i"
    using m by auto
qed

lemma sema_prio_single: "waiters (cv_semas cv (cv_queue cv ! i)) = [t] \<Longrightarrow> sema_prio k cv i = prio_of k t"
  by (simp add: sema_prio_def get_maxpriority_def)

text \<open>
  The invariant of a condition variable on which every caller of \<open>wait\<close> is blocked: each
  semaphore in the deque has the value 0 and one waiter, and all is consistent with the kernel.
\<close>

definition cv_inv :: "'q kernel \<Rightarrow> condvar \<Rightarrow> bool" where
  "cv_inv k cv \<longleftrightarrow> distinct (cv_queue cv) \<and> \<not> cv_borrowed cv \<and>
     (\<forall>s\<in>set (cv_queue cv). s < cv_next cv \<and> sem_value (cv_semas cv s) = 0 \<and>
        length (waiters (cv_semas cv s)) = 1 \<and> sema_inv k (cv_semas cv s))"

definition cv_thread :: "condvar \<Rightarrow> nat \<Rightarrow> tid" where
  "cv_thread cv i = hd (waiters (cv_semas cv (cv_queue cv ! i)))"

context scheduler
begin

lemma cv_up_wakes:
  assumes "inv_k k" "status_of k (current k) = Running" "cv_inv k cv" "i < length (cv_queue cv)"
    "cv_semas cv0 = cv_semas cv"
  shows "\<exists>k' sm. cv_up register schedule k cv0 (cv_queue cv ! i) = Some (k', cv0\<lparr>cv_semas := (cv_semas cv0)(cv_queue cv ! i := sm)\<rparr>) \<and>
    sm = \<lparr>sem_value = 1, waiters = []\<rparr> \<and> inv_k k' \<and> status_of k' (current k') = Running \<and>
    status_of k' (cv_thread cv i) \<in> {Ready, Running} \<and>
    (\<forall>t. t \<noteq> cv_thread cv i \<longrightarrow> (status_of k' t = Blocked \<longleftrightarrow> status_of k t = Blocked)) \<and>
    set (all_threads k') = set (all_threads k) \<and> same_rest k k' \<and>
    (if prio_of k (current k) < prio_of k (cv_thread cv i) then \<exists>k1. inv_k k1 \<and> manager_schedule register schedule k1 = Some k'
     else current k' = current k)"
proof -
  let ?s = "cv_semas cv (cv_queue cv ! i)"
  have s: "sem_value ?s = 0" "length (waiters ?s) = 1" "sema_inv k ?s" using assms(3,4) by (simp_all add: cv_inv_def)
  then obtain t where t: "waiters ?s = [t]" by (cases "waiters ?s") auto
  have m: "get_maxpriority (prio_of k) (waiters ?s) = (0, prio_of k t)" using t by (simp add: get_maxpriority_def)
  have "waiters ?s \<noteq> []" using t by simp
  from sema_up_wakes [OF assms(1) s(3) this s(1) assms(2) m] t show ?thesis
    unfolding cv_up_def assms(5) cv_thread_def by (auto simp: remove_at_def)
qed

end

section \<open>The properties\<close>

text \<open>
  C37. \<open>Condvar::notify_one\<close>. With waiting threads it does not panic, wakes up exactly one of
  them, one of the highest priority and among those the one that waits longest, takes its
  semaphore out of the deque and keeps the invariants; without waiting threads it does nothing.
\<close>

theorem notify_one_correct:
  assumes "core_inv prio_ready prio_ok good_prio k" "status_of k (current k) = Running" "cv_inv k cv"
  shows "if cv_queue cv = [] then notify_one prio_register prio_schedule k cv = Some (k, cv)
    else \<exists>k' cv' i. i < length (cv_queue cv) \<and> notify_one prio_register prio_schedule k cv = Some (k', cv') \<and>
      (\<forall>j<length (cv_queue cv). prio_of k (cv_thread cv j) \<le> prio_of k (cv_thread cv i)) \<and>
      (\<forall>j. i < j \<and> j < length (cv_queue cv) \<longrightarrow> prio_of k (cv_thread cv j) < prio_of k (cv_thread cv i)) \<and>
      status_of k' (cv_thread cv i) \<in> {Ready, Running} \<and>
      (\<forall>t. t \<noteq> cv_thread cv i \<longrightarrow> (status_of k' t = Blocked \<longleftrightarrow> status_of k t = Blocked)) \<and>
      cv_queue cv' = remove_at i (cv_queue cv) \<and> core_inv prio_ready prio_ok good_prio k'"
proof (cases "cv_queue cv = []")
  case True
  then show ?thesis using assms(3) by (simp add: notify_one_def cv_inv_def)
next
  case False
  let ?n = "length (cv_queue cv)"
  have prio: "sema_prio k cv j = prio_of k (cv_thread cv j)" if "j < ?n" for j
  proof -
    have "length (waiters (cv_semas cv (cv_queue cv ! j))) = 1" using assms(3) that by (simp add: cv_inv_def)
    then show ?thesis by (cases "waiters (cv_semas cv (cv_queue cv ! j))") (auto simp: cv_thread_def sema_prio_single)
  qed
  obtain i p where ip: "choose_loop (sema_prio k cv) [0..<?n] (0, 0) = (i, p)" by fastforce
  note ch = choose_correct [OF _ ip]
  have n: "0 < ?n" using False by simp
  define cv0 where "cv0 = cv\<lparr>cv_queue := remove_at i (cv_queue cv)\<rparr>"
  have s0: "cv_semas cv0 = cv_semas cv" by (simp add: cv0_def)
  from prio.cv_up_wakes [OF assms(1,2,3) ch(1) [OF n] s0] obtain k' sm where
    up: "cv_up prio_register prio_schedule k cv0 (cv_queue cv ! i) = Some (k', cv0\<lparr>cv_semas := (cv_semas cv0)(cv_queue cv ! i := sm)\<rparr>)"
    "core_inv prio_ready prio_ok good_prio k'" "status_of k' (cv_thread cv i) \<in> {Ready, Running}"
    "\<forall>t. t \<noteq> cv_thread cv i \<longrightarrow> (status_of k' t = Blocked \<longleftrightarrow> status_of k t = Blocked)" by blast
  have "\<not> cv_borrowed cv" using assms(3) by (simp add: cv_inv_def)
  then have "notify_one prio_register prio_schedule k cv = Some (k', cv0\<lparr>cv_semas := (cv_semas cv0)(cv_queue cv ! i := sm)\<rparr>)"
    using up(1) False ip ch(1) [OF n] by (simp add: notify_one_def Let_def cv0_def)
  moreover have "\<forall>j<?n. prio_of k (cv_thread cv j) \<le> prio_of k (cv_thread cv i)"
    "\<forall>j. i < j \<and> j < ?n \<longrightarrow> prio_of k (cv_thread cv j) < prio_of k (cv_thread cv i)"
    using ch [OF n] prio by simp_all
  ultimately show ?thesis using False up ch(1) [OF n]
    by (intro iffD2 [OF if_not_P] exI [of _ k'] exI [of _ "cv0\<lparr>cv_semas := (cv_semas cv0)(cv_queue cv ! i := sm)\<rparr>"] exI [of _ i])
      (simp_all add: cv0_def)
qed

text \<open>The boot thread waits: its semaphore is in the deque and another thread notifies it.\<close>

lemma waiting_state:
  obtains k cv where "core_inv prio_ready prio_ok good_prio k" "status_of k (current k) = Running" "cv_inv k cv"
    "cv_queue cv = [0]" "cv_thread cv 0 = initial_tid" "prio_of k (current k) < prio_of k initial_tid"
proof -
  obtain k where k: "manager_init prio_register prio_default True = Some k"
    "core_inv prio_ready prio_ok good_prio k" "current k = initial_tid" "status_of k initial_tid = Running"
    "all_threads k = [initial_tid, idle_tid]" by (rule start_state)
  have "current k \<noteq> idle_tid" using k(3) by (simp add: initial_tid_def idle_tid_def)
  from prio.sema_down_waits [OF k(2), of "sema_new 0"] this k(3) obtain k' where
    k': "core_inv prio_ready prio_ok good_prio k'" "sema_inv k' \<lparr>sem_value = 0, waiters = [initial_tid]\<rparr>"
    "status_of k' (current k') = Running" "current k' \<noteq> initial_tid" "same_rest k k'"
    "set (all_threads k') = {initial_tid, idle_tid}"
    using k(5) by (auto simp: sema_new_def sema_inv_def)
  let ?cv = "\<lparr>cv_queue = [0], cv_semas = (\<lambda>_. \<lparr>sem_value = 0, waiters = [initial_tid]\<rparr>), cv_next = 1, cv_borrowed = False\<rparr>"
  have "current k' = idle_tid" using k'(1,4,6) by (auto simp: core_inv_def)
  moreover have "prio_of k idle_tid < prio_of k initial_tid"
    using k(1) by (auto simp: manager_init_def manager_register_def sched_register_def bind_eq_Some_conv prio_of_def
        thread_new_def PRI_DEFAULT_def PRI_MIN_def initial_tid_def idle_tid_def)
  ultimately have "prio_of k' (current k') < prio_of k' initial_tid" using same_rest_prio [OF k'(5)] by simp
  then show ?thesis using k' by (intro that [of k' ?cv]) (simp_all add: cv_inv_def cv_thread_def)
qed

theorem notify_one_correct_witness:
  "\<exists>k cv k' cv'. cv_queue cv = [0] \<and> notify_one prio_register prio_schedule k cv = Some (k', cv') \<and>
    cv_queue cv' = [] \<and> core_inv prio_ready prio_ok good_prio k'"
proof -
  obtain k cv where k: "core_inv prio_ready prio_ok good_prio k" "status_of k (current k) = Running" "cv_inv k cv"
    "cv_queue cv = [0]" "cv_thread cv 0 = initial_tid" "prio_of k (current k) < prio_of k initial_tid"
    by (rule waiting_state)
  then obtain k' cv' where "notify_one prio_register prio_schedule k cv = Some (k', cv')"
    "cv_queue cv' = remove_at 0 [0]" "core_inv prio_ready prio_ok good_prio k'"
    using notify_one_correct [OF k(1,2,3)] by auto
  then show ?thesis using k(4) by (auto simp: remove_at_def)
qed

text \<open>
  \<open>notify_all\<close> holds a borrow of the deque while it calls \<open>up\<close>. If the first waiter has a
  higher priority than the caller, the caller is switched out inside \<open>up\<close> with the borrow still
  alive, and if the thread that runs then calls \<open>wait\<close> on the same condition variable (the
  usual loop around \<open>wait\<close> does), the kernel panics.
\<close>

lemma notify_all_then_wait_panics:
  assumes "core_inv prio_ready prio_ok good_prio k" "status_of k (current k) = Running" "cv_inv k cv"
    "cv_queue cv = s # ss" "prio_of k (current k) < prio_of k (cv_thread cv 0)"
  shows "\<exists>k' cv'. notify_all_start cv = (cv\<lparr>cv_borrowed := True\<rparr>, s # ss) \<and>
    notify_all_step prio_register prio_schedule k (cv\<lparr>cv_borrowed := True\<rparr>) (s # ss) = Some (k', cv', Some ss) \<and>
    current k' \<noteq> current k \<and> prio_of k (cv_thread cv 0) \<le> prio_of k (current k') \<and> wait_start cv' = None"
proof -
  let ?cv = "cv\<lparr>cv_borrowed := True\<rparr>" and ?t = "cv_thread cv 0"
  have q: "0 < length (cv_queue cv)" "cv_queue cv ! 0 = s" using assms(4) by simp_all
  have s0: "cv_semas ?cv = cv_semas cv" by simp
  from prio.cv_up_wakes [OF assms(1-3) q(1) s0] assms(5) q(2) obtain k' sm k1 where
    up: "cv_up prio_register prio_schedule k ?cv s = Some (k', ?cv\<lparr>cv_semas := (cv_semas ?cv)(s := sm)\<rparr>)"
    "core_inv prio_ready prio_ok good_prio k'" "status_of k' ?t \<in> {Ready, Running}"
    "set (all_threads k') = set (all_threads k)" "same_rest k k'" "core_inv prio_ready prio_ok good_prio k1"
    "manager_schedule prio_register prio_schedule k1 = Some k'" by auto
  have "sema_inv k (cv_semas cv s)" "length (waiters (cv_semas cv s)) = 1" using assms(3,4) by (auto simp: cv_inv_def)
  then have "?t \<in> set (all_threads k)" using q(2)
    by (cases "waiters (cv_semas cv s)") (auto simp: sema_inv_def cv_thread_def)
  then have "?t = current k' \<or> ?t \<in># prio_ready (sched k')"
    using up(2,3,4) by (auto simp: core_inv_def)
  then have hi: "prio_of k ?t \<le> prio_of k (current k')"
    using schedule_top [OF up(6,7)] same_rest_prio [OF up(5)] by auto
  then have "current k' \<noteq> current k" using assms(5) by auto
  then show ?thesis using up(1) assms(4) hi by (simp add: notify_all_start_def wait_start_def)
qed

end
