(* ===== verification/Wake.thy ===== *)
theory Wake
  imports Threads
begin

section \<open>Sleepers wake up\<close>











end
