(* ===== verification/In_Mem_List.thy ===== *)
theory In_Mem_List
  imports Mem_Utils
begin

text \<open>
  The singly linked list of the memory allocators (\<open>src/src/mem/utils/list.rs\<close>). The
  list has no nodes of its own: the first \<open>usize\<close> of a free block holds the address of
  the next one. The memory is a map from the address of a cell to the \<open>usize\<close> stored in
  it; the blocks of the allocators are aligned to eight bytes at least, so two different
  addresses are two different cells. The abstraction \<open>list_at\<close> relates a memory and a head
  pointer to the list of block addresses, after Mehta and Nipkow.
\<close>

section \<open>Operations\<close>

type_synonym memory = "usize \<Rightarrow> usize"

record in_mem_list =
  head :: usize

definition list_new :: in_mem_list where
  "list_new = \<lparr>head = 0\<rparr>"

definition list_is_empty :: "in_mem_list \<Rightarrow> bool" where
  "list_is_empty l \<longleftrightarrow> head l = 0"

definition list_push :: "memory \<Rightarrow> in_mem_list \<Rightarrow> usize \<Rightarrow> memory \<times> in_mem_list" where
  "list_push m l item = (m(item := head l), l\<lparr>head := item\<rparr>)"

definition list_pop :: "memory \<Rightarrow> in_mem_list \<Rightarrow> usize option \<times> in_mem_list" where
  "list_pop m l =
     (if list_is_empty l then (None, l)
      else (Some (head l), l\<lparr>head := m (head l)\<rparr>))"

text \<open>
  The iterator keeps a pointer to the link that leads to the current node: the head field
  of the list, or the first cell of the previous node.
\<close>

datatype link = Head_Field | Cell usize

record list_node =
  prev :: link
  curr :: usize

type_synonym iter_mut = list_node

definition list_iter_mut :: "in_mem_list \<Rightarrow> iter_mut" where
  "list_iter_mut l = \<lparr>prev = Head_Field, curr = head l\<rparr>"

definition iter_next :: "memory \<Rightarrow> iter_mut \<Rightarrow> list_node option \<times> iter_mut" where
  "iter_next m it =
     (if curr it = 0 then (None, it)
      else (Some it, \<lparr>prev = Cell (curr it), curr = m (curr it)\<rparr>))"

text \<open>\<open>ListNode::pop\<close>: \<open>*prev = *curr\<close>, through the head field or through a cell.\<close>

definition node_pop :: "memory \<Rightarrow> in_mem_list \<Rightarrow> list_node \<Rightarrow> memory \<times> in_mem_list \<times> usize" where
  "node_pop m l nd =
     (case prev nd of
        Head_Field \<Rightarrow> (m, l\<lparr>head := m (curr nd)\<rparr>, curr nd)
      | Cell p \<Rightarrow> (m(p := m (curr nd)), l, curr nd))"

text \<open>
  \<open>Iterator::find\<close> over the nodes. On a cyclic list it would not return, which is the
  value \<open>None\<close>; \<open>Some None\<close> is an exhausted iterator.
\<close>

partial_function (option) iter_find ::
  "memory \<Rightarrow> (usize \<Rightarrow> bool) \<Rightarrow> iter_mut \<Rightarrow> list_node option option" where
  "iter_find m P it =
     (case iter_next m it of
        (None, it') \<Rightarrow> Some None
      | (Some nd, it') \<Rightarrow> if P (curr nd) then Some (Some nd) else iter_find m P it')"

section \<open>Frames\<close>

text \<open>Only the cells whose address is in \<open>Y\<close> may differ.\<close>

definition untouched :: "nat set \<Rightarrow> memory \<Rightarrow> memory \<Rightarrow> bool" where
  "untouched Y m m' \<longleftrightarrow> (\<forall>a. unat a \<notin> Y \<longrightarrow> m' a = m a)"

lemma untouched_refl [simp]: "untouched Y m m"
  by (simp add: untouched_def)

lemma untouched_trans: "untouched Y m m' \<Longrightarrow> untouched Y m' m'' \<Longrightarrow> untouched Y m m''"
  by (simp add: untouched_def)

lemma untouched_mono: "untouched Y m m' \<Longrightarrow> Y \<subseteq> Z \<Longrightarrow> untouched Z m m'"
  by (auto simp: untouched_def)

lemma untouchedD: "untouched Y m m' \<Longrightarrow> unat a \<notin> Y \<Longrightarrow> m' a = m a"
  by (simp add: untouched_def)

lemma untouched_upd: "unat a \<in> Y \<Longrightarrow> untouched Y m m' \<Longrightarrow> untouched Y m (m'(a := v))"
  by (auto simp: untouched_def)

section \<open>Abstraction\<close>

fun list_at :: "memory \<Rightarrow> usize \<Rightarrow> usize list \<Rightarrow> bool" where
  "list_at m h [] \<longleftrightarrow> h = 0"
| "list_at m h (x # xs) \<longleftrightarrow> h = x \<and> x \<noteq> 0 \<and> list_at m (m x) xs"

lemma list_at_Nil_iff [simp]: "list_at m 0 xs \<longleftrightarrow> xs = []"
  by (cases xs) auto

lemma list_at_nonzero: "list_at m h xs \<Longrightarrow> h \<noteq> 0 \<Longrightarrow> \<exists>ys. xs = h # ys \<and> list_at m (m h) ys"
  by (cases xs) auto

lemma list_at_not_null: "list_at m h xs \<Longrightarrow> 0 \<notin> set xs"
  by (induction xs arbitrary: h) auto

lemma list_at_upd [simp]: "a \<notin> set xs \<Longrightarrow> list_at (m(a := v)) h xs = list_at m h xs"
  by (induction xs arbitrary: h) auto

lemma list_at_cong: "\<forall>a\<in>set xs. m' a = m a \<Longrightarrow> list_at m' h xs = list_at m h xs"
  by (induction xs arbitrary: h) auto

lemma list_at_unique: "list_at m h xs \<Longrightarrow> list_at m h ys \<Longrightarrow> xs = ys"
proof (induction xs arbitrary: h ys)
  case Nil
  then show ?case by (cases ys) auto
next
  case (Cons x xs)
  then show ?case by (cases ys) auto
qed

lemma list_at_suffix: "list_at m h (xs @ ys) \<Longrightarrow> \<exists>h'. list_at m h' ys"
  by (induction xs arbitrary: h) auto

lemma list_at_distinct: "list_at m h xs \<Longrightarrow> distinct xs"
proof (induction xs arbitrary: h)
  case Nil
  then show ?case by simp
next
  case (Cons x xs)
  have "x \<notin> set xs"
  proof
    assume "x \<in> set xs"
    then obtain as bs where xs: "xs = as @ x # bs" by (meson split_list)
    from Cons.prems have l: "list_at m x (x # as @ x # bs)" by (simp add: xs)
    then have "list_at m x (x # bs)"
      using list_at_suffix [of m x "x # as" "x # bs"] by simp
    from list_at_unique [OF l this] show False by simp
  qed
  with Cons show ?case by auto
qed

lemma list_push_at:
  assumes "list_at m (head l) xs" "a \<notin> set xs" "a \<noteq> 0" "list_push m l a = (m', l')"
  shows "list_at m' (head l') (a # xs)"
  using assms by (auto simp: list_push_def)

lemma list_pop_empty: "list_at m (head l) [] \<Longrightarrow> list_pop m l = (None, l)"
  by (simp add: list_pop_def list_is_empty_def)

lemma list_pop_Cons:
  "list_at m (head l) (x # xs) \<Longrightarrow> list_pop m l = (Some x, l\<lparr>head := m x\<rparr>) \<and> list_at m (m x) xs"
  by (simp add: list_pop_def list_is_empty_def)

text \<open>
  The search from a node inside the list returns: with the first node that satisfies the
  predicate and the link that leads to it, or with no node when there is none.
\<close>

lemma iter_find_hit:
  assumes "list_at m h (as @ y # bs)" "\<forall>x\<in>set as. \<not> P x" "P y"
  shows "iter_find m P \<lparr>prev = p, curr = h\<rparr> =
    Some (Some \<lparr>prev = (if as = [] then p else Cell (last as)), curr = y\<rparr>)"
  using assms
proof (induction as arbitrary: h p)
  case Nil
  then show ?case by (subst iter_find.simps) (simp add: iter_next_def)
next
  case (Cons x as)
  then show ?case by (subst iter_find.simps) (simp add: iter_next_def)
qed

lemma iter_find_miss:
  assumes "list_at m h xs" "\<forall>x\<in>set xs. \<not> P x"
  shows "iter_find m P \<lparr>prev = p, curr = h\<rparr> = Some None"
  using assms
proof (induction xs arbitrary: h p)
  case Nil
  then show ?case by (subst iter_find.simps) (simp add: iter_next_def)
next
  case (Cons x xs)
  then show ?case by (subst iter_find.simps) (simp add: iter_next_def)
qed

lemma list_at_unlink:
  "list_at m h (as @ y # bs) \<Longrightarrow> as \<noteq> [] \<Longrightarrow>
    list_at (m(last as := m y)) h (as @ bs)"
proof (induction as arbitrary: h)
  case Nil
  then show ?case by simp
next
  case (Cons a as)
  then have d: "distinct (a # as @ y # bs)"
    using list_at_distinct [of m h "(a # as) @ y # bs"] by simp
  show ?case
  proof (cases "as = []")
    case True
    have "list_at (m(a := m y)) (m y) bs"
      using Cons.prems d True by (subst list_at_upd) auto
    then show ?thesis using Cons.prems True by (simp add: fun_upd_def)
  next
    case False
    then have "a \<noteq> last as" using d by auto
    then show ?thesis using Cons False by simp
  qed
qed

text \<open>
  Unlinking the node that the search found removes exactly that block from the list, also
  when it is the first one and the link is the head field.
\<close>

lemma node_pop_at:
  assumes "list_at m (head l) (as @ y # bs)"
    and "node_pop m l \<lparr>prev = (if as = [] then Head_Field else Cell (last as)), curr = y\<rparr> = (m', l', r)"
  shows "r = y \<and> list_at m' (head l') (as @ bs) \<and> (\<forall>a. a \<notin> set as \<longrightarrow> m' a = m a)"
proof (cases "as = []")
  case True
  then show ?thesis using assms by (auto simp: node_pop_def)
next
  case False
  then show ?thesis
    using assms list_at_unlink [OF assms(1) False] by (auto simp: node_pop_def)
qed

end
