(* ===== verification/Riscv.thy ===== *)
theory Riscv
  imports In_Mem_List
begin

unbundle bit_operations_syntax

text \<open>
  The machine that the assembly code of the kernel runs on: the registers, the control and status
  registers of supervisor mode that the code uses, the memory, the program counter and the
  privilege mode. The instructions are the ones of the \<open>global_asm!\<close> blocks, \<open>asm!\<close>
  blocks and of \<open>riscv::register\<close> under \<open>src/src\<close>; a trap and \<open>sret\<close> follow the
  privileged architecture. Addresses of labels are chosen by the linker; they are the parameter
  \<open>lnk\<close>.
\<close>

section \<open>Registers and state\<close>

datatype csr = Sstatus | Sepc | Sscratch | Stvec | Satp | Scause | Stval

datatype symbol =
    Trap_entry_u | Trap_exit_u | Trap_entry_k | Trap_exit_k | Trap_handler
  | Switch | Schedule_tail_wrapper | Kernel_thread_entry | Kernel_thread
  | Read_usr_byte_pc | Read_usr_exit | Write_usr_byte_pc | Write_usr_exit
  | Entry_pgtable | Relocated_word | Relocated | Bootstack_top | Main_entry

record machine =
  gpr :: "nat \<Rightarrow> usize"
  csrs :: "csr \<Rightarrow> usize"
  m_mem :: memory
  pc :: usize
  user_mode :: bool

text \<open>The names of the calling convention.\<close>

abbreviation (input) "ra \<equiv> (1 :: nat)"
abbreviation (input) "sp \<equiv> (2 :: nat)"
abbreviation (input) "t0 \<equiv> (5 :: nat)"
abbreviation (input) "t1 \<equiv> (6 :: nat)"
abbreviation (input) "t2 \<equiv> (7 :: nat)"
abbreviation (input) "a0 \<equiv> (10 :: nat)"
abbreviation (input) "a1 \<equiv> (11 :: nat)"
abbreviation (input) "a2 \<equiv> (12 :: nat)"
abbreviation (input) "a7 \<equiv> (17 :: nat)"

text \<open>The callee-saved registers \<open>s0\<close> to \<open>s11\<close>.\<close>

definition s_reg :: "nat \<Rightarrow> nat" where
  "s_reg i = (if i < 2 then 8 + i else 16 + i)"

text \<open>Register 0 is constant.\<close>

definition reg :: "machine \<Rightarrow> nat \<Rightarrow> usize" where
  "reg s r = (if r = 0 then 0 else gpr s r)"

definition set_reg :: "nat \<Rightarrow> usize \<Rightarrow> machine \<Rightarrow> machine" where
  "set_reg r v s = (if r = 0 then s else s\<lparr>gpr := (gpr s)(r := v)\<rparr>)"

definition set_csr :: "csr \<Rightarrow> usize \<Rightarrow> machine \<Rightarrow> machine" where
  "set_csr c v s = s\<lparr>csrs := (csrs s)(c := v)\<rparr>"

definition store :: "usize \<Rightarrow> usize \<Rightarrow> machine \<Rightarrow> machine" where
  "store a v s = s\<lparr>m_mem := (m_mem s)(a := v)\<rparr>"

section \<open>Instructions\<close>

datatype instr =
    Sd nat usize nat      \<comment> \<open>\<open>sd rs, off(base)\<close>\<close>
  | Ld nat usize nat      \<comment> \<open>\<open>ld rd, off(base)\<close>\<close>
  | Sb nat nat            \<comment> \<open>\<open>sb rs, (base)\<close>\<close>
  | Addi nat nat usize
  | Mv nat nat
  | Li nat usize
  | La nat symbol
  | Csrr nat csr
  | Csrw csr nat
  | Csrrw nat csr nat
  | Srli nat nat nat
  | Or nat nat nat
  | Sfence_vma            \<comment> \<open>no translation is cached\<close>

fun exec1 :: "(symbol \<Rightarrow> usize) \<Rightarrow> instr \<Rightarrow> machine \<Rightarrow> machine" where
  "exec1 lnk (Sd rs off base) s = store (reg s base + off) (reg s rs) s"
| "exec1 lnk (Ld rd off base) s = set_reg rd (m_mem s (reg s base + off)) s"
| "exec1 lnk (Sb rs base) s =
     store (reg s base) ((m_mem s (reg s base) AND NOT 0xFF) OR (reg s rs AND 0xFF)) s"
| "exec1 lnk (Addi rd rs imm) s = set_reg rd (reg s rs + imm) s"
| "exec1 lnk (Mv rd rs) s = set_reg rd (reg s rs) s"
| "exec1 lnk (Li rd imm) s = set_reg rd imm s"
| "exec1 lnk (La rd l) s = set_reg rd (lnk l) s"
| "exec1 lnk (Csrr rd c) s = set_reg rd (csrs s c) s"
| "exec1 lnk (Csrw c rs) s = set_csr c (reg s rs) s"
| "exec1 lnk (Csrrw rd c rs) s = set_reg rd (csrs s c) (set_csr c (reg s rs) s)"
| "exec1 lnk (Srli rd rs k) s = set_reg rd (drop_bit k (reg s rs)) s"
| "exec1 lnk (Or rd rs rt) s = set_reg rd (reg s rs OR reg s rt) s"
| "exec1 lnk Sfence_vma s = s"

fun exec :: "(symbol \<Rightarrow> usize) \<Rightarrow> instr list \<Rightarrow> machine \<Rightarrow> machine" where
  "exec lnk [] s = s"
| "exec lnk (i # cs) s = exec lnk cs (exec1 lnk i s)"

text \<open>Jumps and calls end a straight piece of code.\<close>

definition jump :: "usize \<Rightarrow> machine \<Rightarrow> machine" where
  "jump a s = s\<lparr>pc := a\<rparr>"

section \<open>The status register, traps and their return\<close>

definition ST_SIE :: nat where "ST_SIE = 1"
definition ST_SPIE :: nat where "ST_SPIE = 5"
definition ST_SPP :: nat where "ST_SPP = 8"
definition ST_SUM :: nat where "ST_SUM = 18"

definition status_bit :: "nat \<Rightarrow> machine \<Rightarrow> bool" where
  "status_bit n s = bit (csrs s Sstatus) n"

definition set_status_bit :: "nat \<Rightarrow> bool \<Rightarrow> machine \<Rightarrow> machine" where
  "set_status_bit n b s =
     set_csr Sstatus (if b then set_bit n (csrs s Sstatus) else unset_bit n (csrs s Sstatus)) s"

text \<open>
  The hardware takes a trap: the interrupted mode and interrupt enable bit move to \<open>ST_SPP\<close> and
  \<open>ST_SPIE\<close>, interrupts are off, and the code at \<open>stvec\<close> runs in supervisor mode.
\<close>

definition take_trap :: "usize \<Rightarrow> usize \<Rightarrow> machine \<Rightarrow> machine" where
  "take_trap cause tval s =
     (let s1 = set_csr Stval tval (set_csr Scause cause (set_csr Sepc (pc s) s));
          s2 = set_status_bit ST_SPP (\<not> user_mode s) (set_status_bit ST_SPIE (status_bit ST_SIE s) s1)
      in (set_status_bit ST_SIE False s2)\<lparr>pc := csrs s Stvec, user_mode := False\<rparr>)"

definition sret :: "machine \<Rightarrow> machine" where
  "sret s =
     (let s1 = set_status_bit ST_SPIE True (set_status_bit ST_SIE (status_bit ST_SPIE s) s)
      in (set_status_bit ST_SPP False s1)\<lparr>pc := csrs s Sepc, user_mode := \<not> status_bit ST_SPP s\<rparr>)"

section \<open>Reading the state after instructions\<close>

named_theorems machine_simps "reading registers after an update of the machine"

lemma reg_0 [machine_simps]: "reg s 0 = 0"
  by (simp add: reg_def)

lemma reg_set_reg [machine_simps]: "reg (set_reg r v s) q = (if q = r \<and> r \<noteq> 0 then v else reg s q)"
  by (simp add: reg_def set_reg_def)

lemma reg_frame [machine_simps]:
  "reg (set_csr c v s) q = reg s q" "reg (store a v s) q = reg s q" "reg (jump a s) q = reg s q"
  "reg (set_status_bit n b s) q = reg s q"
  by (simp_all add: reg_def set_csr_def store_def jump_def set_status_bit_def)

lemma csrs_frame [machine_simps]:
  "csrs (set_reg r v s) c = csrs s c" "csrs (store a v s) c = csrs s c" "csrs (jump a s) c = csrs s c"
  "csrs (set_csr d v s) c = (if c = d then v else csrs s c)"
  by (simp_all add: set_reg_def store_def jump_def set_csr_def)

lemma mem_frame [machine_simps]:
  "m_mem (set_reg r v s) = m_mem s" "m_mem (set_csr c v s) = m_mem s" "m_mem (jump a s) = m_mem s"
  "m_mem (store a v s) = (m_mem s)(a := v)" "m_mem (set_status_bit n b s) = m_mem s"
  by (simp_all add: set_reg_def store_def jump_def set_csr_def set_status_bit_def)

lemma pc_frame [machine_simps]:
  "pc (set_reg r v s) = pc s" "pc (set_csr c v s) = pc s" "pc (store a v s) = pc s" "pc (jump a s) = a"
  "pc (set_status_bit n b s) = pc s"
  by (simp_all add: set_reg_def store_def jump_def set_csr_def set_status_bit_def)

lemma mode_frame [machine_simps]:
  "user_mode (set_reg r v s) = user_mode s" "user_mode (set_csr c v s) = user_mode s"
  "user_mode (store a v s) = user_mode s" "user_mode (jump a s) = user_mode s"
  "user_mode (set_status_bit n b s) = user_mode s"
  by (simp_all add: set_reg_def store_def jump_def set_csr_def set_status_bit_def)

lemma exec_append: "exec lnk (cs @ js) s = exec lnk js (exec lnk cs s)"
  by (induction cs arbitrary: s) simp_all

lemma exec1_pc_mode [machine_simps]: "pc (exec1 lnk i s) = pc s" "user_mode (exec1 lnk i s) = user_mode s"
  by (cases i; simp add: machine_simps)+

lemma exec_pc_mode [machine_simps]: "pc (exec lnk cs s) = pc s" "user_mode (exec lnk cs s) = user_mode s"
  by (induction cs arbitrary: s) (simp_all add: machine_simps)

text \<open>Status bits.\<close>

lemma status_bit_set [machine_simps]:
  assumes "n < 64"
  shows "status_bit k (set_status_bit n b s) = (if k = n then b else status_bit k s)"
  using assms by (auto simp: status_bit_def set_status_bit_def csrs_frame bit_set_bit_iff bit_unset_bit_iff)

lemma csr_set_status [machine_simps]: "c \<noteq> Sstatus \<Longrightarrow> csrs (set_status_bit n b s) c = csrs s c"
  by (simp add: set_status_bit_def csrs_frame)

lemma status_positions [machine_simps]: "ST_SIE = 1" "ST_SPIE = 5" "ST_SPP = 8" "ST_SUM = 18"
  by (simp_all add: ST_SIE_def ST_SPIE_def ST_SPP_def ST_SUM_def)

section \<open>Saving and restoring blocks of registers\<close>

text \<open>Cells at different offsets of one base are different.\<close>

lemma cell_offset_inj:
  fixes b :: usize
  assumes "i < 2 ^ 61" "j < 2 ^ 61" "b + 8 * of_nat i = b + 8 * of_nat j"
  shows "i = j"
proof -
  have "(8 * of_nat i :: usize) = 8 * of_nat j" using assms(3) by simp
  then have "(of_nat (8 * i) :: usize) = of_nat (8 * j)" by simp
  then have "unat (of_nat (8 * i) :: usize) = unat (of_nat (8 * j) :: usize)" by (rule arg_cong)
  moreover have "unat (of_nat (8 * i) :: usize) = 8 * i" "unat (of_nat (8 * j) :: usize) = 8 * j"
    by (rule unat_of_nat_small; use assms(1,2) in simp)+
  ultimately show ?thesis by simp
qed

definition save_at :: "nat list \<Rightarrow> nat \<Rightarrow> instr list" where
  "save_at rs base = map (\<lambda>i. Sd i (8 * of_nat i) base) rs"

definition load_from :: "nat list \<Rightarrow> nat \<Rightarrow> instr list" where
  "load_from rs base = map (\<lambda>i. Ld i (8 * of_nat i) base) rs"

lemma save_at_frame:
  "reg (exec lnk (save_at rs base) s) q = reg s q" "csrs (exec lnk (save_at rs base) s) = csrs s"
  by (induction rs arbitrary: s) (simp_all add: save_at_def machine_simps store_def reg_def)

lemma save_at_Cons: "exec lnk (save_at (j # rs) b) s = exec lnk (save_at rs b) (store (reg s b + 8 * of_nat j) (reg s j) s)"
  by (simp add: save_at_def)

lemma load_from_Cons:
  "exec lnk (load_from (j # rs) b) s = exec lnk (load_from rs b) (set_reg j (m_mem s (reg s b + 8 * of_nat j)) s)"
  by (simp add: load_from_def)

lemma save_at_mem:
  assumes "\<forall>i \<in> set rs. i < 2 ^ 61" "i < 2 ^ 61"
  shows "m_mem (exec lnk (save_at rs b) s) (reg s b + 8 * of_nat i) =
      (if i \<in> set rs then reg s i else m_mem s (reg s b + 8 * of_nat i))"
  using assms
proof (induction rs arbitrary: s)
  case (Cons j rs)
  then show ?case
    using cell_offset_inj [of i j "reg s b"] Cons.IH [of "store (reg s b + 8 * of_nat j) (reg s j) s"]
    by (auto simp: machine_simps save_at_Cons)
qed (simp add: save_at_def)

lemma save_at_mem_other:
  assumes "\<forall>i \<in> set rs. a \<noteq> reg s b + 8 * of_nat i"
  shows "m_mem (exec lnk (save_at rs b) s) a = m_mem s a"
  using assms
proof (induction rs arbitrary: s)
  case (Cons j rs)
  then show ?case
    using Cons.IH [of "store (reg s b + 8 * of_nat j) (reg s j) s"] by (auto simp: machine_simps save_at_Cons)
qed (simp add: save_at_def)

lemma load_from_reg:
  assumes "b \<notin> set rs" "0 \<notin> set rs"
  shows "reg (exec lnk (load_from rs b) s) q =
      (if q \<in> set rs then m_mem s (reg s b + 8 * of_nat q) else reg s q)"
  using assms
proof (induction rs arbitrary: s)
  case (Cons j rs)
  then show ?case by (auto simp: machine_simps load_from_Cons)
qed (simp add: load_from_def)

lemma load_from_frame:
  "csrs (exec lnk (load_from rs b) s) = csrs s" "m_mem (exec lnk (load_from rs b) s) = m_mem s"
proof (induction rs arbitrary: s)
  case (Cons j rs)
  case 1
  then show ?case by (simp add: load_from_Cons Cons.IH) (simp add: fun_eq_iff machine_simps)
  case 2
  then show ?case by (simp add: load_from_Cons Cons.IH machine_simps)
qed (simp_all add: load_from_def)

end
