(* ===== verification/Page_Allocator_Spec.thy ===== *)
theory Page_Allocator_Spec
  imports In_Mem_List
begin

text \<open>
  The interface of a page allocator, as its clients (the kernel heap, the page tables, the
  loader of user programs) rely on it: requests take bytes out of a set of free bytes,
  and returning a region puts them back. \<open>Buddy\<close> interprets it for the allocator of
  \<open>src/src/mem/palloc.rs\<close>.
\<close>

text \<open>A sequence of requests, each for a number of pages, in the order they are made.\<close>

fun alloc_all :: "(usize \<Rightarrow> 's \<Rightarrow> (usize \<times> 's) option) \<Rightarrow> usize list \<Rightarrow> 's \<Rightarrow> ((usize \<times> usize) list \<times> 's) option" where
  "alloc_all al [] s = Some ([], s)"
| "alloc_all al (n # ns) s = do {
     (p, s) \<leftarrow> al n s;
     (rs, s) \<leftarrow> alloc_all al ns s;
     Some ((n, p) # rs, s)
   }"

locale page_allocator =
  fixes alloc :: "usize \<Rightarrow> 's \<Rightarrow> (usize \<times> 's) option"
    and dealloc :: "usize \<Rightarrow> usize \<Rightarrow> 's \<Rightarrow> 's option"
    and region :: "usize \<Rightarrow> usize \<Rightarrow> nat set"
    and region_ok :: "usize \<Rightarrow> usize \<Rightarrow> bool"
    and inv :: "'s \<Rightarrow> nat set \<Rightarrow> bool"
  assumes alloc_law: "inv s A \<Longrightarrow> alloc n s = Some (p, s') \<Longrightarrow>
      region_ok n p \<and> region n p \<subseteq> A \<and> inv s' (A - region n p)"
    and dealloc_law: "inv s A \<Longrightarrow> region_ok n p \<Longrightarrow> region n p \<inter> A = {} \<Longrightarrow>
      \<exists>s'. dealloc p n s = Some s' \<and> inv s' (region n p \<union> A)"
begin

text \<open>Returning what was allocated gives back exactly the free bytes of before.\<close>

lemma alloc_dealloc:
  assumes "inv s A" "alloc n s = Some (p, s')"
  shows "\<exists>s''. dealloc p n s' = Some s'' \<and> inv s'' A"
proof -
  from alloc_law [OF assms] have ok: "region_ok n p" and sub: "region n p \<subseteq> A"
    and inv': "inv s' (A - region n p)" by auto
  from dealloc_law [OF inv' ok] obtain s'' where "dealloc p n s' = Some s''"
    "inv s'' (region n p \<union> (A - region n p))" by auto
  moreover have "region n p \<union> (A - region n p) = A" using sub by blast
  ultimately show ?thesis by auto
qed

text \<open>The regions handed out by a sequence of requests never overlap.\<close>

lemma alloc_all_disjoint:
  assumes "inv s A" "alloc_all alloc ns s = Some (rs, s')"
  shows "map fst rs = ns \<and> (\<forall>r \<in> set rs. region_ok (fst r) (snd r) \<and> region (fst r) (snd r) \<subseteq> A) \<and>
    sorted_wrt (\<lambda>r q. region (fst r) (snd r) \<inter> region (fst q) (snd q) = {}) rs \<and>
    inv s' (A - (\<Union>r \<in> set rs. region (fst r) (snd r)))"
  using assms
proof (induction ns arbitrary: s A rs)
  case Nil
  then show ?case by auto
next
  case (Cons n ns)
  from Cons.prems(2) obtain p s1 rs1 where a: "alloc n s = Some (p, s1)"
    and r: "alloc_all alloc ns s1 = Some (rs1, s')" and rs: "rs = (n, p) # rs1"
    by (auto simp: Option.bind_eq_Some_conv)
  from alloc_law [OF Cons.prems(1) a] have ok: "region_ok n p" "region n p \<subseteq> A"
    and i1: "inv s1 (A - region n p)" by auto
  note IH = Cons.IH [OF i1 r]
  have "A - region n p - (\<Union>r\<in>set rs1. region (fst r) (snd r)) =
      A - (\<Union>r\<in>set rs. region (fst r) (snd r))"
    by (auto simp: rs)
  moreover have "\<forall>q\<in>set rs1. region n p \<inter> region (fst q) (snd q) = {}" using IH by blast
  moreover have "\<forall>q\<in>set rs1. region (fst q) (snd q) \<subseteq> A" using IH by blast
  ultimately show ?case using IH ok by (simp add: rs)
qed

end

text \<open>
  The free bytes are the allocator's own memory: it keeps its lists there. It neither reads nor
  writes any other cell, which is what the clients' own invariants rest on.
\<close>

locale page_allocator_mem = page_allocator alloc dealloc region region_ok inv
  for alloc :: "usize \<Rightarrow> memory \<times> 'b \<Rightarrow> (usize \<times> memory \<times> 'b) option"
    and dealloc :: "usize \<Rightarrow> usize \<Rightarrow> memory \<times> 'b \<Rightarrow> (memory \<times> 'b) option"
    and region :: "usize \<Rightarrow> usize \<Rightarrow> nat set"
    and region_ok :: "usize \<Rightarrow> usize \<Rightarrow> bool"
    and inv :: "memory \<times> 'b \<Rightarrow> nat set \<Rightarrow> bool" +
  assumes alloc_untouched: "inv (m, b) A \<Longrightarrow> alloc n (m, b) = Some (p, m', b') \<Longrightarrow> untouched A m m'"
    and dealloc_untouched: "inv (m, b) A \<Longrightarrow> region_ok n p \<Longrightarrow> region n p \<inter> A = {} \<Longrightarrow>
      dealloc p n (m, b) = Some (m', b') \<Longrightarrow> untouched (region n p \<union> A) m m'"
    and inv_untouched: "inv (m, b) A \<Longrightarrow> untouched Y m m' \<Longrightarrow> Y \<inter> A = {} \<Longrightarrow> inv (m', b) A"
begin

text \<open>
  A client that writes outside the free bytes, for example into the region it was given, and
  returns the region afterwards, restores the allocator.
\<close>

lemma alloc_use_dealloc:
  assumes "inv (m, b) A" "alloc n (m, b) = Some (p, m1, b1)"
    and "untouched Y m1 m2" "Y \<inter> (A - region n p) = {}"
  shows "\<exists>m3 b3. dealloc p n (m2, b1) = Some (m3, b3) \<and> inv (m3, b3) A \<and> untouched (A \<union> Y) m m3"
proof -
  from alloc_law [OF assms(1,2)] have ok: "region_ok n p" and sub: "region n p \<subseteq> A"
    and i1: "inv (m1, b1) (A - region n p)" by auto
  have i2: "inv (m2, b1) (A - region n p)" by (rule inv_untouched [OF i1 assms(3,4)])
  have dis: "region n p \<inter> (A - region n p) = {}" and A: "region n p \<union> (A - region n p) = A"
    using sub by auto
  from dealloc_law [OF i2 ok dis] A obtain m3 b3 where d: "dealloc p n (m2, b1) = Some (m3, b3)"
    "inv (m3, b3) A" by auto
  have "untouched A m m1" by (rule alloc_untouched [OF assms(1,2)])
  moreover have "untouched A m2 m3" using dealloc_untouched [OF i2 ok dis d(1)] A by simp
  ultimately have "untouched (A \<union> Y) m m3"
    using assms(3) untouched_mono untouched_trans by (meson Un_upper1 Un_upper2)
  then show ?thesis using d by blast
qed

end

end
