(* ===== verification/Buddy.thy ===== *)
theory Buddy
  imports Page_Allocator_Spec
begin

text \<open>
  The buddy allocator of \<open>src/src/mem/palloc.rs\<close>: nine free lists, the \<open>k\<close>-th holding
  chunks of \<open>2 ^ k\<close> pages, linked through the free memory itself. The operations work on a
  memory and an allocator record; a panic is \<open>None\<close>. The abstraction \<open>buddy_rel\<close> relates
  them to one list of block addresses per order, \<open>good\<close> is the invariant on the set of
  free blocks (aligned to their size, pairwise disjoint), and the lemmas follow the bytes
  that are free through splitting and merging.
\<close>

section \<open>State and operations\<close>

definition MAX_ORDER :: nat where
  "MAX_ORDER = 8"

definition USER_POOL_LIMIT :: usize where
  "USER_POOL_LIMIT = 256"

record buddy_allocator =
  free_lists :: "in_mem_list list"
  total :: usize
  allocated :: usize

type_synonym buddy_state = "memory \<times> buddy_allocator"

definition buddy_empty :: buddy_allocator where
  "buddy_empty = \<lparr>free_lists = replicate (MAX_ORDER + 1) list_new, total = 0, allocated = 0\<rparr>"

text \<open>\<open>self.free_lists[k].push(x)\<close> and \<open>self.free_lists[k].pop()\<close>, with the index check.\<close>

definition push_at :: "nat \<Rightarrow> usize \<Rightarrow> buddy_state \<Rightarrow> buddy_state option" where
  "push_at k x s = (case s of (m, b) \<Rightarrow>
     if k < length (free_lists b) then
       let (m', l') = list_push m (free_lists b ! k) x
       in Some (m', b\<lparr>free_lists := (free_lists b)[k := l']\<rparr>)
     else None)"

definition pop_at :: "nat \<Rightarrow> buddy_state \<Rightarrow> (usize option \<times> buddy_state) option" where
  "pop_at k s = (case s of (m, b) \<Rightarrow>
     if k < length (free_lists b) then
       let (r, l') = list_pop m (free_lists b ! k)
       in Some (r, m, b\<lparr>free_lists := (free_lists b)[k := l']\<rparr>)
     else None)"

text \<open>
  The loop of \<open>insert_range\<close>. Shift amounts are masked to six bits and the subtraction
  wraps, as in a release build.
\<close>

partial_function (option) insert_loop :: "usize \<Rightarrow> usize \<Rightarrow> buddy_state \<Rightarrow> buddy_state option" where
  "insert_loop current_start end_addr s =
     (if current_start < end_addr then
        let size = min (push_bit (trailing_zeros current_start mod 64) 1)
                       (prev_power_of_two (end_addr - current_start));
            order = unat (of_nat (trailing_zeros size) - of_nat PG_SHIFT :: usize);
            order = min order MAX_ORDER
        in Option.bind (push_at order current_start s)
             (insert_loop (current_start + push_bit order 1 * PG_SIZE) end_addr)
      else Some s)"

definition insert_range :: "usize \<Rightarrow> usize \<Rightarrow> buddy_state \<Rightarrow> buddy_state option" where
  "insert_range start end_addr s = do {
     start \<leftarrow> round_up start PG_SIZE;
     end_addr \<leftarrow> round_down end_addr PG_SIZE;
     let (m, b) = s;
     insert_loop start end_addr (m, b\<lparr>total := total b + (end_addr - start)\<rparr>)
   }"

definition order_of :: "usize \<Rightarrow> nat" where
  "order_of n = trailing_zeros (next_power_of_two n)"

text \<open>\<open>for j in (order..i).rev()\<close>: the list argument is the range in the order of the loop.\<close>

fun split_blocks :: "nat list \<Rightarrow> buddy_state \<Rightarrow> buddy_state option" where
  "split_blocks [] s = Some s"
| "split_blocks (j # js) s = do {
     (r, s) \<leftarrow> pop_at (j + 1) s;
     s \<leftarrow> (case r of
         Some block \<Rightarrow> do {
           s \<leftarrow> push_at j (block + push_bit j 1 * PG_SIZE) s;
           push_at j block s
         }
       | None \<Rightarrow> Some s);
     split_blocks js s
   }"

definition buddy_alloc :: "usize \<Rightarrow> buddy_state \<Rightarrow> (usize \<times> buddy_state) option" where
  "buddy_alloc n s = do {
     rust_assert (n \<le> push_bit MAX_ORDER 1);
     let order = order_of n;
     i \<leftarrow> find (\<lambda>i. \<not> list_is_empty (free_lists (snd s) ! i)) [order..<length (free_lists (snd s))];
     (m, b) \<leftarrow> split_blocks (rev [order..<i]) s;
     (r, s) \<leftarrow> pop_at order (m, b\<lparr>allocated := allocated b + push_bit order 1\<rparr>);
     p \<leftarrow> r;
     Some (p, s)
   }"

text \<open>The merge loop of \<open>dealloc\<close>.\<close>

function merge_blocks :: "usize \<Rightarrow> nat \<Rightarrow> buddy_state \<Rightarrow> buddy_state option" where
  "merge_blocks curr_ptr curr_order s =
     (if curr_order < MAX_ORDER then
        let buddy = curr_ptr XOR push_bit (curr_order + PG_SHIFT) 1;
            (m, b) = s;
            l = free_lists b ! curr_order
        in case iter_find m (\<lambda>x. x = buddy) (list_iter_mut l) of
             None \<Rightarrow> None
           | Some None \<Rightarrow> Some s
           | Some (Some blk) \<Rightarrow>
               (let (m', l', _) = node_pop m l blk
                in case pop_at curr_order (m', b\<lparr>free_lists := (free_lists b)[curr_order := l']\<rparr>) of
                     None \<Rightarrow> None
                   | Some (_, s') \<Rightarrow>
                       (case push_at (curr_order + 1) (min curr_ptr buddy) s' of
                          None \<Rightarrow> None
                        | Some s'' \<Rightarrow> merge_blocks (min curr_ptr buddy) (curr_order + 1) s''))
      else Some s)"
  by pat_completeness auto
termination
  by (relation "measure (\<lambda>(_, k, _). MAX_ORDER - k)") auto

declare merge_blocks.simps [simp del]

definition buddy_dealloc :: "usize \<Rightarrow> usize \<Rightarrow> buddy_state \<Rightarrow> buddy_state option" where
  "buddy_dealloc ptr n s = do {
     let order = order_of n;
     s \<leftarrow> push_at order ptr s;
     (m, b) \<leftarrow> merge_blocks ptr order s;
     Some (m, b\<lparr>allocated := allocated b - push_bit order 1\<rparr>)
   }"

section \<open>Abstraction to lists of block addresses\<close>

type_synonym block = "nat \<times> usize"

definition buddy_rel :: "buddy_state \<Rightarrow> usize list list \<Rightarrow> bool" where
  "buddy_rel s F \<longleftrightarrow> length F = MAX_ORDER + 1 \<and> length (free_lists (snd s)) = MAX_ORDER + 1 \<and>
     (\<forall>k \<le> MAX_ORDER. list_at (fst s) (head (free_lists (snd s) ! k)) (F ! k))"

definition blocks :: "usize list list \<Rightarrow> block set" where
  "blocks F = {(k, x). k < length F \<and> x \<in> set (F ! k)}"

definition block_bytes :: "block \<Rightarrow> nat set" where
  "block_bytes blk = (case blk of (k, x) \<Rightarrow> {unat x ..< unat x + 2 ^ (k + PG_SHIFT)})"

definition bytes :: "block set \<Rightarrow> nat set" where
  "bytes B = \<Union> (block_bytes ` B)"

text \<open>A block of order \<open>k\<close>: not null, aligned to its size, inside the address space.\<close>

definition block_ok :: "block \<Rightarrow> bool" where
  "block_ok blk \<longleftrightarrow> (case blk of (k, x) \<Rightarrow>
     k \<le> MAX_ORDER \<and> x \<noteq> 0 \<and> 2 ^ (k + PG_SHIFT) dvd unat x \<and> unat x + 2 ^ (k + PG_SHIFT) \<le> 2 ^ 64)"

definition good :: "block set \<Rightarrow> bool" where
  "good B \<longleftrightarrow> (\<forall>b\<in>B. block_ok b) \<and>
     (\<forall>b\<in>B. \<forall>c\<in>B. b \<noteq> c \<longrightarrow> block_bytes b \<inter> block_bytes c = {})"

definition buddy_inv :: "buddy_state \<Rightarrow> usize list list \<Rightarrow> bool" where
  "buddy_inv s F \<longleftrightarrow> buddy_rel s F \<and> good (blocks F)"

subsection \<open>Sets of blocks\<close>

lemma block_start_in: "unat x \<in> block_bytes (k, x)"
  by (simp add: block_bytes_def)

lemma bytes_insert [simp]: "bytes (insert b B) = block_bytes b \<union> bytes B"
  by (simp add: bytes_def)

lemma bytes_empty [simp]: "bytes {} = {}"
  by (simp add: bytes_def)

lemma bytes_memI: "b \<in> B \<Longrightarrow> block_bytes b \<subseteq> bytes B"
  by (auto simp: bytes_def)

lemma good_empty [simp]: "good {}"
  by (simp add: good_def)

lemma good_insert:
  assumes "good B" "block_ok b" "block_bytes b \<inter> bytes B = {}"
  shows "good (insert b B)"
  using assms by (auto simp: good_def bytes_def)

lemma good_remove:
  assumes "good B" "b \<in> B"
  shows "good (B - {b})" and "bytes (B - {b}) = bytes B - block_bytes b"
proof -
  show "good (B - {b})" using assms(1) by (simp add: good_def)
  have "a \<notin> block_bytes b" if "c \<in> B" "c \<noteq> b" "a \<in> block_bytes c" for a c
    using that assms unfolding good_def by blast
  then show "bytes (B - {b}) = bytes B - block_bytes b"
    unfolding bytes_def by auto
qed

lemma good_block_ok: "good B \<Longrightarrow> b \<in> B \<Longrightarrow> block_ok b"
  by (simp add: good_def)

lemma good_same_address:
  assumes "good B" "(k, x) \<in> B" "(j, x) \<in> B"
  shows "j = k"
proof (rule ccontr)
  assume "j \<noteq> k"
  then have "block_bytes (k, x) \<inter> block_bytes (j, x) = {}" using assms by (auto simp: good_def)
  then show False using block_start_in by blast
qed

lemma fresh_address: "block_bytes (k, x) \<inter> bytes B = {} \<Longrightarrow> (j, x) \<notin> B"
  using block_start_in bytes_memI by blast

subsection \<open>The free lists as sets of blocks\<close>

lemma blocks_push:
  "k < length F \<Longrightarrow> blocks (F[k := x # F ! k]) = insert (k, x) (blocks F)"
  by (auto simp: blocks_def nth_list_update split: if_splits)

lemma blocks_remove:
  assumes "k < length F" "F ! k = as @ x # bs" "distinct (F ! k)"
  shows "blocks (F[k := as @ bs]) = blocks F - {(k, x)}"
  using assms by (auto simp: blocks_def nth_list_update split: if_splits)

lemma rel_list_at:
  "buddy_rel s F \<Longrightarrow> k \<le> MAX_ORDER \<Longrightarrow> list_at (fst s) (head (free_lists (snd s) ! k)) (F ! k)"
  by (simp add: buddy_rel_def)

lemma rel_lengths:
  "buddy_rel s F \<Longrightarrow> length F = MAX_ORDER + 1 \<and> length (free_lists (snd s)) = MAX_ORDER + 1"
  by (simp add: buddy_rel_def)

lemma rel_list_is_empty:
  "buddy_rel s F \<Longrightarrow> k \<le> MAX_ORDER \<Longrightarrow> list_is_empty (free_lists (snd s) ! k) \<longleftrightarrow> F ! k = []"
  using rel_list_at [of s F k] by (cases "F ! k") (auto simp: list_is_empty_def)

lemma rel_distinct: "buddy_rel s F \<Longrightarrow> k \<le> MAX_ORDER \<Longrightarrow> distinct (F ! k)"
  using rel_list_at list_at_distinct by blast

lemma rel_counters:
  "buddy_rel (m, b\<lparr>allocated := a\<rparr>) F = buddy_rel (m, b) F"
  "buddy_rel (m, b\<lparr>total := t\<rparr>) F = buddy_rel (m, b) F"
  by (simp_all add: buddy_rel_def)

lemma push_at_rel:
  assumes r: "buddy_rel (m, b) F" and k: "k \<le> MAX_ORDER" and x: "x \<noteq> 0"
    and new: "\<forall>j. (j, x) \<notin> blocks F"
  shows "\<exists>m' l. push_at k x (m, b) = Some (m', b\<lparr>free_lists := l\<rparr>) \<and>
    buddy_rel (m', b\<lparr>free_lists := l\<rparr>) (F[k := x # F ! k])"
proof -
  have len: "length F = MAX_ORDER + 1" "length (free_lists b) = MAX_ORDER + 1"
    using rel_lengths [OF r] by auto
  have notin: "x \<notin> set (F ! j)" if "j \<le> MAX_ORDER" for j
    using new that len by (auto simp: blocks_def)
  have at: "list_at m (head (free_lists b ! j)) (F ! j)" if "j \<le> MAX_ORDER" for j
    using rel_list_at [OF r that] by simp
  show ?thesis
    using len k x notin at
    by (auto simp: push_at_def list_push_def buddy_rel_def nth_list_update)
qed

lemma pop_at_rel:
  assumes r: "buddy_rel (m, b) F" and k: "k \<le> MAX_ORDER" and F: "F ! k = x # xs"
  shows "\<exists>l. pop_at k (m, b) = Some (Some x, m, b\<lparr>free_lists := l\<rparr>) \<and>
    buddy_rel (m, b\<lparr>free_lists := l\<rparr>) (F[k := xs])"
proof -
  have len: "length F = MAX_ORDER + 1" "length (free_lists b) = MAX_ORDER + 1"
    using rel_lengths [OF r] by auto
  have at: "list_at m (head (free_lists b ! j)) (F ! j)" if "j \<le> MAX_ORDER" for j
    using rel_list_at [OF r that] by simp
  have "list_pop m (free_lists b ! k) = (Some x, (free_lists b ! k)\<lparr>head := m x\<rparr>)" "list_at m (m x) xs"
    using list_pop_Cons at [OF k] F by fastforce+
  then show ?thesis
    using len k at by (auto simp: pop_at_def buddy_rel_def nth_list_update)
qed

lemma unlink_rel:
  assumes r: "buddy_rel (m, b) F" and g: "good (blocks F)" and k: "k \<le> MAX_ORDER"
    and F: "F ! k = as @ y # bs"
    and pop: "node_pop m (free_lists b ! k)
       \<lparr>prev = (if as = [] then Head_Field else Cell (last as)), curr = y\<rparr> = (m', l', z)"
  shows "buddy_rel (m', b\<lparr>free_lists := (free_lists b)[k := l']\<rparr>) (F[k := as @ bs])"
proof -
  have len: "length F = MAX_ORDER + 1" "length (free_lists b) = MAX_ORDER + 1"
    using rel_lengths [OF r] by auto
  have at: "list_at m (head (free_lists b ! j)) (F ! j)" if "j \<le> MAX_ORDER" for j
    using rel_list_at [OF r that] by simp
  have new: "list_at m' (head l') (as @ bs)" and same: "\<forall>a. a \<notin> set as \<longrightarrow> m' a = m a"
    using node_pop_at [OF _ pop] at [OF k] F by auto
  have "list_at m' (head (free_lists b ! j)) (F ! j)" if j: "j \<le> MAX_ORDER" "j \<noteq> k" for j
  proof -
    have "a \<notin> set as" if "a \<in> set (F ! j)" for a
    proof
      assume "a \<in> set as"
      then have "(k, a) \<in> blocks F" "(j, a) \<in> blocks F"
        using that F len k j by (auto simp: blocks_def)
      then show False using good_same_address [OF g] j by blast
    qed
    then have "\<forall>a \<in> set (F ! j). m' a = m a" using same by blast
    then show ?thesis using at [OF j(1)] list_at_cong by metis
  qed
  then show ?thesis
    using len k new by (auto simp: buddy_rel_def nth_list_update)
qed
subsection \<open>Halves of a block\<close>

lemma unat_block_size:
  assumes "k \<le> MAX_ORDER"
  shows "unat (push_bit k 1 * PG_SIZE :: usize) = 2 ^ (k + PG_SHIFT)"
proof -
  have "(push_bit k 1 * PG_SIZE :: usize) = 2 ^ (k + PG_SHIFT)"
    by (simp add: power_add PG_SHIFT_def)
  then show ?thesis using assms by (simp add: unat_exp PG_SHIFT_def MAX_ORDER_def)
qed

lemma unat_upper_half:
  assumes "block_ok (Suc j, x)"
  shows "unat (x + push_bit j 1 * PG_SIZE) = unat x + 2 ^ (j + PG_SHIFT)"
proof -
  have u: "unat (push_bit j 1 * PG_SIZE :: usize) = 2 ^ (j + PG_SHIFT)"
    using assms by (intro unat_block_size) (simp add: block_ok_def)
  have "unat x + 2 * 2 ^ (j + PG_SHIFT) \<le> 2 ^ 64"
    using assms by (simp add: block_ok_def)
  moreover have "0 < (2::nat) ^ (j + PG_SHIFT)" by simp
  ultimately have "unat x + 2 ^ (j + PG_SHIFT) < 2 ^ 64" by linarith
  then show ?thesis
    using unat_add_no_wrap [of x "push_bit j 1 * PG_SIZE", unfolded u] by simp
qed

lemma halves:
  assumes ok: "block_ok (Suc j, x)"
  defines "h \<equiv> x + push_bit j 1 * PG_SIZE"
  shows "block_ok (j, x)" and "block_ok (j, h)"
    and "block_bytes (Suc j, x) = block_bytes (j, x) \<union> block_bytes (j, h)"
    and "block_bytes (j, x) \<inter> block_bytes (j, h) = {}"
proof -
  let ?z = "(2::nat) ^ (j + PG_SHIFT)"
  have h: "unat h = unat x + ?z" unfolding h_def by (rule unat_upper_half [OF ok])
  have d: "2 * ?z dvd unat x" and le: "unat x + 2 * ?z \<le> 2 ^ 64" and j: "Suc j \<le> MAX_ORDER"
    and x: "x \<noteq> 0"
    using ok by (simp_all add: block_ok_def)
  have d1: "?z dvd unat x" using d by (rule dvd_mult_right)
  have "h \<noteq> 0" using h by (metis add_is_0 power_not_zero unat_0 zero_neq_numeral)
  with d1 le j x h show "block_ok (j, x)" "block_ok (j, h)"
    by (simp_all add: block_ok_def)
  show "block_bytes (Suc j, x) = block_bytes (j, x) \<union> block_bytes (j, h)"
    "block_bytes (j, x) \<inter> block_bytes (j, h) = {}"
    using h by (auto simp: block_bytes_def)
qed

subsection \<open>Allocation\<close>

definition same_counters :: "buddy_allocator \<Rightarrow> buddy_allocator \<Rightarrow> bool" where
  "same_counters b b' \<longleftrightarrow> total b' = total b \<and> allocated b' = allocated b"

lemma same_counters_refl [simp]: "same_counters b b"
  by (simp add: same_counters_def)

lemma same_counters_upd [simp]: "same_counters b (b\<lparr>free_lists := l\<rparr>)"
  by (simp add: same_counters_def)

lemma same_counters_trans: "same_counters a b \<Longrightarrow> same_counters b c \<Longrightarrow> same_counters a c"
  by (simp add: same_counters_def)

lemma push_at_untouched:
  "push_at k x (m, b) = Some (m', b') \<Longrightarrow> block_bytes (j, x) \<subseteq> Y \<Longrightarrow> untouched Y m m'"
  using block_start_in [of x j]
  by (auto simp: push_at_def list_push_def untouched_def split: if_splits)

lemma pop_inv:
  assumes "buddy_inv (m, b) F" "k \<le> MAX_ORDER" "F ! k = x # xs"
  shows "\<exists>b'. pop_at k (m, b) = Some (Some x, m, b') \<and> same_counters b b' \<and>
    buddy_inv (m, b') (F[k := xs]) \<and> block_ok (k, x) \<and>
    block_bytes (k, x) \<subseteq> bytes (blocks F) \<and>
    bytes (blocks (F[k := xs])) = bytes (blocks F) - block_bytes (k, x)"
proof -
  from assms(1) have r: "buddy_rel (m, b) F" and g: "good (blocks F)"
    by (auto simp: buddy_inv_def)
  have mem: "(k, x) \<in> blocks F"
    using assms rel_lengths [OF r] by (simp add: blocks_def)
  have bl: "blocks (F[k := xs]) = blocks F - {(k, x)}"
    using blocks_remove [of k F "[]" x xs] rel_lengths [OF r] rel_distinct [OF r assms(2)] assms
    by simp
  obtain l where "pop_at k (m, b) = Some (Some x, m, b\<lparr>free_lists := l\<rparr>)"
    "buddy_rel (m, b\<lparr>free_lists := l\<rparr>) (F[k := xs])"
    using pop_at_rel [OF r assms(2,3)] by blast
  then show ?thesis
    using good_remove [OF g mem] good_block_ok [OF g mem] bytes_memI [OF mem]
    by (intro exI [of _ "b\<lparr>free_lists := l\<rparr>"]) (simp add: buddy_inv_def bl)
qed

lemma push_inv:
  assumes "buddy_inv (m, b) F" "block_ok (k, x)" "block_bytes (k, x) \<inter> bytes (blocks F) = {}"
  shows "\<exists>m' b'. push_at k x (m, b) = Some (m', b') \<and> same_counters b b' \<and>
    buddy_inv (m', b') (F[k := x # F ! k]) \<and>
    bytes (blocks (F[k := x # F ! k])) = block_bytes (k, x) \<union> bytes (blocks F)"
proof -
  from assms(1) have r: "buddy_rel (m, b) F" and g: "good (blocks F)"
    by (auto simp: buddy_inv_def)
  have k: "k \<le> MAX_ORDER" and x: "x \<noteq> 0" using assms(2) by (auto simp: block_ok_def)
  have bl: "blocks (F[k := x # F ! k]) = insert (k, x) (blocks F)"
    using blocks_push [of k F] rel_lengths [OF r] k by simp
  obtain m' l where "push_at k x (m, b) = Some (m', b\<lparr>free_lists := l\<rparr>)"
    "buddy_rel (m', b\<lparr>free_lists := l\<rparr>) (F[k := x # F ! k])"
    using push_at_rel [OF r k x] fresh_address [OF assms(3)] by blast
  then show ?thesis
    using good_insert [OF g assms(2,3)]
    by (intro exI [of _ m'] exI [of _ "b\<lparr>free_lists := l\<rparr>"]) (simp add: buddy_inv_def bl)
qed

lemma split_step:
  assumes inv: "buddy_inv (m, b) F" and j: "Suc j \<le> MAX_ORDER" and F: "F ! Suc j = x # xs"
  shows "\<exists>m' b' F'. split_blocks (j # js) (m, b) = split_blocks js (m', b') \<and>
    same_counters b b' \<and> buddy_inv (m', b') F' \<and> F' ! j \<noteq> [] \<and>
    bytes (blocks F') = bytes (blocks F) \<and> untouched (bytes (blocks F)) m m'"
proof -
  define h where "h = x + push_bit j 1 * PG_SIZE"
  obtain b1 where p1: "pop_at (Suc j) (m, b) = Some (Some x, m, b1)" and c1: "same_counters b b1"
    and i1: "buddy_inv (m, b1) (F[Suc j := xs])"
    and ok: "block_ok (Suc j, x)" and sub: "block_bytes (Suc j, x) \<subseteq> bytes (blocks F)"
    and y1: "bytes (blocks (F[Suc j := xs])) = bytes (blocks F) - block_bytes (Suc j, x)"
    using pop_inv [OF inv j F] by blast
  note hv = halves [OF ok, folded h_def]
  define F1 where "F1 = F[Suc j := xs]"
  note i1 = i1 [folded F1_def] and y1 = y1 [folded F1_def]
  have "block_bytes (j, h) \<inter> bytes (blocks F1) = {}" unfolding y1 hv(3) by blast
  from push_inv [OF i1 hv(2) this] obtain m2 b2 where
    p2: "push_at j h (m, b1) = Some (m2, b2)" and c2: "same_counters b1 b2"
    and i2: "buddy_inv (m2, b2) (F1[j := h # F1 ! j])"
    and y2: "bytes (blocks (F1[j := h # F1 ! j])) = block_bytes (j, h) \<union> bytes (blocks F1)"
    by blast
  define F2 where "F2 = F1[j := h # F1 ! j]"
  note i2 = i2 [folded F2_def] and y2 = y2 [folded F2_def]
  have "block_bytes (j, x) \<inter> bytes (blocks F2) = {}" unfolding y2 y1 hv(3) using hv(4) by blast
  from push_inv [OF i2 hv(1) this] obtain m3 b3 where
    p3: "push_at j x (m2, b2) = Some (m3, b3)" and c3: "same_counters b2 b3"
    and i3: "buddy_inv (m3, b3) (F2[j := x # F2 ! j])"
    and y3: "bytes (blocks (F2[j := x # F2 ! j])) = block_bytes (j, x) \<union> bytes (blocks F2)"
    by blast
  have "j < length F2" using inv j rel_lengths by (auto simp: buddy_inv_def F1_def F2_def)
  then have "(F2[j := x # F2 ! j]) ! j \<noteq> []" by simp
  moreover have "bytes (blocks (F2[j := x # F2 ! j])) = bytes (blocks F)"
    unfolding y3 y2 y1 using hv(3) sub by blast
  moreover have "split_blocks (j # js) (m, b) = split_blocks js (m3, b3)"
    using p1 p2 p3 by (simp add: h_def)
  moreover have "untouched (bytes (blocks F)) m m3"
    using push_at_untouched [OF p2, of j "bytes (blocks F)"]
      push_at_untouched [OF p3, of j "bytes (blocks F)"] hv(3) sub
    by (intro untouched_trans [of _ m m2 m3]) simp_all
  ultimately show ?thesis
    using i3 c1 c2 c3 same_counters_trans by blast
qed

lemma split_blocks_inv:
  assumes "buddy_inv (m, b) F" "order \<le> i" "i \<le> MAX_ORDER" "F ! i \<noteq> []"
  shows "\<exists>m' b' F'. split_blocks (rev [order..<i]) (m, b) = Some (m', b') \<and>
    same_counters b b' \<and> buddy_inv (m', b') F' \<and> F' ! order \<noteq> [] \<and>
    bytes (blocks F') = bytes (blocks F) \<and> untouched (bytes (blocks F)) m m'"
  using assms
proof (induction "i - order" arbitrary: i m b F)
  case 0
  then show ?case by auto
next
  case (Suc d)
  then obtain j where j: "i = Suc j" "order \<le> j" by (cases i) auto
  from Suc.prems j obtain x xs where F: "F ! Suc j = x # xs" by (cases "F ! i") auto
  have "Suc j \<le> MAX_ORDER" using Suc.prems j by simp
  from split_step [OF Suc.prems(1) this F] obtain m1 b1 F1 where
    s: "split_blocks (j # rev [order..<j]) (m, b) = split_blocks (rev [order..<j]) (m1, b1)"
    and c: "same_counters b b1" and i1: "buddy_inv (m1, b1) F1" "F1 ! j \<noteq> []"
    and y: "bytes (blocks F1) = bytes (blocks F)" and u: "untouched (bytes (blocks F)) m m1"
    by blast
  have "d = j - order" "j \<le> MAX_ORDER" using Suc.hyps(2) Suc.prems j by auto
  from Suc.hyps(1) [OF this(1) i1(1) j(2) this(2) i1(2)] obtain m2 b2 F2 where
    "split_blocks (rev [order..<j]) (m1, b1) = Some (m2, b2)" "same_counters b1 b2"
    "buddy_inv (m2, b2) F2" "F2 ! order \<noteq> []" "bytes (blocks F2) = bytes (blocks F1)"
    "untouched (bytes (blocks F1)) m1 m2"
    by blast
  moreover have "rev [order..<i] = j # rev [order..<j]" using j by simp
  ultimately show ?case
    using s y same_counters_trans [OF c] untouched_trans [OF u]
    by (intro exI [of _ m2] exI [of _ b2] exI [of _ F2]) (simp del: split_blocks.simps)
qed

lemma buddy_alloc_ok:
  assumes inv: "buddy_inv s F" and n: "n \<le> push_bit MAX_ORDER 1"
    and k: "order_of n \<le> k" "k \<le> MAX_ORDER" "F ! k \<noteq> []"
  shows "\<exists>p s' F'. buddy_alloc n s = Some (p, s') \<and> buddy_inv s' F' \<and> block_ok (order_of n, p) \<and>
    block_bytes (order_of n, p) \<subseteq> bytes (blocks F) \<and>
    bytes (blocks F') = bytes (blocks F) - block_bytes (order_of n, p) \<and>
    allocated (snd s') = allocated (snd s) + push_bit (order_of n) 1 \<and> total (snd s') = total (snd s) \<and>
    untouched (bytes (blocks F)) (fst s) (fst s')"
proof -
  obtain m b where s: "s = (m, b)" by fastforce
  let ?o = "order_of n"
  have r: "buddy_rel (m, b) F" using inv s by (simp add: buddy_inv_def)
  have len: "length (free_lists b) = MAX_ORDER + 1" using rel_lengths [OF r] by simp
  have empty: "list_is_empty (free_lists b ! i) \<longleftrightarrow> F ! i = []" if "i \<le> MAX_ORDER" for i
    using rel_list_is_empty [OF r that] by simp
  let ?P = "\<lambda>i. \<not> list_is_empty (free_lists b ! i)"
  have "\<exists>i \<in> set [?o..<length (free_lists b)]. ?P i" using k empty len by fastforce
  then obtain i where f: "find ?P [?o..<length (free_lists b)] = Some i"
    by (metis find_None_iff2 not_None_eq)
  have "?P i" "i \<in> set [?o..<length (free_lists b)]"
    using find_SomeD [OF f] by simp_all
  then have i: "?o \<le> i" "i \<le> MAX_ORDER" "F ! i \<noteq> []" using empty len by auto
  from split_blocks_inv [OF inv [unfolded s] i] obtain m1 b1 F1 where
    sp: "split_blocks (rev [?o..<i]) (m, b) = Some (m1, b1)" and c1: "same_counters b b1"
    and i1: "buddy_inv (m1, b1) F1" "F1 ! ?o \<noteq> []" and y1: "bytes (blocks F1) = bytes (blocks F)"
    and u1: "untouched (bytes (blocks F)) m m1"
    by blast
  obtain p ps where F1: "F1 ! ?o = p # ps" using i1(2) by (cases "F1 ! ?o") auto
  let ?b = "b1\<lparr>allocated := allocated b1 + push_bit ?o 1\<rparr>"
  have "buddy_inv (m1, ?b) F1" using i1(1) by (simp add: buddy_inv_def rel_counters)
  from pop_inv [OF this _ F1] i obtain b2 where
    pp: "pop_at ?o (m1, ?b) = Some (Some p, m1, b2)" and c2: "same_counters ?b b2"
    and i2: "buddy_inv (m1, b2) (F1[?o := ps])" "block_ok (?o, p)"
      "block_bytes (?o, p) \<subseteq> bytes (blocks F1)"
      "bytes (blocks (F1[?o := ps])) = bytes (blocks F1) - block_bytes (?o, p)"
    by auto
  have "buddy_alloc n s = Some (p, m1, b2)"
    using n f sp pp by (simp add: buddy_alloc_def s)
  then show ?thesis
    using i2 y1 c1 c2 s u1 by (auto simp: same_counters_def)
qed

lemma buddy_alloc_exhausted:
  assumes "buddy_inv s F" "\<forall>k. order_of n \<le> k \<and> k \<le> MAX_ORDER \<longrightarrow> F ! k = []"
  shows "buddy_alloc n s = None"
proof -
  have r: "buddy_rel s F" using assms by (simp add: buddy_inv_def)
  have "list_is_empty (free_lists (snd s) ! i)" if "order_of n \<le> i" "i \<le> MAX_ORDER" for i
    using rel_list_at [OF r that(2)] assms(2) that by (simp add: list_is_empty_def)
  then have "find (\<lambda>i. \<not> list_is_empty (free_lists (snd s) ! i))
      [order_of n..<length (free_lists (snd s))] = None"
    using rel_lengths [OF r] by (auto simp: find_None_iff)
  then show ?thesis by (simp add: buddy_alloc_def)
qed
subsection \<open>Merging and deallocation\<close>

lemma buddy_neq:
  fixes p :: usize
  assumes "k \<le> MAX_ORDER"
  shows "p XOR push_bit (k + PG_SHIFT) 1 \<noteq> p"
proof
  assume a: "p XOR push_bit (k + PG_SHIFT) 1 = p"
  have "p XOR (p XOR push_bit (k + PG_SHIFT) 1) = (2 ^ (k + PG_SHIFT) :: usize)"
    by (simp flip: xor.assoc)
  then have "(2 ^ (k + PG_SHIFT) :: usize) = 0" unfolding a by simp
  then show False using assms by (simp add: PG_SHIFT_def MAX_ORDER_def)
qed

lemma buddy_pair:
  fixes p :: usize
  assumes p: "block_ok (k, p)" and k: "k < MAX_ORDER"
  defines "q \<equiv> p XOR push_bit (k + PG_SHIFT) 1"
  assumes q: "block_ok (k, q)"
  shows "q \<noteq> p" and "block_ok (Suc k, min p q)"
    and "block_bytes (Suc k, min p q) = block_bytes (k, p) \<union> block_bytes (k, q)"
proof -
  let ?z = "(2::nat) ^ (k + PG_SHIFT)"
  have sz: "unat (2 ^ (k + PG_SHIFT) :: usize) = ?z"
    using k by (simp add: unat_exp PG_SHIFT_def MAX_ORDER_def)
  have d: "?z dvd unat p" using p by (simp add: block_ok_def)
  have uq: "unat q = (if 2 * ?z dvd unat p then unat p + ?z else unat p - ?z)"
    using xor_aligned_nat [OF d] by (simp add: q_def unat_xor sz)
  have "unat p \<noteq> 0" using p by (simp add: block_ok_def unat_eq_zero)
  then have zp: "?z \<le> unat p" using d by (simp add: dvd_imp_le)
  show "q \<noteq> p" unfolding q_def using k by (intro buddy_neq) simp
  have "block_ok (Suc k, min p q) \<and>
    block_bytes (Suc k, min p q) = block_bytes (k, p) \<union> block_bytes (k, q)"
  proof (cases "2 * ?z dvd unat p")
    case True
    then have u: "unat q = unat p + ?z" using uq by simp
    then have "min p q = p" by (simp add: min_def word_le_nat_alt)
    then show ?thesis
      using True u p q k by (auto simp: block_ok_def block_bytes_def)
  next
    case False
    then have u: "unat p = unat q + ?z" using uq zp by simp
    then have mn: "min p q = q" by (simp add: min_def word_le_nat_alt)
    from d obtain c where c: "unat p = ?z * c" by (elim dvdE)
    with False have "odd c" by (auto simp: mult.commute)
    then obtain e where "c = Suc (2 * e)" using oddE by fastforce
    then have "unat q = 2 * ?z * e" using u c by simp
    then have "2 * ?z dvd unat q" by simp
    then show ?thesis
      using u p q k by (auto simp: mn block_ok_def block_bytes_def)
  qed
  then show "block_ok (Suc k, min p q)"
    "block_bytes (Suc k, min p q) = block_bytes (k, p) \<union> block_bytes (k, q)" by auto
qed

lemma merge_found:
  assumes inv: "buddy_inv (m, b) F" and k: "k < MAX_ORDER" and F: "F ! k = p # as @ q # bs"
    and q: "q = p XOR push_bit (k + PG_SHIFT) 1" and fst: "q \<notin> set as"
  shows "\<exists>m' b' F'. merge_blocks p k (m, b) = merge_blocks (min p q) (Suc k) (m', b') \<and>
    same_counters b b' \<and> buddy_inv (m', b') F' \<and> (\<exists>ps. F' ! Suc k = min p q # ps) \<and>
    bytes (blocks F') = bytes (blocks F) \<and> untouched (bytes (blocks F)) m m'"
proof -
  from inv have r: "buddy_rel (m, b) F" and g: "good (blocks F)" by (auto simp: buddy_inv_def)
  have k': "k \<le> MAX_ORDER" and len: "k < length F" "Suc k < length F"
    using k rel_lengths [OF r] by auto
  have memp: "(k, p) \<in> blocks F" and memq: "(k, q) \<in> blocks F"
    using F len by (auto simp: blocks_def)
  note pair = buddy_pair [OF good_block_ok [OF g memp] k, folded q, OF good_block_ok [OF g memq]]
  let ?l = "free_lists b ! k"
  have at: "list_at m (head ?l) ((p # as) @ q # bs)" using rel_list_at [OF r k'] F by simp
  define nd where "nd = \<lparr>prev = (if p # as = [] then Head_Field else Cell (last (p # as))), curr = q\<rparr>"
  have find: "iter_find m (\<lambda>x. x = q) (list_iter_mut ?l) = Some (Some nd)"
    unfolding list_iter_mut_def nd_def by (rule iter_find_hit [OF at]) (use fst pair(1) in auto)
  obtain m1 l1 z where np: "node_pop m ?l nd = (m1, l1, z)" by (metis prod_cases3)
  define b1 where "b1 = b\<lparr>free_lists := (free_lists b)[k := l1]\<rparr>"
  define F1 where "F1 = F[k := (p # as) @ bs]"
  have F': "F ! k = (p # as) @ q # bs" using F by simp
  have bl: "blocks F1 = blocks F - {(k, q)}"
    unfolding F1_def by (rule blocks_remove [OF len(1) F' rel_distinct [OF r k']])
  have "buddy_rel (m1, b1) F1"
    unfolding b1_def F1_def by (rule unlink_rel [OF r g k' F' np [unfolded nd_def]])
  then have i1: "buddy_inv (m1, b1) F1" using good_remove [OF g memq] by (simp add: buddy_inv_def bl)
  have y1: "bytes (blocks F1) = bytes (blocks F) - block_bytes (k, q)"
    using good_remove [OF g memq] by (simp add: bl)
  have "F1 ! k = p # as @ bs" using len by (simp add: F1_def)
  from pop_inv [OF i1 k' this] obtain b2 where
    p2: "pop_at k (m1, b1) = Some (Some p, m1, b2)" and c2: "same_counters b1 b2"
    and i2: "buddy_inv (m1, b2) (F1[k := as @ bs])"
    and y2: "bytes (blocks (F1[k := as @ bs])) = bytes (blocks F1) - block_bytes (k, p)"
    by blast
  define F2 where "F2 = F1[k := as @ bs]"
  note i2 = i2 [folded F2_def] and y2 = y2 [folded F2_def]
  have "block_bytes (Suc k, min p q) \<inter> bytes (blocks F2) = {}"
    unfolding pair(3) y2 y1 by blast
  from push_inv [OF i2 pair(2) this] obtain m3 b3 where
    p3: "push_at (Suc k) (min p q) (m1, b2) = Some (m3, b3)" and c3: "same_counters b2 b3"
    and i3: "buddy_inv (m3, b3) (F2[Suc k := min p q # F2 ! Suc k])"
    and y3: "bytes (blocks (F2[Suc k := min p q # F2 ! Suc k])) =
      block_bytes (Suc k, min p q) \<union> bytes (blocks F2)"
    by blast
  have "merge_blocks p k (m, b) = merge_blocks (min p q) (Suc k) (m3, b3)"
    using k find np p2 p3 by (subst merge_blocks.simps) (simp add: Let_def q b1_def)
  moreover have "bytes (blocks (F2[Suc k := min p q # F2 ! Suc k])) = bytes (blocks F)"
    unfolding y3 pair(3) y2 y1 using bytes_memI [OF memp] bytes_memI [OF memq] by blast
  moreover have "same_counters b b3"
    using same_counters_trans [OF same_counters_trans [OF _ c2] c3, of b] by (simp add: b1_def)
  moreover have "F2[Suc k := min p q # F2 ! Suc k] ! Suc k = min p q # F2 ! Suc k"
    using len by (simp add: F1_def F2_def)
  moreover have "untouched (bytes (blocks F)) m m3"
  proof (rule untouched_trans)
    have "\<forall>a. a \<notin> set (p # as) \<longrightarrow> m1 a = m a"
      using node_pop_at [OF at np [unfolded nd_def]] by blast
    moreover have "unat a \<in> bytes (blocks F)" if "a \<in> set (p # as)" for a
      using bytes_memI [of "(k, a)" "blocks F"] block_start_in [of a k] that F len
      by (auto simp: blocks_def)
    ultimately show "untouched (bytes (blocks F)) m m1" unfolding untouched_def by blast
    show "untouched (bytes (blocks F)) m1 m3"
      using push_at_untouched [OF p3, of "Suc k"] pair(3) bytes_memI [OF memp] bytes_memI [OF memq]
      by simp
  qed
  ultimately show ?thesis using i3 by blast
qed

lemma merge_blocks_inv:
  assumes "buddy_inv (m, b) F" "k \<le> MAX_ORDER" "F ! k = p # ps"
  shows "\<exists>m' b' F'. merge_blocks p k (m, b) = Some (m', b') \<and> same_counters b b' \<and>
    buddy_inv (m', b') F' \<and> bytes (blocks F') = bytes (blocks F) \<and>
    untouched (bytes (blocks F)) m m'"
  using assms
proof (induction "MAX_ORDER - k" arbitrary: k m b F p ps)
  case 0
  then have "merge_blocks p k (m, b) = Some (m, b)" by (subst merge_blocks.simps) simp
  then show ?case using 0 by auto
next
  case (Suc d)
  then have k: "k < MAX_ORDER" by simp
  define q where "q = p XOR push_bit (k + PG_SHIFT) 1"
  have at: "list_at m (head (free_lists b ! k)) (F ! k)"
    using Suc.prems rel_list_at by (fastforce simp: buddy_inv_def)
  show ?case
  proof (cases "q \<in> set (F ! k)")
    case False
    then have "\<forall>x\<in>set (F ! k). x \<noteq> q" by blast
    then have "iter_find m (\<lambda>x. x = q) (list_iter_mut (free_lists b ! k)) = Some None"
      unfolding list_iter_mut_def by (rule iter_find_miss [OF at])
    then have "merge_blocks p k (m, b) = Some (m, b)"
      using k by (subst merge_blocks.simps) (simp add: q_def)
    then show ?thesis using Suc.prems by auto
  next
    case True
    have "q \<noteq> p" unfolding q_def using k by (intro buddy_neq) simp
    with True Suc.prems(3) have "q \<in> set ps" by auto
    then obtain as bs where ps: "ps = as @ q # bs" "q \<notin> set as" using split_list_first by metis
    from merge_found [OF Suc.prems(1) k _ q_def ps(2)] Suc.prems(3) ps(1) obtain m1 b1 F1 qs where
      s: "merge_blocks p k (m, b) = merge_blocks (min p q) (Suc k) (m1, b1)"
      and c1: "same_counters b b1" and i1: "buddy_inv (m1, b1) F1" "F1 ! Suc k = min p q # qs"
      and y1: "bytes (blocks F1) = bytes (blocks F)" and u1: "untouched (bytes (blocks F)) m m1"
      by blast
    have "d = MAX_ORDER - Suc k" "Suc k \<le> MAX_ORDER" using Suc.hyps(2) k by auto
    from Suc.hyps(1) [OF this(1) i1(1) this(2) i1(2)] obtain m2 b2 F2 where
      "merge_blocks (min p q) (Suc k) (m1, b1) = Some (m2, b2)" "same_counters b1 b2"
      "buddy_inv (m2, b2) F2" "bytes (blocks F2) = bytes (blocks F1)"
      "untouched (bytes (blocks F1)) m1 m2"
      by blast
    then show ?thesis using s y1 same_counters_trans [OF c1] untouched_trans [OF u1] by auto
  qed
qed

lemma buddy_dealloc_ok:
  assumes inv: "buddy_inv s F" and ok: "block_ok (order_of n, p)"
    and new: "block_bytes (order_of n, p) \<inter> bytes (blocks F) = {}"
  shows "\<exists>s' F'. buddy_dealloc p n s = Some s' \<and> buddy_inv s' F' \<and>
    bytes (blocks F') = block_bytes (order_of n, p) \<union> bytes (blocks F) \<and>
    allocated (snd s') = allocated (snd s) - push_bit (order_of n) 1 \<and> total (snd s') = total (snd s) \<and>
    untouched (block_bytes (order_of n, p) \<union> bytes (blocks F)) (fst s) (fst s')"
proof -
  obtain m b where s: "s = (m, b)" by fastforce
  let ?o = "order_of n"
  have o: "?o \<le> MAX_ORDER" using ok by (simp add: block_ok_def)
  from push_inv [OF inv [unfolded s] ok new] obtain m1 b1 where
    p1: "push_at ?o p (m, b) = Some (m1, b1)" and c1: "same_counters b b1"
    and i1: "buddy_inv (m1, b1) (F[?o := p # F ! ?o])"
    and y1: "bytes (blocks (F[?o := p # F ! ?o])) = block_bytes (?o, p) \<union> bytes (blocks F)"
    by blast
  have "?o < length F" using inv rel_lengths o by (fastforce simp: buddy_inv_def)
  then have "F[?o := p # F ! ?o] ! ?o = p # F ! ?o" by simp
  from merge_blocks_inv [OF i1 o this] obtain m2 b2 F2 where
    m2: "merge_blocks p ?o (m1, b1) = Some (m2, b2)" and c2: "same_counters b1 b2"
    and i2: "buddy_inv (m2, b2) F2"
    and y2: "bytes (blocks F2) = bytes (blocks (F[?o := p # F ! ?o]))"
    and u2: "untouched (bytes (blocks (F[?o := p # F ! ?o]))) m1 m2"
    by blast
  have "buddy_dealloc p n s = Some (m2, b2\<lparr>allocated := allocated b2 - push_bit ?o 1\<rparr>)"
    using p1 m2 by (simp add: buddy_dealloc_def s)
  moreover have "buddy_inv (m2, b2\<lparr>allocated := allocated b2 - push_bit ?o 1\<rparr>) F2"
    using i2 by (simp add: buddy_inv_def rel_counters)
  moreover have "untouched (block_bytes (?o, p) \<union> bytes (blocks F)) m m2"
    using u2 untouched_trans [OF push_at_untouched [OF p1 Un_upper1]] by (simp only: y1)
  ultimately show ?thesis
    using y1 y2 c1 c2 s by (auto simp: same_counters_def)
qed

subsection \<open>Taking a range of memory into the lists\<close>

lemma min_exp:
  assumes "i < 64" "j < 64"
  shows "min (2 ^ i) (2 ^ j :: usize) = 2 ^ min i j"
  using assms by (auto simp: min_def word_le_nat_alt unat_exp)

definition chunk_order :: "usize \<Rightarrow> usize \<Rightarrow> nat" where
  "chunk_order a e = min (min (tz_nat (unat a)) (bit_len (unat (e - a)) - 1) - PG_SHIFT) MAX_ORDER"

lemma tz_nat_usize:
  fixes a :: usize
  assumes "a \<noteq> 0"
  shows "tz_nat (unat a) < 64"
proof -
  have "2 ^ tz_nat (unat a) \<le> unat a" using tz_nat_dvd assms by (simp add: dvd_imp_le unat_gt_0)
  then have "(2::nat) ^ tz_nat (unat a) < 2 ^ 64" using unat_usize_less [of a] by linarith
  then show ?thesis by (rule power_less_imp_less_exp [rotated]) simp
qed

lemma chunk_bounds:
  fixes a e :: usize
  assumes "a \<noteq> 0" "a < e" "4096 dvd unat a" "4096 dvd unat e"
  defines "t \<equiv> min (tz_nat (unat a)) (bit_len (unat (e - a)) - 1)"
  shows "PG_SHIFT \<le> t" "t < 64" "2 ^ t dvd unat a" "unat a + 2 ^ t \<le> unat e"
proof -
  have u: "unat (e - a) = unat e - unat a"
    using assms(2) by (simp add: unat_diff_no_wrap word_less_nat_alt)
  have lt: "unat a < unat e" using assms(2) by (simp add: word_less_nat_alt)
  have "4096 dvd unat e - unat a" using assms(3,4) by (rule dvd_diff_nat [rotated])
  then have "4096 \<le> unat e - unat a" using lt by (simp add: dvd_imp_le)
  then have bl: "12 < bit_len (unat (e - a))"
    using bit_len_le_iff [of "unat (e - a)" 12] by (simp add: u)
  have a: "0 < unat a" using assms(1) by (simp add: unat_gt_0)
  have "(2::nat) ^ 12 dvd unat a" using assms(3) by simp
  then have "12 \<le> tz_nat (unat a)" using dvd_tz_nat [OF a] by blast
  with bl show "PG_SHIFT \<le> t" by (simp add: t_def PG_SHIFT_def)
  show "t < 64" using tz_nat_usize [OF assms(1)] by (simp add: t_def)
  show "2 ^ t dvd unat a" using dvd_tz_nat [OF a] by (simp add: t_def)
  have "(2::nat) ^ t \<le> 2 ^ (bit_len (unat (e - a)) - 1)" by (simp add: t_def)
  also have "\<dots> \<le> unat e - unat a" using bit_len_least [of "unat (e - a)"] lt by (simp add: u)
  finally show "unat a + 2 ^ t \<le> unat e" using lt by simp
qed

lemma insert_loop_unfold:
  assumes "a \<noteq> 0" "a < e" "4096 dvd unat a" "4096 dvd unat e"
  shows "insert_loop a e s = Option.bind (push_at (chunk_order a e) a s)
    (insert_loop (a + push_bit (chunk_order a e) 1 * PG_SIZE) e)"
proof -
  let ?t = "min (tz_nat (unat a)) (bit_len (unat (e - a)) - 1)"
  note cb = chunk_bounds [OF assms]
  have "e - a \<noteq> 0" using assms(2) by auto
  then have pp: "prev_power_of_two (e - a) = 2 ^ (bit_len (unat (e - a)) - 1)"
    by (rule prev_power_of_two_exp)
  have tz: "tz_nat (unat a) < 64" by (rule tz_nat_usize [OF assms(1)])
  have "bit_len (unat (e - a)) - 1 < 64" using bit_len_usize [of "e - a"] by simp
  then have "min (2 ^ tz_nat (unat a)) (2 ^ (bit_len (unat (e - a)) - 1)) = (2 ^ ?t :: usize)"
    using tz by (simp only: min_exp)
  then have size: "min (push_bit (trailing_zeros a mod 64) 1) (prev_power_of_two (e - a)) = 2 ^ ?t"
    using tz assms(1) by (simp add: pp trailing_zeros_def)
  have "(of_nat ?t - of_nat PG_SHIFT :: usize) = of_nat (?t - PG_SHIFT)"
    using cb(1) by (simp only: of_nat_diff)
  moreover have "unat (of_nat (?t - PG_SHIFT) :: usize) = ?t - PG_SHIFT"
    using cb(2) by (intro unat_of_nat_small) simp
  ultimately have order: "min (unat (of_nat (trailing_zeros (2 ^ ?t)) - of_nat PG_SHIFT :: usize)) MAX_ORDER
      = chunk_order a e"
    using cb(2) by (simp only: trailing_zeros_exp chunk_order_def)
  show ?thesis
    using assms(2) by (subst insert_loop.simps) (simp only: size order Let_def if_True)
qed

lemma insert_loop_ok:
  assumes "a \<noteq> 0" "a \<le> e" "4096 dvd unat a" "4096 dvd unat e"
    and "buddy_inv (m, b) F" "{unat a..<unat e} \<inter> bytes (blocks F) = {}"
  shows "\<exists>m' b' F'. insert_loop a e (m, b) = Some (m', b') \<and> same_counters b b' \<and>
    buddy_inv (m', b') F' \<and> bytes (blocks F') = {unat a..<unat e} \<union> bytes (blocks F) \<and>
    untouched {unat a..<unat e} m m'"
  using assms
proof (induction "unat e - unat a" arbitrary: a m b F rule: less_induct)
  case less
  show ?case
  proof (cases "a < e")
    case False
    then have "a = e" using less.prems(2) by simp
    then show ?thesis using less.prems by (subst insert_loop.simps) auto
  next
    case True
    let ?k = "chunk_order a e"
    define t where "t = min (tz_nat (unat a)) (bit_len (unat (e - a)) - 1)"
    note cb = chunk_bounds [OF less.prems(1) True less.prems(3,4), folded t_def]
    have k: "?k \<le> MAX_ORDER" "?k + PG_SHIFT \<le> t"
      using cb(1) by (auto simp: chunk_order_def t_def)
    have pw: "(2::nat) ^ (?k + PG_SHIFT) \<le> 2 ^ t" using k(2) by simp
    then have fit: "unat a + 2 ^ (?k + PG_SHIFT) \<le> unat e" using cb(4) by linarith
    have dv: "2 ^ (?k + PG_SHIFT) dvd unat a"
      using le_imp_power_dvd [OF k(2)] cb(3) by (rule dvd_trans)
    have ok: "block_ok (?k, a)"
      using k(1) dv fit unat_usize_less [of e] less.prems(1) by (simp add: block_ok_def)
    have sub: "block_bytes (?k, a) \<subseteq> {unat a..<unat e}"
      using fit by (auto simp: block_bytes_def)
    then have "block_bytes (?k, a) \<inter> bytes (blocks F) = {}" using less.prems(6) by blast
    from push_inv [OF less.prems(5) ok this] obtain m1 b1 where
      p1: "push_at ?k a (m, b) = Some (m1, b1)" and c1: "same_counters b b1"
      and i1: "buddy_inv (m1, b1) (F[?k := a # F ! ?k])"
      and y1: "bytes (blocks (F[?k := a # F ! ?k])) = block_bytes (?k, a) \<union> bytes (blocks F)"
      by blast
    define a' where "a' = a + push_bit ?k 1 * PG_SIZE"
    have ua: "unat a' = unat a + 2 ^ (?k + PG_SHIFT)"
    proof -
      have "unat a + 2 ^ (?k + PG_SHIFT) < 2 ^ 64" using fit unat_usize_less [of e] by linarith
      then show ?thesis
        using unat_add_no_wrap [of a "push_bit ?k 1 * PG_SIZE"] unat_block_size [OF k(1)]
        by (simp add: a'_def)
    qed
    have pos: "0 < (2::nat) ^ (?k + PG_SHIFT)" by simp
    have "a' \<noteq> 0" using ua pos by (metis add_is_0 less_irrefl unat_0)
    moreover have "a' \<le> e" using ua fit by (simp add: word_le_nat_alt)
    moreover have "4096 dvd unat a'"
    proof -
      have "(4096::nat) = 2 ^ PG_SHIFT" by (simp add: PG_SHIFT_def)
      then have "4096 dvd (2::nat) ^ (?k + PG_SHIFT)" by (simp only: le_imp_power_dvd le_add2)
      then show ?thesis using less.prems(3) ua by simp
    qed
    moreover have "{unat a'..<unat e} \<inter> bytes (blocks (F[?k := a # F ! ?k])) = {}"
    proof -
      have "{unat a'..<unat e} \<inter> block_bytes (?k, a) = {}" using ua by (auto simp: block_bytes_def)
      moreover have "{unat a'..<unat e} \<subseteq> {unat a..<unat e}" using ua by auto
      ultimately show ?thesis using less.prems(6) unfolding y1 by blast
    qed
    moreover have "unat e - unat a' < unat e - unat a" using ua pos fit by linarith
    ultimately obtain m2 b2 F2 where
      "insert_loop a' e (m1, b1) = Some (m2, b2)" "same_counters b1 b2" "buddy_inv (m2, b2) F2"
      "bytes (blocks F2) = {unat a'..<unat e} \<union> bytes (blocks (F[?k := a # F ! ?k]))"
      and u2: "untouched {unat a'..<unat e} m1 m2"
      using less.hyps [OF _ _ _ _ less.prems(4) i1] by blast
    moreover have "{unat a..<unat e} = block_bytes (?k, a) \<union> {unat a'..<unat e}"
      using ua fit by (auto simp: block_bytes_def)
    moreover have "insert_loop a e (m, b) = insert_loop a' e (m1, b1)"
      using insert_loop_unfold [OF less.prems(1) True less.prems(3,4)] p1 by (simp add: a'_def)
    moreover have "untouched {unat a..<unat e} m m2"
      using untouched_trans [OF push_at_untouched [OF p1 sub] untouched_mono [OF u2]] ua by auto
    ultimately show ?thesis
      using y1 same_counters_trans [OF c1] by (auto simp: Un_assoc Un_left_commute)
  qed
qed

lemma insert_range_ok:
  fixes start e :: usize
  assumes inv: "buddy_inv s F"
    and no_wrap: "unat start + 4096 \<le> 2 ^ 64"
  defines "lo \<equiv> (unat start + 4095) div 4096 * 4096" and "hi \<equiv> unat e div 4096 * 4096"
  assumes lo: "0 < lo" "lo \<le> hi" and new: "{lo..<hi} \<inter> bytes (blocks F) = {}"
  shows "\<exists>s' F'. insert_range start e s = Some s' \<and> buddy_inv s' F' \<and>
    bytes (blocks F') = {lo..<hi} \<union> bytes (blocks F) \<and>
    unat (total (snd s')) = (unat (total (snd s)) + (hi - lo)) mod 2 ^ 64 \<and>
    allocated (snd s') = allocated (snd s) \<and> untouched {lo..<hi} (fst s) (fst s')"
proof -
  obtain m b where s: "s = (m, b)" by fastforce
  define a :: usize where "a = (start + mask 12) AND NOT (mask 12)"
  define z :: usize where "z = e AND NOT (mask 12)"
  have pg: "PG_SIZE = 2 ^ 12" by simp
  have ua: "unat a = lo" using unat_round_up [of 12 start] no_wrap by (simp add: a_def lo_def)
  have uz: "unat z = hi" by (simp add: z_def hi_def unat_and_not_mask)
  let ?b = "b\<lparr>total := total b + (z - a)\<rparr>"
  have i: "buddy_inv (m, ?b) F" using inv s by (simp add: buddy_inv_def rel_counters)
  have "a \<noteq> 0" using ua lo by auto
  moreover have "a \<le> z" using ua uz lo by (simp add: word_le_nat_alt)
  moreover have "4096 dvd unat a" "4096 dvd unat z" by (simp_all add: ua uz lo_def hi_def)
  moreover have "{unat a..<unat z} \<inter> bytes (blocks F) = {}" using new by (simp add: ua uz)
  ultimately obtain m' b' F' where
    l: "insert_loop a z (m, ?b) = Some (m', b')" and c: "same_counters ?b b'"
    and i': "buddy_inv (m', b') F'" and y: "bytes (blocks F') = {unat a..<unat z} \<union> bytes (blocks F)"
    and u: "untouched {unat a..<unat z} m m'"
    using insert_loop_ok [OF _ _ _ _ i] by blast
  have "insert_range start e s = insert_loop a z (m, ?b)"
    using round_up_exp [of 12 start] round_down_exp [of 12 e]
    by (simp only: insert_range_def pg a_def z_def s) (simp add: Let_def)
  moreover have "unat (total b') = (unat (total b) + (hi - lo)) mod 2 ^ 64"
    using c \<open>a \<le> z\<close> ua uz
    by (simp add: same_counters_def unat_word_ariths unat_sub)
  ultimately show ?thesis
    using l c i' y ua uz s u by (auto simp: same_counters_def)
qed

lemma buddy_inv_empty: "buddy_inv (m, buddy_empty) (replicate (MAX_ORDER + 1) [])"
  by (auto simp: buddy_inv_def buddy_rel_def buddy_empty_def blocks_def list_new_def good_def
      nth_append simp del: replicate.simps)

subsection \<open>The order of a request\<close>

lemma order_of_le_iff:
  assumes "unat n \<le> 2 ^ 63" "k < 64"
  shows "order_of n \<le> k \<longleftrightarrow> unat n \<le> 2 ^ k"
proof (cases "n \<le> 1")
  case True
  then have "unat n \<le> 1" by (simp add: word_le_nat_alt)
  then have "unat n \<le> 2 ^ k" using one_le_power [of "2::nat" k] by linarith
  moreover have "trailing_zeros 1 = 0" using trailing_zeros_exp [of 0] by simp
  ultimately show ?thesis using True by (simp add: order_of_def next_power_of_two_def)
next
  case False
  then have n: "1 < unat n" by (simp add: word_le_nat_alt)
  have u: "unat (n - 1) = unat n - 1" using n by (subst unat_diff_no_wrap) auto
  have "unat n - 1 < 2 ^ 63" using assms(1) n by linarith
  then have "bit_len (unat n - 1) \<le> 63" by (simp only: bit_len_le_iff)
  then have "order_of n = bit_len (unat n - 1)"
    using False by (simp add: order_of_def next_power_of_two_def u)
  then show ?thesis using bit_len_le_iff [of "unat n - 1" k] n by auto
qed

section \<open>The interface of page allocators\<close>

definition buddy_region :: "usize \<Rightarrow> usize \<Rightarrow> nat set" where
  "buddy_region n p = block_bytes (order_of n, p)"

definition buddy_region_ok :: "usize \<Rightarrow> usize \<Rightarrow> bool" where
  "buddy_region_ok n p \<longleftrightarrow> block_ok (order_of n, p)"

definition buddy_free :: "buddy_state \<Rightarrow> nat set \<Rightarrow> bool" where
  "buddy_free s A \<longleftrightarrow> (\<exists>F. buddy_inv s F \<and> bytes (blocks F) = A)"

lemma buddy_alloc_available:
  assumes "buddy_inv s F" "buddy_alloc n s = Some (p, s')"
  shows "n \<le> push_bit MAX_ORDER 1 \<and> (\<exists>k. order_of n \<le> k \<and> k \<le> MAX_ORDER \<and> F ! k \<noteq> [])"
proof -
  have "n \<le> push_bit MAX_ORDER 1" using assms(2) by (auto simp: buddy_alloc_def split: if_splits)
  moreover have "\<not> (\<forall>k. order_of n \<le> k \<and> k \<le> MAX_ORDER \<longrightarrow> F ! k = [])"
  proof
    assume "\<forall>k. order_of n \<le> k \<and> k \<le> MAX_ORDER \<longrightarrow> F ! k = []"
    from buddy_alloc_exhausted [OF assms(1) this] assms(2) show False by simp
  qed
  ultimately show ?thesis by blast
qed

interpretation palloc_pages: page_allocator buddy_alloc buddy_dealloc buddy_region buddy_region_ok buddy_free
proof
  fix s A n p s'
  assume "buddy_free s A" and a: "buddy_alloc n s = Some (p, s')"
  then obtain F where i: "buddy_inv s F" and A: "bytes (blocks F) = A"
    by (auto simp: buddy_free_def)
  from buddy_alloc_available [OF i a] obtain k where "n \<le> push_bit MAX_ORDER 1"
    "order_of n \<le> k" "k \<le> MAX_ORDER" "F ! k \<noteq> []" by blast
  from buddy_alloc_ok [OF i this] a A
  show "buddy_region_ok n p \<and> buddy_region n p \<subseteq> A \<and> buddy_free s' (A - buddy_region n p)"
    by (auto simp: buddy_region_def buddy_region_ok_def buddy_free_def)
next
  fix s A n p
  assume "buddy_free s A" and ok: "buddy_region_ok n p" and new: "buddy_region n p \<inter> A = {}"
  then obtain F where i: "buddy_inv s F" and A: "bytes (blocks F) = A"
    by (auto simp: buddy_free_def)
  have "block_bytes (order_of n, p) \<inter> bytes (blocks F) = {}"
    using new by (simp add: A buddy_region_def)
  from buddy_dealloc_ok [OF i ok [unfolded buddy_region_ok_def] this]
  show "\<exists>s'. buddy_dealloc p n s = Some s' \<and> buddy_free s' (buddy_region n p \<union> A)"
    by (auto simp: A buddy_region_def buddy_free_def)
qed

text \<open>The lists are kept in the free bytes, so that no other cell matters to them.\<close>

lemma buddy_inv_untouched:
  assumes "buddy_inv (m, b) F" "untouched Y m m'" "Y \<inter> bytes (blocks F) = {}"
  shows "buddy_inv (m', b) F"
proof -
  from assms(1) have r: "buddy_rel (m, b) F" and g: "good (blocks F)" by (auto simp: buddy_inv_def)
  have "list_at m' (head (free_lists b ! k)) (F ! k)" if k: "k \<le> MAX_ORDER" for k
  proof -
    have "m' a = m a" if "a \<in> set (F ! k)" for a
    proof -
      have "(k, a) \<in> blocks F" using that rel_lengths [OF r] k by (simp add: blocks_def)
      then have "unat a \<in> bytes (blocks F)" using bytes_memI block_start_in by blast
      then show ?thesis using untouchedD [OF assms(2)] assms(3) by blast
    qed
    then show ?thesis using rel_list_at [OF r k] list_at_cong [of "F ! k" m' m] by simp
  qed
  then show ?thesis using r g by (simp add: buddy_inv_def buddy_rel_def)
qed

interpretation palloc: page_allocator_mem buddy_alloc buddy_dealloc buddy_region buddy_region_ok buddy_free
proof
  fix m b A n p m' b'
  assume "buddy_free (m, b) A" and a: "buddy_alloc n (m, b) = Some (p, m', b')"
  then obtain F where i: "buddy_inv (m, b) F" and A: "bytes (blocks F) = A"
    by (auto simp: buddy_free_def)
  from buddy_alloc_available [OF i a] obtain k where "n \<le> push_bit MAX_ORDER 1"
    "order_of n \<le> k" "k \<le> MAX_ORDER" "F ! k \<noteq> []" by blast
  from buddy_alloc_ok [OF i this] a A show "untouched A m m'" by auto
next
  fix m b A n p m' b'
  assume "buddy_free (m, b) A" and ok: "buddy_region_ok n p" and new: "buddy_region n p \<inter> A = {}"
    and d: "buddy_dealloc p n (m, b) = Some (m', b')"
  then obtain F where i: "buddy_inv (m, b) F" and A: "bytes (blocks F) = A"
    by (auto simp: buddy_free_def)
  have "block_bytes (order_of n, p) \<inter> bytes (blocks F) = {}"
    using new by (simp add: A buddy_region_def)
  from buddy_dealloc_ok [OF i ok [unfolded buddy_region_ok_def] this] d
  show "untouched (buddy_region n p \<union> A) m m'" by (auto simp: A buddy_region_def)
next
  fix m b A Y m'
  assume "buddy_free (m, b) A" "untouched Y m m'" "Y \<inter> A = {}"
  then show "buddy_free (m', b) A" using buddy_inv_untouched unfolding buddy_free_def by metis
qed

text \<open>Giving a range of memory to the allocator.\<close>

lemma insert_range_free:
  fixes start e :: usize
  assumes "buddy_free (m, b) A" and "unat start + 4096 \<le> 2 ^ 64"
    and "0 < unat start" and "(unat start + 4095) div 4096 \<le> unat e div 4096"
    and "{(unat start + 4095) div 4096 * 4096..<unat e div 4096 * 4096} \<inter> A = {}"
  shows "\<exists>m' b'. insert_range start e (m, b) = Some (m', b') \<and>
    buddy_free (m', b') ({(unat start + 4095) div 4096 * 4096..<unat e div 4096 * 4096} \<union> A) \<and>
    untouched {(unat start + 4095) div 4096 * 4096..<unat e div 4096 * 4096} m m'"
proof -
  from assms(1) obtain F where i: "buddy_inv (m, b) F" and A: "bytes (blocks F) = A"
    by (auto simp: buddy_free_def)
  have "0 < (unat start + 4095) div 4096 * 4096" using assms(3) by simp
  moreover have "(unat start + 4095) div 4096 * 4096 \<le> unat e div 4096 * 4096"
    using assms(4) by simp
  ultimately show ?thesis
    using insert_range_ok [OF i assms(2), where e = e] assms(5) A by (auto simp: buddy_free_def)
qed

text \<open>A request of one page succeeds as long as a byte is free.\<close>

lemma buddy_alloc_page:
  assumes "buddy_free s A" "A \<noteq> {}"
  shows "\<exists>p s'. buddy_alloc 1 s = Some (p, s')"
proof -
  from assms obtain F where i: "buddy_inv s F" and A: "bytes (blocks F) \<noteq> {}"
    by (auto simp: buddy_free_def)
  then obtain k x where "(k, x) \<in> blocks F" by (fastforce simp: bytes_def)
  then have "k < length F" "F ! k \<noteq> []" by (auto simp: blocks_def)
  moreover have "length F = MAX_ORDER + 1" using i rel_lengths [of s F] by (simp add: buddy_inv_def)
  moreover have "order_of 1 = 0" using order_of_le_iff [of 1 0] by simp
  ultimately show ?thesis
    using buddy_alloc_ok [OF i, of 1 k] by (auto simp: MAX_ORDER_def)
qed

section \<open>Properties\<close>

text \<open>A state for the witnesses: one free block of two pages at address \<open>0x2000\<close>.\<close>

definition one_block :: buddy_state where
  "one_block = ((\<lambda>_. 0),
     \<lparr>free_lists = (replicate 9 list_new)[1 := \<lparr>head = 0x2000\<rparr>], total = 0x2000, allocated = 0\<rparr>)"

lemma one_block_free: "buddy_free one_block {0x2000..<0x4000}"
proof -
  define F :: "usize list list" where "F = (replicate 9 [])[1 := [0x2000]]"
  have bl: "blocks F = {(1, 0x2000)}"
    by (auto simp: F_def blocks_def nth_list_update split: if_splits)
  have "buddy_rel one_block F"
    by (auto simp: F_def buddy_rel_def one_block_def MAX_ORDER_def nth_list_update list_new_def)
  moreover have "good (blocks F)"
    unfolding bl good_def by (simp add: block_ok_def MAX_ORDER_def PG_SHIFT_def)
  moreover have "block_bytes (1, 0x2000) = {0x2000..<0x4000}"
    by (simp add: block_bytes_def PG_SHIFT_def del: atLeastLessThan_nat_numeral)
  then have "bytes (blocks F) = {0x2000..<0x4000}" unfolding bl bytes_def by blast
  ultimately show ?thesis unfolding buddy_free_def buddy_inv_def by blast
qed

lemma order_of_1: "order_of 1 = 0"
  using order_of_le_iff [of 1 0] by simp

lemma one_block_alloc: "\<exists>p s'. buddy_alloc 1 one_block = Some (p, s')"
proof -
  obtain F where i: "buddy_inv one_block F" using one_block_free by (auto simp: buddy_free_def)
  then have "\<not> list_is_empty (free_lists (snd one_block) ! 1) \<longleftrightarrow> F ! 1 \<noteq> []"
    using rel_list_is_empty [of one_block F 1] by (simp add: buddy_inv_def MAX_ORDER_def)
  then have "F ! 1 \<noteq> []" by (simp add: one_block_def list_is_empty_def)
  then show ?thesis
    using buddy_alloc_ok [OF i, of 1 1] by (auto simp: order_of_1 MAX_ORDER_def)
qed

text \<open>
  C20. \<open>BuddyAllocator::alloc\<close>. On an allocator whose free blocks are disjoint and cover the
  bytes \<open>A\<close>, a request for at most 256 pages succeeds exactly when a free list of its
  order or above is not empty. The block returned has the order of the request, is aligned
  to its size and lies in \<open>A\<close>; the free bytes afterwards are \<open>A\<close> without the block, and
  the count of allocated pages grows by its size. Otherwise the allocator panics.
\<close>
theorem buddy_alloc_correct:
  assumes "buddy_free s A" and "n \<le> 256"
  shows "if \<exists>i. order_of n \<le> i \<and> i \<le> MAX_ORDER \<and> \<not> list_is_empty (free_lists (snd s) ! i)
    then \<exists>p s'. buddy_alloc n s = Some (p, s') \<and> block_ok (order_of n, p) \<and>
      block_bytes (order_of n, p) \<subseteq> A \<and> buddy_free s' (A - block_bytes (order_of n, p)) \<and>
      allocated (snd s') = allocated (snd s) + push_bit (order_of n) 1
    else buddy_alloc n s = None"
proof -
  from assms(1) obtain F where i: "buddy_inv s F" and A: "bytes (blocks F) = A"
    by (auto simp: buddy_free_def)
  have n: "n \<le> push_bit MAX_ORDER 1" using assms(2) by (simp add: MAX_ORDER_def)
  have e: "list_is_empty (free_lists (snd s) ! k) \<longleftrightarrow> F ! k = []" if "k \<le> MAX_ORDER" for k
    using i rel_list_is_empty [OF _ that] by (simp add: buddy_inv_def)
  show ?thesis
  proof (cases "\<exists>k. order_of n \<le> k \<and> k \<le> MAX_ORDER \<and> F ! k \<noteq> []")
    case True
    then obtain k where "order_of n \<le> k" "k \<le> MAX_ORDER" "F ! k \<noteq> []" by blast
    from buddy_alloc_ok [OF i n this] show ?thesis using True e A by (auto simp: buddy_free_def)
  next
    case False
    then show ?thesis using buddy_alloc_exhausted [OF i, of n] e by auto
  qed
qed

theorem buddy_alloc_correct_witness:
  "\<exists>p s'. buddy_alloc 1 one_block = Some (p, s') \<and> block_bytes (order_of 1, p) \<subseteq> {0x2000..<0x4000}"
proof -
  have "\<not> list_is_empty (free_lists (snd one_block) ! 1)"
    by (simp add: one_block_def list_is_empty_def)
  then have "\<exists>i. order_of 1 \<le> i \<and> i \<le> MAX_ORDER \<and> \<not> list_is_empty (free_lists (snd one_block) ! i)"
    by (intro exI [of _ 1]) (simp add: order_of_1 MAX_ORDER_def)
  then show ?thesis
    using buddy_alloc_correct [OF one_block_free, of 1] by auto
qed

text \<open>
  C21. \<open>BuddyAllocator::dealloc\<close>. Returning an aligned block that overlaps no free byte
  succeeds, keeps the invariant through every merge with a buddy, and makes the bytes of
  the block free and no others: merging neither loses nor invents memory.
\<close>
theorem buddy_dealloc_correct:
  assumes "buddy_free s A" and "block_ok (order_of n, p)"
    and "block_bytes (order_of n, p) \<inter> A = {}"
  shows "\<exists>s'. buddy_dealloc p n s = Some s' \<and> buddy_free s' (block_bytes (order_of n, p) \<union> A) \<and>
    allocated (snd s') = allocated (snd s) - push_bit (order_of n) 1 \<and>
    total (snd s') = total (snd s)"
proof -
  from assms(1) obtain F where "buddy_inv s F" and A: "bytes (blocks F) = A"
    by (auto simp: buddy_free_def)
  then show ?thesis
    using buddy_dealloc_ok [of s F n p] assms(2,3) by (auto simp: buddy_free_def)
qed

theorem buddy_dealloc_correct_witness:
  "\<exists>s'. buddy_dealloc 0x4000 1 one_block = Some s' \<and> buddy_free s' {0x2000..<0x5000}"
proof -
  have ok: "block_ok (order_of 1, 0x4000)"
    by (simp add: order_of_1 block_ok_def MAX_ORDER_def PG_SHIFT_def)
  have b: "block_bytes (order_of 1, 0x4000) = {0x4000..<0x5000}"
    by (simp add: order_of_1 block_bytes_def PG_SHIFT_def del: atLeastLessThan_nat_numeral)
  have "block_bytes (order_of 1, 0x4000) \<inter> {0x2000..<0x4000} = {}" unfolding b by (auto simp del: atLeastLessThan_nat_numeral)
  moreover have "block_bytes (order_of 1, 0x4000) \<union> {0x2000..<0x4000} = {0x2000..<0x5000}"
    unfolding b by (auto simp del: atLeastLessThan_nat_numeral)
  ultimately show ?thesis using buddy_dealloc_correct [OF one_block_free ok] by metis
qed

text \<open>
  \<open>BuddyAllocator::insert_range\<close>. For a range that neither wraps around nor overlaps
  the free memory, the loop ends, and the free bytes afterwards are those of before and
  exactly the whole pages between \<open>start\<close> and \<open>end\<close>: chunks are aligned and disjoint,
  and none is larger than the rest of the range.
\<close>
lemma insert_range_correct:
  fixes start e :: usize
  assumes "buddy_free s A" and "unat start + 4096 \<le> 2 ^ 64"
    and "0 < unat start" and "(unat start + 4095) div 4096 \<le> unat e div 4096"
    and "{(unat start + 4095) div 4096 * 4096..<unat e div 4096 * 4096} \<inter> A = {}"
  shows "\<exists>s'. insert_range start e s = Some s' \<and>
    buddy_free s' ({(unat start + 4095) div 4096 * 4096..<unat e div 4096 * 4096} \<union> A)"
  using insert_range_free [of "fst s" "snd s" A start e] assms by auto

text \<open>
  Any sequence of page requests on the buddy allocator that succeeds hands out regions
  that are pairwise disjoint and were all free, and what is left free is disjoint from
  every one of them.
\<close>
lemma palloc_requests_disjoint:
  assumes "buddy_free s A" and "alloc_all buddy_alloc ns s = Some (rs, s')"
  shows "map fst rs = ns \<and>
    (\<forall>(n, p) \<in> set rs. block_ok (order_of n, p) \<and> block_bytes (order_of n, p) \<subseteq> A) \<and>
    sorted_wrt (\<lambda>(n, p) (k, q). block_bytes (order_of n, p) \<inter> block_bytes (order_of k, q) = {}) rs \<and>
    buddy_free s' (A - (\<Union>(n, p) \<in> set rs. block_bytes (order_of n, p)))"
  using palloc_pages.alloc_all_disjoint [OF assms]
  by (simp add: buddy_region_def buddy_region_ok_def case_prod_unfold)

text \<open>
  Returning what was just allocated restores the free memory: the round trip of
  \<open>alloc\<close> and \<open>dealloc\<close> with the same page count never panics and gives back exactly the
  set of free bytes of before.
\<close>
lemma palloc_round_trip:
  assumes "buddy_free s A" and "buddy_alloc n s = Some (p, s')"
  shows "\<exists>s''. buddy_dealloc p n s' = Some s'' \<and> buddy_free s'' A"
  by (rule palloc_pages.alloc_dealloc [OF assms])

end
