(* ===== verification/Malloc.thy ===== *)
theory Malloc
  imports Buddy
begin

text \<open>
  The kernel heap (\<open>src/src/mem/malloc.rs\<close>) over the page pools of \<open>src/src/mem/palloc.rs\<close>.
  A descriptor serves blocks of one size, from 8 to 1024 bytes; it cuts pages (arenas) into
  blocks and links the free ones through their first cell. The header of an arena shares its
  page with the blocks: the cell at the start of the page holds the magic number (low half) and
  the count of free blocks (high half), the next cell the address of the descriptor. Larger
  requests go to the page allocator.

  The state \<open>kmem\<close> is the memory with the two page pools and the heap. \<open>da\<close> is the list of the
  addresses of the eight descriptors, which are static. The locks around the pools and the
  descriptors turn interrupts off, so that each operation is one step.
\<close>

section \<open>Page pools\<close>

record desc =
  block_size :: usize
  blocks_per_arena :: usize
  free_list :: in_mem_list
  desc_allocated :: usize
  desc_free :: usize
  desc_total :: usize

record heap =
  descs :: "desc list"
  spilled_alloc :: usize
  spilled_total :: usize

record kmem =
  km_mem :: memory
  km_palloc :: buddy_allocator
  km_user :: buddy_allocator
  km_heap :: heap

definition palloc_init :: "usize \<Rightarrow> usize \<Rightarrow> kmem \<Rightarrow> kmem option" where
  "palloc_init start end_addr st = do {
     (m, b) \<leftarrow> insert_range start end_addr (km_mem st, km_palloc st);
     Some (st\<lparr>km_mem := m, km_palloc := b\<rparr>)
   }"

definition palloc_alloc :: "usize \<Rightarrow> kmem \<Rightarrow> (usize \<times> kmem) option" where
  "palloc_alloc n st = do {
     (p, m, b) \<leftarrow> buddy_alloc n (km_mem st, km_palloc st);
     Some (p, st\<lparr>km_mem := m, km_palloc := b\<rparr>)
   }"

definition palloc_dealloc :: "usize \<Rightarrow> usize \<Rightarrow> kmem \<Rightarrow> kmem option" where
  "palloc_dealloc p n st = do {
     (m, b) \<leftarrow> buddy_dealloc p n (km_mem st, km_palloc st);
     Some (st\<lparr>km_mem := m, km_palloc := b\<rparr>)
   }"

definition user_init :: "usize \<Rightarrow> usize \<Rightarrow> kmem \<Rightarrow> kmem option" where
  "user_init start end_addr st = do {
     (m, b) \<leftarrow> insert_range start end_addr (km_mem st, km_user st);
     Some (st\<lparr>km_mem := m, km_user := b\<rparr>)
   }"

definition user_alloc_pages :: "usize \<Rightarrow> kmem \<Rightarrow> (usize \<times> kmem) option" where
  "user_alloc_pages n st = do {
     (p, m, b) \<leftarrow> buddy_alloc n (km_mem st, km_user st);
     Some (p, st\<lparr>km_mem := m, km_user := b\<rparr>)
   }"

definition user_dealloc_pages :: "usize \<Rightarrow> usize \<Rightarrow> kmem \<Rightarrow> kmem option" where
  "user_dealloc_pages p n st = do {
     (m, b) \<leftarrow> buddy_dealloc p n (km_mem st, km_user st);
     Some (st\<lparr>km_mem := m, km_user := b\<rparr>)
   }"

section \<open>Arenas\<close>

definition ARENA_MAGIC :: u32 where
  "ARENA_MAGIC = 0x9a548eed"

definition MAX_BLKSIZE :: usize where
  "MAX_BLKSIZE = PG_SIZE div 4"

text \<open>\<open>size_of::<Arena>()\<close> and \<open>size_of::<Desc>()\<close>.\<close>

definition SIZE_OF_ARENA :: usize where
  "SIZE_OF_ARENA = 16"

definition SIZE_OF_DESC :: usize where
  "SIZE_OF_DESC = 48"

definition arena_head :: "u32 \<Rightarrow> u32 \<Rightarrow> usize" where
  "arena_head magic cnt = ucast magic OR push_bit 32 (ucast cnt)"

definition arena_magic :: "memory \<Rightarrow> usize \<Rightarrow> u32" where
  "arena_magic m a = ucast (m a)"

definition arena_free_cnt :: "memory \<Rightarrow> usize \<Rightarrow> u32" where
  "arena_free_cnt m a = ucast (drop_bit 32 (m a))"

definition arena_desc :: "memory \<Rightarrow> usize \<Rightarrow> usize" where
  "arena_desc m a = m (a + 8)"

definition set_magic :: "usize \<Rightarrow> u32 \<Rightarrow> memory \<Rightarrow> memory" where
  "set_magic a magic m = m(a := arena_head magic (arena_free_cnt m a))"

definition set_free_cnt :: "usize \<Rightarrow> u32 \<Rightarrow> memory \<Rightarrow> memory" where
  "set_free_cnt a cnt m = m(a := arena_head (arena_magic m a) cnt)"

text \<open>The descriptor a pointer refers to; a pointer to anything else is not dereferenced.\<close>

definition desc_at :: "usize list \<Rightarrow> heap \<Rightarrow> usize \<Rightarrow> desc option" where
  "desc_at da h p = do {
     i \<leftarrow> find (\<lambda>i. da ! i = p) [0..<length da];
     slice_get (descs h) i
   }"

definition from_block :: "usize list \<Rightarrow> kmem \<Rightarrow> usize \<Rightarrow> usize option" where
  "from_block da st blk = do {
     let arena = blk AND NOT PG_MASK;
     rust_assert (arena \<noteq> 0);
     rust_assert (arena_magic (km_mem st) arena = ARENA_MAGIC);
     rust_assert (arena_desc (km_mem st) arena \<noteq> 0);
     d \<leftarrow> desc_at da (km_heap st) (arena_desc (km_mem st) arena);
     rust_assert (blk mod block_size d = 0);
     Some arena
   }"

definition get_block :: "usize list \<Rightarrow> kmem \<Rightarrow> usize \<Rightarrow> usize \<Rightarrow> usize option" where
  "get_block da st arena idx = do {
     rust_assert (arena_magic (km_mem st) arena = ARENA_MAGIC);
     d \<leftarrow> desc_at da (km_heap st) (arena_desc (km_mem st) arena);
     rust_assert (idx < blocks_per_arena d);
     rust_assert (arena mod PG_SIZE = 0);
     offset \<leftarrow> round_up SIZE_OF_ARENA (block_size d);
     Some (arena + offset + idx * block_size d)
   }"

section \<open>Descriptors\<close>

definition desc_new :: "usize \<Rightarrow> desc option" where
  "desc_new bs = do {
     r \<leftarrow> round_up SIZE_OF_DESC bs;
     Some \<lparr>block_size = bs, blocks_per_arena = (PG_SIZE - r) div bs, free_list = list_new,
       desc_allocated = 0, desc_free = 0, desc_total = 0\<rparr>
   }"

definition get_desc :: "nat \<Rightarrow> kmem \<Rightarrow> desc option" where
  "get_desc i st = slice_get (descs (km_heap st)) i"

definition put_desc :: "nat \<Rightarrow> desc \<Rightarrow> kmem \<Rightarrow> kmem" where
  "put_desc i d st = st\<lparr>km_heap := (km_heap st)\<lparr>descs := (descs (km_heap st))[i := d]\<rparr>\<rparr>"

text \<open>\<open>self.free_list.push(block)\<close> of the \<open>i\<close>-th descriptor.\<close>

definition desc_push :: "nat \<Rightarrow> usize \<Rightarrow> kmem \<Rightarrow> kmem option" where
  "desc_push i blk st = do {
     d \<leftarrow> get_desc i st;
     let (m, l) = list_push (km_mem st) (free_list d) blk;
     Some (put_desc i (d\<lparr>free_list := l\<rparr>) (st\<lparr>km_mem := m\<rparr>))
   }"

text \<open>\<open>for i in 0..self.blocks_per_arena\<close>: the list argument is the range.\<close>

fun fill_arena :: "usize list \<Rightarrow> nat \<Rightarrow> usize \<Rightarrow> usize list \<Rightarrow> kmem \<Rightarrow> kmem option" where
  "fill_arena da i arena [] st = Some st"
| "fill_arena da i arena (j # js) st = do {
     blk \<leftarrow> get_block da st arena j;
     st \<leftarrow> desc_push i blk st;
     fill_arena da i arena js st
   }"

definition new_arena :: "usize list \<Rightarrow> nat \<Rightarrow> kmem \<Rightarrow> kmem option" where
  "new_arena da i st = do {
     d \<leftarrow> get_desc i st;
     (arena, st) \<leftarrow> palloc_alloc 1 st;
     self \<leftarrow> slice_get da i;
     let m = set_magic arena ARENA_MAGIC (km_mem st);
     let m = m(arena + 8 := self);
     let m = set_free_cnt arena (ucast (blocks_per_arena d)) m;
     st \<leftarrow> fill_arena da i arena (word_range 0 (blocks_per_arena d)) (st\<lparr>km_mem := m\<rparr>);
     d \<leftarrow> get_desc i st;
     Some (put_desc i (d\<lparr>desc_total := desc_total d + PG_SIZE,
       desc_free := desc_free d + block_size d * blocks_per_arena d\<rparr>) st)
   }"

definition desc_alloc :: "usize list \<Rightarrow> nat \<Rightarrow> kmem \<Rightarrow> (usize \<times> kmem) option" where
  "desc_alloc da i st = do {
     d \<leftarrow> get_desc i st;
     st \<leftarrow> (if list_is_empty (free_list d) then new_arena da i st else Some st);
     d \<leftarrow> get_desc i st;
     let d = d\<lparr>desc_allocated := desc_allocated d + block_size d, desc_free := desc_free d - block_size d\<rparr>;
     let (r, l) = list_pop (km_mem st) (free_list d);
     let st = put_desc i (d\<lparr>free_list := l\<rparr>) st;
     blk \<leftarrow> r;
     arena \<leftarrow> from_block da st blk;
     let m = km_mem st;
     Some (blk, st\<lparr>km_mem := set_free_cnt arena (arena_free_cnt m arena - 1) m\<rparr>)
   }"

definition desc_dealloc :: "usize list \<Rightarrow> nat \<Rightarrow> usize \<Rightarrow> kmem \<Rightarrow> kmem option" where
  "desc_dealloc da i ptr st = do {
     st \<leftarrow> desc_push i ptr st;
     d \<leftarrow> get_desc i st;
     let st = put_desc i (d\<lparr>desc_allocated := desc_allocated d - block_size d,
       desc_free := desc_free d + block_size d\<rparr>) st;
     arena \<leftarrow> from_block da st ptr;
     let m = km_mem st;
     Some (st\<lparr>km_mem := set_free_cnt arena (arena_free_cnt m arena + 1) m\<rparr>)
   }"

section \<open>The heap\<close>

definition heap_new :: "heap option" where
  "heap_new = do {
     ds \<leftarrow> those (map (\<lambda>idx. desc_new (push_bit (idx + 3) 1)) [0..<8]);
     Some \<lparr>descs = ds, spilled_alloc = 0, spilled_total = 0\<rparr>
   }"

record layout =
  l_size :: usize
  l_align :: usize

text \<open>\<open>Layout::from_size_align\<close>: the size, rounded up to the alignment, is below \<open>2 ^ 63\<close>.\<close>

definition from_size_align :: "usize \<Rightarrow> usize \<Rightarrow> layout option" where
  "from_size_align sz al =
     (if is_power_of_two al \<and> unat sz \<le> 2 ^ 63 - unat al then Some \<lparr>l_size = sz, l_align = al\<rparr> else None)"

definition block_request :: "layout \<Rightarrow> usize" where
  "block_request l = max (next_power_of_two (l_size l)) (l_align l)"

definition desc_index :: "usize \<Rightarrow> nat" where
  "desc_index sz = trailing_zeros sz - 3"

definition pages_of :: "layout \<Rightarrow> usize" where
  "pages_of l = (l_size l + PG_SIZE - 1) div PG_SIZE"

text \<open>\<open>NonNull::dangling()\<close> of a byte pointer is the address 1.\<close>

definition heap_alloc :: "usize list \<Rightarrow> layout \<Rightarrow> kmem \<Rightarrow> (usize \<times> kmem) option" where
  "heap_alloc da l st =
     (if l_size l = 0 then Some (1, st)
      else do {
        rust_assert (is_power_of_two (l_align l));
        rust_assert (l_align l \<le> PG_SIZE);
        let sz = block_request l;
        if sz \<le> MAX_BLKSIZE then desc_alloc da (desc_index sz) st
        else do {
          let h = km_heap st;
          palloc_alloc (pages_of l) (st\<lparr>km_heap := h\<lparr>spilled_alloc := spilled_alloc h + sz,
            spilled_total := spilled_total h + pages_of l\<rparr>\<rparr>)
        }
      })"

definition heap_dealloc :: "usize list \<Rightarrow> usize \<Rightarrow> layout \<Rightarrow> kmem \<Rightarrow> kmem option" where
  "heap_dealloc da ptr l st =
     (if ptr = 0 then Some st
      else do {
        let sz = block_request l;
        if sz \<le> MAX_BLKSIZE then desc_dealloc da (desc_index sz) ptr st
        else do {
          let h = km_heap st;
          let st = st\<lparr>km_heap := h\<lparr>spilled_alloc := spilled_alloc h - sz,
            spilled_total := spilled_total h - pages_of l\<rparr>\<rparr>;
          rust_assert (ptr mod PG_SIZE = 0);
          palloc_dealloc ptr (pages_of l) st
        }
      })"

definition heap_free :: "heap \<Rightarrow> usize" where
  "heap_free h = foldl (\<lambda>free d. free + desc_free d) 0 (descs h)"

definition heap_allocated :: "heap \<Rightarrow> usize" where
  "heap_allocated h = foldl (\<lambda>a d. a + desc_allocated d) 0 (descs h) + spilled_alloc h"

definition heap_total :: "heap \<Rightarrow> usize" where
  "heap_total h = foldl (\<lambda>t d. t + desc_total d) 0 (descs h) + spilled_total h * PG_SIZE"

definition kalloc :: "usize list \<Rightarrow> usize \<Rightarrow> usize \<Rightarrow> kmem \<Rightarrow> (usize \<times> kmem) option" where
  "kalloc da sz al st = do {
     l \<leftarrow> from_size_align sz al;
     heap_alloc da l st
   }"

definition kfree :: "usize list \<Rightarrow> usize \<Rightarrow> usize \<Rightarrow> usize \<Rightarrow> kmem \<Rightarrow> kmem option" where
  "kfree da ptr sz al st = do {
     l \<leftarrow> from_size_align sz al;
     heap_dealloc da ptr l st
   }"

section \<open>Geometry of an arena\<close>

definition bsz :: "nat \<Rightarrow> nat" where
  "bsz i = 2 ^ (i + 3)"

definition slots :: "nat \<Rightarrow> nat" where
  "slots i = (4096 - (48 + bsz i - 1) div bsz i * bsz i) div bsz i"

definition slot_offset :: "nat \<Rightarrow> nat \<Rightarrow> nat" where
  "slot_offset i j = (16 + bsz i - 1) div bsz i * bsz i + j * bsz i"

definition slot :: "nat \<Rightarrow> usize \<Rightarrow> nat \<Rightarrow> usize" where
  "slot i p j = p + of_nat (slot_offset i j)"

definition page_ok :: "usize \<Rightarrow> bool" where
  "page_ok p \<longleftrightarrow> p \<noteq> 0 \<and> 4096 dvd unat p"

definition page_bytes :: "usize \<Rightarrow> nat set" where
  "page_bytes p = {unat p..<unat p + 4096}"

lemma less_8_cases:
  fixes i :: nat
  shows "i < 8 \<Longrightarrow> i = 0 \<or> i = 1 \<or> i = 2 \<or> i = 3 \<or> i = 4 \<or> i = 5 \<or> i = 6 \<or> i = 7"
  by arith

lemma slots_bounds:
  assumes "i < 8"
  shows "0 < slots i" "slots i \<le> 506" "slot_offset i (slots i) \<le> 4096" "16 \<le> slot_offset i 0"
    "bsz i dvd slot_offset i 0" "bsz i dvd 4096" "8 \<le> bsz i" "bsz i \<le> 1024"
  using less_8_cases [OF assms] by (auto simp: slots_def slot_offset_def bsz_def)

lemma slot_offset_add: "slot_offset i j = slot_offset i 0 + j * bsz i"
  by (simp add: slot_offset_def)

lemma slots_bounds_offset:
  "i < 8 \<Longrightarrow> unat (of_nat (slot_offset i 0) :: usize) = slot_offset i 0"
  using slots_bounds(1,3,4) [of i] by (subst unat_of_nat_small) (auto simp: slot_offset_def)

lemma slot_offset_bounds:
  assumes "i < 8" "j < slots i"
  shows "16 \<le> slot_offset i j" "slot_offset i j + bsz i \<le> 4096" "bsz i dvd slot_offset i j"
proof -
  have "Suc j * bsz i \<le> slots i * bsz i" using assms(2) by (intro mult_right_mono) auto
  then show "slot_offset i j + bsz i \<le> 4096"
    using slots_bounds(3) [OF assms(1)] by (simp add: slot_offset_add [of i j] slot_offset_add [of i "slots i"])
  show "16 \<le> slot_offset i j" "bsz i dvd slot_offset i j"
    using slots_bounds(4,5) [OF assms(1)] by (simp_all add: slot_offset_add [of i j])
qed

lemma page_okD:
  assumes "page_ok p"
  shows "unat p + 4096 \<le> 2 ^ 64" "4096 \<le> unat p"
proof -
  obtain c where c: "unat p = 4096 * c" using assms by (auto simp: page_ok_def elim: dvdE)
  then have "c < 2 ^ 52" using unat_usize_less [of p] by simp
  then show "unat p + 4096 \<le> 2 ^ 64" using c by simp
  have "unat p \<noteq> 0" using assms by (simp add: page_ok_def unat_eq_zero)
  then show "4096 \<le> unat p" using c by simp
qed

lemma unat_in_page:
  assumes "page_ok p" "k < 4096"
  shows "unat (p + of_nat k) = unat p + k"
proof -
  have "unat (of_nat k :: usize) = k" using assms(2) by (subst unat_of_nat_small) auto
  then show ?thesis using page_okD(1) [OF assms(1)] assms(2) by (subst unat_add_no_wrap) auto
qed

lemma unat_page_8: "page_ok p \<Longrightarrow> unat (p + 8) = unat p + 8"
  using unat_in_page [of p 8] by simp

lemma slot_unat:
  assumes "page_ok p" "i < 8" "j < slots i"
  shows "unat (slot i p j) = unat p + slot_offset i j"
  using unat_in_page [OF assms(1), of "slot_offset i j"] slot_offset_bounds [OF assms(2,3)]
    slots_bounds(7) [OF assms(2)] by (simp add: slot_def)

lemma slot_facts:
  assumes "page_ok p" "i < 8" "j < slots i"
  shows "slot i p j AND NOT PG_MASK = p" "slot i p j mod 2 ^ (i + 3) = 0" "slot i p j \<noteq> 0"
    "slot i p j \<noteq> p" "slot i p j \<noteq> p + 8"
    "{unat (slot i p j)..<unat (slot i p j) + bsz i} \<subseteq> page_bytes p"
proof -
  note u = slot_unat [OF assms] and b = slot_offset_bounds [OF assms(2,3)]
    and s = slots_bounds [OF assms(2)]
  obtain c where c: "unat p = 4096 * c" using assms(1) by (auto simp: page_ok_def elim: dvdE)
  have "slot_offset i j < 4096" using b s by simp
  then have "unat (slot i p j AND NOT PG_MASK) = unat p"
    by (simp add: PG_MASK_eq_mask unat_and_not_mask u c)
  then show "slot i p j AND NOT PG_MASK = p" by (simp add: word_unat_eq_iff)
  have "bsz i dvd unat (slot i p j)"
    using b(3) s(6) c u by (metis dvd_add dvd_mult2)
  moreover have "unat (2 ^ (i + 3) :: usize) = bsz i"
    using assms(2) by (simp add: bsz_def unat_exp)
  ultimately show "slot i p j mod 2 ^ (i + 3) = 0"
    by (simp add: word_unat_eq_iff unat_mod_distrib)
  have "unat (slot i p j) \<noteq> 0" "unat (slot i p j) \<noteq> unat p" "unat (slot i p j) \<noteq> unat (p + 8)"
    using u b(1) by (simp_all add: unat_page_8 [OF assms(1)])
  then show "slot i p j \<noteq> 0" "slot i p j \<noteq> p" "slot i p j \<noteq> p + 8" by (metis unat_0)+
  show "{unat (slot i p j)..<unat (slot i p j) + bsz i} \<subseteq> page_bytes p"
    using u b(2) by (auto simp: page_bytes_def)
qed

lemma slot_inj:
  assumes "page_ok p" "page_ok q" "i < 8" "j < slots i" "k < slots i" "slot i p j = slot i q k"
  shows "p = q \<and> j = k"
proof -
  have "p = q" using slot_facts(1) assms by metis
  moreover have "slot_offset i j = slot_offset i k"
    using slot_unat assms \<open>p = q\<close> by (metis add_left_cancel)
  then have "j = k" using slots_bounds(7) [OF assms(3)] by (simp add: slot_offset_def)
  ultimately show ?thesis by simp
qed

lemma page_bytes_disjoint:
  assumes "page_ok p" "page_ok q" "p \<noteq> q"
  shows "page_bytes p \<inter> page_bytes q = {}"
proof -
  obtain c d where c: "unat p = 4096 * c" "unat q = 4096 * d"
    using assms by (auto simp: page_ok_def elim!: dvdE)
  then have "c \<noteq> d" using assms(3) by (auto simp: word_unat_eq_iff)
  then show ?thesis by (auto simp: page_bytes_def c)
qed

section \<open>Headers and blocks\<close>

lemma arena_head_fields:
  "ucast (arena_head magic cnt) = magic" "ucast (drop_bit 32 (arena_head magic cnt)) = cnt"
proof -
  show "ucast (arena_head magic cnt) = magic"
    by (rule bit_word_eqI) (auto simp: arena_head_def bit_simps)
  show "ucast (drop_bit 32 (arena_head magic cnt)) = cnt"
    by (rule bit_word_eqI) (auto simp: arena_head_def bit_simps dest: bit_imp_le_length)
qed

text \<open>The header of an arena of the \<open>i\<close>-th descriptor with \<open>n\<close> free blocks.\<close>

definition header_ok :: "usize list \<Rightarrow> memory \<Rightarrow> nat \<Rightarrow> usize \<Rightarrow> nat \<Rightarrow> bool" where
  "header_ok da m i p n \<longleftrightarrow> m p = arena_head ARENA_MAGIC (of_nat n) \<and> m (p + 8) = da ! i"

definition addresses_ok :: "usize list \<Rightarrow> bool" where
  "addresses_ok da \<longleftrightarrow> length da = 8 \<and> distinct da \<and> 0 \<notin> set da"

text \<open>What never changes in the descriptors.\<close>

definition shape_ok :: "heap \<Rightarrow> bool" where
  "shape_ok h \<longleftrightarrow> length (descs h) = 8 \<and>
     (\<forall>i < 8. block_size (descs h ! i) = 2 ^ (i + 3) \<and> blocks_per_arena (descs h ! i) = of_nat (slots i))"

lemma header_ok_fields:
  assumes "header_ok da m i p n"
  shows "arena_magic m p = ARENA_MAGIC" "arena_free_cnt m p = of_nat n" "arena_desc m p = da ! i"
  using assms by (simp_all add: header_ok_def arena_magic_def arena_free_cnt_def arena_desc_def arena_head_fields)

lemma set_free_cnt_header:
  assumes "header_ok da m i p n" "page_ok p"
  shows "header_ok da (set_free_cnt p (of_nat k) m) i p k"
proof -
  have "p + 8 \<noteq> p" using unat_page_8 [OF assms(2)] by (metis add_eq_self_zero zero_neq_numeral)
  then show ?thesis
    using assms by (simp add: header_ok_def set_free_cnt_def arena_magic_def arena_head_fields)
qed

lemma desc_at_index:
  assumes "addresses_ok da" "shape_ok h" "i < 8"
  shows "desc_at da h (da ! i) = Some (descs h ! i)"
proof -
  have len: "length da = 8" "distinct da" using assms(1) by (auto simp: addresses_ok_def)
  have "find (\<lambda>k. da ! k = da ! i) [0..<length da] = Some i"
    using assms(3) len by (auto simp: find_Some_iff nth_eq_iff_index_eq intro!: exI [of _ i])
  then show ?thesis using assms(2,3) by (simp add: desc_at_def slice_get_def shape_ok_def)
qed

lemma from_block_slot:
  assumes "addresses_ok da" "shape_ok (km_heap st)" "i < 8" "page_ok p" "j < slots i"
    "header_ok da (km_mem st) i p n"
  shows "from_block da st (slot i p j) = Some p"
proof -
  have "da ! i \<noteq> 0" using assms(1,3) by (metis addresses_ok_def nth_mem)
  moreover have "block_size (descs (km_heap st) ! i) = 2 ^ (i + 3)"
    using assms(2,3) by (simp add: shape_ok_def)
  ultimately show ?thesis
    using slot_facts [OF assms(4,3,5)] assms(4) desc_at_index [OF assms(1-3)]
    by (simp add: from_block_def header_ok_fields [OF assms(6)] page_ok_def Let_def)
qed

lemma round_up_arena:
  assumes "i < 8"
  shows "round_up SIZE_OF_ARENA (2 ^ (i + 3)) = Some (of_nat (slot_offset i 0))"
proof -
  have "unat ((SIZE_OF_ARENA + mask (i + 3)) AND NOT (mask (i + 3)) :: usize) = slot_offset i 0"
    using less_8_cases [OF assms]
    by (subst unat_round_up) (auto simp: SIZE_OF_ARENA_def slot_offset_def bsz_def)
  then have "(SIZE_OF_ARENA + mask (i + 3)) AND NOT (mask (i + 3)) = of_nat (slot_offset i 0)"
    by (simp add: word_unat_eq_iff unat_of_nat_small slots_bounds_offset [OF assms])
  then show ?thesis using assms by (simp add: round_up_exp)
qed

lemma unat_of_slots:
  assumes "i < 8" "j \<le> slots i"
  shows "unat (of_nat j :: usize) = j"
  using slots_bounds(2) [OF assms(1)] assms(2) by (subst unat_of_nat_small) auto

lemma get_block_slot:
  assumes "addresses_ok da" "shape_ok (km_heap st)" "i < 8" "page_ok p" "j < slots i"
    "header_ok da (km_mem st) i p n"
  shows "get_block da st p (of_nat j) = Some (slot i p j)"
proof -
  have sh: "block_size (descs (km_heap st) ! i) = 2 ^ (i + 3)"
    "blocks_per_arena (descs (km_heap st) ! i) = of_nat (slots i)"
    using assms(2,3) by (auto simp: shape_ok_def)
  have "(of_nat j :: usize) < of_nat (slots i)"
    using unat_of_slots [OF assms(3)] assms(5) by (simp add: word_less_nat_alt)
  moreover have "p mod PG_SIZE = 0"
    using assms(4) by (simp add: word_unat_eq_iff unat_mod_distrib page_ok_def)
  moreover have "p + of_nat (slot_offset i 0) + of_nat j * 2 ^ (i + 3) = slot i p j"
    by (simp add: slot_def slot_offset_add [of i j] bsz_def add.assoc)
  ultimately show ?thesis
    using desc_at_index [OF assms(1-3)] round_up_arena [OF assms(3)]
    by (simp add: get_block_def header_ok_fields [OF assms(6)] sh)
qed

subsection \<open>Reading and writing descriptors\<close>

lemma put_desc_simps [simp]:
  "km_mem (put_desc i d st) = km_mem st" "km_palloc (put_desc i d st) = km_palloc st"
  "km_user (put_desc i d st) = km_user st"
  "descs (km_heap (put_desc i d st)) = (descs (km_heap st))[i := d]"
  "spilled_alloc (km_heap (put_desc i d st)) = spilled_alloc (km_heap st)"
  "spilled_total (km_heap (put_desc i d st)) = spilled_total (km_heap st)"
  "put_desc i d (put_desc i d' st) = put_desc i d st"
  "(put_desc i d st)\<lparr>km_mem := m\<rparr> = put_desc i d (st\<lparr>km_mem := m\<rparr>)"
  by (simp_all add: put_desc_def)

lemma get_desc_shape: "shape_ok (km_heap st) \<Longrightarrow> i < 8 \<Longrightarrow> get_desc i st = Some (descs (km_heap st) ! i)"
  by (simp add: get_desc_def slice_get_def shape_ok_def)

lemma shape_ok_put:
  assumes "shape_ok (km_heap st)" "block_size d = block_size (descs (km_heap st) ! i)"
    "blocks_per_arena d = blocks_per_arena (descs (km_heap st) ! i)"
  shows "shape_ok (km_heap (put_desc i d st))"
proof -
  have len: "length (descs (km_heap st)) = 8" using assms(1) by (simp add: shape_ok_def)
  have "block_size ((descs (km_heap st))[i := d] ! k) = 2 ^ (k + 3) \<and>
      blocks_per_arena ((descs (km_heap st))[i := d] ! k) = of_nat (slots k)" if "k < 8" for k
    using that assms len by (cases "k = i") (auto simp: shape_ok_def)
  then show ?thesis using len unfolding shape_ok_def by simp
qed

lemma get_put_desc: "shape_ok (km_heap st) \<Longrightarrow> i < 8 \<Longrightarrow> get_desc i (put_desc i d st) = Some d"
  by (simp add: get_desc_def slice_get_def shape_ok_def)

subsection \<open>Filling a new arena\<close>

lemma header_ok_upd:
  "header_ok da m i p n \<Longrightarrow> a \<noteq> p \<Longrightarrow> a \<noteq> p + 8 \<Longrightarrow> header_ok da (m(a := v)) i p n"
  by (simp add: header_ok_def)

lemma desc_push_free:
  assumes "shape_ok (km_heap st)" "i < 8" "a \<noteq> 0" "a \<notin> set xs"
    and "list_at (km_mem st) (head (free_list (descs (km_heap st) ! i))) xs"
  shows "\<exists>l. desc_push i a st =
      Some (put_desc i ((descs (km_heap st) ! i)\<lparr>free_list := l\<rparr>) (st\<lparr>km_mem := (km_mem st)(a := head (free_list (descs (km_heap st) ! i)))\<rparr>)) \<and>
    list_at ((km_mem st)(a := head (free_list (descs (km_heap st) ! i)))) (head l) (a # xs)"
  using assms
  by (intro exI [of _ "(free_list (descs (km_heap st) ! i))\<lparr>head := a\<rparr>"])
    (simp add: desc_push_def get_desc_shape list_push_def)

lemma fill_arena_ok:
  assumes "addresses_ok da" "i < 8" "page_ok p" "set js \<subseteq> {..<slots i}" "distinct js"
    and "shape_ok (km_heap st)" "header_ok da (km_mem st) i p n"
    and "list_at (km_mem st) (head (free_list (descs (km_heap st) ! i))) xs"
    and "\<forall>j \<in> set js. slot i p j \<notin> set xs"
  shows "\<exists>m' l. fill_arena da i p (map of_nat js) st =
      Some (put_desc i ((descs (km_heap st) ! i)\<lparr>free_list := l\<rparr>) (st\<lparr>km_mem := m'\<rparr>)) \<and>
    list_at m' (head l) (rev (map (slot i p) js) @ xs) \<and>
    (\<forall>a. a \<notin> slot i p ` set js \<longrightarrow> m' a = km_mem st a)"
  using assms(4-)
proof (induction js arbitrary: st xs)
  case Nil
  have "put_desc i ((descs (km_heap st) ! i)\<lparr>free_list := free_list (descs (km_heap st) ! i)\<rparr>) (st\<lparr>km_mem := km_mem st\<rparr>) = st"
    by (simp add: put_desc_def)
  then show ?case using Nil.prems(5) by (metis append_Nil fill_arena.simps(1) list.simps(8) rev.simps(1))
next
  case (Cons j js)
  let ?d = "descs (km_heap st) ! i" and ?x = "slot i p j"
  let ?m = "(km_mem st)(?x := head (free_list ?d))"
  have j: "j < slots i" using Cons.prems(1) by simp
  note sf = slot_facts [OF assms(3,2) j]
  have gb: "get_block da st p (of_nat j) = Some ?x"
    by (rule get_block_slot [OF assms(1) Cons.prems(3) assms(2,3) j Cons.prems(4)])
  from desc_push_free [OF Cons.prems(3) assms(2) sf(3) _ Cons.prems(5)] Cons.prems(6) obtain l where
    dp: "desc_push i ?x st = Some (put_desc i (?d\<lparr>free_list := l\<rparr>) (st\<lparr>km_mem := ?m\<rparr>))"
    and at: "list_at ?m (head l) (?x # xs)" by auto
  define st1 where "st1 = put_desc i (?d\<lparr>free_list := l\<rparr>) (st\<lparr>km_mem := ?m\<rparr>)"
  have d1: "descs (km_heap st1) ! i = ?d\<lparr>free_list := l\<rparr>" and m1: "km_mem st1 = ?m"
    using Cons.prems(3) assms(2) by (simp_all add: st1_def shape_ok_def)
  have sh1: "shape_ok (km_heap st1)"
    unfolding st1_def by (rule shape_ok_put) (use Cons.prems(3) in simp_all)
  have h1: "header_ok da (km_mem st1) i p n"
    unfolding m1 by (rule header_ok_upd [OF Cons.prems(4) sf(4,5)])
  have at1: "list_at (km_mem st1) (head (free_list (descs (km_heap st1) ! i))) (?x # xs)"
    using at by (simp add: d1 m1)
  have new1: "\<forall>k \<in> set js. slot i p k \<notin> set (?x # xs)"
  proof
    fix k assume k: "k \<in> set js"
    then have "k \<noteq> j" "k < slots i" using Cons.prems(1,2) by auto
    then have "slot i p k \<noteq> ?x" using slot_inj [OF assms(3,3,2) _ j] by blast
    then show "slot i p k \<notin> set (?x # xs)" using Cons.prems(6) k by simp
  qed
  have "set js \<subseteq> {..<slots i}" "distinct js" using Cons.prems(1,2) by auto
  from Cons.IH [OF this sh1 h1 at1 new1] obtain m' l' where
    f: "fill_arena da i p (map of_nat js) st1 =
      Some (put_desc i (?d\<lparr>free_list := l'\<rparr>) (st1\<lparr>km_mem := m'\<rparr>))"
    and at': "list_at m' (head l') (rev (map (slot i p) js) @ ?x # xs)"
    and un: "\<forall>a. a \<notin> slot i p ` set js \<longrightarrow> m' a = ?m a" by (auto simp: d1 m1)
  have "put_desc i (?d\<lparr>free_list := l'\<rparr>) (st1\<lparr>km_mem := m'\<rparr>) =
      put_desc i (?d\<lparr>free_list := l'\<rparr>) (st\<lparr>km_mem := m'\<rparr>)"
    by (simp add: st1_def)
  then have "fill_arena da i p (map of_nat (j # js)) st =
      Some (put_desc i (?d\<lparr>free_list := l'\<rparr>) (st\<lparr>km_mem := m'\<rparr>))"
    using gb dp f by (simp add: st1_def)
  moreover have "\<forall>a. a \<notin> slot i p ` set (j # js) \<longrightarrow> m' a = km_mem st a" using un by auto
  ultimately show ?case using at' by (intro exI [of _ m'] exI [of _ l']) simp
qed

section \<open>The invariant of a descriptor\<close>

definition class_slots :: "nat \<Rightarrow> usize list \<Rightarrow> usize set" where
  "class_slots i ps = {slot i p j | p j. p \<in> set ps \<and> j < slots i}"

definition free_in :: "usize \<Rightarrow> usize list \<Rightarrow> nat" where
  "free_in p xs = length (filter (\<lambda>x. x AND NOT PG_MASK = p) xs)"

definition counters_ok :: "desc \<Rightarrow> nat \<Rightarrow> nat \<Rightarrow> nat \<Rightarrow> bool" where
  "counters_ok d i arenas free \<longleftrightarrow> desc_free d = of_nat (bsz i * free) \<and>
     desc_total d = of_nat (4096 * arenas) \<and>
     desc_allocated d = of_nat (bsz i * slots i * arenas) - of_nat (bsz i * free)"

text \<open>
  The \<open>i\<close>-th descriptor \<open>d\<close> has the arenas \<open>ps\<close> and the free blocks \<open>xs\<close>.
\<close>

definition class_ok :: "usize list \<Rightarrow> memory \<Rightarrow> nat \<Rightarrow> desc \<Rightarrow> usize list \<Rightarrow> usize list \<Rightarrow> bool" where
  "class_ok da m i d ps xs \<longleftrightarrow>
     list_at m (head (free_list d)) xs \<and> set xs \<subseteq> class_slots i ps \<and>
     (\<forall>p \<in> set ps. page_ok p \<and> header_ok da m i p (free_in p xs)) \<and>
     counters_ok d i (length ps) (length xs)"

lemma class_okD:
  assumes "class_ok da m i d ps xs"
  shows "list_at m (head (free_list d)) xs" "set xs \<subseteq> class_slots i ps"
    "p \<in> set ps \<Longrightarrow> page_ok p" "p \<in> set ps \<Longrightarrow> header_ok da m i p (free_in p xs)"
    "distinct xs"
  using assms list_at_distinct by (auto simp: class_ok_def)

lemma slot_not_header:
  assumes "page_ok p" "page_ok q" "i < 8" "j < slots i"
  shows "slot i q j \<noteq> p" "slot i q j \<noteq> p + 8"
proof -
  obtain c d where c: "unat p = 4096 * c" "unat q = 4096 * d"
    using assms by (auto simp: page_ok_def elim!: dvdE)
  note b = slot_offset_bounds [OF assms(3,4)] slots_bounds(7) [OF assms(3)]
  have "unat (slot i q j) mod 4096 = slot_offset i j"
    using b by (simp add: slot_unat [OF assms(2-)] c)
  moreover have "unat p mod 4096 = 0" "unat (p + 8) mod 4096 = 8"
    by (simp_all add: unat_page_8 [OF assms(1)] c)
  ultimately have "unat (slot i q j) \<noteq> unat p" "unat (slot i q j) \<noteq> unat (p + 8)"
    using b(1) by auto
  then show "slot i q j \<noteq> p" "slot i q j \<noteq> p + 8" by auto
qed

lemma class_slotsE:
  assumes "x \<in> class_slots i ps"
  obtains p j where "p \<in> set ps" "j < slots i" "x = slot i p j"
  using assms by (auto simp: class_slots_def)

lemma header_cells_distinct:
  assumes "page_ok p" "page_ok q"
  shows "p \<noteq> q + 8" "p \<noteq> q \<Longrightarrow> p + 8 \<noteq> q + 8"
proof -
  have "4096 dvd unat p" "4096 dvd unat q" using assms by (auto simp: page_ok_def)
  then have "unat p mod 4096 = 0" "(unat q + 8) mod 4096 = 8" by (auto elim!: dvdE)
  then have "unat p \<noteq> unat (q + 8)" unfolding unat_page_8 [OF assms(2)] by (metis zero_neq_numeral)
  then show "p \<noteq> q + 8" "p \<noteq> q \<Longrightarrow> p + 8 \<noteq> q + 8" by auto
qed

lemma class_ok_cong:
  assumes "class_ok da m i d ps xs" "\<forall>a \<in> set xs. m' a = m a"
    "\<forall>p \<in> set ps. m' p = m p \<and> m' (p + 8) = m (p + 8)"
  shows "class_ok da m' i d ps xs"
  using assms list_at_cong [of xs m' m] by (simp add: class_ok_def header_ok_def)

lemma free_in_Cons: "free_in p (x # xs) = (if x AND NOT PG_MASK = p then Suc (free_in p xs) else free_in p xs)"
  by (simp add: free_in_def)

text \<open>The count of one arena is updated together with the free list.\<close>

lemma class_ok_recount:
  assumes c: "\<forall>q \<in> set ps. page_ok q \<and> header_ok da m i q (free_in q xs)"
    and at: "list_at m (head (free_list d)) ys" and sub: "set ys \<subseteq> class_slots i ps"
    and p: "p \<in> set ps" and i: "i < 8"
    and same: "\<forall>q \<in> set ps. q \<noteq> p \<longrightarrow> free_in q ys = free_in q xs"
    and cnt: "counters_ok d i (length ps) (length ys)"
  shows "class_ok da (set_free_cnt p (of_nat (free_in p ys)) m) i d ps ys"
proof -
  let ?m = "set_free_cnt p (of_nat (free_in p ys)) m"
  have pp: "page_ok p" using c p by blast
  have upd: "?m a = m a" if "a \<noteq> p" for a using that by (simp add: set_free_cnt_def)
  have "a \<noteq> p" if "a \<in> set ys" for a
  proof -
    have "a \<in> class_slots i ps" using that sub by blast
    then obtain q j where "q \<in> set ps" "j < slots i" "a = slot i q j" by (rule class_slotsE)
    then show ?thesis using slot_not_header(1) [OF pp _ i] c by blast
  qed
  then have "list_at ?m (head (free_list d)) ys" using at upd list_at_cong [of ys ?m m] by simp
  moreover have "header_ok da ?m i q (free_in q ys)" if q: "q \<in> set ps" for q
  proof (cases "q = p")
    case True
    then show ?thesis using set_free_cnt_header c pp q by blast
  next
    case False
    then have "q + 8 \<noteq> p" using header_cells_distinct(1) [OF pp, of q] c q by auto
    then show ?thesis using False c q same upd by (simp add: header_ok_def)
  qed
  ultimately show ?thesis using c sub cnt by (simp add: class_ok_def)
qed

lemma class_pop:
  assumes ok: "class_ok da m i d ps (x # xs)" and i: "i < 8"
    and bs: "block_size d = 2 ^ (i + 3)"
  shows "\<exists>p j. p \<in> set ps \<and> j < slots i \<and> x = slot i p j \<and>
    list_pop m (free_list d) = (Some x, (free_list d)\<lparr>head := m x\<rparr>) \<and>
    class_ok da (set_free_cnt p (arena_free_cnt m p - 1) m) i
      (d\<lparr>desc_allocated := desc_allocated d + block_size d, desc_free := desc_free d - block_size d,
         free_list := (free_list d)\<lparr>head := m x\<rparr>\<rparr>) ps xs"
proof -
  note D = class_okD [OF ok]
  obtain p j where p: "p \<in> set ps" "j < slots i" "x = slot i p j"
    using D(2) by (auto elim!: class_slotsE)
  have px: "x AND NOT PG_MASK = p" using slot_facts(1) [OF D(3) i] p by simp
  have "arena_free_cnt m p = of_nat (Suc (free_in p xs))"
    using header_ok_fields(2) [OF D(4) [OF p(1)]] px by (simp add: free_in_Cons)
  then have cnt: "arena_free_cnt m p - 1 = of_nat (free_in p xs)" by simp
  have x: "x \<noteq> 0" "head (free_list d) = x" and at: "list_at m (m x) xs" using D(1) by auto
  have "class_ok da (set_free_cnt p (of_nat (free_in p xs)) m) i
      (d\<lparr>desc_allocated := desc_allocated d + block_size d, desc_free := desc_free d - block_size d,
         free_list := (free_list d)\<lparr>head := m x\<rparr>\<rparr>) ps xs"
  proof (rule class_ok_recount [where xs = "x # xs"])
    show "\<forall>q\<in>set ps. page_ok q \<and> header_ok da m i q (free_in q (x # xs))" using D(3,4) by blast
    show "\<forall>q\<in>set ps. q \<noteq> p \<longrightarrow> free_in q xs = free_in q (x # xs)" using px by (simp add: free_in_Cons)
  qed (use ok at D(2) p i bs in \<open>auto simp: class_ok_def counters_ok_def bsz_def algebra_simps\<close>)
  then show ?thesis
    using p x by (intro exI [of _ p] exI [of _ j]) (simp add: cnt list_pop_def list_is_empty_def)
qed

lemma class_push:
  assumes ok: "class_ok da m i d ps xs" and i: "i < 8" and bs: "block_size d = 2 ^ (i + 3)"
    and p: "p \<in> set ps" "j < slots i" "slot i p j \<notin> set xs"
  defines "x \<equiv> slot i p j"
  defines "m1 \<equiv> m(x := head (free_list d))"
  shows "class_ok da (set_free_cnt p (arena_free_cnt m1 p + 1) m1) i
      (d\<lparr>free_list := (free_list d)\<lparr>head := x\<rparr>,
         desc_allocated := desc_allocated d - block_size d, desc_free := desc_free d + block_size d\<rparr>)
      ps (x # xs)"
    and "header_ok da m1 i p (free_in p xs)"
proof -
  note D = class_okD [OF ok]
  have px: "x AND NOT PG_MASK = p" and x0: "x \<noteq> 0"
    using slot_facts(1,3) [OF D(3) i] p by (simp_all add: x_def)
  have hd: "header_ok da m1 i q (free_in q xs)" if q: "q \<in> set ps" for q
    unfolding m1_def using header_ok_upd [OF D(4) [OF q]] slot_not_header [OF D(3) D(3) i p(2)] q p(1)
    by (simp add: x_def)
  then show "header_ok da m1 i p (free_in p xs)" using p by blast
  have "arena_free_cnt m1 p = of_nat (free_in p xs)"
    using header_ok_fields(2) [OF hd [OF p(1)]] .
  then have cnt: "arena_free_cnt m1 p + 1 = of_nat (free_in p (x # xs))"
    using px by (simp add: free_in_Cons)
  have at: "list_at m1 x (x # xs)" using D(1) p(3) x0 by (simp add: m1_def x_def)
  have sub: "set (x # xs) \<subseteq> class_slots i ps" using D(2) p by (auto simp: class_slots_def x_def)
  show "class_ok da (set_free_cnt p (arena_free_cnt m1 p + 1) m1) i
      (d\<lparr>free_list := (free_list d)\<lparr>head := x\<rparr>,
         desc_allocated := desc_allocated d - block_size d, desc_free := desc_free d + block_size d\<rparr>)
      ps (x # xs)"
    unfolding cnt
  proof (rule class_ok_recount [where xs = xs])
    show "\<forall>q\<in>set ps. page_ok q \<and> header_ok da m1 i q (free_in q xs)" using D(3) hd by blast
    show "\<forall>q\<in>set ps. q \<noteq> p \<longrightarrow> free_in q (x # xs) = free_in q xs" using px by (simp add: free_in_Cons)
  qed (use ok at sub p i bs in \<open>auto simp: class_ok_def counters_ok_def bsz_def algebra_simps\<close>)
qed

end
