(* ===== verification/Kernel_Heap.thy ===== *)
theory Kernel_Heap
  imports Malloc
begin

text \<open>
  Correctness of the kernel heap. \<open>heap_rel\<close> is the invariant of the memory, the page allocator
  and the eight descriptors of \<open>Malloc\<close>; \<open>unused\<close> are the bytes that belong to the allocators and
  are not handed out. An allocation takes exactly the bytes of its block out of them, and a
  deallocation puts them back, while all other memory stays as it is.
\<close>

section \<open>The invariant of the heap\<close>

text \<open>
  \<open>A\<close> are the free bytes of the page allocator, \<open>P\<close> the arenas and \<open>X\<close> the free blocks of each
  descriptor.
\<close>

definition heap_rel :: "usize list \<Rightarrow> kmem \<Rightarrow> nat set \<Rightarrow> usize list list \<Rightarrow> usize list list \<Rightarrow> bool" where
  "heap_rel da st A P X \<longleftrightarrow>
     addresses_ok da \<and> shape_ok (km_heap st) \<and> length P = 8 \<and> length X = 8 \<and>
     buddy_free (km_mem st, km_palloc st) A \<and>
     distinct (concat P) \<and> (\<forall>p \<in> set (concat P). page_bytes p \<inter> A = {}) \<and>
     (\<forall>i < 8. class_ok da (km_mem st) i (descs (km_heap st) ! i) (P ! i) (X ! i))"

definition live :: "usize list list \<Rightarrow> usize list list \<Rightarrow> (nat \<times> usize) set" where
  "live P X = {(i, x). i < 8 \<and> x \<in> class_slots i (P ! i) - set (X ! i)}"

definition slot_bytes :: "nat \<times> usize \<Rightarrow> nat set" where
  "slot_bytes b = (case b of (i, x) \<Rightarrow> {unat x..<unat x + bsz i})"

definition unused :: "nat set \<Rightarrow> usize list list \<Rightarrow> usize list list \<Rightarrow> nat set" where
  "unused A P X = A \<union> (\<Union>p \<in> set (concat P). page_bytes p) - (\<Union>b \<in> live P X. slot_bytes b)"

lemma heap_relD:
  assumes "heap_rel da st A P X"
  shows "addresses_ok da" "shape_ok (km_heap st)" "length P = 8" "length X = 8"
    "buddy_free (km_mem st, km_palloc st) A" "distinct (concat P)"
    "p \<in> set (concat P) \<Longrightarrow> page_bytes p \<inter> A = {}"
    "i < 8 \<Longrightarrow> class_ok da (km_mem st) i (descs (km_heap st) ! i) (P ! i) (X ! i)"
  using assms by (auto simp: heap_rel_def)

lemma in_concat: "i < length P \<Longrightarrow> p \<in> set (P ! i) \<Longrightarrow> p \<in> set (concat P)"
  by auto

lemma page_start: "unat p \<in> page_bytes p" and page_start_8: "page_ok p \<Longrightarrow> unat (p + 8) \<in> page_bytes p"
  by (auto simp: page_bytes_def unat_page_8)

lemma class_ok_frame:
  assumes ok: "class_ok da m i d ps xs" and i: "i < 8" and un: "untouched Y m m'"
    and dis: "\<forall>p \<in> set ps. page_bytes p \<inter> Y = {}"
  shows "class_ok da m' i d ps xs"
proof (rule class_ok_cong [OF ok])
  note D = class_okD [OF ok]
  show "\<forall>p\<in>set ps. m' p = m p \<and> m' (p + 8) = m (p + 8)"
    using untouchedD [OF un] dis page_start page_start_8 [OF D(3)] by blast
  show "\<forall>a\<in>set xs. m' a = m a"
  proof
    fix a assume "a \<in> set xs"
    then obtain p j where p: "p \<in> set ps" "j < slots i" "a = slot i p j"
      using D(2) class_slotsE [of a i ps] by blast
    have "unat a \<in> page_bytes p"
      using slot_facts(6) [OF D(3) [OF p(1)] i p(2)] slots_bounds(7) [OF i] p(3) by auto
    then show "m' a = m a" using untouchedD [OF un] dis p(1) by blast
  qed
qed

text \<open>Distinct pages of the arenas, also across descriptors.\<close>

lemma distinct_concat_nth:
  assumes "distinct (concat P)" "i < length P" "k < length P" "i \<noteq> k"
  shows "set (P ! i) \<inter> set (P ! k) = {}"
  using assms
proof (induction P arbitrary: i k)
  case (Cons ps P)
  have *: "set ps \<inter> set (P ! j) = {}" if "j < length P" for j
    using Cons.prems(1) that in_concat [of j P] by auto
  show ?case
    using Cons.prems Cons.IH * by (cases i; cases k) auto
qed simp

lemma distinct_concat_push:
  assumes "distinct (concat P)" "i < length P" "p \<notin> set (concat P)"
  shows "distinct (concat (P[i := p # P ! i]))" "set (concat (P[i := p # P ! i])) = insert p (set (concat P))"
proof -
  let ?a = "concat (take i P)" and ?b = "P ! i" and ?c = "concat (drop (Suc i) P)"
  have P: "concat P = ?a @ ?b @ ?c" using assms(2) by (subst id_take_nth_drop [of i P]) auto
  have P': "concat (P[i := p # P ! i]) = ?a @ (p # ?b) @ ?c"
    using assms(2) by (simp add: upd_conv_take_nth_drop)
  show "distinct (concat (P[i := p # P ! i]))" using assms(1,3) unfolding P P' by auto
  show "set (concat (P[i := p # P ! i])) = insert p (set (concat P))" unfolding P P' by auto
qed

text \<open>A change of memory inside the unused part and of one descriptor, on an unchanged set of arenas.\<close>

lemma heap_rel_update:
  assumes rel: "heap_rel da st A P X" and i: "i < 8"
    and ok: "class_ok da m' i d (P ! i) xs"
    and sh: "block_size d = block_size (descs (km_heap st) ! i)"
      "blocks_per_arena d = blocks_per_arena (descs (km_heap st) ! i)"
    and un: "untouched (page_bytes p) (km_mem st) m'" and p: "p \<in> set (P ! i)"
  shows "heap_rel da (put_desc i d (st\<lparr>km_mem := m'\<rparr>)) A P (X[i := xs])"
proof -
  note R = heap_relD [OF rel]
  have pc: "p \<in> set (concat P)" using in_concat [of i P p] R(3) i p by simp
  have page: "page_ok q" if "q \<in> set (P ! k)" "k < 8" for k q
    using class_okD(3) [OF R(8) [OF that(2)] that(1)] .
  have "class_ok da m' k (descs (km_heap st) ! k) (P ! k) (X ! k)" if k: "k < 8" "k \<noteq> i" for k
  proof (rule class_ok_frame [OF R(8) [OF k(1)] k(1) un], rule ballI)
    fix q assume q: "q \<in> set (P ! k)"
    have "q \<noteq> p" using distinct_concat_nth [OF R(6), of k i] R(3) k i q p by auto
    then show "page_bytes q \<inter> page_bytes p = {}"
      using page_bytes_disjoint [OF page [OF q k(1)] page [OF p i]] by blast
  qed
  moreover have "buddy_free (m', km_palloc st) A"
    using palloc.inv_untouched [OF R(5) un] R(7) [OF pc] by blast
  moreover have "shape_ok (km_heap (put_desc i d (st\<lparr>km_mem := m'\<rparr>)))"
    by (rule shape_ok_put) (use R(2) sh in simp_all)
  moreover have "length (descs (km_heap st)) = 8" using R(2) by (simp add: shape_ok_def)
  ultimately show ?thesis
    using R ok i by (auto simp: heap_rel_def nth_list_update)
qed

subsection \<open>A new arena\<close>

text \<open>The header a new arena gets, and the cells it touches.\<close>

definition init_header :: "usize list \<Rightarrow> nat \<Rightarrow> usize \<Rightarrow> memory \<Rightarrow> memory" where
  "init_header da i p m = set_free_cnt p (of_nat (slots i)) ((set_magic p ARENA_MAGIC m)(p + 8 := da ! i))"

lemma init_header_ok:
  assumes "page_ok p"
  shows "header_ok da (init_header da i p m) i p (slots i)" "untouched (page_bytes p) m (init_header da i p m)"
proof -
  have "p + 8 \<noteq> p" using header_cells_distinct(1) [OF assms assms] by auto
  then show "header_ok da (init_header da i p m) i p (slots i)"
    by (simp add: header_ok_def init_header_def set_free_cnt_def set_magic_def arena_magic_def arena_head_fields)
  show "untouched (page_bytes p) m (init_header da i p m)"
    unfolding init_header_def set_free_cnt_def set_magic_def
    by (intro untouched_upd page_start page_start_8 [OF assms] untouched_refl)
qed

lemma free_in_new:
  assumes "page_ok p" "i < 8"
  shows "free_in q (rev (map (slot i p) [0..<slots i])) = (if q = p then slots i else 0)"
proof -
  have "x AND NOT PG_MASK = p" if "x \<in> set (rev (map (slot i p) [0..<slots i]))" for x
    using that slot_facts(1) [OF assms] by auto
  then have "filter (\<lambda>x. x AND NOT PG_MASK = q) (rev (map (slot i p) [0..<slots i])) =
      (if q = p then rev (map (slot i p) [0..<slots i]) else [])"
    by (auto simp: filter_id_conv filter_empty_conv)
  then show ?thesis by (simp add: free_in_def)
qed

lemma class_new:
  assumes ok: "class_ok da m i d ps []" and i: "i < 8" and p: "page_ok p" "p \<notin> set ps"
    and bs: "block_size d = 2 ^ (i + 3)" "blocks_per_arena d = of_nat (slots i)"
    and m': "header_ok da m' i p (slots i)"
      "list_at m' (head l) (rev (map (slot i p) [0..<slots i]))"
      "\<forall>q \<in> set ps. m' q = m q \<and> m' (q + 8) = m (q + 8)"
  shows "class_ok da m' i (d\<lparr>free_list := l, desc_total := desc_total d + PG_SIZE,
      desc_free := desc_free d + block_size d * blocks_per_arena d\<rparr>)
      (p # ps) (rev (map (slot i p) [0..<slots i]))"
proof -
  let ?xs = "rev (map (slot i p) [0..<slots i])"
  have sub: "set ?xs \<subseteq> class_slots i (p # ps)" unfolding class_slots_def by fastforce
  have "header_ok da m' i q (free_in q ?xs)" if q: "q \<in> set (p # ps)" for q
  proof (cases "q = p")
    case True
    then show ?thesis using m'(1) by (simp only: free_in_new [OF p(1) i] if_True simp_thms)
  next
    case False
    then have "header_ok da m i q 0" "q \<in> set ps"
      using q class_okD(4) [OF ok, of q] by (auto simp: free_in_def)
    then show ?thesis
      using m'(3) False by (simp only: free_in_new [OF p(1) i] if_False simp_thms) (simp add: header_ok_def)
  qed
  moreover have "counters_ok (d\<lparr>free_list := l, desc_total := desc_total d + PG_SIZE,
      desc_free := desc_free d + block_size d * blocks_per_arena d\<rparr>) i (length (p # ps)) (length ?xs)"
    using ok bs by (simp add: class_ok_def counters_ok_def bsz_def algebra_simps)
  ultimately show ?thesis
    using sub m'(2) p class_okD(3) [OF ok] unfolding class_ok_def by simp
qed

lemma new_arena_ok:
  assumes rel: "heap_rel da st A P X" and i: "i < 8" and X: "X ! i = []" and A: "A \<noteq> {}"
  shows "\<exists>st' p. new_arena da i st = Some st' \<and> page_ok p \<and> page_bytes p \<subseteq> A \<and>
    heap_rel da st' (A - page_bytes p) (P[i := p # P ! i])
      (X[i := rev (map (slot i p) [0..<slots i])]) \<and>
    untouched A (km_mem st) (km_mem st')"
proof -
  note R = heap_relD [OF rel]
  let ?d = "descs (km_heap st) ! i"
  let ?xs = "\<lambda>p. rev (map (slot i p) [0..<slots i])"
  have sh: "block_size ?d = 2 ^ (i + 3)" "blocks_per_arena ?d = of_nat (slots i)"
    using R(2) i by (auto simp: shape_ok_def)
  obtain p m1 b1 where a: "buddy_alloc 1 (km_mem st, km_palloc st) = Some (p, m1, b1)"
    using buddy_alloc_page [OF R(5) A] by auto
  have reg: "buddy_region 1 p = page_bytes p"
    by (simp add: buddy_region_def block_bytes_def page_bytes_def order_of_1 PG_SHIFT_def)
  have ok: "buddy_region_ok 1 p" and sub: "page_bytes p \<subseteq> A" and b1: "buddy_free (m1, b1) (A - page_bytes p)"
    using palloc_pages.alloc_law [OF R(5) a] by (auto simp: reg)
  have pg: "page_ok p"
    using ok by (simp add: buddy_region_ok_def block_ok_def order_of_1 page_ok_def PG_SHIFT_def)
  have un1: "untouched A (km_mem st) m1" by (rule palloc.alloc_untouched [OF R(5) a])
  define m2 where "m2 = init_header da i p m1"
  define st2 where "st2 = st\<lparr>km_palloc := b1, km_mem := m2\<rparr>"
  have h2: "header_ok da (km_mem st2) i p (slots i)" and un2: "untouched (page_bytes p) m1 m2"
    using init_header_ok [OF pg] by (auto simp: st2_def m2_def)
  have at2: "list_at (km_mem st2) (head (free_list (descs (km_heap st2) ! i))) []"
    using class_okD(1) [OF R(8) [OF i]] X by (simp add: st2_def)
  have sh2: "shape_ok (km_heap st2)" using R(2) by (simp add: st2_def)
  have "set [0..<slots i] \<subseteq> {..<slots i}" by auto
  from fill_arena_ok [OF R(1) i pg this distinct_upt sh2 h2 at2] obtain m3 l where
    f: "fill_arena da i p (map of_nat [0..<slots i]) st2 =
      Some (put_desc i (?d\<lparr>free_list := l\<rparr>) (st2\<lparr>km_mem := m3\<rparr>))"
    and at3: "list_at m3 (head l) (?xs p)"
    and un3: "\<forall>a. a \<notin> slot i p ` set [0..<slots i] \<longrightarrow> m3 a = m2 a"
    by (auto simp: st2_def)
  have un3': "untouched (page_bytes p) m2 m3"
    unfolding untouched_def
  proof (intro allI impI)
    fix a :: usize assume a: "unat a \<notin> page_bytes p"
    have "a \<notin> slot i p ` set [0..<slots i]"
      using a slot_facts(6) [OF pg i] slots_bounds(7) [OF i] by fastforce
    then show "m3 a = m2 a" using un3 by blast
  qed
  have un13: "untouched (page_bytes p) m1 m3" by (rule untouched_trans [OF un2 un3'])
  have un: "untouched A (km_mem st) m3" by (rule untouched_trans [OF un1 untouched_mono [OF un13 sub]])
  define d' where "d' = ?d\<lparr>free_list := l, desc_total := desc_total ?d + PG_SIZE,
      desc_free := desc_free ?d + block_size ?d * blocks_per_arena ?d\<rparr>"
  define st' where "st' = put_desc i d' (st\<lparr>km_palloc := b1, km_mem := m3\<rparr>)"
  have "word_range 0 (of_nat (slots i) :: usize) = map of_nat [0..<slots i]"
    using unat_of_slots [OF i order_refl] by (simp add: word_range_def)
  moreover have "ucast (of_nat (slots i) :: usize) = (of_nat (slots i) :: u32)"
    using slots_bounds(2) [OF i] by (simp add: unsigned_of_nat take_bit_nat_eq_self)
  ultimately have "new_arena da i st = Some st'"
    using a f i R(1,2) sh
    by (simp add: new_arena_def palloc_alloc_def get_desc_shape slice_get_def addresses_ok_def Let_def
        st2_def m2_def init_header_def get_put_desc st'_def d'_def)
  moreover have "heap_rel da st' (A - page_bytes p) (P[i := p # P ! i]) (X[i := ?xs p])"
    unfolding heap_rel_def
  proof (intro conjI)
    have new: "p \<notin> set (concat P)" using R(7) [of p] sub page_start [of p] by blast
    note cc = distinct_concat_push [OF R(6) _ new, of i]
    show "distinct (concat (P[i := p # P ! i]))" using cc(1) R(3) i by simp
    show "\<forall>q\<in>set (concat (P[i := p # P ! i])). page_bytes q \<inter> (A - page_bytes p) = {}"
      using cc(2) R(3,7) i by fastforce
    show "buddy_free (km_mem st', km_palloc st') (A - page_bytes p)"
      using palloc.inv_untouched [OF b1 un13] by (simp add: st'_def Int_Diff)
    show "shape_ok (km_heap st')"
      unfolding st'_def by (rule shape_ok_put) (use R(2) in \<open>simp_all add: d'_def\<close>)
    have frame: "class_ok da m3 k (descs (km_heap st) ! k) (P ! k) (X ! k)" if k: "k < 8" for k
      using class_ok_frame [OF R(8) [OF k] k un] R(7) in_concat [of k P] R(3) k by auto
    have "p \<notin> slot i p ` set [0..<slots i]" "p + 8 \<notin> slot i p ` set [0..<slots i]"
      using slot_facts(4,5) [OF pg i] by fastforce+
    then have "header_ok da m3 i p (slots i)"
      using h2 un3 by (simp add: header_ok_def st2_def)
    moreover have "p \<notin> set (P ! i)" using new in_concat [of i P p] R(3) i by auto
    ultimately have "class_ok da m3 i d' (p # P ! i) (?xs p)"
      using class_new [OF frame [OF i, unfolded X] i pg _ sh _ at3] by (simp add: d'_def)
    then show "\<forall>k<8. class_ok da (km_mem st') k (descs (km_heap st') ! k) (P[i := p # P ! i] ! k) (X[i := ?xs p] ! k)"
      using frame R(2-4) i by (auto simp: st'_def nth_list_update shape_ok_def)
  qed (use R in simp_all)
  ultimately show ?thesis using pg sub un by (auto simp: st'_def)
qed

subsection \<open>Live blocks and unused bytes\<close>

lemma slot_bytes_disjoint:
  assumes "page_ok p" "page_ok q" "i < 8" "j < slots i" "k < 8" "n < slots k"
    and "p = q \<Longrightarrow> i = k" and "slot i p j \<noteq> slot k q n"
  shows "slot_bytes (i, slot i p j) \<inter> slot_bytes (k, slot k q n) = {}"
proof (cases "p = q")
  case False
  then show ?thesis
    using slot_facts(6) [OF assms(1,3,4)] slot_facts(6) [OF assms(2,5,6)]
      page_bytes_disjoint [OF assms(1,2)] by (fastforce simp: slot_bytes_def)
next
  case True
  then have ik: "i = k" by (rule assms(7))
  then have jn: "j \<noteq> n" using True assms(8) by auto
  have u: "unat (slot i p j) = unat p + (slot_offset i 0 + j * bsz i)"
    "unat (slot i p n) = unat p + (slot_offset i 0 + n * bsz i)"
    using slot_unat [OF assms(1,3,4)] slot_unat [OF assms(1,3), of n] assms(6) ik
      slot_offset_add [of i j] slot_offset_add [of i n] by auto
  have "j * bsz i + bsz i \<le> n * bsz i \<or> n * bsz i + bsz i \<le> j * bsz i"
    using jn mult_le_mono1 [of "Suc j" n "bsz i"] mult_le_mono1 [of "Suc n" j "bsz i"]
    by (cases "j < n") (auto simp: Suc_le_eq)
  then show ?thesis using True ik u by (auto simp: slot_bytes_def)
qed

lemma rel_slot:
  assumes "heap_rel da st A P X" "i < 8" "x \<in> class_slots i (P ! i)"
  obtains p j where "p \<in> set (P ! i)" "p \<in> set (concat P)" "page_ok p" "j < slots i" "x = slot i p j"
proof -
  note R = heap_relD [OF assms(1)]
  obtain p j where "p \<in> set (P ! i)" "j < slots i" "x = slot i p j"
    using assms(3) by (rule class_slotsE)
  then show ?thesis
    using that in_concat [of i P p] R(3) assms(2) class_okD(3) [OF R(8)] by simp
qed

lemma rel_slots_disjoint:
  assumes rel: "heap_rel da st A P X" and i: "i < 8" "x \<in> class_slots i (P ! i)"
    and k: "k < 8" "y \<in> class_slots k (P ! k)" and ne: "(i, x) \<noteq> (k, y)"
  shows "slot_bytes (i, x) \<inter> slot_bytes (k, y) = {}"
proof -
  note R = heap_relD [OF rel]
  from rel_slot [OF rel i] obtain p j where p: "p \<in> set (P ! i)" "page_ok p" "j < slots i" "x = slot i p j" .
  from rel_slot [OF rel k] obtain q n where q: "q \<in> set (P ! k)" "page_ok q" "n < slots k" "y = slot k q n" .
  have pq: "i = k" if "p = q"
    using distinct_concat_nth [OF R(6), of i k] R(3) i k p q that by (cases "i = k") auto
  have "x \<noteq> y" if "p = q" using pq [OF that] ne by auto
  moreover have "x \<noteq> y" if "p \<noteq> q"
    using slot_facts(1) [OF p(2) i(1) p(3)] slot_facts(1) [OF q(2) k(1) q(3)] p(4) q(4) that by auto
  ultimately show ?thesis
    using slot_bytes_disjoint [OF p(2) q(2) i(1) p(3) k(1) q(3) pq] p(4) q(4) by blast
qed

lemma live_slot:
  assumes "heap_rel da st A P X" "(i, x) \<in> live P X"
  shows "i < 8" "x \<in> class_slots i (P ! i)" "slot_bytes (i, x) \<subseteq> (\<Union>p \<in> set (concat P). page_bytes p)"
proof -
  show i: "i < 8" "x \<in> class_slots i (P ! i)" using assms(2) by (auto simp: live_def)
  from rel_slot [OF assms(1) i] obtain p j where "p \<in> set (concat P)" "page_ok p" "j < slots i" "x = slot i p j" .
  then show "slot_bytes (i, x) \<subseteq> (\<Union>p \<in> set (concat P). page_bytes p)"
    using slot_facts(6) [OF _ i(1)] by (fastforce simp: slot_bytes_def)
qed

text \<open>Taking one block out of a free list.\<close>

lemma live_take:
  assumes rel: "heap_rel da st A P X" and i: "i < 8" and X: "X ! i = x # xs"
  shows "live P (X[i := xs]) = insert (i, x) (live P X)" "(i, x) \<notin> live P X"
    "unused A P (X[i := xs]) = unused A P X - slot_bytes (i, x)" "slot_bytes (i, x) \<subseteq> unused A P X"
proof -
  note R = heap_relD [OF rel]
  note D = class_okD [OF R(8) [OF i]]
  have x: "x \<in> class_slots i (P ! i)" "x \<notin> set xs" using D(2,5) X by auto
  show l: "live P (X[i := xs]) = insert (i, x) (live P X)" and nl: "(i, x) \<notin> live P X"
    using x X i R(4) by (auto simp: live_def nth_list_update split: if_splits)
  then show "unused A P (X[i := xs]) = unused A P X - slot_bytes (i, x)"
    by (auto simp: unused_def)
  have "slot_bytes (i, x) \<inter> slot_bytes (k, y) = {}" if b: "(k, y) \<in> live P X" for k y
    using rel_slots_disjoint [OF rel i x(1) live_slot(1,2) [OF rel b]] nl b by blast
  moreover have "slot_bytes (i, x) \<subseteq> (\<Union>p \<in> set (concat P). page_bytes p)"
  proof -
    from rel_slot [OF rel i x(1)] obtain p j where "p \<in> set (concat P)" "page_ok p" "j < slots i" "x = slot i p j" .
    then show ?thesis using slot_facts(6) [OF _ i] by (fastforce simp: slot_bytes_def)
  qed
  ultimately show "slot_bytes (i, x) \<subseteq> unused A P X"
    unfolding unused_def by fastforce
qed

text \<open>Returning one.\<close>

lemma live_give:
  assumes rel: "heap_rel da st A P X" and x: "(i, x) \<in> live P X"
  shows "live P (X[i := x # X ! i]) = live P X - {(i, x)}"
    "unused A P (X[i := x # X ! i]) = unused A P X \<union> slot_bytes (i, x)"
proof -
  note R = heap_relD [OF rel] and L = live_slot [OF rel x]
  show l: "live P (X[i := x # X ! i]) = live P X - {(i, x)}"
    using L(1) R(4) by (auto simp: live_def nth_list_update split: if_splits)
  have "slot_bytes (i, x) \<inter> slot_bytes (k, y) = {}" if b: "(k, y) \<in> live P X - {(i, x)}" for k y
    using rel_slots_disjoint [OF rel L(1,2), of k y] live_slot(1,2) [OF rel, of k y] b by blast
  then have "slot_bytes (i, x) \<inter> (\<Union>b \<in> live P X - {(i, x)}. slot_bytes b) = {}" by fastforce
  moreover have "(\<Union>b \<in> live P X. slot_bytes b) =
      slot_bytes (i, x) \<union> (\<Union>b \<in> live P X - {(i, x)}. slot_bytes b)" using x by blast
  ultimately show "unused A P (X[i := x # X ! i]) = unused A P X \<union> slot_bytes (i, x)"
    unfolding unused_def l using L(3) by blast
qed

text \<open>Headers and the bytes of the page allocator are never part of a block.\<close>

lemma slot_not_head:
  assumes "page_ok p" "page_ok q" "i < 8" "j < slots i" "k < 16"
  shows "unat p + k \<notin> slot_bytes (i, slot i q j)"
proof
  assume a: "unat p + k \<in> slot_bytes (i, slot i q j)"
  obtain c d where c: "unat p = 4096 * c" "unat q = 4096 * d"
    using assms by (auto simp: page_ok_def elim!: dvdE)
  note b = slot_offset_bounds [OF assms(3,4)]
  have "unat q + slot_offset i j \<le> unat p + k" "unat p + k < unat q + slot_offset i j + bsz i"
    using a by (auto simp: slot_bytes_def slot_unat [OF assms(2-4)])
  then have "4096 * d + 16 \<le> 4096 * c + k" "4096 * c + k < 4096 * d + 4096"
    using b c by auto
  then show False using assms(5) by (cases "c \<le> d") linarith+
qed

lemma header_unused:
  assumes rel: "heap_rel da st A P X" and p: "p \<in> set (concat P)"
  shows "unat p \<in> unused A P X" "unat (p + 8) \<in> unused A P X"
proof -
  note R = heap_relD [OF rel]
  from p obtain ps where "ps \<in> set P" "p \<in> set ps" by auto
  then obtain k where "k < 8" "p \<in> set (P ! k)" using R(3) by (metis in_set_conv_nth)
  then have pg: "page_ok p" using class_okD(3) [OF R(8)] by blast
  have "unat p \<notin> slot_bytes (i, x) \<and> unat (p + 8) \<notin> slot_bytes (i, x)" if b: "(i, x) \<in> live P X" for i x
  proof -
    from rel_slot [OF rel live_slot(1,2) [OF rel b]] obtain q j where
      "page_ok q" "j < slots i" "x = slot i q j" .
    then show ?thesis
      using slot_not_head [OF pg, of q i j 0] slot_not_head [OF pg, of q i j 8] live_slot(1) [OF rel b]
      by (simp add: unat_page_8 [OF pg])
  qed
  moreover have "{unat p, unat (p + 8)} \<subseteq> (\<Union>p \<in> set (concat P). page_bytes p)"
    using p page_start page_start_8 [OF pg] by blast
  ultimately show "unat p \<in> unused A P X" "unat (p + 8) \<in> unused A P X" by (auto simp: unused_def)
qed

lemma free_unused:
  assumes rel: "heap_rel da st A P X"
  shows "A \<subseteq> unused A P X"
  using live_slot(3) [OF rel] heap_relD(7) [OF rel] unfolding unused_def by fastforce

text \<open>A new arena only moves its page from the page allocator to the heap.\<close>

lemma live_new:
  assumes rel: "heap_rel da st A P X" and i: "i < 8" "X ! i = []" and p: "page_bytes p \<subseteq> A"
    "page_ok p"
  shows "live (P[i := p # P ! i]) (X[i := rev (map (slot i p) [0..<slots i])]) = live P X"
    "unused (A - page_bytes p) (P[i := p # P ! i]) (X[i := rev (map (slot i p) [0..<slots i])]) = unused A P X"
proof -
  note R = heap_relD [OF rel]
  have new: "p \<notin> set (concat P)" using R(7) [of p] p page_start [of p] by blast
  have "slot i q j \<noteq> slot i p n" if "q \<in> set (P ! i)" "j < slots i" "n < slots i" for q j n
    using slot_inj [OF _ p(2) i(1) that(2,3), of q] class_okD(3) [OF R(8) [OF i(1)] that(1)] new
      in_concat [of i P q] R(3) i(1) that(1) by auto
  then have "class_slots i (p # P ! i) - set (rev (map (slot i p) [0..<slots i])) = class_slots i (P ! i)"
    by (fastforce simp: class_slots_def)
  then have "class_slots k (P[i := p # P ! i] ! k) - set (X[i := rev (map (slot i p) [0..<slots i])] ! k) =
      class_slots k (P ! k) - set (X ! k)" if "k < 8" for k
    using R(3,4) i that by (cases "k = i") auto
  then show l: "live (P[i := p # P ! i]) (X[i := rev (map (slot i p) [0..<slots i])]) = live P X"
    unfolding live_def by blast
  have "set (concat (P[i := p # P ! i])) = insert p (set (concat P))"
    using distinct_concat_push(2) [OF R(6) _ new] R(3) i by simp
  then show "unused (A - page_bytes p) (P[i := p # P ! i]) (X[i := rev (map (slot i p) [0..<slots i])]) = unused A P X"
    unfolding unused_def l using p by auto
qed

subsection \<open>Allocation and deallocation of a block\<close>

lemma desc_alloc_pop:
  assumes rel: "heap_rel da st A P X" and i: "i < 8" and X: "X ! i = x # xs"
  shows "\<exists>st'. desc_alloc da i st = Some (x, st') \<and> heap_rel da st' A P (X[i := xs]) \<and>
    untouched (unused A P X) (km_mem st) (km_mem st')"
proof -
  note R = heap_relD [OF rel]
  let ?d = "descs (km_heap st) ! i" and ?m = "km_mem st"
  have sh: "block_size ?d = 2 ^ (i + 3)" using R(2) i by (simp add: shape_ok_def)
  define d' where "d' = ?d\<lparr>desc_allocated := desc_allocated ?d + block_size ?d,
      desc_free := desc_free ?d - block_size ?d, free_list := (free_list ?d)\<lparr>head := ?m x\<rparr>\<rparr>"
  obtain p j where p: "p \<in> set (P ! i)" "j < slots i" "x = slot i p j"
    and lp: "list_pop ?m (free_list ?d) = (Some x, (free_list ?d)\<lparr>head := ?m x\<rparr>)"
    and ok: "class_ok da (set_free_cnt p (arena_free_cnt ?m p - 1) ?m) i d' (P ! i) xs"
    using class_pop [OF R(8) [OF i, unfolded X] i sh] unfolding d'_def by blast
  define m' where "m' = set_free_cnt p (arena_free_cnt ?m p - 1) ?m"
  note D = class_okD [OF R(8) [OF i]]
  have pg: "page_ok p" "p \<in> set (concat P)" using D(3) p in_concat [of i P p] R(3) i by auto
  have sh1: "shape_ok (km_heap (put_desc i d' st))"
    by (rule shape_ok_put) (use R(2) in \<open>simp_all add: d'_def\<close>)
  have fb: "from_block da (put_desc i d' st) x = Some p"
    unfolding p(3) using from_block_slot [OF R(1) sh1 i pg(1) p(2), of "free_in p (X ! i)"] D(4) [OF p(1)] by simp
  have ne: "\<not> list_is_empty (free_list ?d)" using D(1) X by (simp add: list_is_empty_def)
  have "desc_alloc da i st = Some (x, put_desc i d' (st\<lparr>km_mem := m'\<rparr>))"
    using lp ne fb R(2) i
    by (simp add: desc_alloc_def get_desc_shape Let_def m'_def d'_def)
  moreover have "heap_rel da (put_desc i d' (st\<lparr>km_mem := m'\<rparr>)) A P (X[i := xs])"
    using heap_rel_update [OF rel i ok [folded m'_def] _ _ _ p(1)]
    by (simp add: m'_def d'_def set_free_cnt_def untouched_upd page_start)
  moreover have "untouched (unused A P X) ?m m'"
    unfolding m'_def set_free_cnt_def
    by (intro untouched_upd header_unused [OF rel pg(2)] untouched_refl)
  ultimately show ?thesis by auto
qed

lemma desc_alloc_fresh:
  assumes rel: "heap_rel da st A P X" and i: "i < 8" and Nil: "X ! i = []" and A: "A \<noteq> {}"
  shows "\<exists>p x xs st1 st'. page_ok p \<and> page_bytes p \<subseteq> A \<and> rev (map (slot i p) [0..<slots i]) = x # xs \<and>
    heap_rel da st1 (A - page_bytes p) (P[i := p # P ! i]) (X[i := x # xs]) \<and> desc_alloc da i st = Some (x, st') \<and>
    heap_rel da st' (A - page_bytes p) (P[i := p # P ! i]) (X[i := xs]) \<and> untouched (unused A P X) (km_mem st) (km_mem st')"
proof -
  note R = heap_relD [OF rel]
  from new_arena_ok [OF rel i Nil A] obtain st1 p where
    n: "new_arena da i st = Some st1" and p: "page_ok p" "page_bytes p \<subseteq> A"
    and rel1: "heap_rel da st1 (A - page_bytes p) (P[i := p # P ! i])
      (X[i := rev (map (slot i p) [0..<slots i])])"
    and un1: "untouched A (km_mem st) (km_mem st1)" by blast
  have "rev (map (slot i p) [0..<slots i]) \<noteq> []" using slots_bounds(1) [OF i] by simp
  then obtain x xs where X1: "rev (map (slot i p) [0..<slots i]) = x # xs" by (cases "rev (map (slot i p) [0..<slots i])") auto
  note l = live_new [OF rel i Nil p(2,1), unfolded X1] and rel1 = rel1 [unfolded X1]
  have Xi: "X[i := x # xs] ! i = x # xs" using R(4) i by simp
  from desc_alloc_pop [OF rel1 i Xi] obtain st' where a: "desc_alloc da i st1 = Some (x, st')"
    and rel': "heap_rel da st' (A - page_bytes p) (P[i := p # P ! i]) (X[i := xs])"
    and un2: "untouched (unused A P X) (km_mem st1) (km_mem st')" unfolding l list_update_overwrite by blast
  have "desc_alloc da i st = desc_alloc da i st1"
  proof -
    have "list_is_empty (free_list (descs (km_heap st) ! i))"
      using class_okD(1) [OF R(8) [OF i]] Nil by (simp add: list_is_empty_def)
    moreover have "\<not> list_is_empty (free_list (descs (km_heap st1) ! i))"
      using class_okD(1) [OF heap_relD(8) [OF rel1 i]] Xi by (auto simp: list_is_empty_def)
    ultimately show ?thesis
      using n R(2) heap_relD(2) [OF rel1] i by (simp add: desc_alloc_def get_desc_shape)
  qed
  moreover have "untouched (unused A P X) (km_mem st) (km_mem st')"
    using untouched_trans [OF untouched_mono [OF un1 free_unused [OF rel]] un2] .
  ultimately show ?thesis using a p X1 rel1 rel' by metis
qed

lemma desc_alloc_ok:
  assumes rel: "heap_rel da st A P X" and i: "i < 8" and more: "X ! i \<noteq> [] \<or> A \<noteq> {}"
  shows "\<exists>x st' A' P' X'. desc_alloc da i st = Some (x, st') \<and> heap_rel da st' A' P' X' \<and>
    live P' X' = insert (i, x) (live P X) \<and> (i, x) \<notin> live P X \<and>
    slot_bytes (i, x) \<subseteq> unused A P X \<and> unused A' P' X' = unused A P X - slot_bytes (i, x) \<and>
    untouched (unused A P X) (km_mem st) (km_mem st')"
proof (cases "X ! i")
  case (Cons x xs)
  from desc_alloc_pop [OF rel i Cons] obtain st' where "desc_alloc da i st = Some (x, st')"
    "heap_rel da st' A P (X[i := xs])" "untouched (unused A P X) (km_mem st) (km_mem st')" by blast
  then show ?thesis using live_take [OF rel i Cons] by blast
next
  case Nil
  note R = heap_relD [OF rel]
  from desc_alloc_fresh [OF rel i Nil] more Nil obtain p x xs st1 st' where
    p: "page_ok p" "page_bytes p \<subseteq> A" and X1: "rev (map (slot i p) [0..<slots i]) = x # xs"
    and rel1: "heap_rel da st1 (A - page_bytes p) (P[i := p # P ! i]) (X[i := x # xs])"
    and a: "desc_alloc da i st = Some (x, st')" "heap_rel da st' (A - page_bytes p) (P[i := p # P ! i]) (X[i := xs])"
    "untouched (unused A P X) (km_mem st) (km_mem st')" by blast
  have Xi: "X[i := x # xs] ! i = x # xs" using R(4) i by simp
  note l = live_new [OF rel i Nil p(2,1), unfolded X1]
  show ?thesis using a live_take [OF rel1 i Xi, unfolded l] by (auto simp: list_update_overwrite)
qed

lemma desc_dealloc_ok:
  assumes rel: "heap_rel da st A P X" and x: "(i, x) \<in> live P X"
  shows "\<exists>st' X'. desc_dealloc da i x st = Some st' \<and> heap_rel da st' A P X' \<and>
    live P X' = live P X - {(i, x)} \<and> unused A P X' = unused A P X \<union> slot_bytes (i, x) \<and>
    untouched (unused A P X \<union> slot_bytes (i, x)) (km_mem st) (km_mem st')"
proof -
  note R = heap_relD [OF rel] and L = live_slot [OF rel x]
  note i = L(1)
  let ?d = "descs (km_heap st) ! i" and ?m = "km_mem st"
  note D = class_okD [OF R(8) [OF i]]
  have sh: "block_size ?d = 2 ^ (i + 3)" using R(2) i by (simp add: shape_ok_def)
  have nx: "x \<notin> set (X ! i)" using x by (simp add: live_def)
  from rel_slot [OF rel L(1,2)] obtain p j where
    p: "p \<in> set (P ! i)" "p \<in> set (concat P)" "page_ok p" "j < slots i" "x = slot i p j" .
  define m1 where "m1 = ?m(x := head (free_list ?d))"
  define m' where "m' = set_free_cnt p (arena_free_cnt m1 p + 1) m1"
  define d' where "d' = ?d\<lparr>free_list := (free_list ?d)\<lparr>head := x\<rparr>,
      desc_allocated := desc_allocated ?d - block_size ?d, desc_free := desc_free ?d + block_size ?d\<rparr>"
  have ok: "class_ok da m' i d' (P ! i) (x # X ! i)" and h1: "header_ok da m1 i p (free_in p (X ! i))"
    using class_push [OF R(8) [OF i] i sh p(1,4)] nx p(5) by (auto simp: m'_def m1_def d'_def)
  have sh1: "shape_ok (km_heap (put_desc i d' (st\<lparr>km_mem := m1\<rparr>)))"
    by (rule shape_ok_put) (use R(2) in \<open>simp_all add: d'_def\<close>)
  have fb: "from_block da (put_desc i d' (st\<lparr>km_mem := m1\<rparr>)) x = Some p"
    unfolding p(5) by (rule from_block_slot [OF R(1) sh1 i p(3,4)]) (use h1 in simp)
  have "desc_dealloc da i x st = Some (put_desc i d' (st\<lparr>km_mem := m'\<rparr>))"
    using fb R(2) i
    by (simp add: desc_dealloc_def desc_push_def list_push_def get_desc_shape get_put_desc Let_def
        d'_def m'_def m1_def)
  moreover have xp: "unat x \<in> page_bytes p" "unat x \<in> slot_bytes (i, x)"
    using slot_facts(6) [OF p(3) i p(4)] slots_bounds(7) [OF i] p(5) by (auto simp: slot_bytes_def)
  have "heap_rel da (put_desc i d' (st\<lparr>km_mem := m'\<rparr>)) A P (X[i := x # X ! i])"
    using heap_rel_update [OF rel i ok _ _ _ p(1)] xp
    by (simp add: m'_def m1_def d'_def set_free_cnt_def untouched_upd page_start)
  moreover have "untouched (unused A P X \<union> slot_bytes (i, x)) ?m m'"
    using xp header_unused [OF rel p(2)]
    by (auto simp: m'_def m1_def set_free_cnt_def intro!: untouched_upd)
  ultimately show ?thesis using live_give [OF rel x] by auto
qed

section \<open>Requests\<close>

definition layout_ok :: "layout \<Rightarrow> bool" where
  "layout_ok l \<longleftrightarrow> 0 < l_size l \<and> unat (l_size l) \<le> 2 ^ 63 \<and> is_power_of_two (l_align l) \<and> l_align l \<le> PG_SIZE"

definition small :: "layout \<Rightarrow> bool" where
  "small l \<longleftrightarrow> block_request l \<le> MAX_BLKSIZE"

abbreviation class_of :: "layout \<Rightarrow> nat" where
  "class_of l \<equiv> desc_index (block_request l)"

text \<open>The bytes a request gets: a block of a descriptor, or whole pages.\<close>

definition heap_region :: "layout \<Rightarrow> usize \<Rightarrow> nat set" where
  "heap_region l p = (if small l then slot_bytes (class_of l, p) else buddy_region (pages_of l) p)"

lemma next_power_of_two_exp:
  assumes "0 < unat n" "unat n \<le> 2 ^ 63"
  shows "\<exists>k \<le> 63. next_power_of_two n = 2 ^ k \<and> unat n \<le> 2 ^ k"
proof (cases "n \<le> 1")
  case True
  then have "unat n \<le> 1" by (simp add: word_le_nat_alt)
  then show ?thesis using True by (intro exI [of _ 0]) (simp add: next_power_of_two_def)
next
  case False
  then have n: "1 < unat n" by (simp add: word_le_nat_alt)
  have u: "unat (n - 1) = unat n - 1" using n by (subst unat_diff_no_wrap) auto
  have "unat n - 1 < 2 ^ 63" using assms n by linarith
  then have "bit_len (unat n - 1) \<le> 63" by (simp only: bit_len_le_iff)
  moreover have "unat n - 1 < 2 ^ bit_len (unat n - 1)" by (rule bit_len_less)
  ultimately show ?thesis
    using False n by (intro exI [of _ "bit_len (unat n - 1)"]) (auto simp: next_power_of_two_def u)
qed

lemma exp_le_iff: "j < 64 \<Longrightarrow> k < 64 \<Longrightarrow> (2 ^ j :: usize) \<le> 2 ^ k \<longleftrightarrow> j \<le> k"
  by (simp add: word_le_nat_alt unat_exp)

lemma block_request_exp:
  assumes "layout_ok l"
  obtains e a where "e \<le> 63" "a \<le> e" "a \<le> 12" "block_request l = 2 ^ e" "unat (l_size l) \<le> 2 ^ e" "l_align l = 2 ^ a"
proof -
  have "0 < unat (l_size l)" using assms by (simp add: layout_ok_def word_less_nat_alt)
  from next_power_of_two_exp [OF this] assms obtain k where k: "k \<le> 63" "next_power_of_two (l_size l) = 2 ^ k"
    "unat (l_size l) \<le> 2 ^ k" by (auto simp: layout_ok_def)
  obtain a where a: "a < 64" "l_align l = 2 ^ a" using assms by (auto simp: layout_ok_def is_power_of_two_iff)
  have "(2 ^ a :: usize) \<le> 2 ^ 12" using assms a by (simp add: layout_ok_def)
  then have a12: "a \<le> 12" using exp_le_iff [of a 12] a(1) by simp
  have "block_request l = 2 ^ max k a"
    using exp_le_iff [of k a] exp_le_iff [of a k] k a by (auto simp: block_request_def max_def)
  moreover have "unat (l_size l) \<le> 2 ^ max k a"
    using k(3) power_increasing [of k "max k a" "2::nat"] by (simp add: le_trans)
  ultimately show ?thesis using that [of "max k a" a] k a a12 by simp
qed

lemma small_request:
  assumes "layout_ok l" "small l"
  shows "class_of l < 8" "unat (l_size l) \<le> bsz (class_of l)" "unat (l_align l) dvd bsz (class_of l)"
proof -
  from block_request_exp [OF assms(1)] obtain e a where
    e: "e \<le> 63" "a \<le> e" "block_request l = 2 ^ e" "unat (l_size l) \<le> 2 ^ e" "l_align l = 2 ^ a" .
  have "(2 ^ e :: usize) \<le> 2 ^ 10" using assms(2) e(3) by (simp add: small_def MAX_BLKSIZE_def)
  then have e10: "e \<le> 10" using exp_le_iff [of e 10] e(1) by simp
  have c: "class_of l = e - 3" using e(1,3) by (simp add: desc_index_def)
  then show "class_of l < 8" using e10 by simp
  have "(2::nat) ^ e \<le> bsz (class_of l)" unfolding bsz_def c by (rule power_increasing) auto
  then show "unat (l_size l) \<le> bsz (class_of l)" using e(4) by simp
  show "unat (l_align l) dvd bsz (class_of l)"
    unfolding bsz_def c e(5) using e(2) e10 by (subst unat_exp) (auto intro: le_imp_power_dvd)
qed

lemma spilled_request:
  assumes "layout_ok l" "buddy_region_ok (pages_of l) p"
  shows "{unat p..<unat p + unat (l_size l)} \<subseteq> buddy_region (pages_of l) p" "unat (l_align l) dvd unat p"
    "p mod PG_SIZE = 0" "p \<noteq> 0" "page_ok p"
proof -
  from block_request_exp [OF assms(1)] obtain e a where a: "a \<le> 12" "l_align l = 2 ^ a" .
  have sz: "0 < unat (l_size l)" "unat (l_size l) \<le> 2 ^ 63"
    using assms(1) by (auto simp: layout_ok_def word_less_nat_alt)
  have "unat (l_size l + PG_SIZE) = unat (l_size l) + 4096"
    using sz by (subst unat_add_no_wrap) auto
  then have u: "unat (l_size l + PG_SIZE - 1) = unat (l_size l) + 4095"
    by (subst unat_diff_no_wrap) auto
  have pg: "unat (pages_of l) = (unat (l_size l) + 4095) div 4096"
    using u by (simp add: pages_of_def unat_div)
  let ?o = "order_of (pages_of l)"
  have ok: "?o \<le> 8" "p \<noteq> 0" "2 ^ (?o + 12) dvd unat p"
    using assms(2) by (auto simp: buddy_region_ok_def block_ok_def MAX_ORDER_def PG_SHIFT_def)
  have "unat (pages_of l) \<le> 2 ^ 63" using sz pg by simp
  then have "unat (pages_of l) \<le> 2 ^ ?o" using order_of_le_iff [of "pages_of l" ?o] ok(1) by simp
  then have "unat (pages_of l) * 4096 \<le> 2 ^ ?o * 4096" by simp
  moreover have "unat (l_size l) \<le> unat (pages_of l) * 4096" unfolding pg by linarith
  ultimately have "unat (l_size l) \<le> 2 ^ (?o + 12)" by (simp add: power_add)
  then show "{unat p..<unat p + unat (l_size l)} \<subseteq> buddy_region (pages_of l) p"
    by (auto simp: buddy_region_def block_bytes_def PG_SHIFT_def)
  have d: "(2::nat) ^ 12 dvd unat p" using ok(3) le_imp_power_dvd [of 12 "?o + 12" "2::nat"] dvd_trans by auto
  then show "unat (l_align l) dvd unat p"
    using a le_imp_power_dvd [of a 12 "2::nat"] dvd_trans by (auto simp: unat_exp)
  show "p mod PG_SIZE = 0" using d by (simp add: word_unat_eq_iff unat_mod_distrib)
  show "p \<noteq> 0" "page_ok p" using ok d by (simp_all add: page_ok_def)
qed

text \<open>Whole pages that avoid the unused bytes avoid the arenas, whose headers are unused bytes.\<close>

lemma region_not_arena:
  assumes rel: "heap_rel da st A P X" and ok: "buddy_region_ok n p"
    and dis: "buddy_region n p \<inter> unused A P X = {}" and q: "q \<in> set (concat P)"
  shows "page_bytes q \<inter> buddy_region n p = {}"
proof (rule ccontr)
  assume "page_bytes q \<inter> buddy_region n p \<noteq> {}"
  then obtain b where "b \<in> page_bytes q" "b \<in> buddy_region n p" by blast
  then have b: "unat q \<le> b" "b < unat q + 4096" "unat p \<le> b" "b < unat p + 2 ^ (order_of n + 12)"
    by (simp_all add: page_bytes_def buddy_region_def block_bytes_def PG_SHIFT_def)
  have "(2::nat) ^ 12 dvd 2 ^ (order_of n + 12)" by (rule le_imp_power_dvd) simp
  moreover have "2 ^ (order_of n + 12) dvd unat p"
    using ok by (simp add: buddy_region_ok_def block_ok_def PG_SHIFT_def)
  ultimately obtain c w where c: "unat p = 4096 * c" "2 ^ (order_of n + 12) = 4096 * (w::nat)"
    by (auto elim!: dvdE)
  obtain ps where "ps \<in> set P" "q \<in> set ps" using q by auto
  then obtain k where "k < 8" "q \<in> set (P ! k)" using heap_relD(3) [OF rel] by (metis in_set_conv_nth)
  then have "page_ok q" using class_okD(3) [OF heap_relD(8) [OF rel]] by blast
  then obtain d where d: "unat q = 4096 * d" by (auto simp: page_ok_def elim: dvdE)
  have "4096 * c < 4096 * Suc d" "4096 * d < 4096 * (c + w)" using b c d by (simp_all add: algebra_simps)
  then have "c \<le> d" "d < c + w" by simp_all
  then have "unat p \<le> unat q" "unat q < unat p + 2 ^ (order_of n + 12)" using c d by simp_all
  then have "unat q \<in> buddy_region n p" by (simp add: buddy_region_def block_bytes_def PG_SHIFT_def)
  then show False using header_unused [OF rel q] dis by blast
qed

section \<open>Allocation and deallocation\<close>

text \<open>The pages of the page allocator leave or join the unused bytes; the arenas stay.\<close>

lemma heap_rel_pages:
  assumes rel: "heap_rel da st A P X" and b: "buddy_free (m', b') A'" and un: "untouched Y (km_mem st) m'"
    and dis: "\<forall>q \<in> set (concat P). page_bytes q \<inter> Y = {} \<and> page_bytes q \<inter> A' = {}"
    and h: "descs h = descs (km_heap st)"
  shows "heap_rel da (st\<lparr>km_heap := h, km_mem := m', km_palloc := b'\<rparr>) A' P X"
proof -
  note R = heap_relD [OF rel]
  have "class_ok da m' i (descs h ! i) (P ! i) (X ! i)" if i: "i < 8" for i
  proof -
    have "i < length P" using R(3) i by simp
    then have "\<forall>p\<in>set (P ! i). page_bytes p \<inter> Y = {}" using dis in_concat by metis
    then show ?thesis using class_ok_frame [OF R(8) [OF i] i un] h by simp
  qed
  then show ?thesis using R b dis h by (auto simp: heap_rel_def shape_ok_def)
qed

lemma unused_pages:
  assumes "heap_rel da st A P X" "heap_rel da st' A' P X"
  shows "A' = A - Y \<Longrightarrow> Y \<subseteq> A \<Longrightarrow> unused A' P X = unused A P X - Y"
    and "A' = Y \<union> A \<Longrightarrow> unused A' P X = unused A P X \<union> Y"
proof -
  let ?L = "\<Union>b \<in> live P X. slot_bytes b" and ?p = "\<Union>p \<in> set (concat P). page_bytes p"
  have L: "?L \<subseteq> ?p" using live_slot(3) [OF assms(1)] by fast
  have A: "?p \<inter> A = {}" "?p \<inter> A' = {}" using heap_relD(7) [OF assms(1)] heap_relD(7) [OF assms(2)] by blast+
  show "unused A' P X = unused A P X - Y" if "A' = A - Y" "Y \<subseteq> A"
    unfolding unused_def that(1) using that(2) A L by blast
  show "unused A' P X = unused A P X \<union> Y" if "A' = Y \<union> A"
    unfolding unused_def that(1) using A(2) L that by blast
qed

lemma heap_alloc_small:
  assumes rel: "heap_rel da st A P X" and l: "layout_ok l" "small l" and more: "X ! class_of l \<noteq> [] \<or> A \<noteq> {}"
  shows "\<exists>p st' A' P' X'. heap_alloc da l st = Some (p, st') \<and> heap_rel da st' A' P' X' \<and>
    live P' X' = insert (class_of l, p) (live P X) \<and> heap_region l p \<subseteq> unused A P X \<and>
    unused A' P' X' = unused A P X - heap_region l p \<and>
    untouched (unused A P X) (km_mem st) (km_mem st')"
proof -
  have "heap_alloc da l st = desc_alloc da (class_of l) st"
    using l by (auto simp: heap_alloc_def layout_ok_def small_def)
  moreover have "heap_region l p = slot_bytes (class_of l, p)" for p using l(2) by (simp add: heap_region_def)
  ultimately show ?thesis
    using desc_alloc_ok [OF rel small_request(1) [OF l] more] by (simp only:) blast
qed

lemma heap_alloc_spilled:
  assumes rel: "heap_rel da st A P X" and l: "layout_ok l" "\<not> small l"
    and a: "heap_alloc da l st = Some (p, st')"
  shows "heap_rel da st' (A - heap_region l p) P X \<and> heap_region l p \<subseteq> A \<and> buddy_region_ok (pages_of l) p \<and>
    unused (A - heap_region l p) P X = unused A P X - heap_region l p \<and>
    untouched A (km_mem st) (km_mem st')"
proof -
  note R = heap_relD [OF rel]
  let ?n = "pages_of l"
  define h where "h = (km_heap st)\<lparr>spilled_alloc := spilled_alloc (km_heap st) + block_request l,
    spilled_total := spilled_total (km_heap st) + ?n\<rparr>"
  have "heap_alloc da l st = palloc_alloc ?n (st\<lparr>km_heap := h\<rparr>)"
    using l by (auto simp: heap_alloc_def layout_ok_def small_def h_def Let_def)
  then obtain m' b' where b: "buddy_alloc ?n (km_mem st, km_palloc st) = Some (p, m', b')"
    and st': "st' = st\<lparr>km_heap := h, km_mem := m', km_palloc := b'\<rparr>"
    unfolding a by (auto simp: palloc_alloc_def bind_eq_Some_conv eq_commute [of "Some (p, st')"])
  let ?r = "buddy_region ?n p"
  have reg: "heap_region l p = ?r" using l by (simp add: heap_region_def)
  from palloc_pages.alloc_law [OF R(5) b] have ok: "buddy_region_ok ?n p" and sub: "?r \<subseteq> A"
    and b': "buddy_free (m', b') (A - ?r)" by auto
  have un: "untouched A (km_mem st) m'" by (rule palloc.alloc_untouched [OF R(5) b])
  have rel': "heap_rel da st' (A - ?r) P X"
    unfolding st' by (rule heap_rel_pages [OF rel b' un]) (use R(7) in \<open>fast, simp add: h_def\<close>)
  show ?thesis
    using rel' sub ok unused_pages(1) [OF rel rel' refl sub] un by (simp add: reg st')
qed

definition heap_owns :: "layout \<Rightarrow> usize \<Rightarrow> nat set \<Rightarrow> usize list list \<Rightarrow> usize list list \<Rightarrow> bool" where
  "heap_owns l p A P X \<longleftrightarrow>
     (if small l then (class_of l, p) \<in> live P X
      else buddy_region_ok (pages_of l) p \<and> buddy_region (pages_of l) p \<inter> unused A P X = {})"

lemma heap_dealloc_ok:
  assumes rel: "heap_rel da st A P X" and l: "layout_ok l" and own: "heap_owns l p A P X"
  shows "\<exists>st' A' X'. heap_dealloc da p l st = Some st' \<and> heap_rel da st' A' P X' \<and>
    live P X' = (if small l then live P X - {(class_of l, p)} else live P X) \<and>
    unused A' P X' = unused A P X \<union> heap_region l p \<and>
    untouched (unused A P X \<union> heap_region l p) (km_mem st) (km_mem st')"
proof (cases "small l")
  case True
  then have b: "(class_of l, p) \<in> live P X" using own by (simp add: heap_owns_def)
  note i = small_request(1) [OF l True]
  from rel_slot [OF rel i live_slot(2) [OF rel b]] obtain q j where
    "page_ok q" "j < slots (class_of l)" "p = slot (class_of l) q j" .
  then have "p \<noteq> 0" using slot_facts(3) [OF _ i] by simp
  then have "heap_dealloc da p l st = desc_dealloc da (class_of l) p st"
    using True by (simp add: heap_dealloc_def small_def)
  then show ?thesis using desc_dealloc_ok [OF rel b] True by (auto simp: heap_region_def)
next
  case False
  note R = heap_relD [OF rel]
  let ?n = "pages_of l"
  let ?r = "buddy_region ?n p"
  have ok: "buddy_region_ok ?n p" and dis: "?r \<inter> unused A P X = {}"
    using own False by (auto simp: heap_owns_def)
  have reg: "heap_region l p = ?r" using False by (simp add: heap_region_def)
  have rA: "?r \<inter> A = {}" using dis free_unused [OF rel] by blast
  define h where "h = (km_heap st)\<lparr>spilled_alloc := spilled_alloc (km_heap st) - block_request l,
    spilled_total := spilled_total (km_heap st) - ?n\<rparr>"
  from palloc_pages.dealloc_law [OF R(5) ok rA] obtain m' b' where
    d: "buddy_dealloc p ?n (km_mem st, km_palloc st) = Some (m', b')"
    and b': "buddy_free (m', b') (?r \<union> A)" by auto
  have un: "untouched (?r \<union> A) (km_mem st) m'" by (rule palloc.dealloc_untouched [OF R(5) ok rA d])
  define st' where "st' = st\<lparr>km_heap := h, km_mem := m', km_palloc := b'\<rparr>"
  have "heap_dealloc da p l st = Some st'"
    using d False spilled_request(3,4) [OF l ok]
    by (simp add: heap_dealloc_def small_def palloc_dealloc_def h_def Let_def st'_def)
  moreover have "\<forall>q \<in> set (concat P). page_bytes q \<inter> (?r \<union> A) = {}"
    using region_not_arena [OF rel ok dis] R(7) by blast
  then have rel': "heap_rel da st' (?r \<union> A) P X"
    unfolding st'_def using heap_rel_pages [OF rel b' un] by (simp add: h_def)
  moreover have "untouched (unused A P X \<union> ?r) (km_mem st) (km_mem st')"
    using untouched_mono [OF un] free_unused [OF rel] by (auto simp: st'_def)
  ultimately show ?thesis
    using unused_pages(2) [OF rel rel' refl] False
    by (intro exI [of _ st'] exI [of _ "?r \<union> A"] exI [of _ X]) (simp add: reg)
qed

text \<open>A client that leaves the unused bytes alone keeps the heap intact.\<close>

lemma slot_start_unused:
  assumes rel: "heap_rel da st A P X" and i: "i < 8" "x \<in> set (X ! i)"
  shows "unat x \<in> unused A P X"
proof -
  obtain as bs where "X ! i = as @ x # bs" using i(2) split_list by metis
  note R = heap_relD [OF rel]
  have x: "x \<in> class_slots i (P ! i)" using class_okD(2) [OF R(8) [OF i(1)]] i(2) by blast
  have "(i, x) \<notin> live P X" using i by (simp add: live_def)
  then have "slot_bytes (i, x) \<inter> slot_bytes (k, y) = {}" if b: "(k, y) \<in> live P X" for k y
    using rel_slots_disjoint [OF rel i(1) x live_slot(1,2) [OF rel b]] b by blast
  moreover have st: "unat x \<in> slot_bytes (i, x)"
    using slots_bounds(7) [OF i(1)] by (simp add: slot_bytes_def)
  moreover from rel_slot [OF rel i(1) x] obtain p j where
    p: "p \<in> set (concat P)" "page_ok p" "j < slots i" "x = slot i p j" .
  then have "slot_bytes (i, x) \<subseteq> page_bytes p" using slot_facts(6) [OF p(2) i(1) p(3)] by (simp add: slot_bytes_def)
  ultimately show ?thesis unfolding unused_def using p(1) by fast
qed

lemma heap_rel_client:
  assumes rel: "heap_rel da st A P X" and un: "untouched Y (km_mem st) m'" and dis: "Y \<inter> unused A P X = {}"
  shows "heap_rel da (st\<lparr>km_mem := m'\<rparr>) A P X"
proof -
  note R = heap_relD [OF rel]
  have same: "m' a = km_mem st a" if "unat a \<in> unused A P X" for a
    using untouchedD [OF un] that dis by blast
  have "class_ok da m' i (descs (km_heap st) ! i) (P ! i) (X ! i)" if i: "i < 8" for i
  proof (rule class_ok_cong [OF R(8) [OF i]])
    show "\<forall>a\<in>set (X ! i). m' a = km_mem st a" using same slot_start_unused [OF rel i] by blast
    show "\<forall>p\<in>set (P ! i). m' p = km_mem st p \<and> m' (p + 8) = km_mem st (p + 8)"
      using same header_unused [OF rel] in_concat [of i P] R(3) i by auto
  qed
  moreover have "buddy_free (m', km_palloc st) A"
    using palloc.inv_untouched [OF R(5) un] dis free_unused [OF rel] by blast
  ultimately show ?thesis using R by (simp add: heap_rel_def)
qed

lemma desc_alloc_exhausted:
  assumes rel: "heap_rel da st {} P X" and i: "i < 8" "X ! i = []"
  shows "desc_alloc da i st = None"
proof -
  note R = heap_relD [OF rel]
  have "buddy_alloc 1 (km_mem st, km_palloc st) = None"
  proof (rule ccontr)
    assume "buddy_alloc 1 (km_mem st, km_palloc st) \<noteq> None"
    then obtain p s' where "buddy_alloc 1 (km_mem st, km_palloc st) = Some (p, s')" by auto
    from palloc_pages.alloc_law [OF R(5) this] show False
      using page_start [of p] by (auto simp: buddy_region_def block_bytes_def order_of_1)
  qed
  moreover have "list_is_empty (free_list (descs (km_heap st) ! i))"
    using class_okD(1) [OF R(8) [OF i(1)]] i(2) by (simp add: list_is_empty_def)
  ultimately show ?thesis
    using R(2) i(1) by (simp add: desc_alloc_def new_arena_def palloc_alloc_def get_desc_shape)
qed

lemma live_aligned:
  assumes "heap_rel da st A P X" "(i, x) \<in> live P X"
  shows "bsz i dvd unat x"
proof -
  note i = live_slot(1) [OF assms]
  from rel_slot [OF assms(1) live_slot(1,2) [OF assms]] obtain p j where
    "page_ok p" "j < slots i" "x = slot i p j" .
  from slot_facts(2) [OF this(1) i this(2)] this(3) have "unat (x mod 2 ^ (i + 3)) = 0" by simp
  moreover have "unat (2 ^ (i + 3) :: usize) = bsz i" using i by (simp add: bsz_def unat_exp)
  ultimately show ?thesis by (simp add: unat_mod_distrib mod_eq_0_iff_dvd)
qed

text \<open>The result of an allocation, for both kinds of requests.\<close>

definition allocated_at :: "layout \<Rightarrow> usize \<Rightarrow> bool" where
  "allocated_at l p \<longleftrightarrow> {unat p..<unat p + unat (l_size l)} \<subseteq> heap_region l p \<and> unat (l_align l) dvd unat p"

lemma heap_alloc_ok:
  assumes rel: "heap_rel da st A P X" and l: "layout_ok l" and a: "heap_alloc da l st = Some (p, st')"
  shows "\<exists>A' P' X'. heap_rel da st' A' P' X' \<and> heap_owns l p A' P' X' \<and> allocated_at l p \<and>
    heap_region l p \<subseteq> unused A P X \<and> unused A' P' X' = unused A P X - heap_region l p \<and>
    live P X = (if small l then live P' X' - {(class_of l, p)} else live P' X') \<and>
    untouched (unused A P X) (km_mem st) (km_mem st')"
proof (cases "small l")
  case True
  note s = small_request [OF l True]
  have alloc: "heap_alloc da l st = desc_alloc da (class_of l) st"
    using l True by (auto simp: heap_alloc_def layout_ok_def small_def)
  have more: "X ! class_of l \<noteq> [] \<or> A \<noteq> {}"
    using desc_alloc_exhausted [OF _ s(1)] rel a alloc by auto
  have reg: "heap_region l p = slot_bytes (class_of l, p)" using True by (simp add: heap_region_def)
  from desc_alloc_ok [OF rel s(1) more] a alloc obtain A' P' X' where
    rel': "heap_rel da st' A' P' X'" and L: "live P' X' = insert (class_of l, p) (live P X)"
    and nl: "(class_of l, p) \<notin> live P X"
    and u: "slot_bytes (class_of l, p) \<subseteq> unused A P X"
      "unused A' P' X' = unused A P X - slot_bytes (class_of l, p)"
      "untouched (unused A P X) (km_mem st) (km_mem st')" by auto
  have "(class_of l, p) \<in> live P' X'" using L by simp
  from live_aligned [OF rel' this] have "unat (l_align l) dvd unat p" using s(3) dvd_trans by blast
  then have "allocated_at l p" using s(2) by (auto simp: allocated_at_def reg slot_bytes_def)
  then show ?thesis
    using rel' L nl u True by (intro exI [of _ A'] exI [of _ P'] exI [of _ X']) (simp add: heap_owns_def reg)
next
  case False
  define A' where "A' = A - heap_region l p"
  have h: "heap_rel da st' A' P X" "heap_region l p \<subseteq> unused A P X" "buddy_region_ok (pages_of l) p"
      "unused A' P X = unused A P X - heap_region l p" "untouched (unused A P X) (km_mem st) (km_mem st')"
    using heap_alloc_spilled [OF rel l False a] free_unused [OF rel] untouched_mono unfolding A'_def by blast+
  have "allocated_at l p" using spilled_request(1,2) [OF l h(3)] False by (simp add: allocated_at_def heap_region_def)
  moreover have "heap_owns l p A' P X" using h(3,4) False by (auto simp: heap_owns_def heap_region_def)
  ultimately show ?thesis using h False by (intro exI [of _ A'] exI [of _ P] exI [of _ X]) simp
qed

lemma heap_owns_client:
  "heap_owns l p A P X \<Longrightarrow> heap_region l p \<inter> unused A P X = {}"
  by (auto simp: heap_owns_def heap_region_def unused_def split: if_splits)

section \<open>Single pages\<close>

text \<open>
  What the page tables rely on: a source of zeroable pages. \<open>inv s U A\<close> says that the source
  owns the bytes \<open>U\<close>, of which the bytes \<open>A\<close> are left as pages.
\<close>

locale page_source =
  fixes take :: "'s \<Rightarrow> (usize \<times> 's) option" and mem :: "'s \<Rightarrow> memory" and put :: "memory \<Rightarrow> 's \<Rightarrow> 's"
    and inv :: "'s \<Rightarrow> nat set \<Rightarrow> nat set \<Rightarrow> bool"
  assumes pages_owned: "inv s U A \<Longrightarrow> A \<subseteq> U \<and> finite A"
    and take_law: "inv s U A \<Longrightarrow> A \<noteq> {} \<Longrightarrow> \<exists>p s'. take s = Some (p, s') \<and> page_ok p \<and> page_bytes p \<subseteq> A \<and>
      inv s' (U - page_bytes p) (A - page_bytes p) \<and> untouched A (mem s) (mem s')"
    and write_law: "inv s U A \<Longrightarrow> untouched Y (mem s) m \<Longrightarrow> Y \<inter> U = {} \<Longrightarrow> inv (put m s) U A"
    and mem_put: "mem (put m s) = m"
begin

text \<open>A page that is taken and then overwritten by its owner.\<close>

lemma take_write:
  assumes "inv s U A" "A \<noteq> {}"
  shows "\<exists>p s'. take s = Some (p, s') \<and> page_ok p \<and> page_bytes p \<subseteq> A \<and>
    (\<forall>m Y. untouched Y (mem s') m \<longrightarrow> Y \<inter> U \<subseteq> page_bytes p \<longrightarrow>
      inv (put m s') (U - page_bytes p) (A - page_bytes p) \<and>
      untouched (A \<union> Y) (mem s) (mem (put m s')))"
proof -
  from take_law [OF assms] obtain p s' where t: "take s = Some (p, s')" "page_ok p" "page_bytes p \<subseteq> A"
    and i: "inv s' (U - page_bytes p) (A - page_bytes p)" and un: "untouched A (mem s) (mem s')" by blast
  have "inv (put m s') (U - page_bytes p) (A - page_bytes p) \<and> untouched (A \<union> Y) (mem s) (mem (put m s'))"
    if u: "untouched Y (mem s') m" and Y: "Y \<inter> U \<subseteq> page_bytes p" for m Y
  proof
    show "inv (put m s') (U - page_bytes p) (A - page_bytes p)"
      using write_law [OF i u] Y by blast
    show "untouched (A \<union> Y) (mem s) (mem (put m s'))"
      unfolding mem_put
      by (rule untouched_trans [OF untouched_mono [OF un Un_upper1] untouched_mono [OF u Un_upper2]])
  qed
  then show ?thesis using t by blast
qed

lemma card_after_take:
  assumes "inv s U A" "page_ok p" "page_bytes p \<subseteq> A"
  shows "card (A - page_bytes p) + 4096 = card A"
proof -
  have "card (page_bytes p) = 4096" by (simp add: page_bytes_def)
  then show ?thesis
    using card_Diff_subset [OF _ assms(3)] card_mono [OF _ assms(3)] pages_owned [OF assms(1)]
    by (simp add: page_bytes_def)
qed

end

lemma buddy_free_bound: "buddy_free s A \<Longrightarrow> A \<subseteq> {..<2 ^ 64}"
  using good_block_ok by (fastforce simp: buddy_free_def buddy_inv_def bytes_def block_bytes_def block_ok_def)

lemma page_request:
  "layout_ok \<lparr>l_size = PG_SIZE, l_align = PG_SIZE\<rparr>" "\<not> small \<lparr>l_size = PG_SIZE, l_align = PG_SIZE\<rparr>"
  "pages_of \<lparr>l_size = PG_SIZE, l_align = PG_SIZE\<rparr> = 1"
  "from_size_align PG_SIZE PG_SIZE = Some \<lparr>l_size = PG_SIZE, l_align = PG_SIZE\<rparr>"
proof -
  have p: "is_power_of_two 4096" using is_power_of_two_exp [of 12] by simp
  show "layout_ok \<lparr>l_size = PG_SIZE, l_align = PG_SIZE\<rparr>" by (simp add: layout_ok_def p)
  have "(4096 :: usize) \<le> block_request \<lparr>l_size = PG_SIZE, l_align = PG_SIZE\<rparr>"
    by (simp add: block_request_def)
  then show "\<not> small \<lparr>l_size = PG_SIZE, l_align = PG_SIZE\<rparr>"
    by (auto simp: small_def MAX_BLKSIZE_def word_le_nat_alt)
  show "pages_of \<lparr>l_size = PG_SIZE, l_align = PG_SIZE\<rparr> = 1" by (simp add: pages_of_def)
  show "from_size_align PG_SIZE PG_SIZE = Some \<lparr>l_size = PG_SIZE, l_align = PG_SIZE\<rparr>"
    by (simp add: from_size_align_def p)
qed

lemma one_page_region: "buddy_region 1 p = page_bytes p"
  by (simp add: buddy_region_def block_bytes_def page_bytes_def order_of_1 PG_SHIFT_def)

lemma one_page_ok: "buddy_region_ok 1 p \<Longrightarrow> page_ok p"
  by (simp add: buddy_region_ok_def block_ok_def order_of_1 page_ok_def PG_SHIFT_def)

definition heap_pages :: "usize list \<Rightarrow> kmem \<Rightarrow> nat set \<Rightarrow> nat set \<Rightarrow> bool" where
  "heap_pages da st U A \<longleftrightarrow> (\<exists>P X. heap_rel da st A P X \<and> U = unused A P X)"

interpretation kheap: page_source "kalloc da PG_SIZE PG_SIZE" km_mem "\<lambda>m st. st\<lparr>km_mem := m\<rparr>" "heap_pages da"
  for da
proof
  fix s U A
  assume "heap_pages da s U A"
  then obtain P X where rel: "heap_rel da s A P X" and U: "U = unused A P X" by (auto simp: heap_pages_def)
  show "A \<subseteq> U \<and> finite A"
    using free_unused [OF rel] buddy_free_bound [OF heap_relD(5) [OF rel]] finite_subset U by auto
  {
    fix Y m assume "untouched Y (km_mem s) m" "Y \<inter> U = {}"
    then show "heap_pages da (s\<lparr>km_mem := m\<rparr>) U A"
      using heap_rel_client [OF rel] U unfolding heap_pages_def by blast
  }
  assume "A \<noteq> {}"
  let ?l = "\<lparr>l_size = PG_SIZE, l_align = PG_SIZE\<rparr>"
  have "kalloc da PG_SIZE PG_SIZE s = heap_alloc da ?l s" by (simp only: kalloc_def page_request(4) bind.bind_lunit)
  moreover obtain p m b where "buddy_alloc 1 (km_mem s, km_palloc s) = Some (p, m, b)"
    using buddy_alloc_page [OF heap_relD(5) [OF rel] \<open>A \<noteq> {}\<close>] by auto
  then have "heap_alloc da ?l s \<noteq> None"
    using page_request(1-3)
    by (auto simp: heap_alloc_def layout_ok_def small_def palloc_alloc_def Let_def)
  ultimately obtain p s' where k: "kalloc da PG_SIZE PG_SIZE s = Some (p, s')"
    and a: "heap_alloc da ?l s = Some (p, s')" by auto
  have reg: "heap_region ?l p = page_bytes p"
    by (simp only: heap_region_def page_request(2,3) if_False one_page_region)
  note h = heap_alloc_spilled [OF rel page_request(1,2) a, unfolded reg page_request(3)]
  show "\<exists>p s'. kalloc da PG_SIZE PG_SIZE s = Some (p, s') \<and> page_ok p \<and> page_bytes p \<subseteq> A \<and>
      heap_pages da s' (U - page_bytes p) (A - page_bytes p) \<and> untouched A (km_mem s) (km_mem s')"
    using k h one_page_ok U unfolding heap_pages_def by metis
qed simp

text \<open>The pool of user pages is a source of pages as well.\<close>

definition user_pages :: "kmem \<Rightarrow> nat set \<Rightarrow> nat set \<Rightarrow> bool" where
  "user_pages st U A \<longleftrightarrow> U = A \<and> buddy_free (km_mem st, km_user st) A"

interpretation upool: page_source "user_alloc_pages 1" km_mem "\<lambda>m st. st\<lparr>km_mem := m\<rparr>" user_pages
proof
  fix s U A
  assume u: "user_pages s U A"
  then show "A \<subseteq> U \<and> finite A"
    using buddy_free_bound [of "(km_mem s, km_user s)" A] finite_subset [of A "{..<2 ^ 64}"]
    by (simp add: user_pages_def)
  {
    fix Y m assume "untouched Y (km_mem s) m" "Y \<inter> U = {}"
    then show "user_pages (s\<lparr>km_mem := m\<rparr>) U A"
      using u palloc.inv_untouched by (auto simp: user_pages_def)
  }
  assume "A \<noteq> {}"
  then obtain p m b where a: "buddy_alloc 1 (km_mem s, km_user s) = Some (p, m, b)"
    using buddy_alloc_page u by (fastforce simp: user_pages_def)
  have f: "buddy_free (km_mem s, km_user s) A" "U = A" using u by (auto simp: user_pages_def)
  note al = palloc_pages.alloc_law [OF f(1) a, unfolded one_page_region]
  show "\<exists>p s'. user_alloc_pages 1 s = Some (p, s') \<and> page_ok p \<and> page_bytes p \<subseteq> A \<and>
      user_pages s' (U - page_bytes p) (A - page_bytes p) \<and> untouched A (km_mem s) (km_mem s')"
    using a al one_page_ok palloc.alloc_untouched [OF f(1) a] f(2)
    by (auto simp: user_alloc_pages_def user_pages_def)
qed simp

section \<open>Properties\<close>

text \<open>A state for the witnesses: an empty heap and a free block of two pages.\<close>

definition sample_da :: "usize list" where
  "sample_da = [0x10, 0x20, 0x30, 0x40, 0x50, 0x60, 0x70, 0x80]"

definition sample_kmem :: kmem where
  "sample_kmem = \<lparr>km_mem = fst one_block, km_palloc = snd one_block, km_user = buddy_empty,
     km_heap = \<lparr>descs = map (\<lambda>i. \<lparr>block_size = 2 ^ (i + 3), blocks_per_arena = of_nat (slots i),
       free_list = list_new, desc_allocated = 0, desc_free = 0, desc_total = 0\<rparr>) [0..<8],
       spilled_alloc = 0, spilled_total = 0\<rparr>\<rparr>"

text \<open>The descriptors are those that \<open>Heap::get\<close> makes.\<close>

lemma desc_new_slots:
  assumes "i < 8"
  shows "desc_new (2 ^ (i + 3)) = Some \<lparr>block_size = 2 ^ (i + 3), blocks_per_arena = of_nat (slots i),
    free_list = list_new, desc_allocated = 0, desc_free = 0, desc_total = 0\<rparr>"
proof -
  define r where "r = (SIZE_OF_DESC + mask (i + 3)) AND NOT (mask (i + 3) :: usize)"
  have r: "unat r = (48 + bsz i - 1) div bsz i * bsz i" "unat r \<le> 4096"
    unfolding r_def using less_8_cases [OF assms]
    by (subst unat_round_up; auto simp: SIZE_OF_DESC_def bsz_def)+
  have "unat ((PG_SIZE - r) div 2 ^ (i + 3)) = slots i"
    using r assms by (simp add: unat_div unat_diff_no_wrap unat_exp slots_def bsz_def)
  then have "(PG_SIZE - r) div 2 ^ (i + 3) = of_nat (slots i)"
    using unat_of_slots [OF assms order_refl] by (simp add: word_unat_eq_iff)
  then show ?thesis using assms by (simp add: desc_new_def round_up_exp r_def)
qed

lemma sample_heap_new: "heap_new = Some (km_heap sample_kmem)"
proof -
  have ds: "map (\<lambda>idx. desc_new (push_bit (idx + 3) 1)) [0..<8] = map Some (descs (km_heap sample_kmem))"
    using desc_new_slots by (simp add: sample_kmem_def)
  have "those (map Some xs) = Some xs" for xs :: "desc list" by (induction xs) auto
  then have "heap_new = Some \<lparr>descs = descs (km_heap sample_kmem), spilled_alloc = 0, spilled_total = 0\<rparr>"
    unfolding heap_new_def ds by simp
  then show ?thesis by (simp add: sample_kmem_def)
qed

lemma sample_kmem_rel: "heap_rel sample_da sample_kmem {0x2000..<0x4000} (replicate 8 []) (replicate 8 [])"
proof -
  have "class_ok sample_da (km_mem sample_kmem) i (descs (km_heap sample_kmem) ! i) [] []" if "i < 8" for i
    using that by (simp add: class_ok_def counters_ok_def sample_kmem_def list_new_def)
  moreover have "addresses_ok sample_da" by (simp add: addresses_ok_def sample_da_def)
  moreover have "shape_ok (km_heap sample_kmem)" by (simp add: shape_ok_def sample_kmem_def)
  moreover have "buddy_free (km_mem sample_kmem, km_palloc sample_kmem) {0x2000..<0x4000}"
    using one_block_free by (simp add: sample_kmem_def)
  ultimately show ?thesis unfolding heap_rel_def by (simp del: replicate.simps)
qed

definition sample_layout :: layout where
  "sample_layout = \<lparr>l_size = 24, l_align = 8\<rparr>"

lemma sample_request: "block_request sample_layout = 32"
proof -
  have "bit_len 23 = 5" by (simp add: bit_len.simps)
  moreover have "\<not> (24 :: usize) \<le> 1" by (simp add: word_le_nat_alt)
  ultimately show ?thesis by (simp add: block_request_def sample_layout_def next_power_of_two_def)
qed

lemma sample_layout_ok: "layout_ok sample_layout" "small sample_layout"
  using is_power_of_two_exp [of 3]
  by (simp_all add: layout_ok_def small_def sample_request MAX_BLKSIZE_def) (simp add: sample_layout_def)

text \<open>
  C2. \<open>Heap::alloc\<close>. Let the heap and the page allocator together hold the unused bytes
  \<open>unused A P X\<close>, for the free pages \<open>A\<close>, the arenas \<open>P\<close> and the free blocks \<open>X\<close>. A request
  for a block of at most 1024 bytes succeeds exactly when the free list of its descriptor is not
  empty or a page is left. Whatever a request of any size returns is aligned as asked, has room
  for the size asked for, and lies in the unused bytes; the invariant holds afterwards with
  exactly the bytes of the block gone from the unused ones, and no other byte of the memory is
  changed, so that the blocks handed out before keep their content.
\<close>

theorem heap_alloc_correct:
  assumes "heap_rel da st A P X" "layout_ok l"
  shows "(small l \<longrightarrow> (heap_alloc da l st \<noteq> None \<longleftrightarrow> X ! class_of l \<noteq> [] \<or> A \<noteq> {})) \<and>
    (\<forall>p st'. heap_alloc da l st = Some (p, st') \<longrightarrow>
      {unat p..<unat p + unat (l_size l)} \<subseteq> heap_region l p \<and> unat (l_align l) dvd unat p \<and>
      heap_region l p \<subseteq> unused A P X \<and> untouched (unused A P X) (km_mem st) (km_mem st') \<and>
      (\<exists>A' P' X'. heap_rel da st' A' P' X' \<and> heap_owns l p A' P' X' \<and>
        unused A' P' X' = unused A P X - heap_region l p))"
proof (intro conjI allI impI)
  assume "small l"
  have "heap_alloc da l st = desc_alloc da (class_of l) st"
    using assms(2) \<open>small l\<close> by (auto simp: heap_alloc_def layout_ok_def small_def)
  then show "heap_alloc da l st \<noteq> None \<longleftrightarrow> X ! class_of l \<noteq> [] \<or> A \<noteq> {}"
    using heap_alloc_small [OF assms \<open>small l\<close>] desc_alloc_exhausted small_request(1) [OF assms(2) \<open>small l\<close>]
      assms(1) by (cases "A = {}") auto
next
  fix p st' assume "heap_alloc da l st = Some (p, st')"
  note h = heap_alloc_ok [OF assms this]
  show "{unat p..<unat p + unat (l_size l)} \<subseteq> heap_region l p" "unat (l_align l) dvd unat p"
    using h by (auto simp: allocated_at_def)
  show "heap_region l p \<subseteq> unused A P X" "untouched (unused A P X) (km_mem st) (km_mem st')"
    "\<exists>A' P' X'. heap_rel da st' A' P' X' \<and> heap_owns l p A' P' X' \<and>
        unused A' P' X' = unused A P X - heap_region l p"
    using h by blast+
qed

theorem heap_alloc_correct_witness:
  "\<exists>p st'. heap_alloc sample_da sample_layout sample_kmem = Some (p, st') \<and> 8 dvd unat p"
proof -
  have "unat (l_align sample_layout) = 8" by (simp add: sample_layout_def)
  then show ?thesis
    using heap_alloc_correct [OF sample_kmem_rel sample_layout_ok(1)] sample_layout_ok(2) by fastforce
qed

text \<open>A block that is used by its owner and then freed.\<close>

lemma heap_block_returned:
  assumes "heap_rel da st A P X" "layout_ok l" "heap_alloc da l st = Some (p, st1)"
    and "untouched Y (km_mem st1) m" "Y \<inter> unused A P X \<subseteq> heap_region l p"
  shows "\<exists>st2 A' P' X'. heap_dealloc da p l (st1\<lparr>km_mem := m\<rparr>) = Some st2 \<and>
    heap_rel da st2 A' P' X' \<and> unused A' P' X' = unused A P X \<and> live P' X' = live P X"
proof -
  from heap_alloc_ok [OF assms(1-3)] obtain A1 P1 X1 where
    rel1: "heap_rel da st1 A1 P1 X1" and own: "heap_owns l p A1 P1 X1"
    and sub: "heap_region l p \<subseteq> unused A P X" and u1: "unused A1 P1 X1 = unused A P X - heap_region l p"
    and l1: "live P X = (if small l then live P1 X1 - {(class_of l, p)} else live P1 X1)" by blast
  have "Y \<inter> unused A1 P1 X1 = {}" using assms(5) u1 by blast
  from heap_rel_client [OF rel1 assms(4) this] heap_dealloc_ok [OF _ assms(2) own] obtain st2 A' X' where
    "heap_dealloc da p l (st1\<lparr>km_mem := m\<rparr>) = Some st2" "heap_rel da st2 A' P1 X'"
    "live P1 X' = live P X" "unused A' P1 X' = unused A1 P1 X1 \<union> heap_region l p"
    unfolding l1 by blast
  then show ?thesis using u1 sub by (intro exI [of _ st2] exI [of _ A'] exI [of _ P1] exI [of _ X']) auto
qed

text \<open>
  C3. Allocating, using and freeing. After an allocation the client may write to its block, and
  to any memory that is not the heap's. \<open>Heap::dealloc\<close> of the block with the same layout then
  succeeds, and the heap has the unused bytes and the live blocks of before.
\<close>

theorem heap_alloc_use_free:
  assumes "heap_rel da st A P X" "layout_ok l" "heap_alloc da l st = Some (p, st1)"
    and "untouched Y (km_mem st1) m" "Y \<inter> unused A P X \<subseteq> heap_region l p"
  shows "\<exists>st2 A' P' X'. heap_dealloc da p l (st1\<lparr>km_mem := m\<rparr>) = Some st2 \<and>
    heap_rel da st2 A' P' X' \<and> unused A' P' X' = unused A P X \<and> live P' X' = live P X"
  using assms by (rule heap_block_returned)

theorem heap_alloc_use_free_witness:
  "\<exists>p st1 st2. heap_alloc sample_da sample_layout sample_kmem = Some (p, st1) \<and>
    heap_dealloc sample_da p sample_layout (st1\<lparr>km_mem := (km_mem st1)(p := 7)\<rparr>) = Some st2"
proof -
  obtain p st1 where a: "heap_alloc sample_da sample_layout sample_kmem = Some (p, st1)"
    using heap_alloc_small [OF sample_kmem_rel sample_layout_ok] by auto
  note h = heap_alloc_ok [OF sample_kmem_rel sample_layout_ok(1) a]
  have "unat p \<in> heap_region sample_layout p"
    using h by (auto simp: allocated_at_def sample_layout_def)
  then have un: "untouched {unat p} (km_mem st1) ((km_mem st1)(p := 7))"
    and sub: "{unat p} \<inter> unused {0x2000..<0x4000} (replicate 8 []) (replicate 8 []) \<subseteq> heap_region sample_layout p"
    by (auto intro: untouched_upd)
  show ?thesis
    using heap_alloc_use_free [OF sample_kmem_rel sample_layout_ok(1) a un sub] a by blast
qed

text \<open>
  A request of size 0 returns the dangling pointer 1. Freeing it with the same size does not
  find an arena at address 0 and panics.
\<close>

lemma kfree_zero_panics:
  assumes "heap_rel da st A P X" "is_power_of_two al" "al \<le> PG_SIZE"
  shows "kalloc da 0 al st = Some (1, st) \<and> (al \<le> MAX_BLKSIZE \<longrightarrow> kfree da 1 0 al st = None)"
proof -
  note R = heap_relD [OF assms(1)]
  obtain a where a: "a < 64" "al = 2 ^ a" using assms(2) by (auto simp: is_power_of_two_iff)
  have "(2 ^ a :: usize) \<le> 2 ^ 12" using assms(3) a by simp
  then have "a \<le> 12" using exp_le_iff [of a 12] a by simp
  then have "unat al \<le> 2 ^ 12" using a power_increasing [of a 12 "2::nat"] by (simp add: unat_exp)
  then have fs: "from_size_align 0 al = Some \<lparr>l_size = 0, l_align = al\<rparr>"
    using assms(2) by (simp add: from_size_align_def)
  have "kfree da 1 0 al st = None" if "al \<le> MAX_BLKSIZE"
  proof -
    have br: "block_request \<lparr>l_size = 0, l_align = al\<rparr> = 2 ^ a"
      using a exp_le_iff [of 0 a] by (simp add: block_request_def next_power_of_two_def max_def)
    have "a \<le> 10" using that a exp_le_iff [of a 10] by (simp add: MAX_BLKSIZE_def)
    then have i: "desc_index (2 ^ a) < 8" using a by (simp add: desc_index_def)
    have "(1 :: usize) AND NOT PG_MASK = 0" by (simp add: PG_MASK_eq_mask mask_eq_exp_minus_1)
    then have "from_block da st' 1 = None" for st' by (simp add: from_block_def)
    then have "desc_dealloc da (desc_index (2 ^ a)) 1 st = None"
      using R(2) i
      by (simp add: desc_dealloc_def desc_push_def get_desc_shape list_push_def get_put_desc Let_def)
    then show ?thesis using that a(2) unfolding kfree_def fs by (simp add: heap_dealloc_def br [unfolded a(2)])
  qed
  then show ?thesis by (simp add: kalloc_def fs heap_alloc_def)
qed

end
