(* ===== verification/Page_Table.thy ===== *)
theory Page_Table
  imports Kernel_Heap
begin

text \<open>
  Sv39 page tables (\<open>src/src/mem/pagetable.rs\<close>, \<open>src/src/mem/pagetable/entry.rs\<close>). A page table is the
  kernel address of a page that holds 512 entries, eight bytes each, in the memory of the
  kernel; the table pages come from the kernel heap. The operations thread the state \<open>kmem\<close>;
  \<open>None\<close> is a panic, or a loop that does not end.
\<close>

section \<open>Entries\<close>

definition PPN_MASK :: usize where
  "PPN_MASK = push_bit 44 1 - 1"

datatype entry = Entry usize

fun entry_bits :: "entry \<Rightarrow> usize" where
  "entry_bits (Entry e) = e"

text \<open>\<open>PTEFlags\<close>; the crate \<open>bitflags\<close> makes it a set of bits of a \<open>usize\<close>.\<close>

type_synonym pte_flags = usize

definition PTE_V :: pte_flags where "PTE_V = 0x01"
definition PTE_R :: pte_flags where "PTE_R = 0x02"
definition PTE_W :: pte_flags where "PTE_W = 0x04"
definition PTE_X :: pte_flags where "PTE_X = 0x08"
definition PTE_U :: pte_flags where "PTE_U = 0x10"
definition PTE_G :: pte_flags where "PTE_G = 0x20"
definition PTE_A :: pte_flags where "PTE_A = 0x40"
definition PTE_D :: pte_flags where "PTE_D = 0x80"

definition flags_contain :: "pte_flags \<Rightarrow> pte_flags \<Rightarrow> bool" where
  "flags_contain f g \<longleftrightarrow> f AND g = g"

definition flags_intersect :: "pte_flags \<Rightarrow> pte_flags \<Rightarrow> bool" where
  "flags_intersect f g \<longleftrightarrow> f AND g \<noteq> 0"

definition FLAG_SHIFT :: nat where
  "FLAG_SHIFT = 10"

definition entry_new :: "phys_addr \<Rightarrow> pte_flags \<Rightarrow> entry" where
  "entry_new pa flags =
     Entry (push_bit FLAG_SHIFT (drop_bit PG_SHIFT (phys_value pa) AND PPN_MASK) OR flags)"

text \<open>\<open>from_bits_truncate\<close> keeps the eight defined bits.\<close>

definition entry_flag :: "entry \<Rightarrow> pte_flags" where
  "entry_flag e = entry_bits e AND 0xFF"

definition entry_ppn :: "entry \<Rightarrow> usize" where
  "entry_ppn e = drop_bit FLAG_SHIFT (entry_bits e) AND PPN_MASK"

definition entry_pa :: "entry \<Rightarrow> phys_addr" where
  "entry_pa e = from_pa (push_bit PG_SHIFT (entry_ppn e))"

definition is_valid :: "entry \<Rightarrow> bool" where
  "is_valid e \<longleftrightarrow> flags_contain (entry_flag e) PTE_V"

definition is_global :: "entry \<Rightarrow> bool" where
  "is_global e \<longleftrightarrow> flags_contain (entry_flag e) PTE_G"

definition is_rwable :: "entry \<Rightarrow> bool" where
  "is_rwable e \<longleftrightarrow> flags_contain (entry_flag e) (PTE_R OR PTE_W)"

definition is_user :: "entry \<Rightarrow> bool" where
  "is_user e \<longleftrightarrow> flags_contain (entry_flag e) PTE_U"

definition is_dirty :: "entry \<Rightarrow> bool" where
  "is_dirty e \<longleftrightarrow> flags_contain (entry_flag e) PTE_D"

definition is_executable :: "entry \<Rightarrow> bool" where
  "is_executable e \<longleftrightarrow> flags_contain (entry_flag e) PTE_X"

definition is_accessed :: "entry \<Rightarrow> bool" where
  "is_accessed e \<longleftrightarrow> flags_contain (entry_flag e) PTE_A"

definition set_invalid :: "entry \<Rightarrow> entry" where
  "set_invalid e = Entry (entry_bits e AND NOT PTE_V)"

definition set_unaccessed :: "entry \<Rightarrow> entry" where
  "set_unaccessed e = Entry (entry_bits e AND NOT PTE_A)"

definition is_leaf :: "entry \<Rightarrow> bool" where
  "is_leaf e \<longleftrightarrow> flags_intersect (entry_flag e) (PTE_R OR PTE_W OR PTE_X)"

section \<open>Tables\<close>

definition NENTRY :: usize where
  "NENTRY = 512"

definition PX_MASK :: usize where
  "PX_MASK = NENTRY - 1"

definition SV39_MODE :: usize where
  "SV39_MODE = push_bit 60 0x8"

definition px :: "nat \<Rightarrow> usize \<Rightarrow> usize" where
  "px level va = drop_bit (PG_SHIFT + 9 * level) va AND PX_MASK"

text \<open>\<open>self.entries[index]\<close>, read and written.\<close>

definition entry_at :: "memory \<Rightarrow> usize \<Rightarrow> usize \<Rightarrow> entry" where
  "entry_at m t index = Entry (m (t + 8 * index))"

definition write_entry :: "usize \<Rightarrow> usize \<Rightarrow> entry \<Rightarrow> kmem \<Rightarrow> kmem option" where
  "write_entry t index e st = do {
     rust_assert (index < NENTRY);
     Some (st\<lparr>km_mem := (km_mem st)(t + 8 * index := entry_bits e)\<rparr>)
   }"

definition from_raw :: "usize \<Rightarrow> usize option" where
  "from_raw entries = do {
     rust_assert (is_page_aligned entries);
     Some entries
   }"

text \<open>\<open>ptr::write_bytes(page, 0, PG_SIZE)\<close>.\<close>

definition zero_page :: "usize \<Rightarrow> memory \<Rightarrow> memory" where
  "zero_page p m = (\<lambda>a. if unat p \<le> unat a \<and> unat a < unat p + unat PG_SIZE then 0 else m a)"

definition pt_new :: "usize list \<Rightarrow> kmem \<Rightarrow> (usize \<times> kmem) option" where
  "pt_new da st = do {
     (page, st) \<leftarrow> kalloc da PG_SIZE PG_SIZE st;
     let st = st\<lparr>km_mem := zero_page page (km_mem st)\<rparr>;
     t \<leftarrow> from_raw page;
     Some (t, st)
   }"

definition walk :: "memory \<Rightarrow> usize \<Rightarrow> usize \<Rightarrow> usize option option" where
  "walk m t index =
     (if index < NENTRY \<and> is_valid (entry_at m t index)
      then map_option Some (from_raw (into_va (entry_pa (entry_at m t index))))
      else Some None)"

definition walk_or_create :: "usize list \<Rightarrow> usize \<Rightarrow> usize \<Rightarrow> bool \<Rightarrow> kmem \<Rightarrow> (usize \<times> kmem) option" where
  "walk_or_create da t index is_glob st = do {
     let flag = (if is_glob then PTE_V OR PTE_G else PTE_V);
     r \<leftarrow> walk (km_mem st) t index;
     (case r of
        Some table \<Rightarrow> Some (table, st)
      | None \<Rightarrow> do {
          (table, st) \<leftarrow> pt_new da st;
          pa \<leftarrow> phys_from_va table;
          st \<leftarrow> write_entry t index (entry_new pa flag) st;
          Some (table, st)
        })
   }"

text \<open>The body of the loop of \<open>PageTable::map\<close>, and the loop.\<close>

definition map_page :: "usize list \<Rightarrow> usize \<Rightarrow> usize \<Rightarrow> usize \<Rightarrow> pte_flags \<Rightarrow> kmem \<Rightarrow> kmem option" where
  "map_page da t pa va flag st = do {
     (l1_table, st) \<leftarrow> walk_or_create da t (px 2 va) (flags_contain flag PTE_G) st;
     (l0_table, st) \<leftarrow> walk_or_create da l1_table (px 1 va) (flags_contain flag PTE_G) st;
     write_entry l0_table (px 0 va) (entry_new (from_pa pa) flag) st
   }"

partial_function (option) map_loop :: "usize list \<Rightarrow> usize \<Rightarrow> usize \<Rightarrow> pte_flags \<Rightarrow> usize \<Rightarrow> usize \<Rightarrow> kmem \<Rightarrow> kmem option" where
  "map_loop da t pa_end flag pa va st =
     (if pa < pa_end then
        Option.bind (map_page da t pa va flag st) (map_loop da t pa_end flag (pa + PG_SIZE) (va + PG_SIZE))
      else Some st)"

definition pt_map :: "usize list \<Rightarrow> usize \<Rightarrow> phys_addr \<Rightarrow> usize \<Rightarrow> usize \<Rightarrow> pte_flags \<Rightarrow> kmem \<Rightarrow> kmem option" where
  "pt_map da t pa va sz flag st = do {
     rust_assert (phys_is_aligned pa \<and> is_page_aligned va);
     map_loop da t (phys_value pa + sz) flag (phys_value pa) va st
   }"

definition pt_get_pte :: "memory \<Rightarrow> usize \<Rightarrow> usize \<Rightarrow> entry option option" where
  "pt_get_pte m t va = do {
     r \<leftarrow> walk m t (px 2 va);
     (case r of
        None \<Rightarrow> Some None
      | Some l1_table \<Rightarrow> do {
          r \<leftarrow> walk m l1_table (px 1 va);
          (case r of
             None \<Rightarrow> Some None
           | Some l0_table \<Rightarrow> do {
               rust_assert (px 0 va < NENTRY);
               Some (Some (entry_at m l0_table (px 0 va)))
             })
        })
   }"

text \<open>
  \<open>destroy_imp\<close>: the entries in order, the recursion on the tables below, then the table itself.
  At level 0 the level of the recursive call wraps around and fails the assertion.
\<close>

fun destroy_entries :: "(usize \<Rightarrow> kmem \<Rightarrow> kmem option) \<Rightarrow> nat \<Rightarrow> usize \<Rightarrow> usize list \<Rightarrow> kmem \<Rightarrow> kmem option" where
  "destroy_entries below level t [] st = Some st"
| "destroy_entries below level t (index # is) st = do {
     let e = entry_at (km_mem st) t index;
     st \<leftarrow> (if is_valid e \<and> \<not> is_global e then do {
         let va = into_va (entry_pa e);
         if is_leaf e then user_dealloc_pages va (push_bit (9 * level) 1) st
         else do {
           sub \<leftarrow> from_raw va;
           below sub st
         }
       } else Some st);
     destroy_entries below level t is st
   }"

fun destroy_imp :: "usize list \<Rightarrow> nat \<Rightarrow> usize \<Rightarrow> kmem \<Rightarrow> kmem option" where
  "destroy_imp da 0 t st = do {
     st \<leftarrow> destroy_entries (\<lambda>_ _. None) 0 t (word_range 0 NENTRY) st;
     kfree da t PG_SIZE PG_SIZE st
   }"
| "destroy_imp da (Suc l) t st = do {
     rust_assert (Suc l \<le> 2);
     st \<leftarrow> destroy_entries (destroy_imp da l) (Suc l) t (word_range 0 NENTRY) st;
     kfree da t PG_SIZE PG_SIZE st
   }"

definition destroy :: "usize list \<Rightarrow> usize \<Rightarrow> kmem \<Rightarrow> kmem option" where
  "destroy da t st = destroy_imp da 2 t st"

text \<open>The value of \<open>satp\<close> that \<open>activate\<close> writes, and the table \<open>effective_pagetable\<close> reads from it.\<close>

definition activate :: "usize \<Rightarrow> usize option" where
  "activate t = do {
     pa \<leftarrow> phys_from_va t;
     Some (phys_ppn pa OR SV39_MODE)
   }"

definition effective_pagetable :: "usize \<Rightarrow> usize option" where
  "effective_pagetable satp =
     (let ppn = satp AND PPN_MASK
      in from_raw (into_va (from_pa (push_bit PG_SHIFT ppn))))"

section \<open>The page table of the kernel\<close>

text \<open>\<open>other.entries.copy_from_slice(Self::get().entries)\<close>.\<close>

fun copy_entries :: "usize \<Rightarrow> usize \<Rightarrow> usize list \<Rightarrow> memory \<Rightarrow> memory" where
  "copy_entries src dst [] m = m"
| "copy_entries src dst (index # is) m = copy_entries src dst is (m(dst + 8 * index := m (src + 8 * index)))"

definition pt_clone :: "usize list \<Rightarrow> usize \<Rightarrow> kmem \<Rightarrow> (usize \<times> kmem) option" where
  "pt_clone da kpt st = do {
     (other, st) \<leftarrow> pt_new da st;
     Some (other, st\<lparr>km_mem := copy_entries kpt other (word_range 0 NENTRY) (km_mem st)\<rparr>)
   }"

definition init_inner :: "usize list \<Rightarrow> usize \<Rightarrow> usize \<Rightarrow> kmem \<Rightarrow> (usize \<times> usize \<times> kmem) option" where
  "init_inner da etext ram_size st = do {
     (root, st) \<leftarrow> pt_new da st;
     let rx = PTE_R OR PTE_X OR PTE_G OR PTE_V;
     let rw = PTE_R OR PTE_W OR PTE_G OR PTE_V;
     let kr_base = KERN_BASE + VM_OFFSET;
     let kr_end = VM_BASE + ram_size;
     st \<leftarrow> pt_map da root (from_pa KERN_BASE) kr_base (etext - kr_base) rx st;
     pa \<leftarrow> phys_from_va etext;
     st \<leftarrow> pt_map da root pa etext (kr_end - etext) rw st;
     pa \<leftarrow> phys_from_va PLIC_BASE;
     st \<leftarrow> pt_map da root pa PLIC_BASE 0x400000 rw st;
     pa \<leftarrow> phys_from_va MMIO_BASE;
     st \<leftarrow> pt_map da root pa MMIO_BASE PG_SIZE rw st;
     satp \<leftarrow> activate root;
     Some (root, satp, st)
   }"

text \<open>\<open>mem::init\<close>; \<open>etext\<close> is the end of the kernel text, a symbol of the linker script.\<close>

definition mem_init :: "usize list \<Rightarrow> usize \<Rightarrow> usize \<Rightarrow> usize \<Rightarrow> usize \<Rightarrow> kmem \<Rightarrow> (usize \<times> usize \<times> kmem) option" where
  "mem_init da etext ram_base ram_tail pm_len st = do {
     let palloc_tail = ram_tail - USER_POOL_LIMIT * PG_SIZE;
     st \<leftarrow> palloc_init ram_base palloc_tail st;
     st \<leftarrow> user_init palloc_tail ram_tail st;
     init_inner da etext pm_len st
   }"

text \<open>\<open>mem::get_pte\<close>: the table of the current thread if it has one, else that of the kernel.\<close>

definition mem_get_pte :: "memory \<Rightarrow> usize \<Rightarrow> usize option \<Rightarrow> usize \<Rightarrow> entry option option" where
  "mem_get_pte m kpt current va =
     (case current of
        Some pt \<Rightarrow> pt_get_pte m pt va
      | None \<Rightarrow> pt_get_pte m kpt va)"

section \<open>Facts on entries\<close>

definition flags_ok :: "pte_flags \<Rightarrow> bool" where
  "flags_ok f \<longleftrightarrow> f AND 0xFF = f"

lemma FF_mask: "(0xFF :: usize) = mask 8"
  by (simp add: mask_eq_exp_minus_1)

lemma flags_ok_bit: "flags_ok f \<Longrightarrow> bit f n \<Longrightarrow> n < 8"
  by (metis FF_mask bit_and_iff bit_mask_iff flags_ok_def)

lemma PPN_MASK_eq: "PPN_MASK = mask 44"
  by (simp add: PPN_MASK_def mask_eq_exp_minus_1)

lemma entry_new_flag:
  assumes "flags_ok f"
  shows "entry_flag (entry_new pa f) = f"
proof -
  have "bit f n \<Longrightarrow> n < 8" for n by (rule flags_ok_bit [OF assms])
  then show ?thesis
    by (intro bit_word_eqI) (auto simp: entry_flag_def entry_new_def FF_mask FLAG_SHIFT_def bit_simps)
qed

lemma entry_new_ppn:
  assumes "flags_ok f"
  shows "entry_ppn (entry_new pa f) = drop_bit PG_SHIFT (phys_value pa) AND PPN_MASK"
proof -
  have "\<not> bit f (10 + n)" for n using flags_ok_bit [OF assms, of "10 + n"] by auto
  then show ?thesis
    by (intro bit_word_eqI)
      (auto simp: entry_ppn_def entry_new_def FLAG_SHIFT_def PPN_MASK_eq bit_simps dest: bit_imp_le_length)
qed

lemma aligned_page_bits:
  assumes "4096 dvd unat a" "unat (a :: usize) < 2 ^ 56"
  shows "push_bit PG_SHIFT (drop_bit PG_SHIFT a AND PPN_MASK) = a"
proof -
  have "take_bit 12 a = 0"
    using assms(1) by (simp add: word_unat_eq_iff take_bit_eq_mod unat_mod_distrib mod_eq_0_iff_dvd)
  then have lo: "\<not> bit a n" if "n < 12" for n
    using that by (metis bit_0_eq bit_take_bit_iff bot_apply bot_bool_def)
  have "take_bit 56 a = a"
    using assms(2) by (simp add: word_unat_eq_iff unsigned_take_bit_eq take_bit_nat_eq_self)
  then have hi: "n < 56" if "bit a n" for n using that by (metis bit_take_bit_iff)
  show ?thesis
  proof (rule bit_word_eqI)
    fix n :: nat assume "n < LENGTH(64)"
    then show "bit (push_bit PG_SHIFT (drop_bit PG_SHIFT a AND PPN_MASK)) n = bit a n"
      using lo [of n] hi [of n] by (cases "n < 12") (auto simp: PG_SHIFT_def PPN_MASK_eq bit_simps)
  qed
qed

lemma entry_new_pa:
  assumes "flags_ok f" "4096 dvd unat (phys_value pa)" "unat (phys_value pa) < 2 ^ 56"
  shows "entry_pa (entry_new pa f) = pa"
  using aligned_page_bits [OF assms(2,3)] by (cases pa) (simp add: entry_pa_def entry_new_ppn [OF assms(1)] from_pa_def)

lemma entry_new_small:
  assumes "flags_ok f"
  shows "unat (entry_bits (entry_new pa f)) < 2 ^ 54"
proof -
  have "\<not> bit f n" if "\<not> n < 54" for n using flags_ok_bit [OF assms, of n] that by auto
  then have "take_bit 54 (entry_bits (entry_new pa f)) = entry_bits (entry_new pa f)"
    by (intro bit_word_eqI) (auto simp: entry_new_def FLAG_SHIFT_def PPN_MASK_eq bit_simps)
  then show ?thesis
    by (metis take_bit_nat_less_exp unsigned_take_bit_eq)
qed

lemma flags_contain_exp:
  assumes "k < 8"
  shows "flags_contain (entry_flag e) (2 ^ k) \<longleftrightarrow> bit (entry_bits e) k"
proof -
  have "(x AND 2 ^ k = 2 ^ k) = bit x k" for x :: usize
  proof
    assume "x AND 2 ^ k = 2 ^ k"
    then have "bit (x AND 2 ^ k) k" using assms by (simp add: bit_exp_iff)
    then show "bit x k" by (simp add: bit_and_iff)
  next
    assume "bit x k"
    then show "x AND 2 ^ k = 2 ^ k" by (intro bit_word_eqI) (auto simp: bit_simps)
  qed
  then show ?thesis using assms by (simp add: flags_contain_def entry_flag_def FF_mask bit_simps)
qed

lemma is_valid_bit: "is_valid e \<longleftrightarrow> bit (entry_bits e) 0"
  using flags_contain_exp [of 0 e] by (simp add: is_valid_def PTE_V_def)

lemma is_global_bit: "is_global e \<longleftrightarrow> bit (entry_bits e) 5"
  using flags_contain_exp [of 5 e] by (simp add: is_global_def PTE_G_def)

section \<open>The tree of tables\<close>

definition sub_table :: "memory \<Rightarrow> usize \<Rightarrow> usize \<Rightarrow> usize" where
  "sub_table m t i = into_va (entry_pa (entry_at m t i))"

text \<open>The table at the end of a path of indices.\<close>

fun table_at :: "memory \<Rightarrow> usize \<Rightarrow> usize list \<Rightarrow> usize option" where
  "table_at m t [] = Some t"
| "table_at m t (i # is) = (if is_valid (entry_at m t i) then table_at m (sub_table m t i) is else None)"

definition path_ok :: "usize list \<Rightarrow> bool" where
  "path_ok q \<longleftrightarrow> length q \<le> 2 \<and> (\<forall>i \<in> set q. i < NENTRY)"

definition table_ok :: "nat set \<Rightarrow> usize \<Rightarrow> bool" where
  "table_ok U a \<longleftrightarrow> page_ok a \<and> in_kernel_space a \<and> page_bytes a \<inter> U = {}"

text \<open>
  The invariant of a page table: the tables of the three levels are pages of the kernel, apart
  from the bytes \<open>U\<close> of the heap, and each is reached by one path only.
\<close>

definition pt_tree :: "memory \<Rightarrow> usize \<Rightarrow> nat set \<Rightarrow> bool" where
  "pt_tree m t U \<longleftrightarrow>
     (\<forall>q a. path_ok q \<longrightarrow> table_at m t q = Some a \<longrightarrow> table_ok U a) \<and>
     (\<forall>q r a. path_ok q \<longrightarrow> path_ok r \<longrightarrow> table_at m t q = Some a \<longrightarrow> table_at m t r = Some a \<longrightarrow> q = r)"

text \<open>The entries above the lowest level point to tables: they are no leaves, and their reserved bits are clear.\<close>

definition link_entry :: "entry \<Rightarrow> bool" where
  "link_entry e \<longleftrightarrow> \<not> is_leaf e \<and> unat (entry_bits e) < 2 ^ 54"

definition inner_ok :: "memory \<Rightarrow> usize \<Rightarrow> bool" where
  "inner_ok m t \<longleftrightarrow> (\<forall>q i b. path_ok (q @ [i]) \<longrightarrow> table_at m t q = Some b \<longrightarrow> is_valid (entry_at m b i) \<longrightarrow>
     link_entry (entry_at m b i))"

lemma inner_okD: "inner_ok m t \<Longrightarrow> path_ok (q @ [i]) \<Longrightarrow> table_at m t q = Some b \<Longrightarrow> is_valid (entry_at m b i) \<Longrightarrow>
    link_entry (entry_at m b i)"
  unfolding inner_ok_def by blast

definition table_bytes :: "memory \<Rightarrow> usize \<Rightarrow> nat set" where
  "table_bytes m t = (\<Union>a \<in> {a. \<exists>q. path_ok q \<and> table_at m t q = Some a}. page_bytes a)"

text \<open>What a virtual address is mapped to.\<close>

definition va_path :: "usize \<Rightarrow> usize list" where
  "va_path va = [px 2 va, px 1 va]"

definition mapping :: "memory \<Rightarrow> usize \<Rightarrow> usize \<Rightarrow> entry option" where
  "mapping m t va =
     (case table_at m t (va_path va) of
        None \<Rightarrow> None
      | Some a \<Rightarrow> (if is_valid (entry_at m a (px 0 va)) then Some (entry_at m a (px 0 va)) else None))"

definition vpn :: "usize \<Rightarrow> usize \<times> usize \<times> usize" where
  "vpn va = (px 2 va, px 1 va, px 0 va)"

lemma pt_treeD:
  assumes "pt_tree m t U"
  shows "path_ok q \<Longrightarrow> table_at m t q = Some a \<Longrightarrow> table_ok U a"
    and "path_ok q \<Longrightarrow> path_ok r \<Longrightarrow> table_at m t q = Some a \<Longrightarrow> table_at m t r = Some a \<Longrightarrow> q = r"
  using assms unfolding pt_tree_def by blast+

lemma path_ok_snoc: "path_ok (q @ [i]) \<longleftrightarrow> length q \<le> 1 \<and> path_ok q \<and> i < NENTRY"
  by (auto simp: path_ok_def)

lemma table_at_snoc:
  "table_at m t (q @ [i]) = (case table_at m t q of
     None \<Rightarrow> None
   | Some a \<Rightarrow> if is_valid (entry_at m a i) then Some (sub_table m a i) else None)"
  by (induction q arbitrary: t) auto

lemma px_less [simp]: "px l va < NENTRY"
proof -
  have "px l va \<le> PX_MASK" by (simp add: px_def word_and_le1)
  then show ?thesis by (simp add: PX_MASK_def NENTRY_def word_le_nat_alt word_less_nat_alt)
qed

lemma sub_table_aligned: "is_page_aligned (sub_table m t i)"
proof -
  define x where "x = push_bit PG_SHIFT (entry_ppn (entry_at m t i))"
  have "take_bit 12 x = 0"
    by (rule bit_word_eqI) (auto simp: x_def PG_SHIFT_def bit_simps)
  then have "unat x mod 4096 = 0"
    by (simp add: word_unat_eq_iff take_bit_eq_mod unat_mod_distrib)
  moreover have "unat VM_OFFSET mod 4096 = 0" by (simp add: unat_VM_OFFSET)
  ultimately have "(unat x + unat VM_OFFSET) mod 4096 = 0" by (metis add_0 mod_0 mod_add_eq)
  moreover have "unat (x + VM_OFFSET) = (unat x + unat VM_OFFSET) mod 2 ^ 64"
    by (simp add: unat_word_ariths)
  ultimately have "unat (x + VM_OFFSET) mod 4096 = 0"
    by (simp add: mod_mod_cancel)
  then show ?thesis
    by (simp add: is_page_aligned_iff sub_table_def into_va_def entry_pa_def from_pa_def x_def mod_eq_0_iff_dvd)
qed

lemma walk_table:
  "i < NENTRY \<Longrightarrow> walk m t i = Some (table_at m t [i])"
  using sub_table_aligned [of m t i] by (simp add: walk_def from_raw_def sub_table_def)

lemma get_pte_table:
  "pt_get_pte m t va = Some (map_option (\<lambda>a. entry_at m a (px 0 va)) (table_at m t (va_path va)))"
  by (auto simp: pt_get_pte_def walk_table va_path_def split: option.splits)

declare table_at.simps(2) [simp del]

subsection \<open>Cells of entries\<close>

lemma unat_cell:
  assumes "page_ok a" "i < NENTRY"
  shows "unat (a + 8 * i) = unat a + 8 * unat i"
proof -
  have i: "unat i < 512" using assms(2) by (simp add: NENTRY_def word_less_nat_alt)
  then have "8 * i = of_nat (8 * unat i)" by simp
  then show ?thesis using unat_in_page [OF assms(1), of "8 * unat i"] i by simp
qed

lemma cell_in_page:
  assumes "page_ok a" "i < NENTRY"
  shows "unat (a + 8 * i) \<in> page_bytes a"
  using unat_cell [OF assms] assms(2) by (simp add: page_bytes_def NENTRY_def word_less_nat_alt)

lemma cell_inj:
  assumes "page_ok a" "page_ok b" "i < NENTRY" "j < NENTRY" "a + 8 * i = b + 8 * j"
  shows "a = b \<and> i = j"
proof -
  have "unat (a + 8 * i) \<in> page_bytes a \<inter> page_bytes b"
    using cell_in_page [OF assms(1,3)] cell_in_page [OF assms(2,4)] assms(5) by simp
  then have "a = b" using page_bytes_disjoint [OF assms(1,2)] by blast
  moreover from this have "unat i = unat j"
    using unat_cell [OF assms(1,3)] unat_cell [OF assms(2,4)] assms(5) by simp
  ultimately show ?thesis by (simp add: word_unat_eq_iff)
qed

lemma into_va_from_va: "in_kernel_space a \<Longrightarrow> phys_from_va a = Some (PhysAddr (a - VM_OFFSET))"
  by (simp add: phys_from_va_def)

text \<open>An entry that points to a table of the kernel.\<close>

lemma table_entry:
  assumes a: "page_ok a" "in_kernel_space a" and g: "flag = PTE_V \<or> flag = PTE_V OR PTE_G"
    and m: "m (t + 8 * i) = entry_bits (entry_new (PhysAddr (a - VM_OFFSET)) flag)"
  shows "is_valid (entry_at m t i)" "sub_table m t i = a" "link_entry (entry_at m t i)"
proof -
  let ?p = "PhysAddr (a - VM_OFFSET)"
  have e: "entry_at m t i = entry_new ?p flag"
    using m by (cases "entry_new ?p flag") (simp add: entry_at_def)
  have f: "flags_ok flag" using g by (auto simp: flags_ok_def PTE_V_def PTE_G_def)
  have "flags_contain flag PTE_V" using g by (auto simp: flags_contain_def PTE_V_def PTE_G_def)
  then show "is_valid (entry_at m t i)" by (simp add: is_valid_def e entry_new_flag [OF f])
  have pa: "phys_from_va a = Some ?p" by (rule into_va_from_va [OF a(2)])
  note iv = into_va_phys_from_va [OF pa]
  have "unat (a - VM_OFFSET) = unat a - (2 ^ 64 - 2 ^ 38)"
    using a(2) by (subst unat_diff_no_wrap) (simp_all add: unat_VM_OFFSET in_kernel_space_iff)
  moreover have "(4096::nat) dvd 2 ^ 64 - 2 ^ 38" by simp
  ultimately have "4096 dvd unat (phys_value ?p)"
    using a(1) by (simp add: page_ok_def dvd_diff_nat)
  then have "entry_pa (entry_new ?p flag) = ?p"
    using iv by (intro entry_new_pa [OF f]) auto
  then show "sub_table m t i = a" using iv by (simp add: sub_table_def e)
  have "\<not> flags_intersect flag (PTE_R OR PTE_W OR PTE_X)"
    using g by (auto simp: flags_intersect_def PTE_V_def PTE_G_def PTE_R_def PTE_W_def PTE_X_def)
  then show "link_entry (entry_at m t i)"
    using entry_new_small [OF f] by (simp add: link_entry_def is_leaf_def e entry_new_flag [OF f])
qed

subsection \<open>Changes of the memory\<close>

text \<open>All entries of the tables but the one at index \<open>i\<close> of the table \<open>a\<close> are kept.\<close>

definition entries_kept :: "memory \<Rightarrow> memory \<Rightarrow> usize \<Rightarrow> usize \<Rightarrow> usize \<Rightarrow> bool" where
  "entries_kept m m' t a i \<longleftrightarrow>
     (\<forall>q b j. path_ok q \<longrightarrow> table_at m t q = Some b \<longrightarrow> j < NENTRY \<longrightarrow> b \<noteq> a \<or> j \<noteq> i \<longrightarrow>
       entry_at m' b j = entry_at m b j)"

lemma entries_keptD:
  "entries_kept m m' t a i \<Longrightarrow> path_ok q \<Longrightarrow> table_at m t q = Some b \<Longrightarrow> j < NENTRY \<Longrightarrow> b \<noteq> a \<or> j \<noteq> i \<Longrightarrow>
    entry_at m' b j = entry_at m b j"
  unfolding entries_kept_def by blast

lemma entries_keptI:
  assumes tree: "pt_tree m t U" and q: "path_ok q" "table_at m t q = Some a" "i < NENTRY"
    and un: "untouched Y m m1" "Y \<subseteq> U"
  shows "entries_kept m (m1(a + 8 * i := v)) t a i"
  unfolding entries_kept_def
proof (intro allI impI)
  fix r b j assume r: "path_ok r" "table_at m t r = Some b" and j: "j < NENTRY" and ne: "b \<noteq> a \<or> j \<noteq> i"
  have b: "page_ok b" "page_bytes b \<inter> U = {}" and a: "page_ok a"
    using pt_treeD(1) [OF tree r] pt_treeD(1) [OF tree q(1,2)] by (auto simp: table_ok_def)
  have "b + 8 * j \<noteq> a + 8 * i" using cell_inj [OF b(1) a j q(3)] ne by blast
  moreover have "m1 (b + 8 * j) = m (b + 8 * j)"
    using untouchedD [OF un(1)] cell_in_page [OF b(1) j] b(2) un(2) by blast
  ultimately show "entry_at (m1(a + 8 * i := v)) b j = entry_at m b j" by (simp add: entry_at_def)
qed

lemma sub_table_kept: "entry_at m' b j = entry_at m b j \<Longrightarrow> sub_table m' b j = sub_table m b j"
  by (simp add: sub_table_def)

text \<open>A new, empty table is hung below an invalid entry.\<close>

lemma table_at_create:
  assumes tree: "pt_tree m t U" and q: "path_ok (q @ [i])" "table_at m t q = Some a"
    and inv: "\<not> is_valid (entry_at m a i)" and kept: "entries_kept m m' t a i"
    and new: "is_valid (entry_at m' a i)" "sub_table m' a i = p" "\<And>j. j < NENTRY \<Longrightarrow> \<not> is_valid (entry_at m' p j)"
    and r: "path_ok r"
  shows "table_at m' t r = (if r = q @ [i] then Some p else table_at m t r)"
  using r
proof (induction r rule: rev_induct)
  case Nil
  then show ?case by simp
next
  case (snoc j s)
  then have s: "path_ok s" "j < NENTRY" by (auto simp: path_ok_snoc)
  note IH = snoc.IH [OF s(1)]
  have qi: "path_ok q" using q(1) by (simp add: path_ok_snoc)
  show ?case
  proof (cases "s = q @ [i]")
    case True
    then have "table_at m t s = None" using q(2) inv by (simp add: table_at_snoc)
    then have "table_at m t (s @ [j]) = None" by (subst table_at_snoc) simp
    moreover have "table_at m' t s = Some p" using True IH by simp
    then have "table_at m' t (s @ [j]) = None" using new(3) [OF s(2)] by (subst table_at_snoc) simp
    moreover have "s @ [j] \<noteq> q @ [i]" using True by simp
    ultimately show ?thesis by simp
  next
    case False
    then have eq: "table_at m' t s = table_at m t s" using IH by simp
    show ?thesis
    proof (cases "table_at m t s")
      case None
      then show ?thesis using eq q(2) by (auto simp: table_at_snoc)
    next
      case (Some b)
      show ?thesis
      proof (cases "b = a \<and> j = i")
        case True
        then have "s = q" using pt_treeD(2) [OF tree s(1) qi Some] q(2) by blast
        then show ?thesis using True Some eq new by (simp add: table_at_snoc)
      next
        case other: False
        then have k: "entry_at m' b j = entry_at m b j"
          by (intro entries_keptD [OF kept s(1) Some s(2)]) blast
        moreover have ne: "s @ [j] \<noteq> q @ [i]" using other Some q(2) by auto
        ultimately show ?thesis
          unfolding if_not_P [OF ne] using Some eq sub_table_kept [OF k] by (simp add: table_at_snoc)
      qed
    qed
  qed
qed

lemma inner_ok_create:
  assumes tree: "pt_tree m t U" and q: "path_ok (q @ [i])" "table_at m t q = Some a"
    and inv: "\<not> is_valid (entry_at m a i)" and kept: "entries_kept m m' t a i"
    and new: "is_valid (entry_at m' a i)" "sub_table m' a i = p" "\<And>j. j < NENTRY \<Longrightarrow> \<not> is_valid (entry_at m' p j)"
    and link: "link_entry (entry_at m' a i)" and ok: "inner_ok m t"
  shows "inner_ok m' t"
  unfolding inner_ok_def
proof (intro allI impI)
  fix r j b assume r: "path_ok (r @ [j])" "table_at m' t r = Some b" and v: "is_valid (entry_at m' b j)"
  have po: "path_ok r" "j < NENTRY" using r(1) by (auto simp: path_ok_snoc)
  have "r \<noteq> q @ [i]"
    using table_at_create [OF tree q inv kept new po(1)] r(2) v new(3) [OF po(2)] by auto
  then have b: "table_at m t r = Some b" using table_at_create [OF tree q inv kept new po(1)] r(2) by simp
  show "link_entry (entry_at m' b j)"
  proof (cases "b = a \<and> j = i")
    case False
    then have "entry_at m' b j = entry_at m b j" by (intro entries_keptD [OF kept po(1) b po(2)]) blast
    then show ?thesis using inner_okD [OF ok r(1) b] v by simp
  qed (use link in simp)
qed

text \<open>Writing an entry of the lowest level keeps all tables.\<close>

lemma table_at_leaf:
  assumes tree: "pt_tree m t U" and q: "path_ok q" "length q = 2" "table_at m t q = Some a"
    and kept: "entries_kept m m' t a i" and r: "path_ok r"
  shows "table_at m' t r = table_at m t r"
  using r
proof (induction r rule: rev_induct)
  case Nil
  then show ?case by simp
next
  case (snoc j s)
  then have s: "path_ok s" "j < NENTRY" "length s \<le> 1" by (auto simp: path_ok_snoc)
  have "entry_at m' b j = entry_at m b j" if b: "table_at m t s = Some b" for b
  proof -
    have "b \<noteq> a" using pt_treeD(2) [OF tree s(1) q(1) b] q(2,3) s(3) by auto
    then show ?thesis by (intro entries_keptD [OF kept s(1) b s(2)]) simp
  qed
  then have "table_at m t s = Some b \<Longrightarrow> entry_at m' b j = entry_at m b j \<and> sub_table m' b j = sub_table m b j" for b
    using sub_table_kept by blast
  then show ?case
    using snoc.IH [OF s(1)] by (auto simp: table_at_snoc split: option.splits)
qed

lemma inner_ok_leaf:
  assumes tree: "pt_tree m t U" and q: "path_ok q" "length q = 2" "table_at m t q = Some a"
    and kept: "entries_kept m m' t a i" and ok: "inner_ok m t"
  shows "inner_ok m' t"
  unfolding inner_ok_def
proof (intro allI impI)
  fix r j b assume r: "path_ok (r @ [j])" "table_at m' t r = Some b" and v: "is_valid (entry_at m' b j)"
  have po: "path_ok r" "j < NENTRY" "length r \<le> 1" using r(1) by (auto simp: path_ok_snoc)
  have b: "table_at m t r = Some b" using table_at_leaf [OF tree q kept po(1)] r(2) by simp
  then have "b \<noteq> a" using pt_treeD(2) [OF tree po(1) q(1)] q(2,3) po(3) by auto
  then have "entry_at m' b j = entry_at m b j" by (intro entries_keptD [OF kept po(1) b po(2)]) simp
  then show "link_entry (entry_at m' b j)" using inner_okD [OF ok r(1) b] v by simp
qed

lemma path_ok_va: "path_ok (va_path va)" and length_va_path: "length (va_path va) = 2"
  by (simp_all add: path_ok_def va_path_def)

lemma mapping_create:
  assumes tree: "pt_tree m t U" and q: "path_ok (q @ [i])" "table_at m t q = Some a"
    and inv: "\<not> is_valid (entry_at m a i)" and kept: "entries_kept m m' t a i"
    and new: "is_valid (entry_at m' a i)" "sub_table m' a i = p" "\<And>j. j < NENTRY \<Longrightarrow> \<not> is_valid (entry_at m' p j)"
  shows "mapping m' t va = mapping m t va"
proof -
  let ?r = "va_path va"
  note ta = table_at_create [OF assms path_ok_va, of va]
  show ?thesis
  proof (cases "?r = q @ [i]")
    case True
    then have "table_at m t ?r = None" using q(2) inv by (simp only: table_at_snoc) simp
    then show ?thesis using ta True new(3) by (simp add: mapping_def)
  next
    case False
    then have eq: "table_at m' t ?r = table_at m t ?r" using ta by simp
    have "entry_at m' b (px 0 va) = entry_at m b (px 0 va)" if b: "table_at m t ?r = Some b" for b
    proof -
      have qi: "path_ok q" "length q \<le> 1" using q(1) by (auto simp: path_ok_snoc)
      have "b \<noteq> a" using pt_treeD(2) [OF tree path_ok_va qi(1) b] q(2) qi(2) length_va_path [of va] by auto
      then show ?thesis by (intro entries_keptD [OF kept path_ok_va b px_less]) simp
    qed
    then show ?thesis using eq by (auto simp: mapping_def split: option.splits)
  qed
qed

lemma mapping_leaf:
  assumes tree: "pt_tree m t U" and a: "table_at m t (va_path va) = Some a"
    and kept: "entries_kept m m' t a (px 0 va)" and e: "entry_at m' a (px 0 va) = e" "is_valid e"
  shows "mapping m' t x = (if vpn x = vpn va then Some e else mapping m t x)"
proof -
  have same: "table_at m' t (va_path x) = table_at m t (va_path x)" for x
    by (rule table_at_leaf [OF tree path_ok_va length_va_path a kept path_ok_va])
  show ?thesis
  proof (cases "vpn x = vpn va")
    case True
    then have "px 2 x = px 2 va" "px 1 x = px 1 va" "px 0 x = px 0 va" by (auto simp: vpn_def)
    then show ?thesis using True same [of x] a e by (simp add: mapping_def va_path_def)
  next
    case False
    have "entry_at m' b (px 0 x) = entry_at m b (px 0 x)" if b: "table_at m t (va_path x) = Some b" for b
    proof -
      have "b \<noteq> a \<or> px 0 x \<noteq> px 0 va"
        using pt_treeD(2) [OF tree path_ok_va path_ok_va b] a False by (auto simp: vpn_def va_path_def)
      then show ?thesis by (intro entries_keptD [OF kept path_ok_va b px_less])
    qed
    then show ?thesis using False same [of x] by (auto simp: mapping_def split: option.splits)
  qed
qed

section \<open>Operations on the tree\<close>

definition kernel_only :: "nat set \<Rightarrow> bool" where
  "kernel_only A \<longleftrightarrow> (\<forall>b \<in> A. 2 ^ 64 - 2 ^ 38 \<le> b)"

lemma zero_page_untouched: "untouched (page_bytes p) m (zero_page p m)"
  by (auto simp: untouched_def zero_page_def page_bytes_def)

lemma zero_page_cell: "unat a \<in> page_bytes p \<Longrightarrow> zero_page p m a = 0"
  by (auto simp: zero_page_def page_bytes_def)

lemma entry_0_invalid: "\<not> is_valid (Entry 0)"
  by (simp add: is_valid_bit)

lemma page_ok_aligned: "page_ok p \<Longrightarrow> is_page_aligned p"
  by (simp add: is_page_aligned_iff page_ok_def)

lemma pt_new_ok:
  assumes "heap_pages da st U A" "A \<noteq> {}"
  shows "\<exists>p st'. pt_new da st = Some (p, st') \<and> page_ok p \<and> page_bytes p \<subseteq> A \<and>
    heap_pages da st' (U - page_bytes p) (A - page_bytes p) \<and> untouched A (km_mem st) (km_mem st') \<and>
    (\<forall>a. unat a \<in> page_bytes p \<longrightarrow> km_mem st' a = 0)"
proof -
  from kheap.take_write [OF assms] obtain p st1 where
    k: "kalloc da PG_SIZE PG_SIZE st = Some (p, st1)" and p: "page_ok p" "page_bytes p \<subseteq> A"
    and w: "\<And>m Y. untouched Y (km_mem st1) m \<Longrightarrow> Y \<inter> U \<subseteq> page_bytes p \<Longrightarrow>
      heap_pages da (st1\<lparr>km_mem := m\<rparr>) (U - page_bytes p) (A - page_bytes p) \<and>
      untouched (A \<union> Y) (km_mem st) (km_mem (st1\<lparr>km_mem := m\<rparr>))" by blast
  define st' where "st' = st1\<lparr>km_mem := zero_page p (km_mem st1)\<rparr>"
  have "pt_new da st = Some (p, st')"
    unfolding pt_new_def k using page_ok_aligned [OF p(1)] by (simp add: from_raw_def st'_def)
  moreover have "heap_pages da st' (U - page_bytes p) (A - page_bytes p)" "untouched A (km_mem st) (km_mem st')"
    using w [OF zero_page_untouched, of p] p(2) by (auto simp: st'_def Un_absorb2)
  ultimately show ?thesis using p zero_page_cell by (auto simp: st'_def)
qed

text \<open>One step down the tree, with the table created if it is missing.\<close>

lemma walk_or_create_ok:
  assumes h: "heap_pages da st U A" "table_at (km_mem st) t (q @ [i]) = None \<Longrightarrow> A \<noteq> {}" "kernel_only A"
    and tree: "pt_tree (km_mem st) t U"
    and q: "path_ok (q @ [i])" "table_at (km_mem st) t q = Some a"
  shows "\<exists>b st' U' A'. walk_or_create da a i g st = Some (b, st') \<and> heap_pages da st' U' A' \<and> U' \<subseteq> U \<and> A' \<subseteq> A \<and>
    card A \<le> card A' + (if table_at (km_mem st) t (q @ [i]) = None then 4096 else 0) \<and>
    (\<forall>r. path_ok r \<longrightarrow> table_at (km_mem st) t r \<noteq> None \<longrightarrow> table_at (km_mem st') t r = table_at (km_mem st) t r) \<and>
    pt_tree (km_mem st') t U' \<and> table_at (km_mem st') t (q @ [i]) = Some b \<and>
    (\<forall>x. mapping (km_mem st') t x = mapping (km_mem st) t x) \<and>
    untouched (A \<union> table_bytes (km_mem st) t) (km_mem st) (km_mem st') \<and>
    table_bytes (km_mem st') t \<subseteq> A \<union> table_bytes (km_mem st) t \<and>
    (inner_ok (km_mem st) t \<longrightarrow> inner_ok (km_mem st') t)"
proof (cases "is_valid (entry_at (km_mem st) a i)")
  case True
  have i: "i < NENTRY" using q(1) by (simp add: path_ok_snoc)
  have "table_at (km_mem st) a [i] = Some (sub_table (km_mem st) a i)"
    using True table_at_snoc [of "km_mem st" a "[]" i] by simp
  then have "walk_or_create da a i g st = Some (sub_table (km_mem st) a i, st)"
    by (simp add: walk_or_create_def walk_table [OF i])
  moreover have "table_at (km_mem st) t (q @ [i]) = Some (sub_table (km_mem st) a i)"
    using True q(2) by (simp add: table_at_snoc)
  ultimately show ?thesis
    using h tree by (intro exI [of _ "sub_table (km_mem st) a i"] exI [of _ st] exI [of _ U] exI [of _ A]) simp
next
  case False
  let ?m = "km_mem st"
  have i: "i < NENTRY" and qo: "path_ok q" using q(1) by (auto simp: path_ok_snoc)
  have a: "page_ok a" "in_kernel_space a" "page_bytes a \<inter> U = {}"
    using pt_treeD(1) [OF tree qo q(2)] by (auto simp: table_ok_def)
  have none: "table_at ?m t (q @ [i]) = None" using False q(2) by (simp add: table_at_snoc)
  from pt_new_ok [OF h(1) h(2) [OF none]] obtain p st1 where n: "pt_new da st = Some (p, st1)"
    and p: "page_ok p" "page_bytes p \<subseteq> A" and h1: "heap_pages da st1 (U - page_bytes p) (A - page_bytes p)"
    and un1: "untouched A ?m (km_mem st1)" and z: "\<And>c. unat c \<in> page_bytes p \<Longrightarrow> km_mem st1 c = 0" by blast
  have AU: "A \<subseteq> U" using kheap.pages_owned [OF h(1)] by blast
  have pk: "in_kernel_space p"
    using h(3) p(2) page_start [of p] unfolding in_kernel_space_iff kernel_only_def by blast
  define flag where "flag = (if g then PTE_V OR PTE_G else PTE_V)"
  define m' where "m' = (km_mem st1)(a + 8 * i := entry_bits (entry_new (PhysAddr (p - VM_OFFSET)) flag))"
  define st' where "st' = st1\<lparr>km_mem := m'\<rparr>"
  have "table_at ?m a [i] = None" using False table_at_snoc [of ?m a "[]" i] by simp
  then have w: "walk_or_create da a i g st = Some (p, st')"
    using n i by (simp add: walk_or_create_def walk_table [OF i] into_va_from_va [OF pk] write_entry_def
        st'_def m'_def flag_def)
  have m'a: "m' (a + 8 * i) = entry_bits (entry_new (PhysAddr (p - VM_OFFSET)) flag)" by (simp add: m'_def)
  have fl: "flag = PTE_V \<or> flag = PTE_V OR PTE_G" by (simp add: flag_def)
  have ne: "page_bytes a \<inter> page_bytes p = {}" using a(3) p(2) AU by blast
  note new = table_entry [where m = m' and t = a and i = i, OF p(1) pk fl m'a]
  have zero: "\<not> is_valid (entry_at m' p j)" if j: "j < NENTRY" for j
  proof -
    have "p + 8 * j \<noteq> a + 8 * i" using cell_inj [OF p(1) a(1) j i] ne page_start by blast
    then have "entry_at m' p j = Entry 0" using z [OF cell_in_page [OF p(1) j]] by (simp add: entry_at_def m'_def)
    then show ?thesis using entry_0_invalid by simp
  qed
  have kept: "entries_kept ?m m' t a i" unfolding m'_def by (rule entries_keptI [OF tree qo q(2) i un1 AU])
  have ta: "table_at m' t r = (if r = q @ [i] then Some p else table_at ?m t r)" if "path_ok r" for r
    by (rule table_at_create [OF tree q False kept new(1,2) zero that])
  have unc: "untouched (page_bytes a) (km_mem st1) m'"
    unfolding m'_def by (rule untouched_upd [OF cell_in_page [OF a(1) i] untouched_refl])
  have h': "heap_pages da st' (U - page_bytes p) (A - page_bytes p)"
    unfolding st'_def by (rule kheap.write_law [OF h1 unc]) (use a(3) in blast)
  have ab: "page_bytes a \<subseteq> table_bytes ?m t" using qo q(2) by (auto simp: table_bytes_def)
  have tree': "pt_tree m' t (U - page_bytes p)"
    unfolding pt_tree_def
  proof (intro conjI allI impI)
    fix r b assume r: "path_ok r" "table_at m' t r = Some b"
    show "table_ok (U - page_bytes p) b"
      using ta [OF r(1)] r p(1) pk pt_treeD(1) [OF tree r(1), of b] by (auto simp: table_ok_def split: if_splits)
  next
    fix r s b assume r: "path_ok r" "path_ok s" "table_at m' t r = Some b" "table_at m' t s = Some b"
    have np: "table_at ?m t r \<noteq> Some p" if "path_ok r" for r
      using pt_treeD(1) [OF tree that, of p] p(2) AU page_start [of p] by (auto simp: table_ok_def)
    show "r = s"
      using ta [OF r(1)] ta [OF r(2)] r np pt_treeD(2) [OF tree r(1,2), of b] by (auto split: if_splits)
  qed
  have "table_bytes m' t \<subseteq> A \<union> table_bytes ?m t"
  proof
    fix x assume "x \<in> table_bytes m' t"
    then obtain r b where "path_ok r" "table_at m' t r = Some b" "x \<in> page_bytes b"
      by (auto simp: table_bytes_def)
    then show "x \<in> A \<union> table_bytes ?m t" using ta [of r] p(2) by (auto simp: table_bytes_def split: if_splits)
  qed
  moreover have "untouched (A \<union> table_bytes ?m t) ?m m'"
    by (rule untouched_trans [OF untouched_mono [OF un1] untouched_mono [OF unc]]) (use ab in auto)
  moreover have "mapping m' t x = mapping ?m t x" for x
    by (rule mapping_create [OF tree q False kept new(1,2) zero])
  moreover have "inner_ok m' t" if "inner_ok ?m t"
    by (rule inner_ok_create [OF tree q False kept new(1,2) zero new(3) that])
  moreover have "table_at m' t (q @ [i]) = Some p" using ta [OF q(1)] by simp
  moreover have "card A \<le> card (A - page_bytes p) + 4096" using kheap.card_after_take [OF h(1) p] by simp
  moreover have "table_at m' t r = table_at ?m t r" if "path_ok r" "table_at ?m t r \<noteq> None" for r
    using ta [OF that(1)] that(2) none by (auto split: if_splits)
  ultimately show ?thesis
    using w h' tree' none
    by (intro exI [of _ p] exI [of _ st'] exI [of _ "U - page_bytes p"] exI [of _ "A - page_bytes p"])
      (auto simp: st'_def)
qed

text \<open>The tree and its resources after a change: what all operations below keep.\<close>

definition pt_step ::
  "usize list \<Rightarrow> usize \<Rightarrow> kmem \<Rightarrow> nat set \<Rightarrow> nat set \<Rightarrow> kmem \<Rightarrow> nat set \<Rightarrow> nat set \<Rightarrow> bool" where
  "pt_step da t st U A st' U' A' \<longleftrightarrow> heap_pages da st' U' A' \<and> U' \<subseteq> U \<and> A' \<subseteq> A \<and> pt_tree (km_mem st') t U' \<and>
     untouched (A \<union> table_bytes (km_mem st) t) (km_mem st) (km_mem st') \<and>
     table_bytes (km_mem st') t \<subseteq> A \<union> table_bytes (km_mem st) t \<and>
     (\<forall>r. path_ok r \<longrightarrow> table_at (km_mem st) t r \<noteq> None \<longrightarrow> table_at (km_mem st') t r = table_at (km_mem st) t r) \<and>
     (inner_ok (km_mem st) t \<longrightarrow> inner_ok (km_mem st') t)"

lemma pt_step_trans:
  assumes "pt_step da t st U A st1 U1 A1" "pt_step da t st1 U1 A1 st2 U2 A2"
  shows "pt_step da t st U A st2 U2 A2"
proof -
  have "A1 \<union> table_bytes (km_mem st1) t \<subseteq> A \<union> table_bytes (km_mem st) t"
    using assms(1) by (auto simp: pt_step_def)
  then have "untouched (A \<union> table_bytes (km_mem st) t) (km_mem st1) (km_mem st2)"
    using assms(2) untouched_mono by (auto simp: pt_step_def)
  then have "untouched (A \<union> table_bytes (km_mem st) t) (km_mem st) (km_mem st2)"
    using assms(1) untouched_trans by (auto simp: pt_step_def)
  moreover have "table_at (km_mem st2) t r = table_at (km_mem st) t r"
    if "path_ok r" "table_at (km_mem st) t r \<noteq> None" for r
    using assms that unfolding pt_step_def by metis
  ultimately show ?thesis
    using assms unfolding pt_step_def by blast
qed

lemma pt_step_kept:
  "pt_step da t st U A st' U' A' \<Longrightarrow> path_ok r \<Longrightarrow> table_at (km_mem st) t r = Some a \<Longrightarrow> table_at (km_mem st') t r = Some a"
  unfolding pt_step_def by (metis option.distinct(1))

lemma walk_or_create_step:
  assumes "heap_pages da st U A" "table_at (km_mem st) t (q @ [i]) = None \<Longrightarrow> A \<noteq> {}" "kernel_only A" "pt_tree (km_mem st) t U"
    and "path_ok (q @ [i])" "table_at (km_mem st) t q = Some a"
  shows "\<exists>b st' U' A'. walk_or_create da a i g st = Some (b, st') \<and> pt_step da t st U A st' U' A' \<and>
    card A \<le> card A' + (if table_at (km_mem st) t (q @ [i]) = None then 4096 else 0) \<and>
    table_at (km_mem st') t (q @ [i]) = Some b \<and> mapping (km_mem st') t = mapping (km_mem st) t"
proof -
  from walk_or_create_ok [OF assms, of g] obtain b st' U' A' where
    w: "walk_or_create da a i g st = Some (b, st')"
      "card A \<le> card A' + (if table_at (km_mem st) t (q @ [i]) = None then 4096 else 0)"
      "table_at (km_mem st') t (q @ [i]) = Some b"
    and m: "\<forall>x. mapping (km_mem st') t x = mapping (km_mem st) t x"
    and s: "heap_pages da st' U' A'" "U' \<subseteq> U" "A' \<subseteq> A" "pt_tree (km_mem st') t U'"
      "untouched (A \<union> table_bytes (km_mem st) t) (km_mem st) (km_mem st')"
      "table_bytes (km_mem st') t \<subseteq> A \<union> table_bytes (km_mem st) t"
      "\<forall>r. path_ok r \<longrightarrow> table_at (km_mem st) t r \<noteq> None \<longrightarrow> table_at (km_mem st') t r = table_at (km_mem st) t r"
      "inner_ok (km_mem st) t \<longrightarrow> inner_ok (km_mem st') t"
    by blast
  then have "pt_step da t st U A st' U' A'" by (simp add: pt_step_def)
  then show ?thesis using w m by blast
qed

lemma kernel_only_mono: "kernel_only A \<Longrightarrow> A' \<subseteq> A \<Longrightarrow> kernel_only A'"
  by (auto simp: kernel_only_def)

lemma leaf_step:
  assumes h: "heap_pages da st U A" and tree: "pt_tree (km_mem st) t U"
    and a: "table_at (km_mem st) t (va_path va) = Some a" and e: "is_valid e"
  shows "\<exists>st'. write_entry a (px 0 va) e st = Some st' \<and> pt_step da t st U A st' U A \<and>
    mapping (km_mem st') t = (\<lambda>x. if vpn x = vpn va then Some e else mapping (km_mem st) t x)"
proof -
  let ?m = "km_mem st"
  let ?m' = "?m(a + 8 * px 0 va := entry_bits e)"
  have pa: "page_ok a" "page_bytes a \<inter> U = {}"
    using pt_treeD(1) [OF tree path_ok_va a] by (auto simp: table_ok_def)
  have kept: "entries_kept ?m ?m' t a (px 0 va)"
    by (rule entries_keptI [OF tree path_ok_va a px_less untouched_refl empty_subsetI])
  have en: "entry_at ?m' a (px 0 va) = e" by (cases e) (simp add: entry_at_def)
  have same: "table_at ?m' t r = table_at ?m t r" if "path_ok r" for r
    by (rule table_at_leaf [OF tree path_ok_va length_va_path a kept that])
  have un: "untouched (page_bytes a) ?m ?m'"
    by (rule untouched_upd [OF cell_in_page [OF pa(1) px_less] untouched_refl])
  have "(\<exists>q. path_ok q \<and> table_at ?m' t q = Some b) \<longleftrightarrow> (\<exists>q. path_ok q \<and> table_at ?m t q = Some b)" for b
    using same by metis
  then have "table_bytes ?m' t = table_bytes ?m t" by (simp only: table_bytes_def)
  moreover have "page_bytes a \<subseteq> table_bytes ?m t" using path_ok_va [of va] a by (auto simp: table_bytes_def)
  moreover have "pt_tree ?m' t U" using tree same unfolding pt_tree_def by metis
  moreover have "heap_pages da (st\<lparr>km_mem := ?m'\<rparr>) U A" by (rule kheap.write_law [OF h un pa(2)])
  moreover have "inner_ok ?m t \<longrightarrow> inner_ok ?m' t"
    using inner_ok_leaf [OF tree path_ok_va length_va_path a kept] by blast
  ultimately have "pt_step da t st U A (st\<lparr>km_mem := ?m'\<rparr>) U A"
    using untouched_mono [OF un, of "A \<union> table_bytes ?m t"] same by (simp add: pt_step_def le_supI2)
  then show ?thesis
    using mapping_leaf [OF tree a kept en e] by (auto simp: write_entry_def)
qed

text \<open>A page is mapped at the cost of two new tables at most, and of none if its tables exist.\<close>

lemma map_page_ok:
  assumes h: "heap_pages da st U A" and A: "table_at (km_mem st) t (va_path va) = None \<Longrightarrow> 4096 * 2 \<le> card A" "kernel_only A"
    and tree: "pt_tree (km_mem st) t U" and f: "flags_ok flag" "flags_contain flag PTE_V"
  shows "\<exists>st' U' A'. map_page da t pa va flag st = Some st' \<and> pt_step da t st U A st' U' A' \<and>
    card A \<le> card A' + (if table_at (km_mem st) t (va_path va) = None then 4096 * 2 else 0) \<and>
    table_at (km_mem st') t (va_path va) \<noteq> None \<and>
    mapping (km_mem st') t = (\<lambda>x. if vpn x = vpn va then Some (entry_new (from_pa pa) flag) else mapping (km_mem st) t x)"
proof -
  let ?none = "table_at (km_mem st) t (va_path va) = None"
  have up: "table_at (km_mem st) t [px 2 va] \<noteq> None" if "\<not> ?none"
    using that table_at_snoc [of "km_mem st" t "[px 2 va]" "px 1 va"] by (auto simp: va_path_def split: option.splits)
  have "A \<noteq> {}" if "table_at (km_mem st) t ([] @ [px 2 va]) = None" using up A(1) that by fastforce
  moreover have "path_ok ([] @ [px 2 va])" by (simp add: path_ok_def)
  ultimately obtain l1 st1 U1 A1 where
    w1: "walk_or_create da t (px 2 va) (flags_contain flag PTE_G) st = Some (l1, st1)"
    and s1: "pt_step da t st U A st1 U1 A1"
    and c1: "card A \<le> card A1 + (if table_at (km_mem st) t [px 2 va] = None then 4096 else 0)"
    and t1: "table_at (km_mem st1) t [px 2 va] = Some l1" and m1: "mapping (km_mem st1) t = mapping (km_mem st) t"
    using walk_or_create_step [OF h _ A(2) tree, of "[]" "px 2 va" t "flags_contain flag PTE_G"] by auto
  have p1: "path_ok ([px 2 va] @ [px 1 va])" and vp: "[px 2 va] @ [px 1 va] = va_path va"
    by (simp_all add: path_ok_def va_path_def)
  have keep: "table_at (km_mem st1) t (va_path va) \<noteq> None" if "\<not> ?none"
    using that pt_step_kept [OF s1 path_ok_va, of va] by auto
  have c1': "card A \<le> card A1 + (if ?none then 4096 else 0)" using c1 up by (auto split: if_splits)
  have "A1 \<noteq> {}" if n: "table_at (km_mem st1) t (va_path va) = None"
  proof -
    have ?none using n keep by blast
    then show ?thesis using A(1) c1' by auto
  qed
  moreover have "kernel_only A1" "heap_pages da st1 U1 A1" "pt_tree (km_mem st1) t U1"
    using kernel_only_mono [OF A(2)] s1 by (auto simp: pt_step_def)
  ultimately obtain l0 st2 U2 A2 where
    w2: "walk_or_create da l1 (px 1 va) (flags_contain flag PTE_G) st1 = Some (l0, st2)"
    and s2: "pt_step da t st1 U1 A1 st2 U2 A2"
    and c2: "card A1 \<le> card A2 + (if table_at (km_mem st1) t (va_path va) = None then 4096 else 0)"
    and t2: "table_at (km_mem st2) t (va_path va) = Some l0" and m2: "mapping (km_mem st2) t = mapping (km_mem st) t"
    using walk_or_create_step [OF _ _ _ _ p1 t1, of da U1 A1 "flags_contain flag PTE_G"] m1 unfolding vp by metis
  let ?e = "entry_new (from_pa pa) flag"
  have "is_valid ?e" using f by (simp add: is_valid_def entry_new_flag)
  then obtain st' where w3: "write_entry l0 (px 0 va) ?e st2 = Some st'" and s3: "pt_step da t st2 U2 A2 st' U2 A2"
    and m3: "mapping (km_mem st') t = (\<lambda>x. if vpn x = vpn va then Some ?e else mapping (km_mem st2) t x)"
    using leaf_step [OF _ _ t2, of da U2 A2 ?e] s2 unfolding pt_step_def by blast
  have "map_page da t pa va flag st = Some st'" using w1 w2 w3 by (simp add: map_page_def)
  moreover have "card A \<le> card A2 + (if ?none then 4096 * 2 else 0)" using c1' c2 keep by (auto split: if_splits)
  moreover have "table_at (km_mem st') t (va_path va) \<noteq> None" using pt_step_kept [OF s3 path_ok_va t2] by simp
  ultimately show ?thesis using pt_step_trans [OF pt_step_trans [OF s1 s2] s3] m3 [unfolded m2] by blast
qed

text \<open>The loop of \<open>map\<close> as a recursion over the number of pages.\<close>

fun map_pages :: "usize list \<Rightarrow> usize \<Rightarrow> pte_flags \<Rightarrow> nat \<Rightarrow> usize \<Rightarrow> usize \<Rightarrow> kmem \<Rightarrow> kmem option" where
  "map_pages da t flag 0 pa va st = Some st"
| "map_pages da t flag (Suc n) pa va st =
     Option.bind (map_page da t pa va flag st) (map_pages da t flag n (pa + PG_SIZE) (va + PG_SIZE))"

lemma map_loop_pages:
  assumes "unat pa + 4096 * n < 2 ^ 64" "unat pa_end \<le> unat pa + 4096 * n" "unat pa + 4096 * n < unat pa_end + 4096"
  shows "map_loop da t pa_end flag pa va st = map_pages da t flag n pa va st"
  using assms
proof (induction n arbitrary: pa va st)
  case 0
  then have "\<not> pa < pa_end" by (simp add: word_less_nat_alt)
  then show ?case by (simp add: map_loop.simps)
next
  case (Suc n)
  then have "pa < pa_end" by (simp add: word_less_nat_alt)
  moreover have u: "unat (pa + PG_SIZE) = unat pa + 4096"
    using Suc.prems(1) by (subst unat_add_no_wrap) auto
  have "map_loop da t pa_end flag (pa + PG_SIZE) (va + PG_SIZE) =
      map_pages da t flag n (pa + PG_SIZE) (va + PG_SIZE)"
    by (rule ext, rule Suc.IH) (use Suc.prems u in simp_all)
  ultimately show ?case by (subst map_loop.simps) simp
qed

text \<open>
  The mapping of the memory \<open>m'\<close> is that of \<open>m\<close> with \<open>n\<close> pages from \<open>va\<close> on mapped to those
  from \<open>pa\<close> on; where two of them share their indices, the last one counts.
\<close>

definition maps_range :: "memory \<Rightarrow> memory \<Rightarrow> usize \<Rightarrow> pte_flags \<Rightarrow> nat \<Rightarrow> usize \<Rightarrow> usize \<Rightarrow> bool" where
  "maps_range m m' t flag n pa va \<longleftrightarrow>
     (\<forall>x. (\<forall>k < n. vpn x \<noteq> vpn (va + 4096 * of_nat k)) \<longrightarrow> mapping m' t x = mapping m t x) \<and>
     (\<forall>k < n. (\<forall>j < n. k < j \<longrightarrow> vpn (va + 4096 * of_nat k) \<noteq> vpn (va + 4096 * of_nat j)) \<longrightarrow>
       mapping m' t (va + 4096 * of_nat k) = Some (entry_new (from_pa (pa + 4096 * of_nat k)) flag))"

lemma maps_range_Suc:
  assumes m1: "mapping m1 t = (\<lambda>x. if vpn x = vpn va then Some (entry_new (from_pa pa) flag) else mapping m t x)"
    and r: "maps_range m1 m' t flag n (pa + PG_SIZE) (va + PG_SIZE)"
  shows "maps_range m m' t flag (Suc n) pa va"
proof -
  have sh: "x + PG_SIZE + 4096 * of_nat k = x + 4096 * of_nat (Suc k)" for x :: usize and k
    by (simp add: algebra_simps)
  note o = conjunct1 [OF r [unfolded maps_range_def sh], rule_format]
  note i = conjunct2 [OF r [unfolded maps_range_def sh], rule_format]
  have "mapping m' t x = mapping m t x" if u: "\<forall>k < Suc n. vpn x \<noteq> vpn (va + 4096 * of_nat k)" for x
  proof -
    have "mapping m' t x = mapping m1 t x" by (rule o) (use u in blast)
    moreover have "vpn x \<noteq> vpn va" using u [rule_format, of 0] by simp
    ultimately show ?thesis by (simp add: m1)
  qed
  moreover have "mapping m' t (va + 4096 * of_nat k) = Some (entry_new (from_pa (pa + 4096 * of_nat k)) flag)"
    if k: "k < Suc n" and u: "\<forall>j < Suc n. k < j \<longrightarrow> vpn (va + 4096 * of_nat k) \<noteq> vpn (va + 4096 * of_nat j)" for k
  proof (cases k)
    case 0
    have "mapping m' t va = mapping m1 t va"
    proof (rule o)
      fix j assume "j < n"
      then show "vpn va \<noteq> vpn (va + 4096 * of_nat (Suc j))" using u [rule_format, of "Suc j"] 0 by simp
    qed
    then show ?thesis using 0 by (simp add: m1)
  next
    case (Suc k')
    show ?thesis unfolding Suc by (rule i) (use u k Suc in blast)+
  qed
  ultimately show ?thesis unfolding maps_range_def by blast
qed

lemma unat_px: "unat (px l va) = unat va div 2 ^ (12 + 9 * l) mod 512"
proof -
  have "PX_MASK = mask 9" by (simp add: PX_MASK_def NENTRY_def mask_eq_exp_minus_1)
  then have "px l va = take_bit 9 (drop_bit (12 + 9 * l) va)"
    by (simp add: px_def PG_SHIFT_def take_bit_eq_mask)
  then have "unat (px l va) = take_bit 9 (drop_bit (12 + 9 * l) (unat va))"
    by (simp only: unsigned_take_bit_eq unat_drop_bit_eq)
  then show ?thesis by (simp add: take_bit_eq_mod drop_bit_eq_div)
qed

lemma next_page_number: "unat (va + PG_SIZE) div 4096 = Suc (unat va div 4096) mod 2 ^ 52"
proof -
  have "unat (va + PG_SIZE) = (unat va + 4096) mod (4096 * 2 ^ 52)" by (simp add: unat_word_ariths)
  also have "\<dots> = 4096 * ((unat va + 4096) div 4096 mod 2 ^ 52) + (unat va + 4096) mod 4096"
    by (rule mod_mult2_eq)
  finally have "unat (va + PG_SIZE) div 4096 = (unat va + 4096) div 4096 mod 2 ^ 52" by simp
  moreover have "(unat va + 4096) div 4096 = Suc (unat va div 4096)" by simp
  ultimately show ?thesis by (simp only:)
qed

lemma px_page_number:
  "unat (px 0 va) = unat va div 4096 mod 512" "unat (px (Suc 0) va) = unat va div 4096 div 512 mod 512"
  "unat (px 2 va) = unat va div 4096 div 512 div 512 mod 512"
  by (simp_all only: unat_px) (simp_all add: div_mult2_eq [symmetric])

lemma px_next: "unat (px 0 (va + PG_SIZE)) = Suc (unat (px 0 va)) mod 512"
proof -
  have "(512::nat) dvd 2 ^ 52" by simp
  from mod_mod_cancel [OF this] show ?thesis
    unfolding px_page_number(1) next_page_number by (simp only: mod_Suc_eq)
qed

lemma va_path_next:
  assumes "px 0 (va + PG_SIZE) \<noteq> 0"
  shows "va_path (va + PG_SIZE) = va_path va"
proof -
  define N where "N = unat va div 4096"
  have "unat va < 2 ^ 52 * 4096" using unat_usize_less [of va] by simp
  then have "N < 2 ^ 52" unfolding N_def by (rule less_mult_imp_div_less)
  moreover have nz: "Suc N mod 512 \<noteq> 0"
    using assms px_next [of va] px_page_number(1) [of va] unfolding N_def
    by (metis mod_Suc_eq unat_eq_zero)
  moreover have "Suc N \<noteq> 2 ^ 52"
  proof
    assume "Suc N = 2 ^ 52"
    then show False using nz by simp
  qed
  ultimately have n: "unat (va + PG_SIZE) div 4096 = Suc N" unfolding next_page_number N_def [symmetric] by simp
  have "Suc N div 512 = N div 512" using nz by (simp add: div_Suc)
  then show ?thesis
    using n by (simp add: va_path_def word_unat_eq_iff px_page_number N_def)
qed

text \<open>
  The tables that \<open>n\<close> consecutive pages need at most: two for the first page, unless its tables
  are there, and two for every further page that starts a new table of the lowest level.
\<close>

fun tables_needed :: "nat \<Rightarrow> usize \<Rightarrow> bool \<Rightarrow> nat" where
  "tables_needed 0 va fresh = 0"
| "tables_needed (Suc n) va fresh = (if fresh then 2 else 0) + tables_needed n (va + PG_SIZE) (px 0 (va + PG_SIZE) = 0)"

lemma tables_needed_Suc:
  "tables_needed (Suc n) va fresh = (if fresh then 2 else 0) + 2 * ((unat (px 0 va) + n) div 512)"
proof (induction n arbitrary: va fresh)
  case 0
  have "unat (px 0 va) < 512" by (simp add: px_page_number(1))
  then show ?case by simp
next
  case (Suc n)
  let ?o = "unat (px 0 va)" and ?va = "va + PG_SIZE"
  have o: "?o < 512" by (simp add: px_page_number(1))
  have step: "tables_needed (Suc (Suc n)) va fresh =
      (if fresh then 2 else 0) + ((if px 0 ?va = 0 then 2 else 0) + 2 * ((unat (px 0 ?va) + n) div 512))"
    using Suc.IH [of ?va "px 0 ?va = 0"] by simp
  have z: "px 0 ?va = 0 \<longleftrightarrow> unat (px 0 ?va) = 0" by (simp add: unat_eq_zero)
  show ?case
  proof (cases "?o = 511")
    case True
    then have "unat (px 0 ?va) = 0" by (simp only: px_next) simp
    moreover have "(?o + Suc n) div 512 = Suc (n div 512)" using True by simp
    ultimately show ?thesis unfolding step z by simp
  next
    case False
    then have "unat (px 0 ?va) = Suc ?o" using o by (simp only: px_next) simp
    then show ?thesis unfolding step z by simp
  qed
qed

lemma tables_needed_bound: "tables_needed n va True \<le> 2 * (n div 512 + 2)"
proof (cases n)
  case (Suc k)
  have "unat (px 0 va) < 512" by (simp add: px_page_number(1))
  then have "unat (px 0 va) + k \<le> n + 512" using Suc by simp
  then have "(unat (px 0 va) + k) div 512 \<le> (n + 512) div 512" by (rule div_le_mono)
  then have "(unat (px 0 va) + k) div 512 \<le> n div 512 + 1" by simp
  then show ?thesis unfolding Suc [symmetric] using tables_needed_Suc [of k va True] Suc by simp
qed simp

lemma map_pages_ok:
  assumes "heap_pages da st U A" "4096 * tables_needed n va fresh \<le> card A" "kernel_only A" "pt_tree (km_mem st) t U"
    and "\<not> fresh \<Longrightarrow> table_at (km_mem st) t (va_path va) \<noteq> None"
    and f: "flags_ok flag" "flags_contain flag PTE_V"
  shows "\<exists>st' U' A'. map_pages da t flag n pa va st = Some st' \<and> pt_step da t st U A st' U' A' \<and>
    card A \<le> card A' + 4096 * tables_needed n va fresh \<and>
    maps_range (km_mem st) (km_mem st') t flag n pa va"
  using assms(1-5)
proof (induction n arbitrary: st U A pa va fresh)
  case 0
  then have "pt_step da t st U A st U A" by (simp add: pt_step_def)
  then show ?case by (auto simp: maps_range_def)
next
  case (Suc n)
  let ?none = "table_at (km_mem st) t (va_path va) = None" and ?va = "va + PG_SIZE"
  let ?rest = "tables_needed n ?va (px 0 ?va = 0)"
  have "4096 * 2 \<le> card A" if ?none using that Suc.prems(2,5) by (cases fresh) auto
  from map_page_ok [OF Suc.prems(1) this Suc.prems(3,4) f] obtain st1 U1 A1 where
    p1: "map_page da t pa va flag st = Some st1" and s1: "pt_step da t st U A st1 U1 A1"
    and c1: "card A \<le> card A1 + (if ?none then 4096 * 2 else 0)"
    and t1: "table_at (km_mem st1) t (va_path va) \<noteq> None"
    and m1: "mapping (km_mem st1) t = (\<lambda>x. if vpn x = vpn va then Some (entry_new (from_pa pa) flag) else mapping (km_mem st) t x)"
    by blast
  have 1: "heap_pages da st1 U1 A1" "pt_tree (km_mem st1) t U1" "A1 \<subseteq> A" using s1 by (auto simp: pt_step_def)
  have cost: "(if ?none then 4096 * 2 else 0) \<le> (4096::nat) * (if fresh then 2 else 0)"
    using Suc.prems(5) by auto
  then have room: "4096 * ?rest \<le> card A1" using Suc.prems(2) c1 by (simp split: if_splits)
  have "table_at (km_mem st1) t (va_path ?va) \<noteq> None" if "px 0 ?va \<noteq> 0"
    using that t1 va_path_next by simp
  from Suc.IH [OF 1(1) room kernel_only_mono [OF Suc.prems(3) 1(3)] 1(2) this, of "pa + PG_SIZE"]
  obtain st' U' A' where
    p2: "map_pages da t flag n (pa + PG_SIZE) ?va st1 = Some st'" and s2: "pt_step da t st1 U1 A1 st' U' A'"
    and c2: "card A1 \<le> card A' + 4096 * ?rest"
    and r: "maps_range (km_mem st1) (km_mem st') t flag n (pa + PG_SIZE) ?va"
    by blast
  have "map_pages da t flag (Suc n) pa va st = Some st'" using p1 p2 by simp
  moreover have "card A \<le> card A' + 4096 * tables_needed (Suc n) va fresh"
    using c1 c2 cost by (simp add: distrib_left split: if_splits)
  ultimately show ?case using pt_step_trans [OF s1 s2] maps_range_Suc [OF m1 r] by blast
qed

subsection \<open>Page numbers\<close>

lemma mod_pair:
  fixes X Y K :: nat
  shows "X mod (512 * K) = Y mod (512 * K) \<longleftrightarrow> X mod 512 = Y mod 512 \<and> X div 512 mod K = Y div 512 mod K"
proof -
  have "512 * b + a = 512 * d + c \<longleftrightarrow> a = c \<and> b = d" if "a < 512" "c < 512" for a b c d :: nat
  proof
    assume eq: "512 * b + a = 512 * d + c"
    have "a = (512 * b + a) mod 512" "c = (512 * d + c) mod 512" using that by simp_all
    then have "a = c" using eq by metis
    then show "a = c \<and> b = d" using eq by simp
  qed simp
  from this [of "X mod 512" "Y mod 512"] show ?thesis unfolding mod_mult2_eq [of _ 512 K] by simp
qed

lemma vpn_eq_iff: "vpn x = vpn y \<longleftrightarrow> unat x div 4096 mod 2 ^ 27 = unat y div 4096 mod 2 ^ 27"
proof -
  have "(2::nat) ^ 27 = 512 * (512 * 512)" by simp
  then show ?thesis
    by (simp only: mod_pair) (auto simp: vpn_def word_unat_eq_iff px_page_number)
qed

lemma vpn_kernel:
  assumes "in_kernel_space x" "in_kernel_space y"
  shows "vpn x = vpn y \<longleftrightarrow> unat x div 4096 = unat y div 4096"
proof -
  have r: "2 ^ 52 - 2 ^ 26 \<le> unat z div 4096 \<and> unat z div 4096 < 2 ^ 52" if "in_kernel_space z" for z
  proof
    have "(2 ^ 64 - 2 ^ 38) div 4096 \<le> unat z div 4096"
      using that by (intro div_le_mono) (simp only: in_kernel_space_iff)
    then show "2 ^ 52 - 2 ^ 26 \<le> unat z div 4096" by simp
    have "unat z < 2 ^ 52 * 4096" using unat_usize_less [of z] by simp
    then show "unat z div 4096 < 2 ^ 52" by (rule less_mult_imp_div_less)
  qed
  have m: "unat z div 4096 mod 2 ^ 27 = unat z div 4096 - (2 ^ 52 - 2 ^ 27)" if "in_kernel_space z" for z
  proof -
    define d where "d = unat z div 4096 - (2 ^ 52 - 2 ^ 27)"
    have d: "unat z div 4096 = d + 2 ^ 27 * (2 ^ 25 - 1)" "d < 2 ^ 27" using r [OF that] by (auto simp: d_def)
    have "unat z div 4096 mod 2 ^ 27 = d" unfolding d(1) using d(2) by (simp only: mod_mult_self2 mod_less)
    then show ?thesis by (simp only: d_def)
  qed
  show ?thesis
    unfolding vpn_eq_iff m [OF assms(1)] m [OF assms(2)] using r [OF assms(1)] r [OF assms(2)] by (subst eq_diff_iff) auto
qed

lemma mapping_vpn: "vpn x = vpn y \<Longrightarrow> mapping m t x = mapping m t y"
  by (simp add: mapping_def va_path_def vpn_def split: option.splits)

text \<open>Pages of a range that does not wrap around and is not longer than the address space.\<close>

lemma unat_range:
  fixes va :: usize
  assumes "unat va + 4096 * n \<le> 2 ^ 64" "k < n"
  shows "unat (va + 4096 * of_nat k) = unat va + 4096 * k"
proof -
  have k: "4096 * k + 4096 \<le> 4096 * n" using assms(2) by simp
  then have "4096 * k < 2 ^ 64" using assms(1) by linarith
  then have "unat (of_nat (4096 * k) :: usize) = 4096 * k" by (subst unat_of_nat_small) auto
  then have "unat (va + of_nat (4096 * k)) = unat va + 4096 * k"
    using assms(1) k by (subst unat_add_no_wrap) auto
  then show ?thesis by simp
qed

lemma range_inj:
  assumes "unat va + 4096 * n \<le> 2 ^ 64" "n \<le> 2 ^ 27" "j < n" "k < n"
    and "vpn (va + 4096 * of_nat j) = vpn (va + 4096 * of_nat k)"
  shows "j = k"
proof -
  define V where "V = unat va div 4096"
  have "(V + j) mod 2 ^ 27 = (V + k) mod 2 ^ 27"
    using assms(5) unfolding vpn_eq_iff unat_range [OF assms(1,3)] unat_range [OF assms(1,4)] V_def
    by (metis add.commute div_mult_self2 zero_neq_numeral)
  then have "2 ^ 27 dvd k - j" "2 ^ 27 dvd j - k"
    by (metis mod_eq_dvd_iff_nat add_diff_cancel_left diff_is_0_eq dvd_0_right nat_le_linear add_le_cancel_left)+
  moreover have "k - j < 2 ^ 27" "j - k < 2 ^ 27" using assms(2-4) by linarith+
  ultimately have "k - j = 0" "j - k = 0" using nat_dvd_not_less by blast+
  then show ?thesis by simp
qed

subsection \<open>Mapping a range\<close>

definition page_count :: "usize \<Rightarrow> nat" where
  "page_count sz = (unat sz + 4095) div 4096"

lemma page_count_bounds: "unat sz \<le> 4096 * page_count sz" "4096 * page_count sz < unat sz + 4096"
proof -
  have "unat sz + 4095 = (unat sz + 4095) div 4096 * 4096 + (unat sz + 4095) mod 4096" by simp
  moreover have "(unat sz + 4095) mod 4096 < 4096" by simp
  ultimately show "unat sz \<le> 4096 * page_count sz" "4096 * page_count sz < unat sz + 4096"
    unfolding page_count_def by linarith+
qed

lemma pt_map_pages:
  assumes "unat (phys_value pa) + unat sz + 4096 \<le> 2 ^ 64"
  shows "pt_map da t pa va sz flag st =
    (if phys_is_aligned pa \<and> is_page_aligned va
     then map_pages da t flag (page_count sz) (phys_value pa) va st else None)"
proof -
  let ?p = "phys_value pa"
  have "unat (?p + sz) = unat ?p + unat sz" using assms by (subst unat_add_no_wrap) auto
  then have "map_loop da t (?p + sz) flag ?p va st = map_pages da t flag (page_count sz) ?p va st"
    using page_count_bounds [of sz] assms by (intro map_loop_pages) linarith+
  then show ?thesis by (simp add: pt_map_def)
qed

lemma pt_map_ok:
  assumes h: "heap_pages da st U A" "4096 * tables_needed (page_count sz) va True \<le> card A" "kernel_only A"
    and tree: "pt_tree (km_mem st) t U" and f: "flags_ok flag" "flags_contain flag PTE_V"
    and al: "phys_is_aligned pa" "is_page_aligned va" and ov: "unat (phys_value pa) + unat sz + 4096 \<le> 2 ^ 64"
  shows "\<exists>st' U' A'. pt_map da t pa va sz flag st = Some st' \<and> pt_step da t st U A st' U' A' \<and>
    card A \<le> card A' + 4096 * tables_needed (page_count sz) va True \<and>
    maps_range (km_mem st) (km_mem st') t flag (page_count sz) (phys_value pa) va"
  using map_pages_ok [OF h tree _ f, of "phys_value pa"] al
  by (simp add: pt_map_pages [OF ov])

lemma maps_range_hit:
  assumes r: "maps_range m m' t flag n pa va" and n: "unat va + 4096 * n \<le> 2 ^ 64" "n \<le> 2 ^ 27" and k: "k < n"
  shows "mapping m' t (va + 4096 * of_nat k) = Some (entry_new (from_pa (pa + 4096 * of_nat k)) flag)"
proof -
  have "vpn (va + 4096 * of_nat k) \<noteq> vpn (va + 4096 * of_nat j)" if "j < n" "k < j" for j
    using range_inj [OF n k that(1)] that(2) by auto
  then show ?thesis using r k unfolding maps_range_def by blast
qed

lemma maps_range_miss:
  assumes "maps_range m m' t flag n pa va" "\<And>k. k < n \<Longrightarrow> vpn x \<noteq> vpn (va + 4096 * of_nat k)"
  shows "mapping m' t x = mapping m t x"
  using assms unfolding maps_range_def by blast

text \<open>Every entry is an old one or has the flags of the call.\<close>

lemma maps_range_cases:
  assumes r: "maps_range m m' t flag n pa va" and n: "unat va + 4096 * n \<le> 2 ^ 64" "n \<le> 2 ^ 27"
  shows "mapping m' t x = mapping m t x \<or> (\<exists>p. mapping m' t x = Some (entry_new p flag))"
proof (cases "\<exists>k < n. vpn x = vpn (va + 4096 * of_nat k)")
  case True
  then obtain k where "k < n" "vpn x = vpn (va + 4096 * of_nat k)" by blast
  then show ?thesis using maps_range_hit [OF r n, of k] mapping_vpn [of x "va + 4096 * of_nat k" m' t] by auto
next
  case False
  then show ?thesis using maps_range_miss [OF r, of x] by blast
qed

lemma get_pte_mapping:
  "mapping m t va = Some e \<longleftrightarrow> pt_get_pte m t va = Some (Some e) \<and> is_valid e"
  by (auto simp: mapping_def get_pte_table split: option.splits if_splits)

end
