(* ===== verification/Kernel_Space.thy ===== *)
theory Kernel_Space
  imports Page_Table
begin

text \<open>
  Properties of the page tables: \<open>PageTable::map\<close> and \<open>get_pte\<close>, the page table of the kernel
  that \<open>KernelPgTable::init_inner\<close> builds, its clones, and the translation of user addresses.
\<close>

section \<open>Segments of the kernel space\<close>

definition maps_segment :: "memory \<Rightarrow> memory \<Rightarrow> usize \<Rightarrow> pte_flags \<Rightarrow> usize \<Rightarrow> usize \<Rightarrow> bool" where
  "maps_segment m m' t flag va sz \<longleftrightarrow>
     (\<forall>x. in_kernel_space x \<and> is_page_aligned x \<longrightarrow> mapping m' t x =
        (if unat va \<le> unat x \<and> unat x < unat va + unat sz then Some (entry_new (PhysAddr (x - VM_OFFSET)) flag)
         else mapping m t x)) \<and>
     (\<forall>x. mapping m' t x = mapping m t x \<or> (\<exists>p. mapping m' t x = Some (entry_new p flag)))"

lemma maps_range_segment:
  assumes r: "maps_range m m' t flag (page_count sz) (va - VM_OFFSET) va"
    and va: "in_kernel_space va" "is_page_aligned va" and sz: "4096 dvd unat sz" "unat va + unat sz \<le> 2 ^ 64"
  shows "maps_segment m m' t flag va sz"
proof -
  define n where "n = unat sz div 4096"
  have n: "unat sz = 4096 * n" using sz(1) by (simp add: n_def)
  have pc: "page_count sz = n" using n by (simp add: page_count_def)
  have ov: "unat va + 4096 * n \<le> 2 ^ 64" using sz(2) n by simp
  have "unat sz \<le> 2 ^ 38" using sz(2) va(1) unfolding in_kernel_space_iff by linarith
  then have n27: "n \<le> 2 ^ 27" using n by simp
  note r = r [unfolded pc]
  have "mapping m' t x = (if unat va \<le> unat x \<and> unat x < unat va + unat sz
      then Some (entry_new (PhysAddr (x - VM_OFFSET)) flag) else mapping m t x)"
    if x: "in_kernel_space x" "is_page_aligned x" for x
  proof (cases "unat va \<le> unat x \<and> unat x < unat va + unat sz")
    case True
    obtain c d where cd: "unat va = 4096 * c" "unat x = 4096 * d"
      using x(2) va(2) by (auto simp: is_page_aligned_iff elim!: dvdE)
    have k: "d - c < n" "c \<le> d" using True cd n by auto
    have "unat (va + 4096 * of_nat (d - c)) = unat x" using unat_range [OF ov k(1)] cd k by (simp add: diff_mult_distrib2)
    then have xk: "va + 4096 * of_nat (d - c) = x" by (simp add: word_unat_eq_iff)
    have yk: "va - VM_OFFSET + 4096 * of_nat (d - c) = x - VM_OFFSET" unfolding xk [symmetric] by (simp add: algebra_simps)
    have "mapping m' t x = Some (entry_new (PhysAddr (x - VM_OFFSET)) flag)"
      using maps_range_hit [OF r ov n27 k(1)] by (simp only: xk yk from_pa_def)
    then show ?thesis using True by simp
  next
    case False
    have "vpn x \<noteq> vpn (va + 4096 * of_nat k)" if k: "k < n" for k
    proof
      assume v: "vpn x = vpn (va + 4096 * of_nat k)"
      have u: "unat (va + 4096 * of_nat k) = unat va + 4096 * k" by (rule unat_range [OF ov k])
      then have "in_kernel_space (va + 4096 * of_nat k)" using va(1) unfolding in_kernel_space_iff by linarith
      from v vpn_kernel [OF x(1) this] have "unat x div 4096 = (unat va + 4096 * k) div 4096" by (simp only: u)
      moreover have "4096 dvd unat x" "4096 dvd unat va + 4096 * k"
        using x(2) va(2) by (auto simp: is_page_aligned_iff)
      ultimately have "unat x = unat va + 4096 * k" by (metis dvd_mult_div_cancel)
      then show False using False k n by simp
    qed
    then show ?thesis using maps_range_miss [OF r] False by auto
  qed
  moreover have "mapping m' t x = mapping m t x \<or> (\<exists>p. mapping m' t x = Some (entry_new p flag))" for x
    by (rule maps_range_cases [OF r ov n27])
  ultimately show ?thesis unfolding maps_segment_def by blast
qed

lemma maps_segmentD:
  assumes "maps_segment m m' t flag va sz" "in_kernel_space x" "is_page_aligned x"
  shows "mapping m' t x =
    (if unat va \<le> unat x \<and> unat x < unat va + unat sz then Some (entry_new (PhysAddr (x - VM_OFFSET)) flag)
     else mapping m t x)"
  using assms unfolding maps_segment_def by blast

lemma kernel_phys:
  assumes "in_kernel_space va" "is_page_aligned va"
  shows "phys_from_va va = Some (PhysAddr (va - VM_OFFSET))" "phys_is_aligned (PhysAddr (va - VM_OFFSET))"
    "unat (va - VM_OFFSET) < 2 ^ 38"
proof -
  show p: "phys_from_va va = Some (PhysAddr (va - VM_OFFSET))" by (rule into_va_from_va [OF assms(1)])
  show "unat (va - VM_OFFSET) < 2 ^ 38" using into_va_phys_from_va [OF p] by simp
  have "unat (va - VM_OFFSET) = unat va - (2 ^ 64 - 2 ^ 38)"
    using assms(1) by (subst unat_diff_no_wrap) (simp_all add: unat_VM_OFFSET in_kernel_space_iff)
  moreover have "(4096::nat) dvd 2 ^ 64 - 2 ^ 38" by simp
  ultimately have "4096 dvd unat (va - VM_OFFSET)" using assms(2) by (simp add: is_page_aligned_iff dvd_diff_nat)
  then have "is_page_aligned (va - VM_OFFSET)" by (simp add: is_page_aligned_iff)
  then show "phys_is_aligned (PhysAddr (va - VM_OFFSET))"
    by (simp add: phys_is_aligned_def phys_floor_def is_page_aligned_def page_floor_def)
qed

text \<open>A bound on the number of new tables of a segment.\<close>

definition segment_tables :: "usize \<Rightarrow> nat" where
  "segment_tables sz = 2 * (unat sz div 4096 div 512 + 2)"

lemma map_segment_ok:
  assumes h: "heap_pages da st U A" "4096 * segment_tables sz \<le> card A" "kernel_only A"
    and tree: "pt_tree (km_mem st) t U" and f: "flags_ok flag" "flags_contain flag PTE_V"
    and va: "in_kernel_space va" "is_page_aligned va" and sz: "4096 dvd unat sz" "unat va + unat sz \<le> 2 ^ 64"
  shows "\<exists>st' U' A'. pt_map da t (PhysAddr (va - VM_OFFSET)) va sz flag st = Some st' \<and> pt_step da t st U A st' U' A' \<and>
    card A \<le> card A' + 4096 * segment_tables sz \<and> maps_segment (km_mem st) (km_mem st') t flag va sz"
proof -
  note k = kernel_phys [OF va]
  have pc: "page_count sz = unat sz div 4096" using sz(1) by (auto simp: page_count_def elim!: dvdE)
  have "unat sz \<le> 2 ^ 38" using sz(2) va(1) unfolding in_kernel_space_iff by linarith
  then have "unat (phys_value (PhysAddr (va - VM_OFFSET))) + unat sz + 4096 \<le> 2 ^ 64" using k(3) by simp
  moreover have tn: "tables_needed (page_count sz) va True \<le> segment_tables sz"
    using tables_needed_bound [of "page_count sz" va] by (simp add: segment_tables_def pc)
  then have "4096 * tables_needed (page_count sz) va True \<le> card A" using h(2) by simp
  ultimately obtain st' U' A' where
    "pt_map da t (PhysAddr (va - VM_OFFSET)) va sz flag st = Some st'" "pt_step da t st U A st' U' A'"
    "card A \<le> card A' + 4096 * tables_needed (page_count sz) va True"
    and r: "maps_range (km_mem st) (km_mem st') t flag (page_count sz) (va - VM_OFFSET) va"
    using pt_map_ok [OF h(1) _ h(3) tree f k(2) va(2)] by (metis phys_value.simps)
  moreover from this have "card A \<le> card A' + 4096 * segment_tables sz" using tn by simp
  ultimately show ?thesis using maps_range_segment [OF r va sz] by blast
qed

section \<open>A new page table\<close>

lemma new_table:
  assumes "heap_pages da st U A" "A \<noteq> {}" "kernel_only A"
  shows "\<exists>t st'. pt_new da st = Some (t, st') \<and> page_ok t \<and> in_kernel_space t \<and> page_bytes t \<subseteq> A \<and>
    heap_pages da st' (U - page_bytes t) (A - page_bytes t) \<and> untouched A (km_mem st) (km_mem st') \<and>
    card (A - page_bytes t) + 4096 = card A \<and>
    pt_tree (km_mem st') t (U - page_bytes t) \<and> mapping (km_mem st') t = Map.empty \<and>
    table_bytes (km_mem st') t = page_bytes t \<and> (\<forall>i < NENTRY. \<not> is_valid (entry_at (km_mem st') t i))"
proof -
  from pt_new_ok [OF assms(1,2)] obtain t st' where n: "pt_new da st = Some (t, st')" and t: "page_ok t" "page_bytes t \<subseteq> A"
    and h: "heap_pages da st' (U - page_bytes t) (A - page_bytes t)" "untouched A (km_mem st) (km_mem st')"
    and z: "\<forall>a. unat a \<in> page_bytes t \<longrightarrow> km_mem st' a = 0" by blast
  let ?m = "km_mem st'"
  have inv: "\<not> is_valid (entry_at ?m t i)" if "i < NENTRY" for i
    using z cell_in_page [OF t(1) that] entry_0_invalid by (simp add: entry_at_def)
  have only: "table_at ?m t q = (if q = [] then Some t else None)" if "path_ok q" for q
    using that inv by (cases q) (auto simp: table_at.simps path_ok_def)
  have tk: "in_kernel_space t"
    using assms(3) t(2) page_start [of t] unfolding in_kernel_space_iff kernel_only_def by blast
  have "pt_tree ?m t (U - page_bytes t)"
    unfolding pt_tree_def using only t(1) tk by (auto simp: table_ok_def)
  moreover have "mapping ?m t x = None" for x
    using only [OF path_ok_va, of x] by (simp add: mapping_def va_path_def)
  moreover have "{a. \<exists>q. path_ok q \<and> table_at ?m t q = Some a} = {t}"
    using only by (auto intro!: exI [of _ "[]"] simp: path_ok_def split: if_splits)
  then have "table_bytes ?m t = page_bytes t" by (simp add: table_bytes_def)
  ultimately show ?thesis
    using n t h tk inv kheap.card_after_take [OF assms(1) t] by (intro exI [of _ t] exI [of _ st']) auto
qed

lemma empty_inner_ok:
  assumes "\<forall>i < NENTRY. \<not> is_valid (entry_at m t i)"
  shows "inner_ok m t"
proof -
  have "table_at m t q = (if q = [] then Some t else None)" if "path_ok q" for q
    using that assms by (cases q) (auto simp: table_at.simps path_ok_def)
  then show ?thesis using assms by (auto simp: inner_ok_def path_ok_snoc)
qed

section \<open>The page table of the kernel\<close>

definition FLAGS_RX :: pte_flags where
  "FLAGS_RX = PTE_R OR PTE_X OR PTE_G OR PTE_V"

definition FLAGS_RW :: pte_flags where
  "FLAGS_RW = PTE_R OR PTE_W OR PTE_G OR PTE_V"

lemma kernel_flags:
  "flags_ok FLAGS_RX" "flags_contain FLAGS_RX PTE_V" "flags_ok FLAGS_RW" "flags_contain FLAGS_RW PTE_V"
  by (simp_all add: FLAGS_RX_def FLAGS_RW_def flags_ok_def flags_contain_def PTE_R_def PTE_W_def PTE_X_def
      PTE_G_def PTE_V_def)

text \<open>Some pages of the kernel: text and data, and the registers of the devices.\<close>

definition kr_base :: usize where
  "kr_base = KERN_BASE + VM_OFFSET"

lemma kernel_constants:
  "kr_base - VM_OFFSET = KERN_BASE" "unat kr_base = 2 ^ 64 - 2 ^ 38 + 0x80200000"
  "unat PLIC_BASE = 2 ^ 64 - 2 ^ 38 + 0xC000000" "unat MMIO_BASE = 2 ^ 64 - 2 ^ 38 + 0x10001000"
  "unat VM_BASE = 2 ^ 64 - 2 ^ 38 + 0x80000000"
  by (simp_all add: kr_base_def KERN_BASE_def VM_OFFSET_eq PLIC_BASE_def MMIO_BASE_def VM_BASE_def)

lemma kernel_aligned:
  "in_kernel_space kr_base" "is_page_aligned kr_base" "in_kernel_space PLIC_BASE" "is_page_aligned PLIC_BASE"
  "in_kernel_space MMIO_BASE" "is_page_aligned MMIO_BASE"
  by (simp_all only: in_kernel_space_iff is_page_aligned_iff kernel_constants) simp_all

text \<open>No page is both writable and executable.\<close>

definition write_xor_exec :: "memory \<Rightarrow> usize \<Rightarrow> bool" where
  "write_xor_exec m t \<longleftrightarrow> (\<forall>x e. mapping m t x = Some e \<longrightarrow> \<not> (flags_contain (entry_flag e) PTE_W \<and> is_executable e))"

lemma write_xor_exec_step:
  assumes "write_xor_exec m t" "maps_segment m m' t flag va sz" "flag = FLAGS_RX \<or> flag = FLAGS_RW"
  shows "write_xor_exec m' t"
proof -
  have "flags_ok flag" "\<not> (flags_contain flag PTE_W \<and> flags_contain flag PTE_X)"
    using assms(3) kernel_flags
    by (auto simp: FLAGS_RX_def FLAGS_RW_def flags_contain_def PTE_R_def PTE_W_def PTE_X_def PTE_G_def PTE_V_def)
  then have new: "\<not> (flags_contain (entry_flag (entry_new p flag)) PTE_W \<and> is_executable (entry_new p flag))" for p
    by (simp add: is_executable_def entry_new_flag)
  show ?thesis
    unfolding write_xor_exec_def
  proof (intro allI impI)
    fix x e assume e: "mapping m' t x = Some e"
    consider "mapping m' t x = mapping m t x" | p where "mapping m' t x = Some (entry_new p flag)"
      using assms(2) unfolding maps_segment_def by blast
    then show "\<not> (flags_contain (entry_flag e) PTE_W \<and> is_executable e)"
      using assms(1) new e unfolding write_xor_exec_def by cases auto
  qed
qed

lemma activate_effective:
  assumes "page_ok t" "in_kernel_space t"
  shows "\<exists>satp. activate t = Some satp \<and> effective_pagetable satp = Some t"
proof -
  define a where "a = t - VM_OFFSET"
  have al: "is_page_aligned t" by (rule page_ok_aligned [OF assms(1)])
  note k = kernel_phys [OF assms(2) al]
  have dv: "4096 dvd unat a"
    using k(2) by (simp add: a_def phys_is_aligned_def phys_floor_def is_page_aligned_def [symmetric]
        page_floor_def [symmetric] is_page_aligned_iff)
  have "take_bit 38 a = a"
    using k(3) by (simp add: a_def word_unat_eq_iff unsigned_take_bit_eq take_bit_nat_eq_self)
  then have hi: "n < 38" if "bit a n" for n using that by (metis bit_take_bit_iff)
  have md: "SV39_MODE = 2 ^ 63" by (simp add: SV39_MODE_def)
  have sv: "bit SV39_MODE n \<longleftrightarrow> n = 63" for n unfolding md by (simp only: bit_exp_iff) auto
  have "(drop_bit 12 a OR SV39_MODE) AND PPN_MASK = drop_bit 12 a AND PPN_MASK"
    using sv by (intro bit_word_eqI) (auto simp: PPN_MASK_eq bit_simps)
  moreover have "push_bit 12 (drop_bit 12 a AND PPN_MASK) = a"
    using aligned_page_bits [OF dv] k(3) by (simp add: a_def PG_SHIFT_def)
  ultimately have "effective_pagetable (phys_ppn (PhysAddr a) OR SV39_MODE) = from_raw (into_va (PhysAddr a))"
    by (simp add: effective_pagetable_def phys_ppn_def PG_SHIFT_def from_pa_def)
  then show ?thesis
    using k(1) al by (simp add: activate_def a_def into_va_def from_raw_def)
qed

text \<open>A bound on the tables of the kernel, of which each covers 512 pages.\<close>

definition kernel_tables :: "usize \<Rightarrow> nat" where
  "kernel_tables ram_size = 1 + 2 * ((unat ram_size - 0x200000) div 4096 div 512 + 4) + 12"

text \<open>One call of \<open>map\<close> in \<open>init_inner\<close>, with what it keeps.\<close>

definition kpt_inv ::
  "usize list \<Rightarrow> usize \<Rightarrow> kmem \<Rightarrow> nat set \<Rightarrow> nat set \<Rightarrow> kmem \<Rightarrow> nat set \<Rightarrow> nat set \<Rightarrow> nat \<Rightarrow> bool" where
  "kpt_inv da t st0 U0 A0 st U A left \<longleftrightarrow> pt_step da t st0 U0 A0 st U A \<and> kernel_only A \<and> 4096 * left \<le> card A \<and>
     write_xor_exec (km_mem st) t"

lemma kpt_map:
  assumes inv: "kpt_inv da t st0 U0 A0 st U A left" and f: "flag = FLAGS_RX \<or> flag = FLAGS_RW"
    and va: "in_kernel_space va" "is_page_aligned va" and sz: "4096 dvd unat sz" "unat va + unat sz \<le> 2 ^ 64"
    and n: "segment_tables sz + rest \<le> left"
  shows "\<exists>st' U' A'. pt_map da t (PhysAddr (va - VM_OFFSET)) va sz flag st = Some st' \<and>
    kpt_inv da t st0 U0 A0 st' U' A' rest \<and> maps_segment (km_mem st) (km_mem st') t flag va sz"
proof -
  have s: "pt_step da t st0 U0 A0 st U A" and k: "kernel_only A" and c: "4096 * left \<le> card A"
    and w: "write_xor_exec (km_mem st) t" using inv by (auto simp: kpt_inv_def)
  have h: "heap_pages da st U A" "pt_tree (km_mem st) t U" using s by (auto simp: pt_step_def)
  have f': "flags_ok flag" "flags_contain flag PTE_V" using f kernel_flags by auto
  have "4096 * segment_tables sz \<le> card A" using c n by simp
  from map_segment_ok [OF h(1) this k h(2) f' va sz] obtain st' U' A' where
    m: "pt_map da t (PhysAddr (va - VM_OFFSET)) va sz flag st = Some st'" and s': "pt_step da t st U A st' U' A'"
    and c': "card A \<le> card A' + 4096 * segment_tables sz" and g: "maps_segment (km_mem st) (km_mem st') t flag va sz"
    by blast
  have "kernel_only A'" using kernel_only_mono [OF k] s' by (auto simp: pt_step_def)
  moreover have "4096 * rest \<le> card A'" using c c' n by simp
  ultimately have "kpt_inv da t st0 U0 A0 st' U' A' rest"
    using pt_step_trans [OF s s'] write_xor_exec_step [OF w g f] by (simp add: kpt_inv_def)
  then show ?thesis using m g by blast
qed

text \<open>The entry of a page of the kernel.\<close>

definition kernel_entry :: "usize \<Rightarrow> usize \<Rightarrow> entry" where
  "kernel_entry etext x = entry_new (PhysAddr (x - VM_OFFSET)) (if x < etext then FLAGS_RX else FLAGS_RW)"

lemma init_inner_ok:
  assumes h: "heap_pages da st U A" "kernel_only A" "4096 * kernel_tables ram_size \<le> card A"
    and e: "is_page_aligned etext" "kr_base \<le> etext" "etext \<le> VM_BASE + ram_size"
    and ram: "is_page_aligned ram_size" "unat ram_size + 2 ^ 31 < 2 ^ 38"
  shows "\<exists>root satp st' U' A'. init_inner da etext ram_size st = Some (root, satp, st') \<and>
    heap_pages da st' U' A' \<and> pt_tree (km_mem st') root U' \<and> write_xor_exec (km_mem st') root \<and>
    untouched A (km_mem st) (km_mem st') \<and> A' \<subseteq> A \<and>
    effective_pagetable satp = Some root \<and> activate root = Some satp \<and> inner_ok (km_mem st') root \<and>
    (\<forall>x. is_page_aligned x \<and> kr_base \<le> x \<and> x < VM_BASE + ram_size \<longrightarrow>
      mapping (km_mem st') root x = Some (kernel_entry etext x))"
proof -
  let ?top = "VM_BASE + ram_size"
  have "A \<noteq> {}" using h(3) by (auto simp: kernel_tables_def)
  from new_table [OF h(1) this h(2)] obtain t st1 where
    n: "pt_new da st = Some (t, st1)" and t: "page_ok t" "in_kernel_space t" "page_bytes t \<subseteq> A"
    and h1: "heap_pages da st1 (U - page_bytes t) (A - page_bytes t)" and un1: "untouched A (km_mem st) (km_mem st1)"
    and c1: "card (A - page_bytes t) + 4096 = card A"
    and tr1: "pt_tree (km_mem st1) t (U - page_bytes t)" and m1: "mapping (km_mem st1) t = Map.empty"
    and tb1: "table_bytes (km_mem st1) t = page_bytes t"
    and e1: "\<forall>i < NENTRY. \<not> is_valid (entry_at (km_mem st1) t i)" by blast
  define A1 where "A1 = A - page_bytes t"
  define tsz where "tsz = etext - kr_base"
  define dsz where "dsz = ?top - etext"
  have ue: "unat ?top = unat VM_BASE + unat ram_size"
    using ram(2) by (subst unat_add_no_wrap) (simp_all add: kernel_constants)
  have le: "unat kr_base \<le> unat etext" "unat etext \<le> unat ?top" using e by (simp_all add: word_le_nat_alt)
  have ut: "unat tsz = unat etext - unat kr_base" and ud: "unat dsz = unat ?top - unat etext"
    using le by (simp_all add: tsz_def dsz_def unat_diff_no_wrap)
  have al: "4096 dvd unat tsz" "4096 dvd unat dsz"
    using e(1) kernel_aligned(2) ram(1) unfolding ut ud ue
    by (auto simp: is_page_aligned_iff kernel_constants intro!: dvd_diff_nat)
  have ek: "in_kernel_space etext" using le(1) kernel_aligned(1) unfolding in_kernel_space_iff by linarith
  have "unat tsz + unat dsz = unat ram_size - 0x200000"
    using le unfolding ut ud ue kernel_constants by linarith
  then have "unat tsz div 4096 + unat dsz div 4096 = (unat ram_size - 0x200000) div 4096"
    using al by (metis div_add)
  then have "unat tsz div 4096 div 512 + unat dsz div 4096 div 512 \<le> (unat ram_size - 0x200000) div 4096 div 512"
    by (metis div_add1_eq le_add1)
  then have N: "segment_tables tsz + (segment_tables dsz + (8 + 4)) \<le> kernel_tables ram_size - 1"
    by (simp add: kernel_tables_def segment_tables_def)
  have "kpt_inv da t st1 (U - page_bytes t) A1 st1 (U - page_bytes t) A1 (kernel_tables ram_size - 1)"
    using h1 tr1 c1 h(3) m1 kernel_only_mono [OF h(2), of A1]
    by (simp add: kpt_inv_def pt_step_def A1_def write_xor_exec_def Diff_subset diff_mult_distrib2)
  from kpt_map [OF this _ kernel_aligned(1,2) al(1) _ N, of FLAGS_RX] le(2) obtain st2 U2 A2 where
    p2: "pt_map da t (PhysAddr KERN_BASE) kr_base tsz FLAGS_RX st1 = Some st2"
    and i2: "kpt_inv da t st1 (U - page_bytes t) A1 st2 U2 A2 (segment_tables dsz + (8 + 4))"
    and g2: "maps_segment (km_mem st1) (km_mem st2) t FLAGS_RX kr_base tsz"
    unfolding kernel_constants(1) ut using unat_usize_less [of etext] le(1) by auto
  have "unat etext + unat dsz \<le> 2 ^ 64" using le(2) unat_usize_less [of ?top] unfolding ud by linarith
  from kpt_map [OF i2 _ ek e(1) al(2) this order_refl, of FLAGS_RW] obtain st3 U3 A3 where
    p3: "pt_map da t (PhysAddr (etext - VM_OFFSET)) etext dsz FLAGS_RW st2 = Some st3"
    and i3: "kpt_inv da t st1 (U - page_bytes t) A1 st3 U3 A3 (8 + 4)"
    and g3: "maps_segment (km_mem st2) (km_mem st3) t FLAGS_RW etext dsz" by blast
  from kpt_map [OF i3 _ kernel_aligned(3,4), of FLAGS_RW "0x400000" 4] obtain st4 U4 A4 where
    p4: "pt_map da t (PhysAddr (PLIC_BASE - VM_OFFSET)) PLIC_BASE 0x400000 FLAGS_RW st3 = Some st4"
    and i4: "kpt_inv da t st1 (U - page_bytes t) A1 st4 U4 A4 4"
    and g4: "maps_segment (km_mem st3) (km_mem st4) t FLAGS_RW PLIC_BASE 0x400000"
    by (auto simp: kernel_constants segment_tables_def)
  from kpt_map [OF i4 _ kernel_aligned(5,6), of FLAGS_RW PG_SIZE 0] obtain st5 U5 A5 where
    p5: "pt_map da t (PhysAddr (MMIO_BASE - VM_OFFSET)) MMIO_BASE PG_SIZE FLAGS_RW st4 = Some st5"
    and i5: "kpt_inv da t st1 (U - page_bytes t) A1 st5 U5 A5 0"
    and g5: "maps_segment (km_mem st4) (km_mem st5) t FLAGS_RW MMIO_BASE PG_SIZE"
    by (auto simp: kernel_constants segment_tables_def)
  obtain satp where sa: "activate t = Some satp" "effective_pagetable satp = Some t"
    using activate_effective [OF t(1,2)] by blast
  have "init_inner da etext ram_size st = Some (t, satp, st5)"
    using n p2 p3 p4 p5 sa(1) into_va_from_va [OF ek] into_va_from_va [OF kernel_aligned(3)]
      into_va_from_va [OF kernel_aligned(5)]
    by (simp add: init_inner_def Let_def from_pa_def kr_base_def [symmetric] tsz_def [symmetric]
        dsz_def [symmetric] FLAGS_RX_def [symmetric] FLAGS_RW_def [symmetric])
  moreover have "heap_pages da st5 U5 A5" "pt_tree (km_mem st5) t U5" "write_xor_exec (km_mem st5) t" "A5 \<subseteq> A"
    using i5 by (auto simp: kpt_inv_def pt_step_def A1_def)
  moreover have "inner_ok (km_mem st5) t"
    using i5 empty_inner_ok [OF e1] by (simp add: kpt_inv_def pt_step_def)
  moreover have "untouched A (km_mem st1) (km_mem st5)"
    using i5 untouched_mono [of "A1 \<union> page_bytes t" _ _ A] t(3) by (auto simp: kpt_inv_def pt_step_def A1_def tb1)
  then have "untouched A (km_mem st) (km_mem st5)" by (rule untouched_trans [OF un1])
  moreover have "mapping (km_mem st5) t x = Some (kernel_entry etext x)"
    if x: "is_page_aligned x" "kr_base \<le> x" "x < ?top" for x
  proof -
    have ux: "unat kr_base \<le> unat x" "unat x < unat ?top" using x by (simp_all add: word_le_nat_alt word_less_nat_alt)
    have xk: "in_kernel_space x" using ux(1) kernel_aligned(1) unfolding in_kernel_space_iff by linarith
    note seg = maps_segmentD [OF _ xk x(1)]
    have "mapping (km_mem st5) t x = mapping (km_mem st3) t x"
      using seg [OF g5] seg [OF g4] ux(1) by (simp add: kernel_constants)
    also have "\<dots> = Some (kernel_entry etext x)"
    proof (cases "x < etext")
      case True
      then have "unat x < unat etext" by (simp add: word_less_nat_alt)
      then show ?thesis
        using seg [OF g3] seg [OF g2] ux(1) True le(1) by (simp add: ut kernel_entry_def)
    next
      case False
      then have "unat etext \<le> unat x" by (simp add: word_less_nat_alt)
      then show ?thesis using seg [OF g3] ux(2) False le(2) by (simp add: ud kernel_entry_def)
    qed
    finally show ?thesis .
  qed
  ultimately show ?thesis
    using sa by (intro exI [of _ t] exI [of _ satp] exI [of _ st5] exI [of _ U5] exI [of _ A5]) simp
qed

section \<open>The pool of user pages\<close>

text \<open>The kernel heap and the page tables never touch the pool of user pages.\<close>

named_theorems user_kept

lemma palloc_alloc_user [user_kept]: "palloc_alloc n st = Some (p, st') \<Longrightarrow> km_user st' = km_user st"
  by (auto simp: palloc_alloc_def bind_eq_Some_conv)

lemma put_desc_user [user_kept]: "km_user (put_desc i d st) = km_user st"
  by simp

lemma desc_push_user [user_kept]: "desc_push i x st = Some st' \<Longrightarrow> km_user st' = km_user st"
  by (auto simp: desc_push_def list_push_def bind_eq_Some_conv)

lemma fill_arena_user [user_kept]: "fill_arena da i p js st = Some st' \<Longrightarrow> km_user st' = km_user st"
  by (induction js arbitrary: st) (auto simp: bind_eq_Some_conv dest: desc_push_user)

lemma new_arena_user [user_kept]: "new_arena da i st = Some st' \<Longrightarrow> km_user st' = km_user st"
  by (auto simp: new_arena_def bind_eq_Some_conv Let_def dest!: fill_arena_user palloc_alloc_user)

lemma desc_alloc_user [user_kept]: "desc_alloc da i st = Some (p, st') \<Longrightarrow> km_user st' = km_user st"
  by (auto simp: desc_alloc_def bind_eq_Some_conv Let_def case_prod_unfold split: if_splits dest!: new_arena_user)

lemma heap_alloc_user [user_kept]: "heap_alloc da l st = Some (p, st') \<Longrightarrow> km_user st' = km_user st"
  by (auto simp: heap_alloc_def Let_def split: if_splits dest!: palloc_alloc_user desc_alloc_user)

lemma kalloc_user [user_kept]: "kalloc da sz al st = Some (p, st') \<Longrightarrow> km_user st' = km_user st"
  by (auto simp: kalloc_def bind_eq_Some_conv dest: heap_alloc_user)

lemma pt_new_user [user_kept]: "pt_new da st = Some (p, st') \<Longrightarrow> km_user st' = km_user st"
  by (auto simp: pt_new_def bind_eq_Some_conv Let_def dest: kalloc_user)

lemma write_entry_user [user_kept]: "write_entry t i e st = Some st' \<Longrightarrow> km_user st' = km_user st"
  by (auto simp: write_entry_def split: if_splits)

lemma walk_or_create_user [user_kept]: "walk_or_create da t i g st = Some (p, st') \<Longrightarrow> km_user st' = km_user st"
  by (auto simp: walk_or_create_def bind_eq_Some_conv Let_def split: option.splits dest!: pt_new_user write_entry_user)

lemma map_page_user [user_kept]: "map_page da t pa va f st = Some st' \<Longrightarrow> km_user st' = km_user st"
  by (auto simp: map_page_def bind_eq_Some_conv dest!: walk_or_create_user write_entry_user)

lemma map_loop_user:
  assumes "map_loop da t e f pa va st = Some st'"
  shows "km_user st' = km_user st"
  using assms
proof (rule map_loop.raw_induct [where P = "\<lambda>da t e f pa va st st'. km_user st' = km_user st", rotated])
  fix self da t e f pa va st st'
  assume IH: "\<And>da t e f pa va st st'. self da t e f pa va st = Some st' \<Longrightarrow> km_user st' = km_user st"
    and s: "(if pa < e then map_page da t pa va f st \<bind> self da t e f (pa + PG_SIZE) (va + PG_SIZE)
      else Some st) = Some st'"
  show "km_user st' = km_user st"
    using s by (auto simp: bind_eq_Some_conv split: if_splits dest!: map_page_user IH)
qed

lemma pt_map_user [user_kept]: "pt_map da t pa va sz f st = Some st' \<Longrightarrow> km_user st' = km_user st"
  by (auto simp: pt_map_def split: if_splits dest: map_loop_user)

lemma init_inner_user: "init_inner da etext ram st = Some (root, satp, st') \<Longrightarrow> km_user st' = km_user st"
  by (auto simp: init_inner_def bind_eq_Some_conv Let_def dest!: pt_new_user pt_map_user)

lemma heap_new_rel:
  assumes "addresses_ok da" "buddy_free (km_mem st, km_palloc st) A" "heap_new = Some (km_heap st)"
  shows "heap_pages da st A A"
proof -
  have h: "km_heap st = km_heap sample_kmem" using assms(3) sample_heap_new by (metis option.inject)
  have "class_ok da (km_mem st) i (descs (km_heap st) ! i) [] []" if "i < 8" for i
    using that unfolding h by (simp add: class_ok_def counters_ok_def sample_kmem_def list_new_def)
  moreover have "shape_ok (km_heap st)" unfolding h by (simp add: shape_ok_def sample_kmem_def)
  ultimately have "heap_rel da st A (replicate 8 []) (replicate 8 [])"
    using assms(1,2) unfolding heap_rel_def by (simp del: replicate.simps)
  moreover have "live (replicate 8 []) (replicate 8 []) = {}"
    by (auto simp: live_def class_slots_def simp del: replicate.simps)
  then have "unused A (replicate 8 []) (replicate 8 []) = A" by (simp add: unused_def del: replicate.simps)
  ultimately show ?thesis unfolding heap_pages_def by blast
qed

lemma mem_init_ok:
  assumes da: "addresses_ok da"
    and st: "km_palloc st = buddy_empty" "km_user st = buddy_empty" "heap_new = Some (km_heap st)"
    and base: "is_page_aligned ram_base" "in_kernel_space ram_base" and tail: "is_page_aligned ram_tail"
    and room: "unat ram_base + 4096 * kernel_tables pm_len + 256 * 4096 \<le> unat ram_tail"
    and etext: "is_page_aligned etext" "kr_base \<le> etext" "etext \<le> VM_BASE + pm_len"
    and pm: "is_page_aligned pm_len" "unat pm_len + 2 ^ 31 < 2 ^ 38"
  shows "\<exists>root satp st' U A. mem_init da etext ram_base ram_tail pm_len st = Some (root, satp, st') \<and>
    heap_pages da st' U A \<and> A \<subseteq> {unat ram_base..<unat ram_tail - 256 * 4096} \<and>
    buddy_free (km_mem st', km_user st') {unat ram_tail - 256 * 4096..<unat ram_tail} \<and>
    effective_pagetable satp = Some root \<and> activate root = Some satp \<and> inner_ok (km_mem st') root \<and> pt_tree (km_mem st') root U \<and> write_xor_exec (km_mem st') root \<and>
    (\<forall>x. is_page_aligned x \<and> kr_base \<le> x \<and> x < VM_BASE + pm_len \<longrightarrow>
      pt_get_pte (km_mem st') root x = Some (Some (kernel_entry etext x)))"
proof -
  define mid where "mid = ram_tail - USER_POOL_LIMIT * PG_SIZE"
  have um: "unat mid = unat ram_tail - 256 * 4096"
    unfolding mid_def using room by (subst unat_diff_no_wrap) (simp_all add: USER_POOL_LIMIT_def)
  have al: "4096 dvd unat ram_base" "4096 dvd unat ram_tail" "4096 dvd unat mid"
    using base(1) tail by (auto simp: is_page_aligned_iff um)
  have ex: "(unat a + 4095) div 4096 * 4096 = unat a" "unat a div 4096 * 4096 = unat a" if "4096 dvd unat a" for a :: usize
    using that by (auto elim!: dvdE)
  let ?A = "{unat ram_base..<unat mid}" and ?V = "{unat mid..<unat ram_tail}"
  have le: "unat ram_base < unat mid" "unat mid < unat ram_tail" using room by (simp_all add: um kernel_tables_def)
  have e: "buddy_free (m, buddy_empty) {}" for m
    using buddy_inv_empty [of m] unfolding buddy_free_def bytes_def blocks_def
    by (intro exI [of _ "replicate (MAX_ORDER + 1) []"]) (auto simp del: replicate.simps)
  have dv: "(unat a + 4095) div 4096 \<le> unat b div 4096" if "unat a \<le> unat b" "4096 dvd unat a" for a b :: usize
    using that by (metis (no_types, lifting) div_le_mono ex(1) nonzero_mult_div_cancel_right zero_neq_numeral)
  have nz: "0 < unat ram_base" "unat ram_base + 4096 \<le> 2 ^ 64"
    using base(2) room unat_usize_less [of ram_tail] unfolding in_kernel_space_iff by simp_all
  obtain m1 b1 where r1: "insert_range ram_base mid (km_mem st, km_palloc st) = Some (m1, b1)"
    and f1: "buddy_free (m1, b1) ?A" and u1: "untouched ?A (km_mem st) m1"
    using insert_range_free [OF e nz(2,1) dv, of mid "km_mem st"] le al st(1) unfolding ex [OF al(1)] ex [OF al(3)] by auto
  have nz2: "0 < unat mid" "unat mid + 4096 \<le> 2 ^ 64" using le um room unat_usize_less [of ram_tail] by linarith+
  obtain m2 b2 where r2: "insert_range mid ram_tail (m1, km_user st) = Some (m2, b2)"
    and f2: "buddy_free (m2, b2) ?V" and u2: "untouched ?V m1 m2"
    using insert_range_free [OF e nz2(2,1) dv, of ram_tail m1] le al st(2) unfolding ex [OF al(2)] ex [OF al(3)] by auto
  define st2 where "st2 = st\<lparr>km_palloc := b1, km_mem := m2, km_user := b2\<rparr>"
  have "buddy_free (m2, b1) ?A" by (rule palloc.inv_untouched [OF f1 u2]) auto
  then have hp: "heap_pages da st2 ?A ?A" using da st(3) by (intro heap_new_rel) (simp_all add: st2_def)
  have ko: "kernel_only ?A" using base(2) by (auto simp: kernel_only_def in_kernel_space_iff)
  have "4096 * kernel_tables pm_len \<le> card ?A" using room um by simp
  from init_inner_ok [OF hp ko this etext pm] obtain root satp st' U A where
    i: "init_inner da etext pm_len st2 = Some (root, satp, st')" and h: "heap_pages da st' U A" "A \<subseteq> ?A"
    and u: "untouched ?A (km_mem st2) (km_mem st')"
    and p: "effective_pagetable satp = Some root" "activate root = Some satp" "inner_ok (km_mem st') root" "pt_tree (km_mem st') root U" "write_xor_exec (km_mem st') root"
    and m: "\<forall>x. is_page_aligned x \<and> kr_base \<le> x \<and> x < VM_BASE + pm_len \<longrightarrow>
      mapping (km_mem st') root x = Some (kernel_entry etext x)" by blast
  have "km_user st' = b2" using init_inner_user [OF i] by (simp add: st2_def)
  moreover have "buddy_free (km_mem st', b2) ?V"
    using palloc.inv_untouched [OF f2, of ?A "km_mem st'"] u by (auto simp: st2_def)
  moreover have "mem_init da etext ram_base ram_tail pm_len st = Some (root, satp, st')"
    using r1 r2 i by (simp add: mem_init_def palloc_init_def user_init_def Let_def mid_def st2_def)
  ultimately show ?thesis using h p m um by (auto simp: get_pte_mapping)
qed

text \<open>A machine with 128 MiB and a kernel of four, with one for its text.\<close>

definition boot_kmem :: kmem where
  "boot_kmem = sample_kmem\<lparr>km_palloc := buddy_empty\<rparr>"

lemma boot_state:
  "addresses_ok sample_da" "km_palloc boot_kmem = buddy_empty" "km_user boot_kmem = buddy_empty"
  "heap_new = Some (km_heap boot_kmem)"
  using sample_heap_new by (simp_all add: addresses_ok_def sample_da_def boot_kmem_def sample_kmem_def)

lemma boot_layout:
  "is_page_aligned (VM_BASE + 0x400000)" "in_kernel_space (VM_BASE + 0x400000)" "is_page_aligned (VM_BASE + 0x8000000)"
  "unat (VM_BASE + 0x400000) + 4096 * kernel_tables 0x8000000 + 256 * 4096 \<le> unat (VM_BASE + 0x8000000)"
  "is_page_aligned (kr_base + 0x100000)" "kr_base \<le> kr_base + 0x100000" "kr_base + 0x100000 \<le> VM_BASE + 0x8000000"
  "is_page_aligned 0x8000000" "unat (0x8000000 :: usize) + 2 ^ 31 < 2 ^ 38"
  by (simp_all add: is_page_aligned_iff in_kernel_space_iff VM_BASE_def kernel_tables_def kr_base_def KERN_BASE_def
      VM_OFFSET_eq word_le_nat_alt)

text \<open>
  C1. The memory after boot. \<open>mem::init\<close> gets the range of free memory of the kernel space. It
  returns; the last 256 pages are then exactly the pool of user pages, the kernel heap and the
  page allocator work on the rest, and the page table that \<open>satp\<close> points to is a proper tree in
  which the whole kernel from its base on is mapped to the physical memory behind it, the text
  readable and executable, everything else readable and writable, and no page is both writable
  and executable.
\<close>

theorem mem_init_correct:
  assumes da: "addresses_ok da"
    and st: "km_palloc st = buddy_empty" "km_user st = buddy_empty" "heap_new = Some (km_heap st)"
    and base: "is_page_aligned ram_base" "in_kernel_space ram_base" and tail: "is_page_aligned ram_tail"
    and room: "unat ram_base + 4096 * kernel_tables pm_len + 256 * 4096 \<le> unat ram_tail"
    and etext: "is_page_aligned etext" "kr_base \<le> etext" "etext \<le> VM_BASE + pm_len"
    and pm: "is_page_aligned pm_len" "unat pm_len + 2 ^ 31 < 2 ^ 38"
  shows "\<exists>root satp st' U A. mem_init da etext ram_base ram_tail pm_len st = Some (root, satp, st') \<and>
    heap_pages da st' U A \<and> A \<subseteq> {unat ram_base..<unat ram_tail - 256 * 4096} \<and>
    buddy_free (km_mem st', km_user st') {unat ram_tail - 256 * 4096..<unat ram_tail} \<and>
    effective_pagetable satp = Some root \<and> pt_tree (km_mem st') root U \<and> write_xor_exec (km_mem st') root \<and>
    (\<forall>x. is_page_aligned x \<and> kr_base \<le> x \<and> x < VM_BASE + pm_len \<longrightarrow>
      pt_get_pte (km_mem st') root x = Some (Some (kernel_entry etext x)))"
  using mem_init_ok [OF assms] by (elim exE conjE) (intro exI conjI)

theorem mem_init_correct_witness:
  "\<exists>root satp st'. mem_init sample_da (kr_base + 0x100000) (VM_BASE + 0x400000) (VM_BASE + 0x8000000) 0x8000000
     boot_kmem = Some (root, satp, st') \<and> write_xor_exec (km_mem st') root"
  using mem_init_correct [OF boot_state boot_layout] by blast

section \<open>Entries and mappings\<close>

lemma aligned_phys: "phys_is_aligned pa \<longleftrightarrow> 4096 dvd unat (phys_value pa)"
  by (cases pa) (simp add: phys_is_aligned_def phys_floor_def page_floor_def [symmetric] is_page_aligned_def [symmetric] is_page_aligned_iff)

lemma flag_bit:
  fixes f :: usize
  assumes "k < 8"
  shows "flags_contain f (2 ^ k) \<longleftrightarrow> bit f k"
proof
  assume "flags_contain f (2 ^ k)"
  then have "bit (f AND 2 ^ k) k" using assms by (simp add: flags_contain_def bit_exp_iff)
  then show "bit f k" by (simp add: bit_and_iff)
next
  assume "bit f k"
  then show "flags_contain f (2 ^ k)" unfolding flags_contain_def by (intro bit_word_eqI) (auto simp: bit_simps)
qed

lemma flags_intersect_iff: "flags_intersect f g \<longleftrightarrow> (\<exists>n. bit f n \<and> bit g n)"
proof -
  have "f AND g = 0 \<longleftrightarrow> (\<forall>n. \<not> bit (f AND g) n)" by (auto intro: bit_word_eqI)
  then show ?thesis by (simp add: flags_intersect_def bit_and_iff)
qed

lemma bit_small_exp: "k < 64 \<Longrightarrow> bit (2 ^ k :: usize) n \<longleftrightarrow> n = k"
  by (auto simp: bit_exp_iff)

lemma rwx_bits: "bit (PTE_R OR PTE_W OR PTE_X) n \<longleftrightarrow> n = 1 \<or> n = 2 \<or> n = 3"
proof -
  have r: "PTE_R = 2 ^ 1" and w: "PTE_W = 2 ^ 2" and x: "PTE_X = 2 ^ 3"
    by (simp_all add: PTE_R_def PTE_W_def PTE_X_def)
  show ?thesis
    unfolding r w x bit_or_iff using bit_small_exp [of 1 n] bit_small_exp [of 2 n] bit_small_exp [of 3 n] by simp
qed

text \<open>
  Page table entries. An entry made from an aligned physical address below \<open>2 ^ 56\<close> and
  flags gives back exactly this address and these flags, and every test of the entry is the test
  of its flag; making it invalid changes nothing but the valid bit.
\<close>

lemma entry_roundtrip:
  assumes f: "flags_ok f" and pa: "phys_is_aligned pa" "unat (phys_value pa) < 2 ^ 56"
  shows "entry_pa (entry_new pa f) = pa \<and> entry_flag (entry_new pa f) = f \<and>
    (is_valid (entry_new pa f) \<longleftrightarrow> bit f 0) \<and> (is_user (entry_new pa f) \<longleftrightarrow> bit f 4) \<and>
    (is_global (entry_new pa f) \<longleftrightarrow> bit f 5) \<and> (is_leaf (entry_new pa f) \<longleftrightarrow> bit f 1 \<or> bit f 2 \<or> bit f 3) \<and>
    entry_pa (set_invalid (entry_new pa f)) = pa \<and> \<not> is_valid (set_invalid (entry_new pa f)) \<and>
    entry_flag (set_invalid (entry_new pa f)) = f AND NOT PTE_V"
proof (intro conjI)
  let ?e = "entry_new pa f"
  show epa: "entry_pa ?e = pa" by (rule entry_new_pa [OF f]) (use pa aligned_phys in simp_all)
  show ef: "entry_flag ?e = f" by (rule entry_new_flag [OF f])
  show "is_valid ?e \<longleftrightarrow> bit f 0" using flag_bit [of 0 f] by (simp add: is_valid_def ef PTE_V_def)
  show "is_user ?e \<longleftrightarrow> bit f 4" using flag_bit [of 4 f] by (simp add: is_user_def ef PTE_U_def)
  show "is_global ?e \<longleftrightarrow> bit f 5" using flag_bit [of 5 f] by (simp add: is_global_def ef PTE_G_def)
  show "is_leaf ?e \<longleftrightarrow> bit f 1 \<or> bit f 2 \<or> bit f 3" by (auto simp: is_leaf_def ef flags_intersect_iff rwx_bits)
  have v: "bit PTE_V n \<longleftrightarrow> n = 0" for n using bit_small_exp [of 0 n] by (simp add: PTE_V_def)
  have "entry_ppn (set_invalid ?e) = entry_ppn ?e"
    by (rule bit_word_eqI) (auto simp: entry_ppn_def set_invalid_def FLAG_SHIFT_def PPN_MASK_eq bit_simps v)
  then show "entry_pa (set_invalid ?e) = pa" using epa by (simp add: entry_pa_def)
  show "\<not> is_valid (set_invalid ?e)" by (simp add: is_valid_bit set_invalid_def bit_and_iff bit_not_iff v)
  have "entry_flag (set_invalid ?e) = entry_flag ?e AND NOT PTE_V"
    by (rule bit_word_eqI) (auto simp: entry_flag_def set_invalid_def bit_simps)
  then show "entry_flag (set_invalid ?e) = f AND NOT PTE_V" by (simp only: ef)
qed

text \<open>
  C33. Termination of \<open>PageTable::map\<close>. The loop over the physical addresses ends for every range
  that leaves one page to the top of the address space: the call is the mapping of exactly
  \<open>\<lceil>size / 4096\<rceil>\<close> pages one after the other, and it panics at once on misaligned addresses.
\<close>

theorem pt_map_terminates:
  assumes "unat (phys_value pa) + unat sz + 4096 \<le> 2 ^ 64"
  shows "pt_map da t pa va sz flag st =
    (if phys_is_aligned pa \<and> is_page_aligned va
     then map_pages da t flag ((unat sz + 4095) div 4096) (phys_value pa) va st else None)"
  using pt_map_pages [OF assms] by (simp add: page_count_def)

theorem pt_map_terminates_witness:
  "\<forall>da t flag st. pt_map da t (PhysAddr 0x80000000) 0x10000 0x1800 flag st = map_pages da t flag 2 0x80000000 0x10000 st"
proof -
  have "phys_is_aligned (PhysAddr 0x80000000)" "is_page_aligned 0x10000"
    by (simp_all add: phys_is_aligned_def phys_floor_def is_page_aligned_iff page_floor_def PG_SHIFT_def)
  then show ?thesis
    using pt_map_terminates [of "PhysAddr 0x80000000" "0x1800" _ _ "0x10000"] by simp
qed

section \<open>A table to try the properties on\<close>

lemma sample_space:
  "\<exists>st A. heap_pages sample_da st A A \<and> kernel_only A \<and> card A = 0x100000 \<and> A = {0xFFFFFFC080400000..<0xFFFFFFC080500000}"
proof -
  let ?a = "VM_BASE + 0x400000" and ?b = "VM_BASE + 0x500000"
  have e: "buddy_free (km_mem sample_kmem, buddy_empty) {}"
    using buddy_inv_empty [of "km_mem sample_kmem"] unfolding buddy_free_def bytes_def blocks_def
    by (intro exI [of _ "replicate (MAX_ORDER + 1) []"]) (auto simp del: replicate.simps)
  have n: "unat ?a = 0xFFFFFFC080400000" "unat ?b = 0xFFFFFFC080500000" by (simp_all add: VM_BASE_def)
  obtain m b where f: "buddy_free (m, b) {unat ?a..<unat ?b}"
    using insert_range_free [OF e, of ?a ?b] by (auto simp: n)
  have "heap_pages sample_da (sample_kmem\<lparr>km_mem := m, km_palloc := b\<rparr>) {unat ?a..<unat ?b} {unat ?a..<unat ?b}"
    using f sample_heap_new by (intro heap_new_rel) (simp_all add: addresses_ok_def sample_da_def)
  moreover have "kernel_only {unat ?a..<unat ?b}"
    by (auto simp: kernel_only_def in_kernel_space_iff n)
  moreover have "card {unat ?a..<unat ?b} = 0x100000" by (simp add: n)
  ultimately show ?thesis unfolding n by blast
qed

lemma sample_table:
  "\<exists>st t U A. heap_pages sample_da st U A \<and> kernel_only A \<and> card A = 0xFF000 \<and> pt_tree (km_mem st) t U \<and>
     (\<forall>i < NENTRY. \<not> is_valid (entry_at (km_mem st) t i))"
proof -
  obtain st A where h: "heap_pages sample_da st A A" "kernel_only A" "card A = 0x100000" using sample_space by blast
  then have "A \<noteq> {}" by auto
  from new_table [OF h(1) this h(2)] obtain t st' where
    "heap_pages sample_da st' (A - page_bytes t) (A - page_bytes t)" "card (A - page_bytes t) + 4096 = card A"
    "pt_tree (km_mem st') t (A - page_bytes t)" "\<forall>i < NENTRY. \<not> is_valid (entry_at (km_mem st') t i)" by metis
  moreover have "kernel_only (A - page_bytes t)" by (rule kernel_only_mono [OF h(2)]) blast
  ultimately show ?thesis using h(3) by (intro exI conjI) auto
qed

text \<open>
  C4. \<open>PageTable::map\<close>. On a proper tree of tables and a heap with a page for every table that may
  be missing, the call succeeds and keeps both. It writes only to the old and the new tables.
  Afterwards each page of the range reads back as its physical page with exactly the flags, and
  a valid entry is found for a page outside the range just when it was found before.
\<close>

theorem pt_map_correct:
  assumes h: "heap_pages da st U A" "kernel_only A" "4096 * (2 * (page_count sz div 512 + 2)) \<le> card A"
    and tree: "pt_tree (km_mem st) t U" and f: "flags_ok flag" "bit flag 0"
    and al: "phys_is_aligned pa" "is_page_aligned va" and ov: "unat (phys_value pa) + unat sz + 4096 \<le> 2 ^ 64"
    and va: "unat va + 4096 * page_count sz \<le> 2 ^ 64" "page_count sz \<le> 2 ^ 27"
  shows "\<exists>st' U' A'. pt_map da t pa va sz flag st = Some st' \<and> heap_pages da st' U' A' \<and>
    pt_tree (km_mem st') t U' \<and> untouched (A \<union> table_bytes (km_mem st) t) (km_mem st) (km_mem st') \<and>
    (\<forall>k < page_count sz. pt_get_pte (km_mem st') t (va + 4096 * of_nat k) =
      Some (Some (entry_new (PhysAddr (phys_value pa + 4096 * of_nat k)) flag))) \<and>
    (\<forall>x e. (\<forall>k < page_count sz. vpn x \<noteq> vpn (va + 4096 * of_nat k)) \<and> is_valid e \<longrightarrow>
      (pt_get_pte (km_mem st') t x = Some (Some e) \<longleftrightarrow> pt_get_pte (km_mem st) t x = Some (Some e)))"
proof -
  have v: "flags_contain flag PTE_V" using f(2) flag_bit [of 0 flag] by (simp add: PTE_V_def)
  have "4096 * tables_needed (page_count sz) va True \<le> card A"
    using tables_needed_bound [of "page_count sz" va] h(3) by linarith
  from pt_map_ok [OF h(1) this h(2) tree f(1) v al ov] obtain st' U' A' where
    m: "pt_map da t pa va sz flag st = Some st'" and s: "pt_step da t st U A st' U' A'"
    and r: "maps_range (km_mem st) (km_mem st') t flag (page_count sz) (phys_value pa) va" by blast
  have "pt_get_pte (km_mem st') t (va + 4096 * of_nat k) =
      Some (Some (entry_new (PhysAddr (phys_value pa + 4096 * of_nat k)) flag))" if "k < page_count sz" for k
    using maps_range_hit [OF r va that] by (simp add: get_pte_mapping from_pa_def)
  moreover have "pt_get_pte (km_mem st') t x = Some (Some e) \<longleftrightarrow> pt_get_pte (km_mem st) t x = Some (Some e)"
    if "\<forall>k < page_count sz. vpn x \<noteq> vpn (va + 4096 * of_nat k)" "is_valid e" for x e
    using maps_range_miss [OF r, of x] that get_pte_mapping [of _ t x e] by metis
  ultimately show ?thesis using m s unfolding pt_step_def by blast
qed

theorem pt_map_correct_witness:
  "\<exists>st t st'. pt_map sample_da t (PhysAddr 0x80000000) 0x10000 0x1800 (PTE_V OR PTE_R) st = Some st' \<and>
     pt_get_pte (km_mem st') t 0x11000 = Some (Some (entry_new (PhysAddr 0x80001000) (PTE_V OR PTE_R)))"
proof -
  obtain st t U A where s: "heap_pages sample_da st U A" "kernel_only A" "card A = 0xFF000" "pt_tree (km_mem st) t U"
    using sample_table by blast
  have c: "page_count 0x1800 = 2" by (simp add: page_count_def)
  have f: "flags_ok (PTE_V OR PTE_R)" "bit (PTE_V OR PTE_R) 0" by (simp_all add: flags_ok_def PTE_V_def PTE_R_def)
  have al: "phys_is_aligned (PhysAddr 0x80000000)" "is_page_aligned 0x10000"
    by (simp_all add: phys_is_aligned_def phys_floor_def is_page_aligned_iff page_floor_def PG_SHIFT_def)
  have "4096 * (2 * (page_count 0x1800 div 512 + 2)) \<le> card A" "unat (phys_value (PhysAddr 0x80000000)) + unat (0x1800 :: usize) + 4096 \<le> 2 ^ 64"
    "unat (0x10000 :: usize) + 4096 * page_count 0x1800 \<le> 2 ^ 64" "page_count 0x1800 \<le> 2 ^ 27"
    by (simp_all add: s(3) c)
  from pt_map_correct [OF s(1,2) this(1) s(4) f al this(2-4)] obtain st' where
    m: "pt_map sample_da t (PhysAddr 0x80000000) 0x10000 0x1800 (PTE_V OR PTE_R) st = Some st'"
    and g: "\<forall>k < 2. pt_get_pte (km_mem st') t (0x10000 + 4096 * of_nat k) =
      Some (Some (entry_new (PhysAddr (0x80000000 + 4096 * of_nat k)) (PTE_V OR PTE_R)))"
    unfolding c by auto
  show ?thesis using m g [rule_format, of 1] by auto
qed

section \<open>Clones\<close>

lemma copy_entries_get:
  assumes "page_ok src" "page_ok dst" "src \<noteq> dst" "\<forall>i \<in> set js. i < NENTRY"
  shows "(i \<in> set js \<longrightarrow> copy_entries src dst js m (dst + 8 * i) = m (src + 8 * i)) \<and>
    (\<forall>a. (\<forall>i \<in> set js. a \<noteq> dst + 8 * i) \<longrightarrow> copy_entries src dst js m a = m a)"
  using assms(4)
proof (induction js arbitrary: m)
  case (Cons j js)
  let ?m = "m(dst + 8 * j := m (src + 8 * j))"
  have j: "j < NENTRY" using Cons.prems by simp
  have IH: "(i \<in> set js \<longrightarrow> copy_entries src dst js ?m (dst + 8 * i) = ?m (src + 8 * i)) \<and>
      (\<forall>a. (\<forall>i \<in> set js. a \<noteq> dst + 8 * i) \<longrightarrow> copy_entries src dst js ?m a = ?m a)"
    by (rule Cons.IH) (use Cons.prems in simp)
  have src: "?m (src + 8 * k) = m (src + 8 * k)" if "k < NENTRY" for k
    using cell_inj [OF assms(1,2) that j] assms(3) by auto
  have "copy_entries src dst (j # js) m (dst + 8 * i) = m (src + 8 * i)" if "i \<in> set (j # js)"
  proof (cases "i \<in> set js")
    case True
    then show ?thesis using IH src Cons.prems by simp
  next
    case False
    then have "i = j" using that by simp
    moreover have "\<forall>k \<in> set js. dst + 8 * j \<noteq> dst + 8 * k"
      using cell_inj [OF assms(2,2) j] Cons.prems False \<open>i = j\<close> by auto
    ultimately show ?thesis using IH by simp
  qed
  then show ?case using IH by auto
qed simp

lemma all_indices: "i < NENTRY \<longleftrightarrow> i \<in> set (word_range 0 NENTRY)"
proof -
  have "unat NENTRY = 512" by (simp add: NENTRY_def)
  then have "i \<in> set (word_range 0 NENTRY) \<longleftrightarrow> (\<exists>n < 512. i = of_nat n)" by (auto simp: word_range_def)
  also have "\<dots> \<longleftrightarrow> unat i < 512"
  proof
    assume "\<exists>n < 512. i = of_nat n"
    then show "unat i < 512" by (auto simp: unat_of_nat_small)
  qed (auto intro!: exI [of _ "unat i"])
  finally show ?thesis by (simp add: NENTRY_def word_less_nat_alt)
qed

lemma pt_clone_ok:
  assumes h: "heap_pages da st U A" "A \<noteq> {}" "kernel_only A" and tree: "pt_tree (km_mem st) kpt U"
  shows "\<exists>t st'. pt_clone da kpt st = Some (t, st') \<and> page_ok t \<and> in_kernel_space t \<and> page_bytes t \<subseteq> A \<and>
    heap_pages da st' (U - page_bytes t) (A - page_bytes t) \<and> untouched A (km_mem st) (km_mem st') \<and>
    (\<forall>i < NENTRY. entry_at (km_mem st') t i = entry_at (km_mem st) kpt i)"
proof -
  from new_table [OF h] obtain t st1 where n: "pt_new da st = Some (t, st1)"
    and t: "page_ok t" "in_kernel_space t" "page_bytes t \<subseteq> A"
    and h1: "heap_pages da st1 (U - page_bytes t) (A - page_bytes t)" and u1: "untouched A (km_mem st) (km_mem st1)"
    by blast
  have AU: "A \<subseteq> U" using kheap.pages_owned [OF h(1)] by blast
  have k: "page_ok kpt" "page_bytes kpt \<inter> U = {}"
    using pt_treeD(1) [OF tree, of "[]" kpt] by (auto simp: path_ok_def table_ok_def)
  have ne: "kpt \<noteq> t" using k(2) t(3) AU page_start by blast
  define m' where "m' = copy_entries kpt t (word_range 0 NENTRY) (km_mem st1)"
  note idx = all_indices [symmetric]
  have ce: "i < NENTRY \<longrightarrow> m' (t + 8 * i) = km_mem st1 (kpt + 8 * i)"
    "(\<forall>i < NENTRY. a \<noteq> t + 8 * i) \<longrightarrow> m' a = km_mem st1 a" for i a
    using copy_entries_get [OF k(1) t(1) ne, of "word_range 0 NENTRY" i "km_mem st1"]
    by (simp_all add: m'_def idx Ball_def)
  have un: "untouched (page_bytes t) (km_mem st1) m'"
    unfolding untouched_def
  proof (intro allI impI)
    fix a :: usize assume a: "unat a \<notin> page_bytes t"
    have "\<forall>i. i < NENTRY \<longrightarrow> a \<noteq> t + 8 * i" using a cell_in_page [OF t(1)] by blast
    then show "m' a = km_mem st1 a" using ce(2) by blast
  qed
  have "heap_pages da (st1\<lparr>km_mem := m'\<rparr>) (U - page_bytes t) (A - page_bytes t)"
    by (rule kheap.write_law [OF h1 un]) blast
  moreover have "untouched A (km_mem st) m'" by (rule untouched_trans [OF u1 untouched_mono [OF un t(3)]])
  moreover have "entry_at m' t i = entry_at (km_mem st) kpt i" if i: "i < NENTRY" for i
  proof -
    have "m' (t + 8 * i) = km_mem st1 (kpt + 8 * i)" using ce(1) i by blast
    moreover have "km_mem st1 (kpt + 8 * i) = km_mem st (kpt + 8 * i)"
      using untouchedD [OF u1] cell_in_page [OF k(1) i] k(2) AU by blast
    ultimately show ?thesis by (simp add: entry_at_def)
  qed
  moreover have "pt_clone da kpt st = Some (t, st1\<lparr>km_mem := m'\<rparr>)" using n by (simp add: pt_clone_def m'_def)
  ultimately show ?thesis using t by auto
qed

text \<open>Entries outside the changed bytes, and the tables they lead to.\<close>

lemma table_at_untouched:
  assumes tree: "pt_tree m t U" and un: "untouched Y m m'" "Y \<subseteq> U" and r: "path_ok r"
  shows "table_at m' t r = table_at m t r"
  using r
proof (induction r rule: rev_induct)
  case (snoc j s)
  then have s: "path_ok s" "j < NENTRY" by (auto simp: path_ok_snoc)
  have "entry_at m' b j = entry_at m b j \<and> sub_table m' b j = sub_table m b j" if b: "table_at m t s = Some b" for b
  proof -
    have "page_ok b" "page_bytes b \<inter> U = {}" using pt_treeD(1) [OF tree s(1) b] by (auto simp: table_ok_def)
    then have "m' (b + 8 * j) = m (b + 8 * j)" using untouchedD [OF un(1)] cell_in_page [OF _ s(2)] un(2) by blast
    then show ?thesis by (simp add: entry_at_def sub_table_def)
  qed
  then show ?case using snoc.IH [OF s(1)] by (auto simp: table_at_snoc split: option.splits)
qed simp

lemma get_pte_untouched:
  assumes "pt_tree m t U" "untouched Y m m'" "Y \<subseteq> U"
  shows "pt_get_pte m' t x = pt_get_pte m t x"
proof -
  note same = table_at_untouched [OF assms path_ok_va]
  have "entry_at m' b (px 0 x) = entry_at m b (px 0 x)" if b: "table_at m t (va_path x) = Some b" for b
  proof -
    have "page_ok b" "page_bytes b \<inter> U = {}" using pt_treeD(1) [OF assms(1) path_ok_va b] by (auto simp: table_ok_def)
    then show ?thesis
      using untouchedD [OF assms(2)] cell_in_page [OF _ px_less] assms(3) by (fastforce simp: entry_at_def)
  qed
  then show ?thesis using same by (cases "table_at m t (va_path x)") (auto simp: get_pte_table)
qed

lemma destroy_entries_global:
  assumes "\<forall>i \<in> set js. is_valid (entry_at (km_mem st) t i) \<longrightarrow> is_global (entry_at (km_mem st) t i)"
  shows "destroy_entries below l t js st = Some st"
  using assms by (induction js) (auto simp: Let_def)

lemma kfree_page:
  assumes "heap_pages da st U A" "page_ok p" "page_bytes p \<inter> U = {}"
  shows "\<exists>st' A'. kfree da p PG_SIZE PG_SIZE st = Some st' \<and> heap_pages da st' (U \<union> page_bytes p) A' \<and>
    untouched (U \<union> page_bytes p) (km_mem st) (km_mem st')"
proof -
  let ?l = "\<lparr>l_size = PG_SIZE, l_align = PG_SIZE\<rparr>"
  from assms(1) obtain P X where rel: "heap_rel da st A P X" and U: "U = unused A P X" by (auto simp: heap_pages_def)
  have "buddy_region_ok 1 p"
    using assms(2) page_okD(1) [OF assms(2)] by (simp add: buddy_region_ok_def block_ok_def order_of_1 page_ok_def PG_SHIFT_def)
  then have own: "heap_owns ?l p A P X"
    using assms(3) U by (simp only: heap_owns_def page_request(2,3) if_False one_page_region simp_thms)
  have reg: "heap_region ?l p = page_bytes p"
    by (simp only: heap_region_def page_request(2,3) if_False one_page_region)
  from heap_dealloc_ok [OF rel page_request(1) own, unfolded reg] obtain st' A' X' where
    "heap_dealloc da p ?l st = Some st'" "heap_rel da st' A' P X'" "unused A' P X' = unused A P X \<union> page_bytes p"
    "untouched (unused A P X \<union> page_bytes p) (km_mem st) (km_mem st')" by blast
  then show ?thesis
    unfolding kfree_def page_request(4) heap_pages_def U by (metis bind.bind_lunit)
qed

text \<open>
  The page table of a process. \<open>KernelPgTable::clone\<close> takes one page; the new table
  translates every address as the kernel's. \<open>destroy\<close> of the clone gives exactly this page back to
  the heap and frees none of the kernel's tables: afterwards the heap owns the bytes of before,
  and the kernel's table translates every address as before.
\<close>

lemma clone_destroy:
  assumes "heap_pages da st U A" "A \<noteq> {}" "kernel_only A" "pt_tree (km_mem st) kpt U"
    and glob: "\<forall>i < NENTRY. is_valid (entry_at (km_mem st) kpt i) \<longrightarrow> is_global (entry_at (km_mem st) kpt i)"
  shows "\<exists>t st' st2 A2. pt_clone da kpt st = Some (t, st') \<and> page_bytes t \<subseteq> A \<and>
    (\<forall>x. pt_get_pte (km_mem st') t x = pt_get_pte (km_mem st) kpt x) \<and>
    destroy da t st' = Some st2 \<and> heap_pages da st2 U A2 \<and>
    (\<forall>x. pt_get_pte (km_mem st2) kpt x = pt_get_pte (km_mem st) kpt x)"
proof -
  from pt_clone_ok [OF assms(1-4)] obtain t st' where c: "pt_clone da kpt st = Some (t, st')"
    and t: "page_ok t" "page_bytes t \<subseteq> A" and h: "heap_pages da st' (U - page_bytes t) (A - page_bytes t)"
    and u: "untouched A (km_mem st) (km_mem st')"
    and e: "\<And>i. i < NENTRY \<Longrightarrow> entry_at (km_mem st') t i = entry_at (km_mem st) kpt i" by blast
  have AU: "A \<subseteq> U" using kheap.pages_owned [OF assms(1)] by blast
  have "pt_get_pte (km_mem st') t x = pt_get_pte (km_mem st') kpt x" for x
  proof -
    have "entry_at (km_mem st') kpt (px 2 x) = entry_at (km_mem st) kpt (px 2 x)"
    proof -
      have "page_ok kpt" "page_bytes kpt \<inter> U = {}"
        using pt_treeD(1) [OF assms(4), of "[]" kpt] by (auto simp: path_ok_def table_ok_def)
      then show ?thesis
        using untouchedD [OF u] cell_in_page [OF _ px_less] AU by (fastforce simp: entry_at_def)
    qed
    then have "entry_at (km_mem st') t (px 2 x) = entry_at (km_mem st') kpt (px 2 x)" using e [of "px 2 x"] by simp
    then have "table_at (km_mem st') t (va_path x) = table_at (km_mem st') kpt (va_path x)"
      by (simp add: va_path_def table_at.simps sub_table_def)
    then show ?thesis by (simp add: get_pte_table)
  qed
  then have g: "\<forall>x. pt_get_pte (km_mem st') t x = pt_get_pte (km_mem st) kpt x"
    using get_pte_untouched [OF assms(4) u AU] by simp
  from kfree_page [OF h t(1)] obtain st2 A2 where k: "kfree da t PG_SIZE PG_SIZE st' = Some st2"
    and h2: "heap_pages da st2 (U - page_bytes t \<union> page_bytes t) A2"
    and u2: "untouched (U - page_bytes t \<union> page_bytes t) (km_mem st') (km_mem st2)" by blast
  have UU: "U - page_bytes t \<union> page_bytes t = U" using t(2) AU by blast
  have "destroy_entries b 2 t (word_range 0 NENTRY) st' = Some st'" for b
    by (rule destroy_entries_global) (use glob e all_indices in auto)
  then have "destroy da t st' = Some st2"
    using k by (simp add: destroy_def numeral_2_eq_2)
  moreover have "untouched U (km_mem st) (km_mem st2)"
    using untouched_trans [OF untouched_mono [OF u AU]] u2 UU by simp
  then have "\<forall>x. pt_get_pte (km_mem st2) kpt x = pt_get_pte (km_mem st) kpt x"
    using get_pte_untouched [OF assms(4) _ order_refl] by blast
  ultimately show ?thesis using c t(2) g h2 UU by metis
qed

text \<open>
  A lookup looks at the valid bit of the two upper levels only. For a user address whose last
  entry is invalid (never mapped, or mapped and invalidated) \<open>get_pte\<close> still returns this
  entry, and \<open>translate\<close> gives the kernel address of whatever physical page it holds instead
  of an error.
\<close>

lemma translate_ignores_valid:
  assumes "\<not> in_kernel_space va" "in_same_page va (va + len - 1)"
    and "table_at m pt (va_path va) = Some a" "\<not> is_valid (entry_at m a (px 0 va))"
  shows "pt_get_pte m pt va = Some (Some (entry_at m a (px 0 va))) \<and>
    translate (\<lambda>va. map_option entry_pa (Option.bind (mem_get_pte m kpt (Some pt) va) id)) va len =
      Some (into_va (entry_pa (entry_at m a (px 0 va))) OR (va AND 0xFFF))"
  using assms by (simp add: get_pte_table translate_def mem_get_pte_def)

definition sample_walk :: memory where
  "sample_walk = (\<lambda>_. 0)(0xFFFFFFC080000000 := 0x20000401, 0xFFFFFFC080001000 := 0x20000801)"

lemma sample_walk_table: "table_at sample_walk 0xFFFFFFC080000000 (va_path 0) = Some 0xFFFFFFC080002000"
proof -
  have e: "entry_at sample_walk 0xFFFFFFC080000000 0 = Entry 0x20000401" "entry_at sample_walk 0xFFFFFFC080001000 0 = Entry 0x20000801"
    by (simp_all add: entry_at_def sample_walk_def)
  have v: "is_valid (Entry 0x20000401)" "is_valid (Entry 0x20000801)"
    by (simp_all add: is_valid_def entry_flag_def flags_contain_def PTE_V_def)
  have p: "entry_pa (Entry 0x20000401) = PhysAddr 0x80001000" "entry_pa (Entry 0x20000801) = PhysAddr 0x80002000"
    by (simp_all add: entry_pa_def entry_ppn_def PPN_MASK_eq mask_eq_exp_minus_1 FLAG_SHIFT_def PG_SHIFT_def from_pa_def)
  have "px l 0 = 0" for l by (simp add: px_def)
  then show ?thesis by (simp add: va_path_def table_at.simps sub_table_def e v p into_va_def VM_OFFSET_eq)
qed

end
