(* ===== verification/Context_Switch.thy ===== *)
theory Context_Switch
  imports Riscv Kernel_Space Threads
begin

text \<open>
  The switch between two threads (\<open>src/src/thread/switch.rs\<close>), the context it saves and loads, and the memory of a
  thread: its stack from the kernel heap, the first context on it, and what dropping the thread gives
  back (\<open>Builder\<close>, \<open>Context\<close> and \<open>Drop\<close> of \<open>src/src/thread/imp.rs\<close>).
\<close>

section \<open>Contexts\<close>

record ctx =
  c_ra :: usize
  c_sp :: usize
  c_s :: "usize list"

text \<open>The layout of \<open>Context\<close>, which is \<open>repr(C)\<close>, at an address.\<close>

definition context_at :: "memory \<Rightarrow> usize \<Rightarrow> ctx" where
  "context_at m p = \<lparr>c_ra = m p, c_sp = m (p + 8), c_s = map (\<lambda>i. m (p + 8 * of_nat (i + 2))) [0..<12]\<rparr>"

definition STACK_SIZE :: usize where
  "STACK_SIZE = PG_SIZE * 4"

definition STACK_ALIGN :: usize where
  "STACK_ALIGN = 16"

definition context_new :: "(symbol \<Rightarrow> usize) \<Rightarrow> usize \<Rightarrow> usize \<Rightarrow> ctx" where
  "context_new lnk stack entry = \<lparr>c_ra = lnk Kernel_thread_entry, c_sp = stack + STACK_SIZE,
     c_s = map (\<lambda>i. if i = 0 then entry else 0) [0..<12]\<rparr>"

section \<open>The code\<close>

text \<open>
  \<open>switch\<close> stores each callee-saved register to the context at \<open>a1\<close> and loads it from the
  one at \<open>a2\<close>: \<open>ra\<close> at offset 0, \<open>sp\<close> at 8, and \<open>s0\<close> to \<open>s11\<close> from \<open>0x10\<close> on.
\<close>

definition switch_regs :: "(nat \<times> nat) list" where
  "switch_regs = [(ra, 0), (sp, 1)] @ map (\<lambda>i. (s_reg i, i + 2)) [0..<12]"

definition swap_code :: "(nat \<times> nat) list \<Rightarrow> instr list" where
  "swap_code ps = concat (map (\<lambda>(r, k). [Sd r (8 * of_nat k) a1, Ld r (8 * of_nat k) a2]) ps)"

definition switch_code :: "instr list" where
  "switch_code = swap_code switch_regs"

definition switch :: "(symbol \<Rightarrow> usize) \<Rightarrow> machine \<Rightarrow> machine" where
  "switch lnk s = jump (lnk Schedule_tail_wrapper) (exec lnk switch_code s)"

definition kernel_thread_entry :: "(symbol \<Rightarrow> usize) \<Rightarrow> machine \<Rightarrow> machine" where
  "kernel_thread_entry lnk s = jump (lnk Kernel_thread) (exec lnk [Mv a0 (s_reg 0)] s)"

section \<open>What the switch does\<close>

lemma swap_code_Cons:
  "exec lnk (swap_code ((r, k) # ps)) s =
     exec lnk (swap_code ps) (set_reg r (m_mem (store (reg s 11 + 8 * of_nat k) (reg s r) s) (reg s 12 + 8 * of_nat k))
       (store (reg s 11 + 8 * of_nat k) (reg s r) s))"
  by (simp add: swap_code_def machine_simps)

lemma swap_code_state:
  assumes "distinct (map fst ps)" "distinct (map snd ps)" "\<forall>(r, k) \<in> set ps. r \<notin> {0, 11, 12} \<and> k < 2 ^ 61"
    and "\<forall>(r, k) \<in> set ps. \<forall>(r', k') \<in> set ps. reg s 11 + 8 * of_nat k \<noteq> reg s 12 + 8 * of_nat k'"
  shows "(\<forall>(r, k) \<in> set ps. reg (exec lnk (swap_code ps) s) r = m_mem s (reg s 12 + 8 * of_nat k) \<and>
       m_mem (exec lnk (swap_code ps) s) (reg s 11 + 8 * of_nat k) = reg s r) \<and>
     (\<forall>q. q \<notin> fst ` set ps \<longrightarrow> reg (exec lnk (swap_code ps) s) q = reg s q) \<and>
     (\<forall>a. (\<forall>(r, k) \<in> set ps. a \<noteq> reg s 11 + 8 * of_nat k) \<longrightarrow> m_mem (exec lnk (swap_code ps) s) a = m_mem s a)"
  using assms
proof (induction ps arbitrary: s)
  case (Cons p ps)
  obtain r k where p: "p = (r, k)" by (cases p)
  have r: "r \<notin> {0, 11, 12}" "k < 2 ^ 61" using Cons.prems(3) by (auto simp: p)
  define s1 where "s1 = store (reg s 11 + 8 * of_nat k) (reg s r) s"
  define s2 where "s2 = set_reg r (m_mem s1 (reg s 12 + 8 * of_nat k)) s1"
  have e: "exec lnk (swap_code (p # ps)) s = exec lnk (swap_code ps) s2"
    unfolding p swap_code_Cons s1_def s2_def ..
  have self: "reg s 12 + 8 * of_nat k \<noteq> reg s 11 + 8 * of_nat k" using Cons.prems(4) by (auto simp: p)
  have s2: "reg s2 q = (if q = r then m_mem s (reg s 12 + 8 * of_nat k) else reg s q)"
    "m_mem s2 = (m_mem s)(reg s 11 + 8 * of_nat k := reg s r)" for q
    using r self by (auto simp: s2_def s1_def machine_simps)
  have IH: "(\<forall>(r, k) \<in> set ps. reg (exec lnk (swap_code ps) s2) r = m_mem s2 (reg s2 12 + 8 * of_nat k) \<and>
       m_mem (exec lnk (swap_code ps) s2) (reg s2 11 + 8 * of_nat k) = reg s2 r) \<and>
     (\<forall>q. q \<notin> fst ` set ps \<longrightarrow> reg (exec lnk (swap_code ps) s2) q = reg s2 q) \<and>
     (\<forall>a. (\<forall>(r, k) \<in> set ps. a \<noteq> reg s2 11 + 8 * of_nat k) \<longrightarrow> m_mem (exec lnk (swap_code ps) s2) a = m_mem s2 a)"
    by (rule Cons.IH) (use Cons.prems r s2(1) in \<open>auto simp: p\<close>)
  have base: "reg s2 11 = reg s 11" "reg s2 12 = reg s 12" using r s2(1) by auto
  have nk: "r \<notin> fst ` set ps" "k \<notin> snd ` set ps" using Cons.prems(1,2) by (auto simp: p)
  have apart: "reg s 12 + 8 * of_nat k' \<noteq> reg s 11 + 8 * of_nat k" if "(r', k') \<in> set ps" for r' k'
    using Cons.prems(4) that by (force simp: p)
  have first: "reg (exec lnk (swap_code ps) s2) r = m_mem s (reg s 12 + 8 * of_nat k) \<and>
      m_mem (exec lnk (swap_code ps) s2) (reg s 11 + 8 * of_nat k) = reg s r"
  proof -
    have "\<forall>(r', k') \<in> set ps. reg s 11 + 8 * of_nat k \<noteq> reg s 11 + 8 * of_nat k'"
    proof (clarify)
      fix r' k' assume q: "(r', k') \<in> set ps" "reg s 11 + 8 * of_nat k = reg s 11 + 8 * of_nat k'"
      have "k' < 2 ^ 61" using Cons.prems(3) q(1) by auto
      then have "k = k'" using cell_offset_inj [OF r(2) _ q(2)] by blast
      then show False using nk(2) q(1) by force
    qed
    then show ?thesis using IH nk(1) base s2 by simp
  qed
  have rest: "reg (exec lnk (swap_code ps) s2) r' = m_mem s (reg s 12 + 8 * of_nat k') \<and>
      m_mem (exec lnk (swap_code ps) s2) (reg s 11 + 8 * of_nat k') = reg s r'" if "(r', k') \<in> set ps" for r' k'
  proof -
    have "r' \<noteq> r" using that nk(1) by force
    then show ?thesis using IH that base s2 apart [OF that] by auto
  qed
  show ?case unfolding e using first rest IH base s2 by (auto simp: p)
qed (simp add: swap_code_def)

lemma switch_regs_list:
  "switch_regs = [(1, 0), (2, 1), (8, 2), (9, 3), (18, 4), (19, 5), (20, 6), (21, 7), (22, 8), (23, 9), (24, 10),
     (25, 11), (26, 12), (27, 13)]"
  by (simp add: switch_regs_def s_reg_def upt_rec)

text \<open>The registers that a switch saves, as a context, and contexts that do not overlap.\<close>

definition context_of :: "machine \<Rightarrow> ctx" where
  "context_of s = \<lparr>c_ra = reg s ra, c_sp = reg s sp, c_s = map (\<lambda>i. reg s (s_reg i)) [0..<12]\<rparr>"

definition contexts_apart :: "usize \<Rightarrow> usize \<Rightarrow> bool" where
  "contexts_apart p q \<longleftrightarrow> (\<forall>i < 14. \<forall>j < 14. p + 8 * of_nat i \<noteq> q + 8 * of_nat j)"

lemma switch_state:
  assumes "contexts_apart (reg s 11) (reg s 12)"
  shows "context_of (switch lnk s) = context_at (m_mem s) (reg s 12)"
    "context_at (m_mem (switch lnk s)) (reg s 11) = context_of s"
    "reg (switch lnk s) 10 = reg s 10" "pc (switch lnk s) = lnk Schedule_tail_wrapper"
    "(\<forall>i < 14. a \<noteq> reg s 11 + 8 * of_nat i) \<Longrightarrow> m_mem (switch lnk s) a = m_mem s a"
proof -
  let ?e = "exec lnk (swap_code switch_regs) s"
  have d: "distinct (map fst switch_regs)" "distinct (map snd switch_regs)"
    "\<forall>(r, k) \<in> set switch_regs. r \<notin> {0, 11, 12} \<and> k < 2 ^ 61" "\<forall>(r, k) \<in> set switch_regs. k < 14"
    by (simp_all add: switch_regs_list)
  have "\<forall>(r, k) \<in> set switch_regs. \<forall>(r', k') \<in> set switch_regs. reg s 11 + 8 * of_nat k \<noteq> reg s 12 + 8 * of_nat k'"
    using assms d(4) unfolding contexts_apart_def by fastforce
  note S = swap_code_state [OF d(1-3) this, of lnk]
  have cells: "reg ?e r = m_mem s (reg s 12 + 8 * of_nat k)" "m_mem ?e (reg s 11 + 8 * of_nat k) = reg s r"
    if "(r, k) \<in> set switch_regs" for r k using S that by auto
  have s: "(s_reg i, i + 2) \<in> set switch_regs" if "i < 12" for i using that by (simp add: switch_regs_def)
  have rs: "(1, 0) \<in> set switch_regs" "(2, 1) \<in> set switch_regs" by (simp_all add: switch_regs_def)
  have sw: "reg (switch lnk s) q = reg ?e q" "m_mem (switch lnk s) = m_mem ?e" for q
    by (simp_all add: switch_def switch_code_def machine_simps)
  show "context_of (switch lnk s) = context_at (m_mem s) (reg s 12)"
    using cells(1) [OF s] cells(1) [OF rs(1)] cells(1) [OF rs(2)] by (simp add: context_of_def context_at_def sw)
  show "context_at (m_mem (switch lnk s)) (reg s 11) = context_of s"
    using cells(2) [OF s] cells(2) [OF rs(1)] cells(2) [OF rs(2)] by (simp add: context_of_def context_at_def sw)
  have "10 \<notin> fst ` set switch_regs" by (simp add: switch_regs_list)
  then show "reg (switch lnk s) 10 = reg s 10" unfolding sw by (rule S [THEN conjunct2, THEN conjunct1, rule_format])
  show "pc (switch lnk s) = lnk Schedule_tail_wrapper" by (simp add: switch_def machine_simps)
  show "m_mem (switch lnk s) a = m_mem s a" if "\<forall>i < 14. a \<noteq> reg s 11 + 8 * of_nat i"
  proof -
    have "\<forall>(r, k) \<in> set switch_regs. a \<noteq> reg s 11 + 8 * of_nat k"
    proof (clarify)
      fix r k assume "(r, k) \<in> set switch_regs" "a = reg s 11 + 8 * of_nat k"
      moreover have "k < 14" using d(4) calculation(1) by auto
      ultimately show False using that by blast
    qed
    then show ?thesis unfolding sw by (rule S [THEN conjunct2, THEN conjunct2, THEN spec, THEN mp])
  qed
qed

lemma context_at_cong:
  assumes "\<forall>i < 14. m' (p + 8 * of_nat i) = m (p + 8 * of_nat i)"
  shows "context_at m' p = context_at m p"
proof -
  have "m' (p + 8 * of_nat (i + 2)) = m (p + 8 * of_nat (i + 2))" if "i < 12" for i
    by (rule assms [rule_format]) (use that in simp)
  then have "map (\<lambda>i. m' (p + 8 * of_nat (i + 2))) [0..<12] = map (\<lambda>i. m (p + 8 * of_nat (i + 2))) [0..<12]"
    by (intro map_cong refl) (simp only: set_upt atLeastLessThan_iff)
  then show ?thesis
    unfolding context_at_def using assms [rule_format, of 0] assms [rule_format, of 1] by (simp del: of_nat_add)
qed

lemma contexts_apartI:
  assumes "unat p + 112 \<le> unat q" "unat q + 112 < 2 ^ 64"
  shows "contexts_apart p q" "contexts_apart q p"
proof -
  have u: "unat (b + 8 * of_nat i :: usize) = unat b + 8 * i" if "unat b + 112 < 2 ^ 64" "i < 14" for b :: usize and i
  proof -
    have "(8 * of_nat i :: usize) = of_nat (8 * i)" by simp
    moreover have "unat (of_nat (8 * i) :: usize) = 8 * i" by (rule unat_of_nat_small) (use that in simp)
    moreover have "unat b + 8 * i < 2 ^ 64" using that by linarith
    ultimately show ?thesis using that by (simp add: unat_word_ariths del: of_nat_mult)
  qed
  have "p + 8 * of_nat i \<noteq> q + 8 * of_nat j" if "i < 14" "j < 14" for i j
  proof -
    have "unat (p + 8 * of_nat i) < unat (q + 8 * of_nat j)"
      using u [of p i] u [of q j] assms that by linarith
    then show ?thesis by auto
  qed
  then show "contexts_apart p q" "contexts_apart q p" unfolding contexts_apart_def by (blast, metis)
qed

text \<open>
  C13. The context switch. \<open>switch\<close> loads the registers of the next thread's context and stores those of the
  current one, and nothing else, passes the previous thread on in \<open>a0\<close> and goes on in \<open>schedule_tail_wrapper\<close>. When
  some thread later switches back to the saved context, the return address, the stack pointer and all
  callee-saved registers are what they were. A thread that runs for the first time arrives in \<open>kernel_thread\<close> with its entry
  function as argument and an empty stack.
\<close>

theorem context_switch_roundtrip:
  assumes ab: "contexts_apart (reg s a1) (reg s a2)" and s1: "s1 = switch lnk s"
    and bk: "contexts_apart (reg s2 a1) (reg s2 a2)" "reg s2 a2 = reg s a1"
    and kept: "\<forall>i < 14. m_mem s2 (reg s a1 + 8 * of_nat i) = m_mem s1 (reg s a1 + 8 * of_nat i)"
    and tail: "context_of t = context_of s1" and entry: "r = kernel_thread_entry lnk t"
  shows "context_of s1 = context_at (m_mem s) (reg s a2) \<and> reg s1 a0 = reg s a0 \<and> pc s1 = lnk Schedule_tail_wrapper \<and>
    (\<forall>a. (\<forall>i < 14. a \<noteq> reg s a1 + 8 * of_nat i) \<longrightarrow> m_mem s1 a = m_mem s a) \<and>
    context_of (switch lnk s2) = context_of s \<and>
    (context_at (m_mem s) (reg s a2) = context_new lnk stack f \<longrightarrow>
      reg t ra = lnk Kernel_thread_entry \<and> reg r a0 = f \<and> reg r sp = stack + STACK_SIZE \<and> pc r = lnk Kernel_thread)"
proof -
  note S = switch_state [OF ab, where lnk = lnk, folded s1]
  have "context_of (switch lnk s2) = context_at (m_mem s1) (reg s 11)"
    using switch_state(1) [OF bk(1)] context_at_cong [OF kept] bk(2) by simp
  moreover have "reg t 1 = lnk Kernel_thread_entry \<and> reg r 10 = f \<and> reg r 2 = stack + STACK_SIZE \<and> pc r = lnk Kernel_thread"
    if c: "context_at (m_mem s) (reg s 12) = context_new lnk stack f"
  proof -
    have t: "context_of t = context_new lnk stack f" using tail S(1) c by simp
    then have "c_s (context_of t) ! 0 = f" by (simp add: context_new_def)
    then have "reg t (s_reg 0) = f" by (simp add: context_of_def)
    moreover have "reg t 1 = lnk Kernel_thread_entry" "reg t 2 = stack + STACK_SIZE"
      using t by (simp_all add: context_of_def context_new_def)
    ultimately show ?thesis by (simp add: entry kernel_thread_entry_def machine_simps)
  qed
  ultimately show ?thesis using S by auto
qed


text \<open>A thread with its context at \<open>0x1000\<close> that starts a new thread with its context at \<open>0x2000\<close>.\<close>

definition sample_switch :: machine where
  "sample_switch = \<lparr>gpr = (\<lambda>i. if i = 11 then 0x1000 else if i = 12 then 0x2000 else of_nat i), csrs = (\<lambda>_. 0),
     m_mem = (\<lambda>_. 0)(0x2008 := 0x80004000, 0x2010 := 0x4242), pc = 0, user_mode = False\<rparr>"

theorem context_switch_roundtrip_witness:
  "\<exists>s1 s2. s1 = switch (\<lambda>_. 0) sample_switch \<and> reg s2 12 = reg sample_switch 11 \<and>
     context_of (switch (\<lambda>_. 0) s2) = context_of sample_switch \<and> reg (kernel_thread_entry (\<lambda>_. 0) s1) 10 = 0x4242 \<and>
     reg (kernel_thread_entry (\<lambda>_. 0) s1) 2 = 0x80004000"
proof -
  let ?s = sample_switch
  define s1 where "s1 = switch (\<lambda>_. 0) ?s"
  define s2 where "s2 = ?s\<lparr>gpr := (gpr ?s)(11 := 0x2000, 12 := 0x1000), m_mem := m_mem s1\<rparr>"
  have g: "reg ?s 11 = 0x1000" "reg ?s 12 = 0x2000" by (simp_all add: sample_switch_def reg_def)
  have g2: "reg s2 11 = 0x2000" "reg s2 12 = 0x1000" by (simp_all add: s2_def reg_def)
  have ap: "contexts_apart 0x1000 0x2000" "contexts_apart 0x2000 0x1000" by (rule contexts_apartI; simp)+
  have new: "context_at (m_mem ?s) (reg ?s 12) = context_new (\<lambda>_. 0) 0x80000000 0x4242"
    unfolding g by (simp add: sample_switch_def context_at_def context_new_def STACK_SIZE_def PG_SIZE_def upt_rec)
  have 1: "contexts_apart (reg ?s 11) (reg ?s 12)" "contexts_apart (reg s2 11) (reg s2 12)" "reg s2 12 = reg ?s 11"
    "\<forall>i < 14. m_mem s2 (reg ?s 11 + 8 * of_nat i) = m_mem s1 (reg ?s 11 + 8 * of_nat i)"
    using ap g g2 by (simp_all add: s2_def)
  have "(0x80000000 :: usize) + STACK_SIZE = 0x80004000" by (simp add: STACK_SIZE_def PG_SIZE_def)
  then show ?thesis
    using context_switch_roundtrip [OF 1(1) s1_def 1(2-4) refl refl, where stack = "0x80000000" and f = "0x4242"] new 1(3) s1_def by auto
qed

end
