(* ===== verification/Thread_Memory.thy ===== *)
theory Thread_Memory
  imports Context_Switch
begin

text \<open>
  The memory of a thread (\<open>Builder\<close> and \<open>Drop for Thread\<close> of \<open>src/src/thread/imp.rs\<close>): the stack that \<open>build\<close> takes from the
  kernel heap with the magic number at its bottom and the first context at its top, and what dropping
  the thread gives back. The address of the boxed entry function is an argument; the boxes of the closure and the
  \<open>Arc\<close> of the thread are not modelled.
\<close>

section \<open>Builder\<close>

record 'u builder =
  b_priority :: u32
  b_name :: string
  b_function :: usize
  b_userproc :: "'u option"
  b_pagetable :: "usize option"

definition builder_new :: "usize \<Rightarrow> 'u builder" where
  "builder_new f = \<lparr>b_priority = PRI_DEFAULT, b_name = ''Default'', b_function = f, b_userproc = None, b_pagetable = None\<rparr>"

definition builder_priority :: "u32 \<Rightarrow> 'u builder \<Rightarrow> 'u builder" where
  "builder_priority p b = b\<lparr>b_priority := p\<rparr>"

definition builder_name :: "string \<Rightarrow> 'u builder \<Rightarrow> 'u builder" where
  "builder_name n b = b\<lparr>b_name := n\<rparr>"

definition builder_pagetable :: "usize \<Rightarrow> 'u builder \<Rightarrow> 'u builder" where
  "builder_pagetable pt b = b\<lparr>b_pagetable := Some pt\<rparr>"

definition builder_userproc :: "'u \<Rightarrow> 'u builder \<Rightarrow> 'u builder" where
  "builder_userproc u b = b\<lparr>b_userproc := Some u\<rparr>"

text \<open>The part of a thread that lives in memory: its stack, its first context and its page table.\<close>

record 'u thread_object =
  to_name :: string
  to_stack :: usize
  to_context :: ctx
  to_priority :: u32
  to_userproc :: "'u option"
  to_pagetable :: "usize option"

definition builder_build :: "usize list \<Rightarrow> (symbol \<Rightarrow> usize) \<Rightarrow> 'u builder \<Rightarrow> kmem \<Rightarrow> ('u thread_object \<times> kmem) option" where
  "builder_build da lnk b st = do {
     (stack, st) \<leftarrow> kalloc da STACK_SIZE STACK_ALIGN st;
     let st = st\<lparr>km_mem := (km_mem st)(stack := MAGIC)\<rparr>;
     Some (\<lparr>to_name = b_name b, to_stack = stack, to_context = context_new lnk stack (b_function b),
            to_priority = b_priority b, to_userproc = b_userproc b, to_pagetable = b_pagetable b\<rparr>, st)
   }"

definition stack_overflow :: "memory \<Rightarrow> 'u thread_object \<Rightarrow> bool" where
  "stack_overflow m t \<longleftrightarrow> m (to_stack t) \<noteq> MAGIC"

definition thread_drop :: "usize list \<Rightarrow> 'u thread_object \<Rightarrow> kmem \<Rightarrow> kmem option" where
  "thread_drop da t st = do {
     st \<leftarrow> kfree da (to_stack t) STACK_SIZE STACK_ALIGN st;
     (case to_pagetable t of None \<Rightarrow> Some st | Some pt \<Rightarrow> destroy da pt st)
   }"

text \<open>The body of every thread: interrupts on, the function itself, and the end of the thread.\<close>

definition kernel_thread :: "'q reg_op \<Rightarrow> 'q sch_op \<Rightarrow> ('q kernel \<Rightarrow> 'q kernel option) \<Rightarrow> 'q kernel \<Rightarrow> 'q kernel option" where
  "kernel_thread rg sch main k = do {
     let k = snd (interrupt_set k True);
     k \<leftarrow> main k;
     thread_exit rg sch k
   }"

section \<open>The stack\<close>

definition stack_bytes :: "usize \<Rightarrow> nat set" where
  "stack_bytes p = {unat p..<unat p + 16384}"

lemma stack_request:
  fixes l :: layout
  defines "l \<equiv> \<lparr>l_size = STACK_SIZE, l_align = STACK_ALIGN\<rparr>"
  shows "layout_ok l" "\<not> small l" "pages_of l = 4" "from_size_align STACK_SIZE STACK_ALIGN = Some l"
    "heap_region l p = stack_bytes p"
proof -
  have p: "is_power_of_two 16" using is_power_of_two_exp [of 4] by simp
  show l: "layout_ok l" by (simp add: l_def layout_ok_def STACK_SIZE_def STACK_ALIGN_def PG_SIZE_def p)
  have "bit_len 16383 = 14" by (simp add: bit_len.simps)
  moreover have "\<not> (16384 :: usize) \<le> 1" by (simp add: word_le_nat_alt)
  ultimately have "(16384 :: usize) \<le> block_request l"
    by (simp add: block_request_def l_def STACK_SIZE_def PG_SIZE_def next_power_of_two_def)
  then show s: "\<not> small l" by (auto simp: small_def MAX_BLKSIZE_def word_le_nat_alt)
  show pg: "pages_of l = 4" by (simp add: l_def pages_of_def STACK_SIZE_def PG_SIZE_def)
  show "from_size_align STACK_SIZE STACK_ALIGN = Some l"
    by (simp add: from_size_align_def l_def STACK_SIZE_def STACK_ALIGN_def PG_SIZE_def p)
  have "order_of 4 \<le> 2" "\<not> order_of 4 \<le> 1" using order_of_le_iff [of 4 2] order_of_le_iff [of 4 1] by simp_all
  then have "order_of 4 = 2" by linarith
  then show "heap_region l p = stack_bytes p"
    by (simp add: heap_region_def s pg buddy_region_def block_bytes_def stack_bytes_def PG_SHIFT_def)
qed

lemma builder_build_ok:
  assumes h: "heap_pages da st U A" and b: "builder_build da lnk b st = Some (t, st1)"
  shows "stack_bytes (to_stack t) \<subseteq> U" "16 dvd unat (to_stack t)" "unat (to_stack t) + 16384 \<le> 2 ^ 64"
    "\<exists>A1. heap_pages da st1 (U - stack_bytes (to_stack t)) A1" "untouched U (km_mem st) (km_mem st1)"
    "km_mem st1 (to_stack t) = MAGIC" "to_context t = context_new lnk (to_stack t) (b_function b)"
    "untouched Y (km_mem st1) m \<Longrightarrow> Y \<inter> U \<subseteq> stack_bytes (to_stack t) \<Longrightarrow>
      \<exists>st2 A2. kfree da (to_stack t) STACK_SIZE STACK_ALIGN (st1\<lparr>km_mem := m\<rparr>) = Some st2 \<and> heap_pages da st2 U A2"
proof -
  let ?l = "\<lparr>l_size = STACK_SIZE, l_align = STACK_ALIGN\<rparr>"
  note r = stack_request
  obtain P X where rel: "heap_rel da st A P X" and U: "U = unused A P X" using h by (auto simp: heap_pages_def)
  from b obtain st0 where a: "heap_alloc da ?l st = Some (to_stack t, st0)"
    and st1: "st1 = st0\<lparr>km_mem := (km_mem st0)(to_stack t := MAGIC)\<rparr>"
    and c: "to_context t = context_new lnk (to_stack t) (b_function b)"
    by (auto simp: builder_build_def kalloc_def r(4) bind_eq_Some_conv)
  from heap_alloc_ok [OF rel r(1) a] obtain A1 P1 X1 where rel1: "heap_rel da st0 A1 P1 X1"
    and own: "heap_owns ?l (to_stack t) A1 P1 X1" and al: "allocated_at ?l (to_stack t)"
    and sub: "stack_bytes (to_stack t) \<subseteq> U" and U1: "unused A1 P1 X1 = U - stack_bytes (to_stack t)"
    and un: "untouched U (km_mem st) (km_mem st0)" unfolding r(5) U by blast
  show "stack_bytes (to_stack t) \<subseteq> U" by (rule sub)
  show "16 dvd unat (to_stack t)" using al by (simp add: allocated_at_def STACK_ALIGN_def)
  have "buddy_region_ok 4 (to_stack t)" using own r(2,3) by (simp add: heap_owns_def)
  then have "block_ok (order_of 4, to_stack t)" by (simp add: buddy_region_ok_def)
  moreover have "\<not> order_of 4 \<le> 1" using order_of_le_iff [of 4 1] by simp
  ultimately show "unat (to_stack t) + 16384 \<le> 2 ^ 64"
    using power_increasing [of 14 "order_of 4 + 12" "2 :: nat"] by (simp add: block_ok_def PG_SHIFT_def)
  have base: "unat (to_stack t) \<in> stack_bytes (to_stack t)" by (simp add: stack_bytes_def)
  have mag: "untouched {unat (to_stack t)} (km_mem st0) (km_mem st1)" unfolding st1 by (auto intro: untouched_upd untouched_refl)
  have "heap_rel da st1 A1 P1 X1" unfolding st1
    by (rule heap_rel_client [OF rel1, of "{unat (to_stack t)}"]) (use mag st1 U1 base in auto)
  then show "\<exists>A1. heap_pages da st1 (U - stack_bytes (to_stack t)) A1" using U1 by (auto simp: heap_pages_def)
  show "untouched U (km_mem st) (km_mem st1)"
    by (rule untouched_trans [OF un untouched_mono [OF mag]]) (use sub base in blast)
  show "km_mem st1 (to_stack t) = MAGIC" by (simp add: st1)
  show "to_context t = context_new lnk (to_stack t) (b_function b)" by (rule c)
  show "\<exists>st2 A2. kfree da (to_stack t) STACK_SIZE STACK_ALIGN (st1\<lparr>km_mem := m\<rparr>) = Some st2 \<and> heap_pages da st2 U A2"
    if Y: "untouched Y (km_mem st1) m" "Y \<inter> U \<subseteq> stack_bytes (to_stack t)"
  proof -
    let ?Y = "{unat (to_stack t)} \<union> Y"
    have "untouched ?Y (km_mem st0) m"
      by (rule untouched_trans [OF untouched_mono [OF mag] untouched_mono [OF Y(1)]]) auto
    moreover have "?Y \<inter> unused A P X \<subseteq> heap_region ?l (to_stack t)" using Y(2) base unfolding r(5) U by blast
    ultimately have "\<exists>st2 A' P' X'. heap_dealloc da (to_stack t) ?l (st0\<lparr>km_mem := m\<rparr>) = Some st2 \<and>
        heap_rel da st2 A' P' X' \<and> unused A' P' X' = unused A P X \<and> live P' X' = live P X"
      by (rule heap_block_returned [OF rel r(1) a])
    then obtain st2 A' P' X' where
      "heap_dealloc da (to_stack t) ?l (st0\<lparr>km_mem := m\<rparr>) = Some st2" "heap_rel da st2 A' P' X'" "unused A' P' X' = U"
      unfolding U by auto
    moreover have "kfree da (to_stack t) STACK_SIZE STACK_ALIGN (st1\<lparr>km_mem := m\<rparr>) = heap_dealloc da (to_stack t) ?l (st0\<lparr>km_mem := m\<rparr>)"
      unfolding kfree_def r(4) st1 by simp
    ultimately show ?thesis unfolding heap_pages_def by metis
  qed
qed

text \<open>
  C26. The life of a thread's stack. \<open>build\<close> takes 16 KiB from the unused bytes of the heap, aligned and without
  wrap-around, and the context of the new thread starts at their end with \<open>kernel_thread_entry\<close> and the entry
  function. Whatever the thread and the rest of the kernel write to the stack and to memory that the heap does not own, the overflow check
  reports exactly a changed word at the bottom, and dropping the thread succeeds and gives the heap the bytes of before.
\<close>

theorem thread_stack_lifecycle:
  assumes h: "heap_pages da st U A" and b: "builder_build da lnk b st = Some (t, st1)" and pt: "b_pagetable b = None"
    and m: "untouched Y (km_mem st1) m" "Y \<inter> U \<subseteq> stack_bytes (to_stack t)"
  shows "stack_bytes (to_stack t) \<subseteq> U \<and> (\<exists>A1. heap_pages da st1 (U - stack_bytes (to_stack t)) A1) \<and>
    unat (c_sp (to_context t)) = (unat (to_stack t) + 16384) mod 2 ^ 64 \<and> 16 dvd unat (c_sp (to_context t)) \<and>
    c_ra (to_context t) = lnk Kernel_thread_entry \<and> c_s (to_context t) ! 0 = b_function b \<and>
    \<not> stack_overflow (km_mem st1) t \<and> (stack_overflow m t \<longleftrightarrow> m (to_stack t) \<noteq> km_mem st1 (to_stack t)) \<and>
    (\<exists>st2 A2. thread_drop da t (st1\<lparr>km_mem := m\<rparr>) = Some st2 \<and> heap_pages da st2 U A2)"
proof -
  note B = builder_build_ok [OF h b]
  have "to_pagetable t = None" using b pt by (auto simp: builder_build_def bind_eq_Some_conv)
  then have d: "\<exists>st2 A2. thread_drop da t (st1\<lparr>km_mem := m\<rparr>) = Some st2 \<and> heap_pages da st2 U A2"
    using B(8) [OF m] by (auto simp: thread_drop_def)
  have sp: "unat (c_sp (to_context t)) = (unat (to_stack t) + 16384) mod 2 ^ 64"
    unfolding B(7) by (simp add: context_new_def STACK_SIZE_def PG_SIZE_def unat_word_ariths)
  have "(16 :: nat) dvd (unat (to_stack t) + 16384) mod 2 ^ 64"
    using B(2) by (intro dvd_mod) (auto intro: dvd_add)
  then show ?thesis using B(1,4,6) d sp unfolding B(7) by (simp add: context_new_def stack_overflow_def)
qed

text \<open>A heap with one free block of four pages.\<close>

definition four_pages :: kmem where
  "four_pages = sample_kmem\<lparr>km_mem := (\<lambda>_. 0),
     km_palloc := \<lparr>free_lists = (replicate 9 list_new)[2 := \<lparr>head = 0x4000\<rparr>], total = 0x4000, allocated = 0\<rparr>\<rparr>"

lemma four_pages_inv:
  "buddy_inv (km_mem four_pages, km_palloc four_pages) ((replicate 9 [])[2 := [0x4000]])"
  "bytes (blocks ((replicate 9 [])[2 := [0x4000]])) = {0x4000..<0x8000}"
proof -
  define F :: "usize list list" where "F = (replicate 9 [])[2 := [0x4000]]"
  have bl: "blocks F = {(2, 0x4000)}"
    by (auto simp: F_def blocks_def nth_list_update split: if_splits)
  have "buddy_rel (km_mem four_pages, km_palloc four_pages) F"
    by (auto simp: F_def buddy_rel_def four_pages_def MAX_ORDER_def nth_list_update list_new_def)
  moreover have "good (blocks F)" unfolding bl good_def by (simp add: block_ok_def MAX_ORDER_def PG_SHIFT_def)
  ultimately show "buddy_inv (km_mem four_pages, km_palloc four_pages) ((replicate 9 [])[2 := [0x4000]])"
    unfolding F_def [symmetric] buddy_inv_def by blast
  have "block_bytes (2, 0x4000) = {0x4000..<0x8000}"
    by (simp add: block_bytes_def PG_SHIFT_def del: atLeastLessThan_nat_numeral)
  then show "bytes (blocks ((replicate 9 [])[2 := [0x4000]])) = {0x4000..<0x8000}"
    unfolding F_def [symmetric] bl bytes_def by blast
qed

lemma four_pages_heap: "heap_pages sample_da four_pages {0x4000..<0x8000} {0x4000..<0x8000}"
proof (rule heap_new_rel)
  show "addresses_ok sample_da" by (simp add: addresses_ok_def sample_da_def)
  show "buddy_free (km_mem four_pages, km_palloc four_pages) {0x4000..<0x8000}"
    unfolding buddy_free_def using four_pages_inv by blast
  show "heap_new = Some (km_heap four_pages)" using sample_heap_new by (simp add: four_pages_def)
qed

lemma four_pages_build: "\<exists>t st1. builder_build sample_da lnk b four_pages = Some (t, st1)"
proof -
  let ?l = "\<lparr>l_size = STACK_SIZE, l_align = STACK_ALIGN\<rparr>"
  have o: "order_of 4 \<le> 2" using order_of_le_iff [of 4 2] by simp
  obtain p s where a: "buddy_alloc 4 (km_mem four_pages, km_palloc four_pages) = Some (p, s)"
    using buddy_alloc_ok [OF four_pages_inv(1), of 4 2] o by (auto simp: MAX_ORDER_def)
  have "heap_alloc sample_da ?l four_pages = palloc_alloc 4 (four_pages\<lparr>km_heap := (km_heap four_pages)\<lparr>
      spilled_alloc := spilled_alloc (km_heap four_pages) + block_request ?l, spilled_total := spilled_total (km_heap four_pages) + 4\<rparr>\<rparr>)"
    using stack_request(1-3) by (auto simp: heap_alloc_def layout_ok_def small_def Let_def)
  then show ?thesis
    using a by (cases s) (simp add: builder_build_def kalloc_def stack_request(4) palloc_alloc_def)
qed

theorem thread_stack_lifecycle_witness:
  "\<exists>t st1 st2. builder_build sample_da (\<lambda>_. 0) (builder_new 0x1234 :: unit builder) four_pages = Some (t, st1) \<and>
     c_s (to_context t) ! 0 = 0x1234 \<and> \<not> stack_overflow (km_mem st1) t \<and>
     thread_drop sample_da t (st1\<lparr>km_mem := (km_mem st1)(to_stack t := 7)\<rparr>) = Some st2"
proof -
  obtain t st1 where b: "builder_build sample_da (\<lambda>_. 0) (builder_new 0x1234 :: unit builder) four_pages = Some (t, st1)"
    using four_pages_build by blast
  have un: "untouched {unat (to_stack t)} (km_mem st1) ((km_mem st1)(to_stack t := 7))" by (auto intro: untouched_upd untouched_refl)
  have "{unat (to_stack t)} \<inter> {0x4000..<0x8000} \<subseteq> stack_bytes (to_stack t)" by (auto simp: stack_bytes_def)
  from thread_stack_lifecycle [OF four_pages_heap b _ un this]
  show ?thesis using b by (auto simp: builder_new_def)
qed

end
