(* ===== verification/Trap_Code.thy ===== *)
theory Trap_Code
  imports Riscv
begin

text \<open>
  The entry and exit code of traps (the assembly of \<open>src/src/trap.rs\<close>) and the frame that it
  builds on the kernel stack. The handler between the two is compiled Rust code; it gets a pointer
  to the frame, returns with the stack pointer it was called with, as the calling convention says,
  and changes the frame by some function \<open>F\<close> (\<open>handler_call\<close>).
\<close>

section \<open>The frame\<close>

record frame =
  fr_x :: "usize list"
  fr_sstatus :: usize
  fr_sepc :: usize

text \<open>The layout of \<open>Frame\<close>, which is \<open>repr(C)\<close>, at an address.\<close>

definition frame_at :: "memory \<Rightarrow> usize \<Rightarrow> frame" where
  "frame_at m p = \<lparr>fr_x = map (\<lambda>i. m (p + 8 * of_nat i)) [0..<32],
     fr_sstatus = m (p + 8 * 32), fr_sepc = m (p + 8 * 33)\<rparr>"

text \<open>The memory with another frame at this address.\<close>

definition write_frame :: "memory \<Rightarrow> usize \<Rightarrow> frame \<Rightarrow> memory" where
  "write_frame m p f = (\<lambda>a. let k = unat (a - p) in
     if k mod 8 \<noteq> 0 \<or> 34 \<le> k div 8 then m a
     else if k div 8 < 32 then fr_x f ! (k div 8) else if k div 8 = 32 then fr_sstatus f else fr_sepc f)"

section \<open>Code\<close>

text \<open>Registers 1 and 3 to 31: \<open>x0\<close> is constant, and \<open>sp\<close> is saved apart.\<close>

definition saved_regs :: "nat list" where
  "saved_regs = ra # [3..<32]"

definition trap_entry_u :: "instr list" where
  "trap_entry_u =
     [Csrrw sp Sscratch sp,
      Addi sp sp (- (34 * 8))] @
     save_at saved_regs sp @
     [Csrr t0 Sstatus,
      Csrr t1 Sepc,
      Csrr t2 Sscratch,
      Sd t0 (32 * 8) sp,
      Sd t1 (33 * 8) sp,
      Sd t2 (2 * 8) sp,
      Mv a0 sp]"

definition trap_exit_u :: "instr list" where
  "trap_exit_u =
     [Ld t0 (32 * 8) sp,
      Ld t1 (33 * 8) sp,
      Ld t2 (2 * 8) sp,
      Csrw Sstatus t0,
      Csrw Sepc t1,
      Csrw Sscratch t2,
      La t0 Trap_entry_u,
      Csrw Stvec t0] @
     load_from saved_regs sp @
     [Addi sp sp (34 * 8),
      Csrrw sp Sscratch sp]"

definition trap_entry_k :: "instr list" where
  "trap_entry_k =
     [Addi sp sp (- (34 * 8))] @
     save_at saved_regs sp @
     [Csrr t0 Sstatus,
      Csrr t1 Sepc,
      Sd t0 (32 * 8) sp,
      Sd t1 (33 * 8) sp,
      Mv a0 sp]"

definition trap_exit_k :: "instr list" where
  "trap_exit_k =
     [Ld t0 (32 * 8) sp,
      Ld t1 (33 * 8) sp,
      Csrw Sstatus t0,
      Csrw Sepc t1,
      La t0 Trap_entry_k,
      Csrw Stvec t0] @
     load_from saved_regs sp @
     [Addi sp sp (34 * 8)]"

definition leave_trap_u :: "(symbol \<Rightarrow> usize) \<Rightarrow> machine \<Rightarrow> machine" where
  "leave_trap_u lnk s = sret (exec lnk trap_exit_u s)"

definition leave_trap_k :: "(symbol \<Rightarrow> usize) \<Rightarrow> machine \<Rightarrow> machine" where
  "leave_trap_k lnk s = sret (exec lnk trap_exit_k s)"

section \<open>What the code does\<close>

definition handler_call :: "(frame \<Rightarrow> frame) \<Rightarrow> machine \<Rightarrow> machine \<Rightarrow> bool" where
  "handler_call F s s' \<longleftrightarrow> reg s' sp = reg s sp \<and> \<not> user_mode s' \<and>
     frame_at (m_mem s') (reg s a0) = F (frame_at (m_mem s) (reg s a0))"

definition frame_bytes :: "usize \<Rightarrow> usize set" where
  "frame_bytes p = {p + 8 * of_nat i | i. i < 34}"

lemma set_saved_regs: "set saved_regs = {1..<32} - {2}"
  by (auto simp: saved_regs_def simp del: upt_rec_numeral)

lemma frame_cell: "i < 32 \<Longrightarrow> fr_x (frame_at m p) ! i = m (p + 8 * of_nat i)"
  by (simp add: frame_at_def)

lemma frame_eqI:
  assumes "length (fr_x f) = 32" "\<And>i. i < 32 \<Longrightarrow> fr_x f ! i = m (p + 8 * of_nat i)"
    "fr_sstatus f = m (p + 8 * 32)" "fr_sepc f = m (p + 8 * 33)"
  shows "frame_at m p = f"
proof -
  have "fr_x f = map (\<lambda>i. m (p + 8 * of_nat i)) [0..<32]" using assms(1,2) by (intro nth_equalityI) simp_all
  then show ?thesis using assms(3,4) by (simp add: frame_at_def)
qed

lemma frame_at_write: "length (fr_x f) = 32 \<Longrightarrow> frame_at (write_frame m p f) p = f"
proof (rule frame_eqI)
  have u: "unat (p + 8 * of_nat i - p) = 8 * i" if "i < 34" for i
  proof -
    have "8 * of_nat i = (of_nat (8 * i) :: usize)" by simp
    moreover have "unat (of_nat (8 * i) :: usize) = 8 * i" by (rule unat_of_nat_small) (use that in simp)
    ultimately show ?thesis by simp
  qed
  show "fr_x f ! i = write_frame m p f (p + 8 * of_nat i)" if "i < 32" for i
    using that u [of i] by (simp add: write_frame_def)
  show "fr_sstatus f = write_frame m p f (p + 8 * 32)" "fr_sepc f = write_frame m p f (p + 8 * 33)"
    using u [of 32] u [of 33] by (simp_all add: write_frame_def)
qed

text \<open>Offsets inside a frame are different cells.\<close>

lemma frame_cells:
  fixes p :: usize
  assumes "i < 34" "j < 34"
  shows "p + 8 * of_nat i = p + 8 * of_nat j \<longleftrightarrow> i = j"
  using cell_offset_inj [of i j p] assms by auto

lemma entry_u_state:
  fixes s :: machine and lnk :: "symbol \<Rightarrow> usize"
  defines "e \<equiv> exec lnk trap_entry_u s" and "p \<equiv> csrs s Sscratch - 34 * 8"
  shows "reg e a0 = p" "reg e sp = p" "i < 34 \<Longrightarrow> i \<noteq> 0 \<Longrightarrow> m_mem e (p + 8 * of_nat i) =
      (if i = 32 then csrs s Sstatus else if i = 33 then csrs s Sepc else reg s i)"
    "a \<notin> frame_bytes p \<Longrightarrow> m_mem e a = m_mem s a"
proof -
  define s1 where "s1 = exec lnk [Csrrw sp Sscratch sp, Addi sp sp (- (34 * 8))] s"
  define s2 where "s2 = exec lnk (save_at saved_regs sp) s1"
  have e: "e = exec lnk [Csrr t0 Sstatus, Csrr t1 Sepc, Csrr t2 Sscratch, Sd t0 (32 * 8) sp,
      Sd t1 (33 * 8) sp, Sd t2 (2 * 8) sp, Mv a0 sp] s2"
    by (simp add: e_def trap_entry_u_def exec_append s1_def s2_def)
  have s1: "reg s1 q = (if q = 2 then p else reg s q)" "csrs s1 Sscratch = reg s 2"
    "csrs s1 Sstatus = csrs s Sstatus" "csrs s1 Sepc = csrs s Sepc" "m_mem s1 = m_mem s" for q
    by (simp_all add: s1_def p_def machine_simps)
  have s2: "reg s2 q = reg s1 q" "csrs s2 = csrs s1" for q by (simp_all add: s2_def save_at_frame)
  have m2: "m_mem s2 (p + 8 * of_nat i) = (if i \<in> set saved_regs then reg s i else m_mem s (p + 8 * of_nat i))"
    if "i < 34" for i
    using save_at_mem [of saved_regs i lnk 2 s1] that s1 by (auto simp: s2_def set_saved_regs)
  show "reg e a0 = p" "reg e sp = p" unfolding e by (simp_all add: machine_simps s2(1) s1(1))
  have me: "m_mem e = (m_mem s2)(p + 8 * of_nat 32 := csrs s Sstatus, p + 8 * of_nat 33 := csrs s Sepc,
      p + 8 * of_nat 2 := reg s 2)"
    unfolding e by (simp add: machine_simps s2 s1 del: fun_upd_apply)
  show "m_mem e (p + 8 * of_nat i) = (if i = 32 then csrs s Sstatus else if i = 33 then csrs s Sepc else reg s i)"
    if i: "i < 34" "i \<noteq> 0"
    unfolding me fun_upd_apply using i m2 [of i] frame_cells [of i 32 p] frame_cells [of i 33 p] frame_cells [of i 2 p]
    by (auto simp: set_saved_regs)
  show "m_mem e a = m_mem s a" if "a \<notin> frame_bytes p"
  proof -
    have ne: "a \<noteq> p + 8 * of_nat i" if "i < 34" for i using \<open>a \<notin> frame_bytes p\<close> that by (auto simp: frame_bytes_def)
    have "m_mem s2 a = m_mem s1 a"
      unfolding s2_def by (rule save_at_mem_other) (use ne s1 in \<open>auto simp: set_saved_regs\<close>)
    then show ?thesis unfolding me fun_upd_apply using ne [of 32] ne [of 33] ne [of 2] s1(5) by simp
  qed
qed

lemma exit_u_state:
  fixes s :: machine and lnk :: "symbol \<Rightarrow> usize"
  defines "e \<equiv> exec lnk trap_exit_u s" and "p \<equiv> reg s sp"
  shows "0 < i \<Longrightarrow> i < 32 \<Longrightarrow> reg e i = m_mem s (p + 8 * of_nat i)" "m_mem e = m_mem s"
    "csrs e Sstatus = m_mem s (p + 8 * 32)" "csrs e Sepc = m_mem s (p + 8 * 33)"
    "csrs e Sscratch = p + 34 * 8" "csrs e Stvec = lnk Trap_entry_u"
proof -
  define s1 where "s1 = exec lnk [Ld t0 (32 * 8) sp, Ld t1 (33 * 8) sp, Ld t2 (2 * 8) sp, Csrw Sstatus t0,
    Csrw Sepc t1, Csrw Sscratch t2, La t0 Trap_entry_u, Csrw Stvec t0] s"
  define s2 where "s2 = exec lnk (load_from saved_regs sp) s1"
  have e: "e = exec lnk [Addi sp sp (34 * 8), Csrrw sp Sscratch sp] s2"
    by (simp add: e_def trap_exit_u_def exec_append s1_def s2_def)
  have s1: "reg s1 2 = p" "reg s1 0 = 0" "m_mem s1 = m_mem s" "csrs s1 Sstatus = m_mem s (p + 8 * 32)"
    "csrs s1 Sepc = m_mem s (p + 8 * 33)" "csrs s1 Sscratch = m_mem s (p + 8 * 2)" "csrs s1 Stvec = lnk Trap_entry_u"
    by (simp_all add: s1_def p_def machine_simps)
  have s2: "reg s2 q = (if q \<in> set saved_regs then m_mem s (p + 8 * of_nat q) else reg s1 q)"
    "csrs s2 = csrs s1" "m_mem s2 = m_mem s" for q
    unfolding s2_def using load_from_reg [of 2 saved_regs lnk s1 q] s1
    by (simp_all add: load_from_frame set_saved_regs)
  have e1: "reg e q = (if q = 2 then csrs s2 Sscratch else reg s2 q)"
    "csrs e c = (if c = Sscratch then reg s2 2 + 34 * 8 else csrs s2 c)" "m_mem e = m_mem s2" for q c
    unfolding e by (simp_all add: machine_simps)
  show "reg e i = m_mem s (p + 8 * of_nat i)" if "0 < i" "i < 32"
    using that by (simp add: e1 s2 s1 set_saved_regs)
  show "m_mem e = m_mem s" "csrs e Sstatus = m_mem s (p + 8 * 32)" "csrs e Sepc = m_mem s (p + 8 * 33)"
    "csrs e Sscratch = p + 34 * 8" "csrs e Stvec = lnk Trap_entry_u"
    by (simp_all add: e1 s2 s1 set_saved_regs)
qed

lemma entry_k_state:
  fixes s :: machine and lnk :: "symbol \<Rightarrow> usize"
  defines "e \<equiv> exec lnk trap_entry_k s" and "p \<equiv> reg s sp - 34 * 8"
  shows "reg e a0 = p" "reg e sp = p" "i < 34 \<Longrightarrow> i \<noteq> 0 \<Longrightarrow> i \<noteq> 2 \<Longrightarrow> m_mem e (p + 8 * of_nat i) =
      (if i = 32 then csrs s Sstatus else if i = 33 then csrs s Sepc else reg s i)"
    "a \<notin> frame_bytes p \<Longrightarrow> m_mem e a = m_mem s a" "csrs e = csrs s"
proof -
  define s1 where "s1 = exec lnk [Addi sp sp (- (34 * 8))] s"
  define s2 where "s2 = exec lnk (save_at saved_regs sp) s1"
  have e: "e = exec lnk [Csrr t0 Sstatus, Csrr t1 Sepc, Sd t0 (32 * 8) sp, Sd t1 (33 * 8) sp, Mv a0 sp] s2"
    by (simp add: e_def trap_entry_k_def exec_append s1_def s2_def)
  have s1: "reg s1 q = (if q = 2 then p else reg s q)" "csrs s1 = csrs s" "m_mem s1 = m_mem s" for q
    by (simp_all add: s1_def p_def machine_simps fun_eq_iff)
  have s2: "reg s2 q = reg s1 q" "csrs s2 = csrs s1" for q by (simp_all add: s2_def save_at_frame)
  have m2: "m_mem s2 (p + 8 * of_nat i) = (if i \<in> set saved_regs then reg s i else m_mem s (p + 8 * of_nat i))"
    if "i < 34" for i
    using save_at_mem [of saved_regs i lnk 2 s1] that s1 by (auto simp: s2_def set_saved_regs)
  show "reg e a0 = p" "reg e sp = p" unfolding e by (simp_all add: machine_simps s2(1) s1(1))
  show "csrs e = csrs s" unfolding e by (simp add: fun_eq_iff machine_simps s2 s1)
  have me: "m_mem e = (m_mem s2)(p + 8 * of_nat 32 := csrs s Sstatus, p + 8 * of_nat 33 := csrs s Sepc)"
    unfolding e by (simp add: machine_simps s2 s1 del: fun_upd_apply)
  show "m_mem e (p + 8 * of_nat i) = (if i = 32 then csrs s Sstatus else if i = 33 then csrs s Sepc else reg s i)"
    if i: "i < 34" "i \<noteq> 0" "i \<noteq> 2"
    unfolding me fun_upd_apply using i m2 [of i] frame_cells [of i 32 p] frame_cells [of i 33 p]
    by (auto simp: set_saved_regs)
  show "m_mem e a = m_mem s a" if "a \<notin> frame_bytes p"
  proof -
    have ne: "a \<noteq> p + 8 * of_nat i" if "i < 34" for i using \<open>a \<notin> frame_bytes p\<close> that by (auto simp: frame_bytes_def)
    have "m_mem s2 a = m_mem s1 a"
      unfolding s2_def by (rule save_at_mem_other) (use ne s1 in \<open>auto simp: set_saved_regs\<close>)
    then show ?thesis unfolding me fun_upd_apply using ne [of 32] ne [of 33] s1(3) by simp
  qed
qed

lemma exit_k_state:
  fixes s :: machine and lnk :: "symbol \<Rightarrow> usize"
  defines "e \<equiv> exec lnk trap_exit_k s" and "p \<equiv> reg s sp"
  shows "0 < i \<Longrightarrow> i < 32 \<Longrightarrow> reg e i = (if i = 2 then p + 34 * 8 else m_mem s (p + 8 * of_nat i))"
    "m_mem e = m_mem s" "csrs e = (csrs s)(Sstatus := m_mem s (p + 8 * 32), Sepc := m_mem s (p + 8 * 33),
      Stvec := lnk Trap_entry_k)"
proof -
  define s1 where "s1 = exec lnk [Ld t0 (32 * 8) sp, Ld t1 (33 * 8) sp, Csrw Sstatus t0, Csrw Sepc t1,
    La t0 Trap_entry_k, Csrw Stvec t0] s"
  define s2 where "s2 = exec lnk (load_from saved_regs sp) s1"
  have e: "e = exec lnk [Addi sp sp (34 * 8)] s2"
    by (simp add: e_def trap_exit_k_def exec_append s1_def s2_def)
  have s1: "reg s1 2 = p" "reg s1 0 = 0" "m_mem s1 = m_mem s"
    "csrs s1 = (csrs s)(Sstatus := m_mem s (p + 8 * 32), Sepc := m_mem s (p + 8 * 33), Stvec := lnk Trap_entry_k)"
    by (simp_all add: s1_def p_def machine_simps fun_eq_iff)
  have s2: "reg s2 q = (if q \<in> set saved_regs then m_mem s (p + 8 * of_nat q) else reg s1 q)"
    "csrs s2 = csrs s1" "m_mem s2 = m_mem s" for q
    unfolding s2_def using load_from_reg [of 2 saved_regs lnk s1 q] s1
    by (simp_all add: load_from_frame set_saved_regs)
  have e1: "reg e q = (if q = 2 then reg s2 2 + 34 * 8 else reg s2 q)" "csrs e = csrs s2" "m_mem e = m_mem s2" for q
    unfolding e by (simp_all add: machine_simps fun_eq_iff)
  show "reg e i = (if i = 2 then p + 34 * 8 else m_mem s (p + 8 * of_nat i))" if "0 < i" "i < 32"
    using that by (simp add: e1 s2 s1 set_saved_regs)
  show "m_mem e = m_mem s" by (simp add: e1 s2)
  show "csrs e = (csrs s)(Sstatus := m_mem s (p + 8 * 32), Sepc := m_mem s (p + 8 * 33), Stvec := lnk Trap_entry_k)"
    by (simp add: e1 s2 s1 del: fun_upd_apply)
qed

end
