(* ===== verification/Free_Map.thy ===== *)
theory Free_Map
  imports Tacos_Prelude
begin

text \<open>
  The bitmap of disk sectors (\<open>src/src/fs/disk/free_map.rs\<close>): one bit per sector, set when
  the sector is in use. A sector number is a \<open>u32\<close>; the bits are packed into bytes.
  \<open>fm_bit\<close> reads the map as a predicate on sector numbers, and the lemmas state each
  operation on it. \<open>new_format\<close>, \<open>load\<close> and \<open>flush\<close>, which go through an inode, are
  in the theory of the disk file system.
\<close>

section \<open>State and operations\<close>

type_synonym inum = u32

record free_map =
  size :: u32
  bits :: "u8 list"

definition fm_get :: "free_map \<Rightarrow> inum \<Rightarrow> bool option" where
  "fm_get f sector = do {
     rust_assert (sector < size f);
     byte \<leftarrow> slice_get (bits f) (unat sector div 8);
     Some (byte AND push_bit (unat sector mod 8) 1 \<noteq> 0)
   }"

definition fm_set :: "free_map \<Rightarrow> inum \<Rightarrow> free_map option" where
  "fm_set f sector = do {
     rust_assert (sector < size f);
     byte \<leftarrow> slice_get (bits f) (unat sector div 8);
     bs \<leftarrow> slice_set (bits f) (unat sector div 8) (byte OR push_bit (unat sector mod 8) 1);
     Some (f\<lparr>bits := bs\<rparr>)
   }"

definition fm_reset :: "free_map \<Rightarrow> inum \<Rightarrow> free_map option" where
  "fm_reset f sector = do {
     rust_assert (sector < size f);
     byte \<leftarrow> slice_get (bits f) (unat sector div 8);
     bs \<leftarrow> slice_set (bits f) (unat sector div 8) (byte AND NOT (push_bit (unat sector mod 8) 1));
     Some (f\<lparr>bits := bs\<rparr>)
   }"

fun fm_set_all :: "free_map \<Rightarrow> inum list \<Rightarrow> free_map option" where
  "fm_set_all f [] = Some f"
| "fm_set_all f (j # js) = do { f \<leftarrow> fm_set f j; fm_set_all f js }"

text \<open>
  The inner loop of \<open>alloc\<close>: are the next \<open>n\<close> sectors from \<open>i\<close> on free? It stops at the
  first one in use.
\<close>

fun fm_run_free :: "free_map \<Rightarrow> inum \<Rightarrow> nat \<Rightarrow> bool option" where
  "fm_run_free f i 0 = Some True"
| "fm_run_free f i (Suc n) = do {
     used \<leftarrow> fm_get f i;
     if used then Some False else fm_run_free f (i + 1) n
   }"

text \<open>
  The outer loop. The assignment \<open>i += 1\<close> of the source moves a copy of the loop variable,
  so the next iteration starts one sector further, not after the tested run.
\<close>

fun fm_scan :: "free_map \<Rightarrow> u32 \<Rightarrow> inum list \<Rightarrow> inum option option" where
  "fm_scan f cnt [] = Some None"
| "fm_scan f cnt (i # is) = do {
     ok \<leftarrow> fm_run_free f i (unat cnt);
     if ok then Some (Some i) else fm_scan f cnt is
   }"

definition fm_alloc :: "free_map \<Rightarrow> u32 \<Rightarrow> (inum result \<times> free_map) option" where
  "fm_alloc f cnt =
     (if cnt = 0 then Some (Ok 0, f)
      else if size f \<le> cnt then Some (Err DiskSectorAllocFail, f)
      else do {
        r \<leftarrow> fm_scan f cnt (word_range 0 (size f - cnt));
        (case r of
           Some i \<Rightarrow> do { f \<leftarrow> fm_set_all f (word_range i (i + cnt)); Some (Ok i, f) }
         | None \<Rightarrow> Some (Err DiskSectorAllocFail, f))
      })"

fun fm_any_used :: "free_map \<Rightarrow> inum list \<Rightarrow> bool option" where
  "fm_any_used f [] = Some False"
| "fm_any_used f (i # is) = do {
     used \<leftarrow> fm_get f i;
     if used then Some True else fm_any_used f is
   }"

definition fm_in_place_alloc :: "free_map \<Rightarrow> inum \<Rightarrow> u32 \<Rightarrow> (unit result \<times> free_map) option" where
  "fm_in_place_alloc f start cnt =
     (if cnt = 0 then Some (Ok (), f)
      else do {
        used \<leftarrow> fm_any_used f (word_range start (start + cnt));
        if used then Some (Err DiskSectorAllocFail, f)
        else do { f \<leftarrow> fm_set_all f (word_range start (start + cnt)); Some (Ok (), f) }
      })"

fun fm_reset_run :: "free_map \<Rightarrow> inum list \<Rightarrow> free_map option" where
  "fm_reset_run f [] = Some f"
| "fm_reset_run f (i # is) = do {
     used \<leftarrow> fm_get f i;
     if \<not> used then Some f else do { f \<leftarrow> fm_reset f i; fm_reset_run f is }
   }"

definition fm_dealloc :: "free_map \<Rightarrow> inum \<Rightarrow> u32 \<Rightarrow> free_map option" where
  "fm_dealloc f sector cnt = fm_reset_run f (word_range sector (sector + cnt))"

section \<open>The map as a predicate on sectors\<close>

definition fm_wf :: "free_map \<Rightarrow> bool" where
  "fm_wf f \<longleftrightarrow> length (bits f) = (unat (size f) + 7) div 8"

definition fm_bit :: "free_map \<Rightarrow> nat \<Rightarrow> bool" where
  "fm_bit f i \<longleftrightarrow> i < unat (size f) \<and> bit (bits f ! (i div 8)) (i mod 8)"

lemma byte_test_bit: "(b :: u8) AND 2 ^ k \<noteq> 0 \<longleftrightarrow> k < 8 \<and> bit b k"
proof -
  have "b AND 2 ^ k = (if bit b k then 2 ^ k else 0)"
    by (rule bit_eqI) (auto simp: bit_simps)
  then show ?thesis by (auto dest: bit_imp_le_length)
qed

lemma fm_index:
  assumes "fm_wf f" "i < unat (size f)"
  shows "i div 8 < length (bits f)"
  using assms by (simp add: fm_wf_def)

lemma fm_get_eq [simp]:
  assumes "fm_wf f" "unat s < unat (size f)"
  shows "fm_get f s = Some (fm_bit f (unat s))"
proof -
  have "s < size f" using assms by (simp add: word_less_nat_alt)
  then show ?thesis
    using assms fm_index [OF assms] byte_test_bit [of "bits f ! (unat s div 8)" "unat s mod 8"]
    by (simp add: fm_get_def fm_bit_def)
qed

lemma fm_get_out_of_range: "unat (size f) \<le> unat s \<Longrightarrow> fm_get f s = None"
  by (simp add: fm_get_def word_less_nat_alt)

lemma div_mod_8_eq_iff: "(i::nat) div 8 = j div 8 \<Longrightarrow> i mod 8 = j mod 8 \<longleftrightarrow> i = j"
  by (metis div_mult_mod_eq)

lemma fm_set_eq:
  assumes "fm_wf f" "unat s < unat (size f)"
  shows "\<exists>f'. fm_set f s = Some f' \<and> fm_wf f' \<and> size f' = size f \<and>
    (\<forall>i. fm_bit f' i \<longleftrightarrow> i = unat s \<or> fm_bit f i)"
proof -
  let ?k = "unat s div 8" and ?m = "unat s mod 8"
  define f' where "f' = f\<lparr>bits := (bits f)[?k := bits f ! ?k OR push_bit ?m 1]\<rparr>"
  have k: "?k < length (bits f)" by (rule fm_index [OF assms])
  have "s < size f" using assms by (simp add: word_less_nat_alt)
  then have "fm_set f s = Some f'" using k by (simp add: fm_set_def f'_def)
  moreover have "fm_bit f' i \<longleftrightarrow> i = unat s \<or> fm_bit f i" for i
  proof (cases "i div 8 = ?k")
    case True
    then have "bits f' ! (i div 8) = bits f ! ?k OR 2 ^ ?m" using k by (simp add: f'_def)
    then show ?thesis
      using True assms(2) div_mod_8_eq_iff [of i "unat s"]
      by (auto simp: fm_bit_def f'_def bit_simps)
  next
    case False
    then show ?thesis by (auto simp: fm_bit_def f'_def)
  qed
  moreover have "fm_wf f'" "size f' = size f" using assms(1) by (simp_all add: f'_def fm_wf_def)
  ultimately show ?thesis by blast
qed

lemma fm_reset_eq:
  assumes "fm_wf f" "unat s < unat (size f)"
  shows "\<exists>f'. fm_reset f s = Some f' \<and> fm_wf f' \<and> size f' = size f \<and>
    (\<forall>i. fm_bit f' i \<longleftrightarrow> i \<noteq> unat s \<and> fm_bit f i)"
proof -
  let ?k = "unat s div 8" and ?m = "unat s mod 8"
  define f' where "f' = f\<lparr>bits := (bits f)[?k := bits f ! ?k AND NOT (push_bit ?m 1)]\<rparr>"
  have k: "?k < length (bits f)" by (rule fm_index [OF assms])
  have "s < size f" using assms by (simp add: word_less_nat_alt)
  then have "fm_reset f s = Some f'" using k by (simp add: fm_reset_def f'_def)
  moreover have "fm_bit f' i \<longleftrightarrow> i \<noteq> unat s \<and> fm_bit f i" for i
  proof (cases "i div 8 = ?k")
    case True
    then have "bits f' ! (i div 8) = bits f ! ?k AND NOT (2 ^ ?m)" using k by (simp add: f'_def)
    then show ?thesis
      using True assms(2) div_mod_8_eq_iff [of i "unat s"]
      by (auto simp: fm_bit_def f'_def bit_simps)
  next
    case False
    then show ?thesis by (auto simp: fm_bit_def f'_def)
  qed
  moreover have "fm_wf f'" "size f' = size f" using assms(1) by (simp_all add: f'_def fm_wf_def)
  ultimately show ?thesis by blast
qed

section \<open>Loops over runs of sectors\<close>

lemma fm_set_all_eq:
  assumes "fm_wf f" "\<forall>j\<in>set js. unat j < unat (size f)"
  shows "\<exists>f'. fm_set_all f js = Some f' \<and> fm_wf f' \<and> size f' = size f \<and>
    (\<forall>i. fm_bit f' i \<longleftrightarrow> i \<in> unat ` set js \<or> fm_bit f i)"
  using assms
proof (induction js arbitrary: f)
  case Nil
  then show ?case by simp
next
  case (Cons j js)
  from fm_set_eq [of f j] Cons.prems obtain f1 where f1: "fm_set f j = Some f1" "fm_wf f1"
    "size f1 = size f" "\<forall>i. fm_bit f1 i \<longleftrightarrow> i = unat j \<or> fm_bit f i" by auto
  from Cons.IH [of f1] f1 Cons.prems obtain f2 where "fm_set_all f1 js = Some f2" "fm_wf f2"
    "size f2 = size f" "\<forall>i. fm_bit f2 i \<longleftrightarrow> i \<in> unat ` set js \<or> fm_bit f1 i" by auto
  then show ?case using f1 by auto
qed

lemma fm_run_free_eq:
  assumes "fm_wf f" "unat i + n \<le> unat (size f)"
  shows "fm_run_free f i n = Some (\<forall>j. unat i \<le> j \<and> j < unat i + n \<longrightarrow> \<not> fm_bit f j)"
  using assms(2)
proof (induction n arbitrary: i)
  case 0
  then show ?case by auto
next
  case (Suc n)
  have g: "fm_get f i = Some (fm_bit f (unat i))" using Suc.prems assms(1) by simp
  show ?case
  proof (cases "fm_bit f (unat i)")
    case True
    then show ?thesis using g by auto
  next
    case False
    show ?thesis
    proof (cases "n = 0")
      case True
      then show ?thesis using g False by (auto simp: less_Suc_eq)
    next
      case n: False
      have "unat i + 1 < 2 ^ 32" using Suc.prems n unat_u32_less [of "size f"] by linarith
      then have u: "unat (i + 1) = unat i + 1" by (simp add: unat_add_no_wrap)
      have "(\<forall>j. unat i \<le> j \<and> j < unat i + Suc n \<longrightarrow> \<not> fm_bit f j) \<longleftrightarrow>
          (\<forall>j. unat i + 1 \<le> j \<and> j < unat i + 1 + n \<longrightarrow> \<not> fm_bit f j)"
        using False by (metis Suc_eq_plus1 Suc_leD Suc_leI add_Suc_right add_Suc le_neq_implies_less)
      then show ?thesis using Suc.IH [of "i + 1"] Suc.prems g False u by simp
    qed
  qed
qed

definition free_run :: "free_map \<Rightarrow> nat \<Rightarrow> nat \<Rightarrow> bool" where
  "free_run f i n \<longleftrightarrow> (\<forall>j. i \<le> j \<and> j < i + n \<longrightarrow> \<not> fm_bit f j)"

lemma fm_scan_eq:
  assumes "fm_wf f" "\<forall>i\<in>set is. unat i + unat cnt \<le> unat (size f)"
  shows "fm_scan f cnt is = Some (find (\<lambda>i. free_run f (unat i) (unat cnt)) is)"
  using assms(2)
proof (induction "is")
  case Nil
  then show ?case by simp
next
  case (Cons i "is")
  then have "fm_run_free f i (unat cnt) = Some (free_run f (unat i) (unat cnt))"
    using fm_run_free_eq [OF assms(1)] by (simp add: free_run_def)
  then show ?case using Cons by simp
qed

lemma fm_any_used_eq:
  assumes "fm_wf f" "\<forall>i\<in>set is. unat i < unat (size f)"
  shows "fm_any_used f is = Some (\<exists>i\<in>set is. fm_bit f (unat i))"
  using assms by (induction "is") auto

lemma fm_reset_run_eq:
  assumes "fm_wf f" "\<forall>i\<in>set is. unat i < unat (size f)" "distinct is"
  shows "\<exists>f'. fm_reset_run f is = Some f' \<and> fm_wf f' \<and> size f' = size f \<and>
    (\<forall>i. fm_bit f' i \<longleftrightarrow> fm_bit f i \<and> i \<notin> unat ` set (takeWhile (\<lambda>s. fm_bit f (unat s)) is))"
  using assms
proof (induction "is" arbitrary: f)
  case Nil
  then show ?case by simp
next
  case (Cons j js)
  show ?case
  proof (cases "fm_bit f (unat j)")
    case True
    from fm_reset_eq [of f j] Cons.prems obtain f1 where f1: "fm_reset f j = Some f1" "fm_wf f1"
      "size f1 = size f" "\<forall>i. fm_bit f1 i \<longleftrightarrow> i \<noteq> unat j \<and> fm_bit f i" by auto
    have same: "takeWhile (\<lambda>s. fm_bit f1 (unat s)) js = takeWhile (\<lambda>s. fm_bit f (unat s)) js"
    proof (rule takeWhile_cong [OF refl])
      fix s assume "s \<in> set js"
      then have "unat s \<noteq> unat j" using Cons.prems(3) word_eq_unatI by auto
      then show "fm_bit f1 (unat s) = fm_bit f (unat s)" using f1(4) by simp
    qed
    from Cons.IH [of f1] f1 Cons.prems obtain f2 where "fm_reset_run f1 js = Some f2" "fm_wf f2"
      "size f2 = size f"
      "\<forall>i. fm_bit f2 i \<longleftrightarrow> fm_bit f1 i \<and> i \<notin> unat ` set (takeWhile (\<lambda>s. fm_bit f1 (unat s)) js)"
      by auto
    note f2 = this [unfolded same]
    have "fm_reset_run f (j # js) = Some f2 \<and> fm_wf f2 \<and> size f2 = size f \<and>
      (\<forall>i. fm_bit f2 i \<longleftrightarrow> fm_bit f i \<and> i \<notin> unat ` set (takeWhile (\<lambda>s. fm_bit f (unat s)) (j # js)))"
      using f1(1,4) f2 True Cons.prems by auto
    then show ?thesis by (rule exI)
  next
    case False
    then show ?thesis using Cons.prems by simp
  qed
qed

lemma distinct_word_range: "distinct (word_range a b)"
proof (induction "unat b - unat a" arbitrary: a)
  case 0
  then show ?case by simp
next
  case (Suc d)
  then have lt: "unat a < unat b" by simp
  note u = unat_suc_less [OF this]
  then show ?case using Suc by (simp add: word_range_Cons [OF lt] set_word_range)
qed

lemma range_in_map:
  fixes s cnt :: u32
  assumes "unat s + unat cnt \<le> unat (size f)"
  shows "unat (s + cnt) = unat s + unat cnt"
    and "\<forall>j\<in>set (word_range s (s + cnt)). unat j < unat (size f)"
    and "unat ` set (word_range s (s + cnt)) = {unat s..<unat s + unat cnt}"
proof -
  show u: "unat (s + cnt) = unat s + unat cnt"
    using assms unat_u32_less [of "size f"] by (intro unat_add_no_wrap) simp
  then show "\<forall>j\<in>set (word_range s (s + cnt)). unat j < unat (size f)"
    using assms by (simp add: set_word_range)
  show "unat ` set (word_range s (s + cnt)) = {unat s..<unat s + unat cnt}"
    by (simp add: unat_image_range u)
qed

lemma fm_bit_less: "fm_bit f i \<Longrightarrow> i < unat (size f)"
  by (simp add: fm_bit_def)

text \<open>Setting a run of sectors inside the disk.\<close>

lemma fm_set_all_range:
  assumes "fm_wf f" "unat s + unat cnt \<le> unat (size f)"
  shows "\<exists>f'. fm_set_all f (word_range s (s + cnt)) = Some f' \<and> fm_wf f' \<and> size f' = size f \<and>
    (\<forall>i. fm_bit f' i \<longleftrightarrow> (unat s \<le> i \<and> i < unat s + unat cnt) \<or> fm_bit f i)"
  using fm_set_all_eq [OF assms(1) range_in_map(2) [OF assms(2)]] range_in_map(3) [OF assms(2)]
  by auto

lemma fm_alloc_scan:
  assumes "fm_wf f" "cnt < size f"
  shows "fm_scan f cnt (word_range 0 (size f - cnt)) =
    Some (find (\<lambda>i. free_run f (unat i) (unat cnt)) (word_range 0 (size f - cnt)))"
proof -
  have "unat (size f - cnt) = unat (size f) - unat cnt"
    using assms(2) by (intro unat_diff_no_wrap) (simp add: word_less_nat_alt)
  then show ?thesis by (intro fm_scan_eq assms(1)) (auto simp: set_word_range)
qed

lemma fm_dealloc_range:
  assumes "fm_wf f" "unat s + unat cnt \<le> unat (size f)"
    and "\<forall>j. unat s \<le> j \<and> j < unat s + unat cnt \<longrightarrow> fm_bit f j"
  shows "\<exists>f'. fm_dealloc f s cnt = Some f' \<and> fm_wf f' \<and> size f' = size f \<and>
    (\<forall>i. fm_bit f' i \<longleftrightarrow> fm_bit f i \<and> \<not> (unat s \<le> i \<and> i < unat s + unat cnt))"
proof -
  let ?r = "word_range s (s + cnt)"
  have "takeWhile (\<lambda>j. fm_bit f (unat j)) ?r = ?r"
    using assms(3) by (subst takeWhile_eq_all_conv) (simp add: set_word_range range_in_map(1) [OF assms(2)])
  then show ?thesis
    using fm_reset_run_eq [OF assms(1) range_in_map(2) [OF assms(2)] distinct_word_range]
    unfolding range_in_map(3) [OF assms(2)] fm_dealloc_def \<open>takeWhile _ ?r = ?r\<close> by simp
qed

lemma fm_alloc_spec:
  assumes "fm_wf f" "cnt \<noteq> 0"
  shows "\<exists>r f'. fm_alloc f cnt = Some (r, f') \<and> fm_wf f' \<and> size f' = size f \<and>
    (case r of
       Ok i \<Rightarrow> unat i + unat cnt < unat (size f) \<and> free_run f (unat i) (unat cnt) \<and>
         (\<forall>j < unat i. \<not> free_run f j (unat cnt)) \<and>
         (\<forall>j. fm_bit f' j \<longleftrightarrow> (unat i \<le> j \<and> j < unat i + unat cnt) \<or> fm_bit f j)
     | Err e \<Rightarrow> e = DiskSectorAllocFail \<and> f' = f \<and>
         (\<forall>j. j + unat cnt < unat (size f) \<longrightarrow> \<not> free_run f j (unat cnt)))"
proof (cases "size f \<le> cnt")
  case True
  then show ?thesis using assms by (auto simp: fm_alloc_def word_le_nat_alt)
next
  case False
  let ?P = "\<lambda>i :: u32. free_run f (unat i) (unat cnt)"
  have small: "unat (of_nat j :: u32) = j" if "j < unat (size f)" for j
    using that unat_u32_less [of "size f"] by (intro unat_of_nat_small) simp
  have d: "unat (size f - cnt) = unat (size f) - unat cnt"
    using False by (intro unat_diff_no_wrap) (simp add: word_le_nat_alt)
  have lt: "unat cnt < unat (size f)" using False by (simp add: word_le_nat_alt)
  show ?thesis
  proof (cases "find ?P (word_range 0 (size f - cnt))")
    case None
    then have "\<not> free_run f j (unat cnt)" if "j + unat cnt < unat (size f)" for j
      using that small [of j] by (auto simp: find_word_range_None d dest: spec [of _ "of_nat j"])
    then show ?thesis
      using None False assms fm_alloc_scan [of f cnt] by (auto simp: fm_alloc_def)
  next
    case (Some i)
    note i = find_word_range_Some [OF Some]
    then have "unat i < unat (size f - cnt)" by blast
    then have len: "unat i + unat cnt < unat (size f)" using d by simp
    then obtain f' where f': "fm_set_all f (word_range i (i + cnt)) = Some f'" "fm_wf f'"
      "size f' = size f"
      "\<forall>j. fm_bit f' j \<longleftrightarrow> (unat i \<le> j \<and> j < unat i + unat cnt) \<or> fm_bit f j"
      using fm_set_all_range [of f i cnt] assms(1) by auto
    have "\<not> free_run f j (unat cnt)" if "j < unat i" for j
      using i that small [of j] len by (auto dest: spec [of _ "of_nat j"])
    then show ?thesis
      using Some False assms fm_alloc_scan [of f cnt] f' i len by (auto simp: fm_alloc_def)
  qed
qed

lemma fm_alloc_OkD:
  assumes "fm_wf f" "fm_alloc f cnt = Some (Ok i, f')" "cnt \<noteq> 0"
  shows "fm_wf f' \<and> size f' = size f \<and> unat i + unat cnt < unat (size f) \<and>
    free_run f (unat i) (unat cnt) \<and>
    (\<forall>j. fm_bit f' j \<longleftrightarrow> (unat i \<le> j \<and> j < unat i + unat cnt) \<or> fm_bit f j)"
  using fm_alloc_spec [OF assms(1,3)] assms(2) by auto

lemma fm_any_used_past_end:
  assumes "fm_wf f" "unat a \<le> unat (size f)" "unat (size f) < unat b"
    "free_run f (unat a) (unat (size f) - unat a)"
  shows "fm_any_used f (word_range a b) = None"
  using assms(2-)
proof (induction "unat (size f) - unat a" arbitrary: a)
  case 0
  then have lt: "unat a < unat b" by simp
  have "fm_get f a = None" using 0 by (intro fm_get_out_of_range) simp
  then show ?case by (simp add: word_range_Cons [OF lt])
next
  case (Suc d)
  then have lt: "unat a < unat b" "unat a < unat (size f)" by simp_all
  note u = unat_suc_less [OF lt(1)]
  have "\<not> fm_bit f (unat a)" using Suc.prems(3) lt by (simp add: free_run_def)
  moreover have "fm_any_used f (word_range (a + 1) b) = None"
    using Suc.prems Suc.hyps(2) u by (intro Suc.hyps(1)) (auto simp: free_run_def)
  ultimately show ?case using assms(1) lt by (simp add: word_range_Cons [OF lt(1)])
qed

lemma fm_in_place_alloc_range:
  assumes "fm_wf f" and le: "unat start + unat cnt \<le> unat (size f)"
  shows "\<exists>r f'. fm_in_place_alloc f start cnt = Some (r, f') \<and> fm_wf f' \<and> size f' = size f \<and>
        (if free_run f (unat start) (unat cnt)
         then r = Ok () \<and>
           (\<forall>j. fm_bit f' j \<longleftrightarrow> (unat start \<le> j \<and> j < unat start + unat cnt) \<or> fm_bit f j)
         else r = Err DiskSectorAllocFail \<and> f' = f)"
proof -
  have any: "fm_any_used f (word_range start (start + cnt)) = Some (\<not> free_run f (unat start) (unat cnt))"
  proof -
    have "(\<exists>i\<in>set (word_range start (start + cnt)). fm_bit f (unat i)) \<longleftrightarrow>
        (\<exists>j\<in>unat ` set (word_range start (start + cnt)). fm_bit f j)" by blast
    also have "\<dots> \<longleftrightarrow> \<not> free_run f (unat start) (unat cnt)"
      unfolding range_in_map(3) [OF le] free_run_def by auto
    finally show ?thesis using fm_any_used_eq [OF assms(1) range_in_map(2) [OF le]] by simp
  qed
  from fm_set_all_range [OF assms] obtain f' where
    "fm_set_all f (word_range start (start + cnt)) = Some f'" "fm_wf f'" "size f' = size f"
    "\<forall>j. fm_bit f' j \<longleftrightarrow> (unat start \<le> j \<and> j < unat start + unat cnt) \<or> fm_bit f j" by blast
  then show "\<exists>r f'. fm_in_place_alloc f start cnt = Some (r, f') \<and> fm_wf f' \<and> size f' = size f \<and>
        (if free_run f (unat start) (unat cnt)
         then r = Ok () \<and>
           (\<forall>j. fm_bit f' j \<longleftrightarrow> (unat start \<le> j \<and> j < unat start + unat cnt) \<or> fm_bit f j)
         else r = Err DiskSectorAllocFail \<and> f' = f)"
    using any assms(1) by (cases "cnt = 0") (auto simp: fm_in_place_alloc_def free_run_def)
qed

section \<open>Properties\<close>

text \<open>
  C25. Allocation of sectors is first fit and never panics. A request for \<open>cnt\<close> sectors
  returns the least start of a free run of that length that ends before the last sector, and
  sets exactly the bits of the run; it fails, changing nothing, exactly when there is no such
  run. (A run that ends with the last sector of the disk is never found: the loop stops one
  window short.)
\<close>

theorem fm_alloc_correct:
  assumes "fm_wf f" "cnt \<noteq> 0"
  shows "\<exists>r f'. fm_alloc f cnt = Some (r, f') \<and> fm_wf f' \<and> size f' = size f \<and>
    (case r of
       Ok i \<Rightarrow> unat i + unat cnt < unat (size f) \<and> free_run f (unat i) (unat cnt) \<and>
         (\<forall>j < unat i. \<not> free_run f j (unat cnt)) \<and>
         (\<forall>j. fm_bit f' j \<longleftrightarrow> (unat i \<le> j \<and> j < unat i + unat cnt) \<or> fm_bit f j)
     | Err e \<Rightarrow> e = DiskSectorAllocFail \<and> f' = f \<and>
         (\<forall>j. j + unat cnt < unat (size f) \<longrightarrow> \<not> free_run f j (unat cnt)))"
  by (rule fm_alloc_spec [OF assms])

text \<open>
  The free map of a disk of 20 sectors with sectors 0, 1 and 3 in use: a request for two
  sectors gets 4 and 5.
\<close>

theorem fm_alloc_correct_witness:
  "fm_wf \<lparr>size = 20, bits = [11, 0, 0]\<rparr> \<and>
   fm_alloc \<lparr>size = 20, bits = [11, 0, 0]\<rparr> 2 = Some (Ok 4, \<lparr>size = 20, bits = [59, 0, 0]\<rparr>) \<and>
   free_run \<lparr>size = 20, bits = [11, 0, 0]\<rparr> 4 2"
proof -
  have wf: "fm_wf \<lparr>size = 20, bits = [11, 0, 0]\<rparr>" by (simp add: fm_wf_def)
  have run: "fm_alloc \<lparr>size = 20, bits = [11, 0, 0]\<rparr> 2 = Some (Ok 4, \<lparr>size = 20, bits = [59, 0, 0]\<rparr>)"
    by code_simp
  show ?thesis using fm_alloc_correct [OF wf, of 2] wf run by simp
qed

text \<open>
  Extending a run in place. If the run lies inside the disk, \<open>in_place_alloc\<close> sets all
  its bits when all of them were free and otherwise fails without a change; a run that is free
  up to the end of the disk but goes on past it makes the kernel panic, although the caller
  in \<open>Inode::resize_inner\<close> is prepared for an error.
\<close>

lemma fm_in_place_alloc_correct:
  assumes "fm_wf f"
  shows "(unat start + unat cnt \<le> unat (size f) \<longrightarrow>
      (\<exists>r f'. fm_in_place_alloc f start cnt = Some (r, f') \<and> fm_wf f' \<and> size f' = size f \<and>
        (if free_run f (unat start) (unat cnt)
         then r = Ok () \<and>
           (\<forall>j. fm_bit f' j \<longleftrightarrow> (unat start \<le> j \<and> j < unat start + unat cnt) \<or> fm_bit f j)
         else r = Err DiskSectorAllocFail \<and> f' = f))) \<and>
    (unat (size f) < unat start + unat cnt \<and> unat start + unat cnt < 2 ^ 32 \<and>
     unat start \<le> unat (size f) \<and> free_run f (unat start) (unat (size f) - unat start) \<longrightarrow>
       fm_in_place_alloc f start cnt = None)"
proof (intro conjI impI)
  assume "unat start + unat cnt \<le> unat (size f)"
  then show "\<exists>r f'. fm_in_place_alloc f start cnt = Some (r, f') \<and> fm_wf f' \<and> size f' = size f \<and>
        (if free_run f (unat start) (unat cnt)
         then r = Ok () \<and>
           (\<forall>j. fm_bit f' j \<longleftrightarrow> (unat start \<le> j \<and> j < unat start + unat cnt) \<or> fm_bit f j)
         else r = Err DiskSectorAllocFail \<and> f' = f)"
    by (rule fm_in_place_alloc_range [OF assms])
next
  assume a: "unat (size f) < unat start + unat cnt \<and> unat start + unat cnt < 2 ^ 32 \<and>
     unat start \<le> unat (size f) \<and> free_run f (unat start) (unat (size f) - unat start)"
  then have u: "unat (start + cnt) = unat start + unat cnt" by (intro unat_add_no_wrap) simp
  have "fm_any_used f (word_range start (start + cnt)) = None"
    using a u by (intro fm_any_used_past_end assms) auto
  moreover have "cnt \<noteq> 0" using a by auto
  ultimately show "fm_in_place_alloc f start cnt = None" by (simp add: fm_in_place_alloc_def)
qed

text \<open>
  Deallocation undoes allocation: giving back the run a successful \<open>alloc\<close> returned
  makes every sector as free as it was before.
\<close>

lemma fm_alloc_dealloc:
  assumes "fm_wf f" "fm_alloc f cnt = Some (Ok i, f')"
  shows "\<exists>f''. fm_dealloc f' i cnt = Some f'' \<and> fm_wf f'' \<and> size f'' = size f \<and>
    (\<forall>j. fm_bit f'' j \<longleftrightarrow> fm_bit f j)"
proof (cases "cnt = 0")
  case True
  then show ?thesis using assms by (simp add: fm_alloc_def fm_dealloc_def)
next
  case False
  from fm_alloc_OkD [OF assms this] have f': "fm_wf f'" "size f' = size f"
    "unat i + unat cnt < unat (size f)" "free_run f (unat i) (unat cnt)"
    "\<forall>j. fm_bit f' j \<longleftrightarrow> (unat i \<le> j \<and> j < unat i + unat cnt) \<or> fm_bit f j" by auto
  from fm_dealloc_range [of f' i cnt] f' obtain f'' where
    "fm_dealloc f' i cnt = Some f''" "fm_wf f''" "size f'' = size f"
    "\<forall>j. fm_bit f'' j \<longleftrightarrow> fm_bit f' j \<and> \<not> (unat i \<le> j \<and> j < unat i + unat cnt)" by auto
  moreover have "(fm_bit f' j \<and> \<not> (unat i \<le> j \<and> j < unat i + unat cnt)) \<longleftrightarrow> fm_bit f j" for j
    using f'(4,5) by (auto simp: free_run_def)
  ultimately show ?thesis by blast
qed

end
