(* ===== verification/Inode.thy ===== *)
theory Inode
  imports Free_Map Io Mem_Utils
begin

text \<open>
  Inodes on disk (\<open>src/src/fs/disk/inode.rs\<close>). The disk is the list of its sectors, which
  \<open>Virtio::read_sector\<close> and \<open>write_sector\<close> access; a request beyond the last sector ends in
  the failed status check of the driver, a panic. The state \<open>vn_state\<close> holds what the
  methods of an inode touch: the disk, the free map of \<open>DISKFS\<close> and the inode itself, whose
  sectors \<open>start ..< start + sectors (len + shrink_len)\<close> hold the file.

  The theorems show that reads return the bytes of the file, that writes and resizes keep the
  invariant, the other bytes of the file and every sector that belongs to somebody else, and that
  the on-disk copy of the inode is always current.
\<close>

section \<open>Sectors\<close>

type_synonym disk = "u8 list list"

definition SECTOR_SIZE :: nat where
  "SECTOR_SIZE = 512"

definition read_sector :: "disk \<Rightarrow> nat \<Rightarrow> u8 list option" where
  "read_sector d s = slice_get d s"

definition write_sector :: "disk \<Rightarrow> nat \<Rightarrow> u8 list \<Rightarrow> disk option" where
  "write_sector d s b = slice_set d s b"

definition bytes_to_sectors :: "usize \<Rightarrow> u32" where
  "bytes_to_sectors bytes = ucast ((bytes + of_nat SECTOR_SIZE - 1) div of_nat SECTOR_SIZE)"

section \<open>The inode and its bytes on disk\<close>

definition INODE_MAGIC :: u32 where
  "INODE_MAGIC = 0x494e4f44"

text \<open>The size of \<open>DiskInodeInner\<close>, three \<open>u32\<close> in \<open>repr(C)\<close>, is 12.\<close>

definition INODE_PADDING :: nat where
  "INODE_PADDING = SECTOR_SIZE - 12"

record disk_inode =
  di_start :: inum
  di_len :: u32
  di_magic :: u32
  di_padding :: "u8 list"

record inode_desc =
  id_sector :: inum
  id_removed :: bool
  id_shrink_len :: u32
  id_deny_write :: u32

definition inode_desc_new :: "inum \<Rightarrow> u32 \<Rightarrow> inode_desc" where
  "inode_desc_new s shrink = \<lparr>id_sector = s, id_removed = False, id_shrink_len = shrink, id_deny_write = 0\<rparr>"

record inode =
  desc :: inode_desc
  data :: disk_inode

text \<open>
  \<open>mem::transmute\<close> between a \<open>repr(C)\<close> structure and a sector: the fields in order, in
  the byte order of the machine, which is little endian on RISC-V.
\<close>

definition le32 :: "u32 \<Rightarrow> u8 list" where
  "le32 w = [ucast w, ucast (drop_bit 8 w), ucast (drop_bit 16 w), ucast (drop_bit 24 w)]"

definition of_le32 :: "u8 list \<Rightarrow> u32" where
  "of_le32 bs = ucast (bs ! 0) OR push_bit 8 (ucast (bs ! 1)) OR push_bit 16 (ucast (bs ! 2)) OR
     push_bit 24 (ucast (bs ! 3))"

definition encode_inode :: "disk_inode \<Rightarrow> u8 list" where
  "encode_inode d = le32 (di_start d) @ le32 (di_len d) @ le32 (di_magic d) @ di_padding d"

definition decode_inode :: "u8 list \<Rightarrow> disk_inode" where
  "decode_inode b = \<lparr>di_start = of_le32 (take 4 b), di_len = of_le32 (take 4 (drop 4 b)),
     di_magic = of_le32 (take 4 (drop 8 b)), di_padding = drop 12 b\<rparr>"

section \<open>Operations\<close>

fun write_zeros :: "disk \<Rightarrow> inum \<Rightarrow> u32 list \<Rightarrow> disk option" where
  "write_zeros d start [] = Some d"
| "write_zeros d start (i # is) = do {
     d \<leftarrow> write_sector d (unat (start + i)) (replicate SECTOR_SIZE 0);
     write_zeros d start is
   }"

definition inode_create :: "disk \<Rightarrow> inum \<Rightarrow> inum \<Rightarrow> usize \<Rightarrow> (inode result \<times> disk) option" where
  "inode_create d sector start len = do {
     let sector_num = bytes_to_sectors len;
     let di = \<lparr>di_start = start, di_len = ucast len, di_magic = INODE_MAGIC,
               di_padding = replicate INODE_PADDING 0\<rparr>;
     d \<leftarrow> write_sector d (unat sector) (encode_inode di);
     d \<leftarrow> write_zeros d start (word_range 0 sector_num);
     Some (Ok \<lparr>desc = inode_desc_new sector 0, data = di\<rparr>, d)
   }"

definition inode_open :: "disk \<Rightarrow> inum \<Rightarrow> inode result option" where
  "inode_open d sector = do {
     b \<leftarrow> read_sector d (unat sector);
     let di = decode_inode b;
     Some (if di_magic di \<noteq> INODE_MAGIC then Err OpenInvalidInode
           else Ok \<lparr>desc = inode_desc_new sector 0, data = di\<rparr>)
   }"

definition inode_remove :: "inode \<Rightarrow> inode" where
  "inode_remove i = i\<lparr>desc := (desc i)\<lparr>id_removed := True\<rparr>\<rparr>"

record vn_state =
  vdisk :: disk
  vmap :: free_map
  ino :: inode

definition flush_len :: "vn_state \<Rightarrow> u32 \<Rightarrow> (unit result \<times> vn_state) option" where
  "flush_len s newlen = do {
     let di = (data (ino s))\<lparr>di_len := newlen\<rparr>;
     d \<leftarrow> write_sector (vdisk s) (unat (id_sector (desc (ino s)))) (encode_inode di);
     Some (Ok (), s\<lparr>vdisk := d, ino := (ino s)\<lparr>data := di\<rparr>\<rparr>)
   }"

definition set_shrink_len :: "vn_state \<Rightarrow> u32 \<Rightarrow> vn_state" where
  "set_shrink_len s n = s\<lparr>ino := (ino s)\<lparr>desc := (desc (ino s))\<lparr>id_shrink_len := n\<rparr>\<rparr>\<rparr>"

definition set_start :: "vn_state \<Rightarrow> inum \<Rightarrow> vn_state" where
  "set_start s n = s\<lparr>ino := (ino s)\<lparr>data := (data (ino s))\<lparr>di_start := n\<rparr>\<rparr>\<rparr>"

fun copy_sectors :: "disk \<Rightarrow> inum \<Rightarrow> inum \<Rightarrow> u32 list \<Rightarrow> disk option" where
  "copy_sectors d old_start new_start [] = Some d"
| "copy_sectors d old_start new_start (i # is) = do {
     bounce \<leftarrow> read_sector d (unat (old_start + i));
     d \<leftarrow> write_sector d (unat (new_start + i)) bounce;
     copy_sectors d old_start new_start is
   }"

text \<open>The re-allocation at the end of \<open>resize_inner\<close>, when the file cannot grow in place.\<close>

definition resize_move :: "vn_state \<Rightarrow> u32 \<Rightarrow> u32 \<Rightarrow> (unit result \<times> vn_state) option" where
  "resize_move s oldlen newlen = do {
     let cnt = bytes_to_sectors (ucast newlen);
     let old_start = di_start (data (ino s));
     (r, fm) \<leftarrow> fm_alloc (vmap s) cnt;
     (case r of
        Err e \<Rightarrow> Some (Err e, s\<lparr>vmap := fm\<rparr>)
      | Ok new_start \<Rightarrow> do {
          d \<leftarrow> copy_sectors (vdisk s) old_start new_start (word_range 0 (bytes_to_sectors (ucast oldlen)));
          fm \<leftarrow> fm_dealloc fm old_start (bytes_to_sectors (ucast oldlen));
          flush_len (set_start (set_shrink_len (s\<lparr>vdisk := d, vmap := fm\<rparr>) 0) new_start) newlen
        })
   }"

definition resize_inner :: "vn_state \<Rightarrow> usize \<Rightarrow> (unit result \<times> vn_state) option" where
  "resize_inner s sz =
     (let newlen = ucast sz :: u32;
          len = di_len (data (ino s));
          shrink = id_shrink_len (desc (ino s))
      in if newlen = len then Some (Ok (), s)
         else if newlen < len then flush_len (set_shrink_len s (shrink + (len - newlen))) newlen
         else (let oldlen = len + shrink
               in if newlen \<le> oldlen then flush_len (set_shrink_len s (oldlen - newlen)) newlen
                  else do {
                    let cnt = bytes_to_sectors (ucast newlen) - bytes_to_sectors (ucast oldlen);
                    let start = di_start (data (ino s)) + bytes_to_sectors (ucast oldlen);
                    (r, fm) \<leftarrow> fm_in_place_alloc (vmap s) start cnt;
                    (case r of
                       Ok _ \<Rightarrow> flush_len (set_shrink_len (s\<lparr>vmap := fm\<rparr>) 0) newlen
                     | Err _ \<Rightarrow> resize_move (s\<lparr>vmap := fm\<rparr>) oldlen newlen)
                  }))"

section \<open>Transfers\<close>

text \<open>
  One round of the loops of \<open>read_at\<close> and \<open>write_at\<close> moves \<open>chunk_size\<close> bytes; the
  rounds end when that is 0. \<open>tr\<close> is \<open>mem::translate\<close>, called for whole sectors that lie
  inside one page of the buffer; the kernel address it returns names the same bytes.
\<close>

definition chunk_size :: "nat \<Rightarrow> nat \<Rightarrow> nat \<Rightarrow> nat" where
  "chunk_size len off buf_left = min (min (len - off) (SECTOR_SIZE - off mod SECTOR_SIZE)) buf_left"

lemma chunk_decreases: "chunk_size len off left \<noteq> 0 \<Longrightarrow> left - chunk_size len off left < left"
  by (auto simp: chunk_size_def)

definition whole_sector :: "usize \<Rightarrow> nat \<Rightarrow> bool" where
  "whole_sector p chunk \<longleftrightarrow> chunk = SECTOR_SIZE \<and> unat (p AND PG_MASK) \<le> 4096 - SECTOR_SIZE"

function read_loop :: "(usize \<Rightarrow> usize \<Rightarrow> usize option) \<Rightarrow> usize \<Rightarrow> disk \<Rightarrow> nat \<Rightarrow> nat \<Rightarrow>
    nat \<Rightarrow> u8 list \<Rightarrow> nat \<Rightarrow> nat \<Rightarrow> (usize result \<times> u8 list) option" where
  "read_loop tr p d start len off buf bytes_read buf_left =
     (let sector = start + off div SECTOR_SIZE;
          chunk = chunk_size len off buf_left;
          ptr = p + of_nat bytes_read
      in if chunk = 0 then Some (Ok (of_nat bytes_read), buf)
         else if whole_sector ptr chunk then
           (case tr ptr (of_nat SECTOR_SIZE) of
              None \<Rightarrow> Some (Err BadPtr, buf)
            | Some _ \<Rightarrow> do {
                b \<leftarrow> read_sector d sector;
                buf \<leftarrow> slice_copy buf bytes_read b;
                read_loop tr p d start len (off + chunk) buf (bytes_read + chunk) (buf_left - chunk)
              })
         else do {
           bounce \<leftarrow> read_sector d sector;
           b \<leftarrow> slice_sub bounce (off mod SECTOR_SIZE) chunk;
           buf \<leftarrow> slice_copy buf bytes_read b;
           read_loop tr p d start len (off + chunk) buf (bytes_read + chunk) (buf_left - chunk)
         })"
  by pat_completeness simp
termination
  by (relation "measure (\<lambda>(_, _, _, _, _, _, _, _, buf_left). buf_left)")
    (simp_all add: chunk_decreases)

function write_loop :: "(usize \<Rightarrow> usize \<Rightarrow> usize option) \<Rightarrow> usize \<Rightarrow> disk \<Rightarrow> nat \<Rightarrow> nat \<Rightarrow>
    nat \<Rightarrow> u8 list \<Rightarrow> nat \<Rightarrow> nat \<Rightarrow> (usize result \<times> disk) option" where
  "write_loop tr p d start len off buf bytes_written buf_left =
     (let sector = start + off div SECTOR_SIZE;
          chunk = chunk_size len off buf_left;
          ptr = p + of_nat bytes_written
      in if chunk = 0 then Some (Ok (of_nat bytes_written), d)
         else if whole_sector ptr chunk then
           (case tr ptr (of_nat SECTOR_SIZE) of
              None \<Rightarrow> Some (Err BadPtr, d)
            | Some _ \<Rightarrow> do {
                b \<leftarrow> slice_sub buf bytes_written SECTOR_SIZE;
                d \<leftarrow> write_sector d sector b;
                write_loop tr p d start len (off + chunk) buf (bytes_written + chunk) (buf_left - chunk)
              })
         else do {
           bounce \<leftarrow> read_sector d sector;
           b \<leftarrow> slice_sub buf bytes_written chunk;
           bounce \<leftarrow> slice_copy bounce (off mod SECTOR_SIZE) b;
           d \<leftarrow> write_sector d sector bounce;
           write_loop tr p d start len (off + chunk) buf (bytes_written + chunk) (buf_left - chunk)
         })"
  by pat_completeness simp
termination
  by (relation "measure (\<lambda>(_, _, _, _, _, _, _, _, buf_left). buf_left)")
    (simp_all add: chunk_decreases)

declare read_loop.simps [simp del] write_loop.simps [simp del]

definition inode_read_at :: "(usize \<Rightarrow> usize \<Rightarrow> usize option) \<Rightarrow> vn_state \<Rightarrow> usize \<Rightarrow> u8 list \<Rightarrow>
    usize \<Rightarrow> (usize result \<times> u8 list) option" where
  "inode_read_at tr s p buf off =
     read_loop tr p (vdisk s) (unat (di_start (data (ino s)))) (unat (di_len (data (ino s))))
       (unat off) buf 0 (length buf)"

definition inode_write_at :: "(usize \<Rightarrow> usize \<Rightarrow> usize option) \<Rightarrow> vn_state \<Rightarrow> usize \<Rightarrow> u8 list \<Rightarrow>
    usize \<Rightarrow> (usize result \<times> vn_state) option" where
  "inode_write_at tr s p buf off =
     (if 0 < id_deny_write (desc (ino s)) then Some (Err InvalidFileMode, s)
      else do {
        (r, s) \<leftarrow> (if ucast (di_len (data (ino s))) < off + of_nat (length buf)
                   then resize_inner s (off + of_nat (length buf)) else Some (Ok (), s));
        (case r of
           Err e \<Rightarrow> Some (Err e, s)
         | Ok _ \<Rightarrow> do {
             (r, d) \<leftarrow> write_loop tr p (vdisk s) (unat (di_start (data (ino s))))
               (unat (di_len (data (ino s)))) (unat off) buf 0 (length buf);
             Some (r, s\<lparr>vdisk := d\<rparr>)
           })
      })"

definition inode_inum :: "vn_state \<Rightarrow> usize" where
  "inode_inum s = ucast (id_sector (desc (ino s)))"

definition inode_len :: "vn_state \<Rightarrow> usize" where
  "inode_len s = ucast (di_len (data (ino s)))"

definition inode_deny_write :: "vn_state \<Rightarrow> vn_state" where
  "inode_deny_write s =
     s\<lparr>ino := (ino s)\<lparr>desc := (desc (ino s))\<lparr>id_deny_write := id_deny_write (desc (ino s)) + 1\<rparr>\<rparr>\<rparr>"

definition inode_allow_write :: "vn_state \<Rightarrow> vn_state" where
  "inode_allow_write s =
     s\<lparr>ino := (ino s)\<lparr>desc := (desc (ino s))\<lparr>id_deny_write := id_deny_write (desc (ino s)) - 1\<rparr>\<rparr>\<rparr>"

section \<open>Encoding\<close>

lemma length_le32 [simp]: "length (le32 w) = 4"
  by (simp add: le32_def)

lemma of_le32_le32 [simp]: "of_le32 (le32 w) = w"
proof (rule bit_word_eqI)
  fix n assume "n < LENGTH(32)"
  then consider "n < 8" | "8 \<le> n" "n < 16" | "16 \<le> n" "n < 24" | "24 \<le> n" "n < 32" by fastforce
  then show "bit (of_le32 (le32 w)) n \<longleftrightarrow> bit w n"
    by cases (simp_all add: of_le32_def le32_def bit_or_iff bit_push_bit_iff bit_unsigned_iff
        bit_drop_bit_eq less_diff_conv2)
qed

lemma decode_encode_inode [simp]: "decode_inode (encode_inode d) = d"
  by (simp add: decode_inode_def encode_inode_def)

lemma length_encode_inode: "length (encode_inode d) = 12 + length (di_padding d)"
  by (simp add: encode_inode_def)

lemma inode_open_written:
  assumes "write_sector d (unat sector) (encode_inode di) = Some d'" "di_magic di = INODE_MAGIC"
  shows "inode_open d' sector = Some (Ok \<lparr>desc = inode_desc_new sector 0, data = di\<rparr>)"
  using assms by (auto simp: inode_open_def write_sector_def read_sector_def slice_set_def slice_get_def split: if_splits)

section \<open>Bytes of the disk\<close>

definition disk_wf :: "disk \<Rightarrow> bool" where
  "disk_wf d \<longleftrightarrow> (\<forall>sec\<in>set d. length sec = SECTOR_SIZE)"

definition dbyte :: "disk \<Rightarrow> nat \<Rightarrow> u8" where
  "dbyte d i = d ! (i div 512) ! (i mod 512)"

lemma disk_wf_nth: "disk_wf d \<Longrightarrow> k < length d \<Longrightarrow> length (d ! k) = 512"
  by (simp add: disk_wf_def SECTOR_SIZE_def)

lemma disk_wf_update: "disk_wf d \<Longrightarrow> length b = 512 \<Longrightarrow> disk_wf (d[k := b])"
  using set_update_subset_insert [of d k b] by (auto simp: disk_wf_def SECTOR_SIZE_def)

lemma sector_bytes:
  assumes "disk_wf d" "k < length d" "o1 + n \<le> 512"
  shows "take n (drop o1 (d ! k)) = map (dbyte d) [k * 512 + o1..<k * 512 + o1 + n]"
proof (rule nth_equalityI)
  show "length (take n (drop o1 (d ! k))) = length (map (dbyte d) [k * 512 + o1..<k * 512 + o1 + n])"
    using assms by (simp add: disk_wf_nth)
  fix i assume "i < length (take n (drop o1 (d ! k)))"
  then have "i < n" "o1 + i < 512" using assms by (auto simp: disk_wf_nth)
  then show "take n (drop o1 (d ! k)) ! i = map (dbyte d) [k * 512 + o1..<k * 512 + o1 + n] ! i"
    using assms by (simp add: dbyte_def disk_wf_nth add.assoc)
qed

lemma dbyte_splice:
  assumes "disk_wf d" "k < length d" "o1 + length b \<le> 512"
  shows "dbyte (d[k := splice (d ! k) o1 b]) j =
    (if k * 512 + o1 \<le> j \<and> j < k * 512 + o1 + length b then b ! (j - (k * 512 + o1)) else dbyte d j)"
proof (cases "j div 512 = k")
  case True
  have j: "j = k * 512 + j mod 512" using div_mult_mod_eq [of j 512] True by simp
  have "splice (d ! k) o1 b ! (j mod 512) =
      (if o1 \<le> j mod 512 \<and> j mod 512 < o1 + length b then b ! (j mod 512 - o1) else d ! k ! (j mod 512))"
    using assms by (intro nth_splice) (simp_all add: disk_wf_nth)
  moreover have "j - (k * 512 + o1) = j mod 512 - o1" using j by linarith
  moreover have "k * 512 + o1 \<le> j \<longleftrightarrow> o1 \<le> j mod 512" using j by linarith
  moreover have "j < k * 512 + o1 + length b \<longleftrightarrow> j mod 512 < o1 + length b" using j by linarith
  ultimately show ?thesis using True assms by (simp add: dbyte_def)
next
  case False
  have "\<not> (k * 512 + o1 \<le> j \<and> j < k * 512 + o1 + length b)"
  proof
    assume a: "k * 512 + o1 \<le> j \<and> j < k * 512 + o1 + length b"
    then have "k * 512 \<le> j" "j < k * 512 + 512" using assms(3) by linarith+
    then have "j div 512 = k" by (intro div_nat_eqI) auto
    then show False using False by simp
  qed
  then show ?thesis using False by (auto simp: dbyte_def)
qed

lemma transfer_bounds:
  assumes "chunk_size len off left \<noteq> 0"
  shows "off + chunk_size len off left \<le> len" "chunk_size len off left \<le> left"
    "off mod 512 + chunk_size len off left \<le> 512" "off < len"
    "chunk_size len off left = 512 \<Longrightarrow> off mod 512 = 0"
proof -
  have m: "off mod 512 < 512" by simp
  show "off + chunk_size len off left \<le> len" "chunk_size len off left \<le> left" "off < len"
    using assms by (auto simp: chunk_size_def)
  show "off mod 512 + chunk_size len off left \<le> 512"
    using m by (simp add: chunk_size_def SECTOR_SIZE_def)
  show "chunk_size len off left = 512 \<Longrightarrow> off mod 512 = 0"
    using m by (simp add: chunk_size_def SECTOR_SIZE_def)
qed

lemma chunk_zero: "chunk_size len off left = 0 \<longleftrightarrow> min (len - off) left = 0"
proof -
  have "off mod 512 < 512" by simp
  then show ?thesis unfolding chunk_size_def SECTOR_SIZE_def min_def by auto
qed

definition tr_ok :: "(usize \<Rightarrow> usize \<Rightarrow> usize option) \<Rightarrow> usize \<Rightarrow> nat \<Rightarrow> bool" where
  "tr_ok tr p n \<longleftrightarrow> (\<forall>k. k + SECTOR_SIZE \<le> n \<longrightarrow> tr (p + of_nat k) (of_nat SECTOR_SIZE) \<noteq> None)"


lemma tr_okD:
  "tr_ok tr p n \<Longrightarrow> k + 512 \<le> n \<Longrightarrow> \<exists>v. tr (p + of_nat k) (of_nat SECTOR_SIZE) = Some v"
  by (auto simp: tr_ok_def SECTOR_SIZE_def)

lemma whole_sectorD: "whole_sector p c \<Longrightarrow> c = 512"
  by (simp add: whole_sector_def SECTOR_SIZE_def)

text \<open>One round reads or writes the chunk, whichever way the bytes go.\<close>

lemma read_loop_step:
  assumes "disk_wf d" "tr_ok tr p (length buf)" "done + left = length buf"
    and "chunk_size len off left = c" "c \<noteq> 0" "st + off div 512 < length d"
  shows "read_loop tr p d st len off buf done left =
    read_loop tr p d st len (off + c)
      (splice buf done (map (dbyte d) [st * 512 + off..<st * 512 + off + c])) (done + c) (left - c)"
proof -
  let ?k = "st + off div 512" and ?o = "off mod 512"
  note cb = transfer_bounds [of len off left, unfolded assms(4), OF assms(5)]
  have pos: "?k * 512 + ?o = st * 512 + off" by (simp add: add_mult_distrib)
  have b: "take c (drop ?o (d ! ?k)) = map (dbyte d) [st * 512 + off..<st * 512 + off + c]"
    using sector_bytes [OF assms(1,6) cb(3)] by (simp only: pos)
  have cp: "slice_copy buf done (map (dbyte d) [st * 512 + off..<st * 512 + off + c]) =
      Some (splice buf done (map (dbyte d) [st * 512 + off..<st * 512 + off + c]))"
    using cb(2) assms(3) by (intro slice_copy_simps) simp
  have rd: "read_sector d ?k = Some (d ! ?k)" using assms(6) by (simp add: read_sector_def)
  have sub: "slice_sub (d ! ?k) ?o c = Some (map (dbyte d) [st * 512 + off..<st * 512 + off + c])"
    using cb(3) disk_wf_nth [OF assms(1,6)] b by (simp add: slice_sub_def)
  show ?thesis
  proof (cases "whole_sector (p + of_nat done) c")
    case False
    then show ?thesis
      using assms(4,5) rd sub cp by (subst read_loop.simps) (simp add: Let_def SECTOR_SIZE_def)
  next
    case True
    note c = whole_sectorD [OF this]
    then have "?o = 0" using cb(5) by simp
    then have all: "d ! ?k = map (dbyte d) [st * 512 + off..<st * 512 + off + c]"
      using b c disk_wf_nth [OF assms(1,6)] by simp
    obtain v where v: "tr (p + of_nat done) (of_nat SECTOR_SIZE) = Some v"
      using tr_okD [OF assms(2), of "done"] c cb(2) assms(3) by auto
    show ?thesis
      using assms(4,5) True rd cp v
      by (subst read_loop.simps) (simp add: Let_def SECTOR_SIZE_def flip: all)
  qed
qed

lemma write_loop_step:
  assumes "disk_wf d" "tr_ok tr p (length buf)" "done + left = length buf"
    and "chunk_size len off left = c" "c \<noteq> 0" "st + off div 512 < length d"
  shows "write_loop tr p d st len off buf done left =
    write_loop tr p
      (d[st + off div 512 := splice (d ! (st + off div 512)) (off mod 512) (take c (drop done buf))])
      st len (off + c) buf (done + c) (left - c)"
proof -
  let ?k = "st + off div 512" and ?o = "off mod 512"
  note cb = transfer_bounds [of len off left, unfolded assms(4), OF assms(5)]
  have rd: "read_sector d ?k = Some (d ! ?k)" using assms(6) by (simp add: read_sector_def)
  have wr: "write_sector d ?k b = Some (d[?k := b])" for b using assms(6) by (simp add: write_sector_def)
  have sub: "slice_sub buf done c = Some (take c (drop done buf))"
    using cb(2) assms(3) by (intro slice_sub_simps) simp
  have len: "length (take c (drop done buf)) = c" using cb(2) assms(3) by simp
  have cp: "slice_copy (d ! ?k) ?o (take c (drop done buf)) =
      Some (splice (d ! ?k) ?o (take c (drop done buf)))"
    using cb(3) disk_wf_nth [OF assms(1,6)] len by (intro slice_copy_simps) simp
  show ?thesis
  proof (cases "whole_sector (p + of_nat done) c")
    case False
    then show ?thesis
      using assms(4,5) rd wr sub cp by (subst write_loop.simps) (simp add: Let_def SECTOR_SIZE_def)
  next
    case True
    note c = whole_sectorD [OF this]
    then have o: "?o = 0" using cb(5) by simp
    have all: "splice (d ! ?k) ?o (take c (drop done buf)) = take c (drop done buf)"
      using o len c disk_wf_nth [OF assms(1,6)] by (simp add: splice_def)
    obtain v where v: "tr (p + of_nat done) (of_nat SECTOR_SIZE) = Some v"
      using tr_okD [OF assms(2), of "done"] c cb(2) assms(3) by auto
    show ?thesis
      unfolding all using assms(4,5) True wr sub v c
      by (subst write_loop.simps) (simp add: Let_def SECTOR_SIZE_def)
  qed
qed

lemma sector_in_disk:
  "off < len \<Longrightarrow> st * 512 + len \<le> length d * 512 \<Longrightarrow> st + off div 512 < length d"
  by linarith

lemma read_loop_correct:
  assumes "disk_wf d" "tr_ok tr p (length buf)" "done + left = length buf"
    and "st * 512 + len \<le> length d * 512" "n = min (len - off) left"
  shows "read_loop tr p d st len off buf done left =
    Some (Ok (of_nat (done + n)),
      splice buf done (map (dbyte d) [st * 512 + off..<st * 512 + off + n]))"
  using assms
proof (induction left arbitrary: off buf "done" n rule: less_induct)
  case (less left)
  show ?case
  proof (cases "chunk_size len off left = 0")
    case True
    then have "n = 0" using less.prems(5) chunk_zero by simp
    then show ?thesis using True by (subst read_loop.simps) (simp add: Let_def)
  next
    case False
    define c where "c = chunk_size len off left"
    note cb = transfer_bounds [OF False, folded c_def]
    have c0: "c \<noteq> 0" using False by (simp add: c_def)
    let ?r = "\<lambda>a b. map (dbyte d) [st * 512 + a..<st * 512 + b]"
    let ?buf = "splice buf done (?r off (off + c))"
    have lb: "length ?buf = length buf" using cb(2) less.prems(3) by (intro length_splice) simp
    have "read_loop tr p d st len (off + c) ?buf (done + c) (left - c) =
        Some (Ok (of_nat (done + c + (n - c))),
          splice ?buf (done + c) (map (dbyte d) [st * 512 + (off + c)..<st * 512 + (off + c) + (n - c)]))"
      using less.prems cb c0 lb by (intro less.IH) auto
    moreover have "n = c + (n - c)" using less.prems(5) cb by auto
    moreover have "splice ?buf (done + c) (?r (off + c) (off + n)) = splice buf done (?r off (off + n))"
    proof -
      have "?r off (off + n) = ?r off (off + c) @ ?r (off + c) (off + n)"
        using \<open>n = c + (n - c)\<close> upt_split [of "st * 512 + off" "st * 512 + (off + c)" "st * 512 + (off + n)"]
        by simp
      then show ?thesis
        using less.prems(3,5) cb splice_append [of "done" "?r off (off + c)" "?r (off + c) (off + n)" buf]
        by simp
    qed
    ultimately show ?thesis
      using read_loop_step [OF less.prems(1-3) c_def [symmetric] c0 sector_in_disk [OF cb(4) less.prems(4)]]
      by (simp add: add.assoc)
  qed
qed


lemma write_loop_correct:
  assumes "disk_wf d" "tr_ok tr p (length buf)" "done + left = length buf"
    and "st * 512 + len \<le> length d * 512" "n = min (len - off) left"
  shows "\<exists>d'. write_loop tr p d st len off buf done left = Some (Ok (of_nat (done + n)), d') \<and>
    disk_wf d' \<and> length d' = length d \<and>
    (\<forall>j. dbyte d' j = (if st * 512 + off \<le> j \<and> j < st * 512 + off + n
       then buf ! (done + (j - (st * 512 + off))) else dbyte d j))"
  using assms
proof (induction left arbitrary: d off "done" n rule: less_induct)
  case (less left)
  show ?case
  proof (cases "chunk_size len off left = 0")
    case True
    then have "n = 0" using less.prems(5) chunk_zero by simp
    then show ?thesis using True less.prems(1) by (subst write_loop.simps) (auto simp: Let_def)
  next
    case False
    define c where "c = chunk_size len off left"
    note cb = transfer_bounds [OF False, folded c_def]
    have c0: "c \<noteq> 0" using False by (simp add: c_def)
    let ?k = "st + off div 512" and ?b = "take c (drop done buf)" and ?a = "st * 512 + off"
    note k = sector_in_disk [OF cb(4) less.prems(4)]
    define d1 where "d1 = d[?k := splice (d ! ?k) (off mod 512) ?b]"
    have lb: "length ?b = c" using cb(2) less.prems(3) by simp
    have d1: "disk_wf d1" "length d1 = length d"
      using less.prems(1) lb cb(3) disk_wf_nth [OF less.prems(1) k]
      by (auto simp: d1_def intro: disk_wf_update)
    have at: "?k * 512 + off mod 512 = ?a" by (simp add: add_mult_distrib)
    have bytes1: "dbyte d1 j = (if ?a \<le> j \<and> j < ?a + c then ?b ! (j - ?a) else dbyte d j)" for j
      using dbyte_splice [OF less.prems(1) k, of "off mod 512" ?b j] lb cb(3) unfolding d1_def at by simp
    have nc: "n = c + (n - c)" using less.prems(5) cb by auto
    have "\<exists>d'. write_loop tr p d1 st len (off + c) buf (done + c) (left - c) =
        Some (Ok (of_nat (done + c + (n - c))), d') \<and> disk_wf d' \<and> length d' = length d1 \<and>
        (\<forall>j. dbyte d' j = (if st * 512 + (off + c) \<le> j \<and> j < st * 512 + (off + c) + (n - c)
           then buf ! (done + c + (j - (st * 512 + (off + c)))) else dbyte d1 j))"
      using less.prems cb c0 d1 by (intro less.IH) auto
    then obtain d' where d': "write_loop tr p d1 st len (off + c) buf (done + c) (left - c) =
        Some (Ok (of_nat (done + c + (n - c))), d')" "disk_wf d'" "length d' = length d"
      "\<And>j. dbyte d' j = (if ?a + c \<le> j \<and> j < ?a + c + (n - c)
           then buf ! (done + c + (j - (?a + c))) else dbyte d1 j)"
      using d1(2) by (auto simp: add.assoc)
    have "dbyte d' j = (if ?a \<le> j \<and> j < ?a + n then buf ! (done + (j - ?a)) else dbyte d j)" for j
    proof (cases "?a \<le> j \<and> j < ?a + c")
      case True
      then have "dbyte d' j = ?b ! (j - ?a)" using d'(4) [of j] bytes1 [of j] by simp
      also have "\<dots> = buf ! (done + (j - ?a))"
        using True cb(2) less.prems(3) less_diff_conv2 [of ?a j c] by (simp add: nth_drop del: add_diff_assoc)
      finally show ?thesis using True nc by simp
    next
      case False
      then show ?thesis using d'(4) [of j] bytes1 [of j] nc by auto
    qed
    moreover have "write_loop tr p d st len off buf done left = Some (Ok (of_nat (done + n)), d')"
      using write_loop_step [OF less.prems(1-3) c_def [symmetric] c0 k] d'(1) nc
      unfolding d1_def [symmetric] by (simp add: add.assoc)
    ultimately show ?thesis using d' by blast
  qed
qed

section \<open>The invariant of an inode\<close>

definition sectors :: "nat \<Rightarrow> nat" where
  "sectors n = (n + 511) div 512"

abbreviation f_start :: "vn_state \<Rightarrow> nat" where
  "f_start s \<equiv> unat (di_start (data (ino s)))"

abbreviation f_len :: "vn_state \<Rightarrow> nat" where
  "f_len s \<equiv> unat (di_len (data (ino s)))"

abbreviation f_shrink :: "vn_state \<Rightarrow> nat" where
  "f_shrink s \<equiv> unat (id_shrink_len (desc (ino s)))"

abbreviation f_sector :: "vn_state \<Rightarrow> nat" where
  "f_sector s \<equiv> unat (id_sector (desc (ino s)))"

definition run :: "vn_state \<Rightarrow> nat set" where
  "run s = {f_start s..<f_start s + sectors (f_len s + f_shrink s)}"

definition own :: "vn_state \<Rightarrow> nat set" where
  "own s = insert (f_sector s) (run s)"

text \<open>
  The free map covers no more than the disk, the sectors of the file and the one of the inode
  are marked as used and distinct, and the inode on the disk equals the one in memory.
\<close>

definition inode_ok :: "vn_state \<Rightarrow> bool" where
  "inode_ok s \<longleftrightarrow>
     disk_wf (vdisk s) \<and> fm_wf (vmap s) \<and> unat (size (vmap s)) \<le> length (vdisk s) \<and>
     f_len s + f_shrink s < 2 ^ 32 \<and>
     f_start s + sectors (f_len s + f_shrink s) \<le> unat (size (vmap s)) \<and>
     (\<forall>j\<in>own s. fm_bit (vmap s) j) \<and> f_sector s \<notin> run s \<and>
     di_magic (data (ino s)) = INODE_MAGIC \<and> length (di_padding (data (ino s))) = 500 \<and>
     vdisk s ! f_sector s = encode_inode (data (ino s))"

definition fbyte :: "vn_state \<Rightarrow> nat \<Rightarrow> u8" where
  "fbyte s i = dbyte (vdisk s) (f_start s * 512 + i)"

definition contents :: "vn_state \<Rightarrow> u8 list" where
  "contents s = map (fbyte s) [0..<f_len s]"

text \<open>What an operation on one inode leaves alone: every sector in use by somebody else.\<close>

definition others_kept :: "vn_state \<Rightarrow> vn_state \<Rightarrow> bool" where
  "others_kept s s' \<longleftrightarrow>
     size (vmap s') = size (vmap s) \<and> length (vdisk s') = length (vdisk s) \<and>
     (\<forall>j. fm_bit (vmap s) j \<and> j \<notin> own s \<longrightarrow>
        fm_bit (vmap s') j \<and> j \<notin> own s' \<and> vdisk s' ! j = vdisk s ! j)"

lemma length_contents [simp]: "length (contents s) = f_len s"
  by (simp add: contents_def)

lemma nth_contents [simp]: "i < f_len s \<Longrightarrow> contents s ! i = fbyte s i"
  by (simp add: contents_def)

lemma sectors_mono: "m \<le> n \<Longrightarrow> sectors m \<le> sectors n"
  by (simp add: sectors_def div_le_mono)

lemma sectors_cover: "n \<le> sectors n * 512"
  unfolding sectors_def by linarith

lemma byte_in_sectors: "i < n \<Longrightarrow> i div 512 < sectors n"
  unfolding sectors_def by linarith

lemma unat_ucast_u32 [simp]: "unat (ucast (w :: u32) :: usize) = unat w"
  using unat_u32_less [of w] by (simp add: unsigned_ucast_eq take_bit_nat_eq_self)

lemma unat_bytes_to_sectors:
  assumes "unat b < 2 ^ 32"
  shows "unat (bytes_to_sectors b) = sectors (unat b)"
proof -
  have u: "unat (511 + b) = 511 + unat b"
    using assms by (subst unat_add_no_wrap) simp_all
  have "unat ((511 + b) div 512) = sectors (unat b)"
    by (simp add: unat_div u sectors_def)
  moreover have "sectors (unat b) < 2 ^ 32" using assms unfolding sectors_def by linarith
  ultimately show ?thesis
    by (simp add: bytes_to_sectors_def SECTOR_SIZE_def unsigned_ucast_eq take_bit_nat_eq_self)
qed

lemma unat_bts_u32 [simp]: "unat (bytes_to_sectors (ucast (w :: u32))) = sectors (unat w)"
  using unat_bytes_to_sectors [of "ucast w"] unat_u32_less [of w] by simp

lemma file_on_disk:
  assumes "inode_ok s"
  shows "f_start s * 512 + f_len s \<le> length (vdisk s) * 512"
proof -
  have "f_len s \<le> sectors (f_len s + f_shrink s) * 512"
    using sectors_cover [of "f_len s + f_shrink s"] by linarith
  moreover have "f_start s + sectors (f_len s + f_shrink s) \<le> length (vdisk s)"
    using assms by (simp add: inode_ok_def)
  ultimately show ?thesis by linarith
qed

lemma inode_ok_sector:
  assumes "inode_ok s"
  shows "f_sector s < unat (size (vmap s))" "f_sector s < length (vdisk s)"
proof -
  have "fm_bit (vmap s) (f_sector s)" using assms by (simp add: inode_ok_def own_def)
  then show "f_sector s < unat (size (vmap s))" by (rule fm_bit_less)
  then show "f_sector s < length (vdisk s)" using assms by (simp add: inode_ok_def)
qed

section \<open>Reading\<close>

lemma inode_read_at_eq:
  assumes "inode_ok s" "tr_ok tr p (length buf)" "n = min (length buf) (f_len s - unat off)"
  shows "inode_read_at tr s p buf off =
    Some (Ok (of_nat n), take n (drop (unat off) (contents s)) @ drop n buf)"
proof -
  have wf: "disk_wf (vdisk s)" using assms(1) by (simp add: inode_ok_def)
  have "inode_read_at tr s p buf off = Some (Ok (of_nat n),
      splice buf 0 (map (dbyte (vdisk s)) [f_start s * 512 + unat off..<f_start s * 512 + unat off + n]))"
    unfolding inode_read_at_def using read_loop_correct [OF wf assms(2) _ file_on_disk [OF assms(1)], of 0 "length buf"] assms(3)
    by (simp add: min.commute)
  moreover have "map (dbyte (vdisk s)) [f_start s * 512 + unat off..<f_start s * 512 + unat off + n] =
      take n (drop (unat off) (contents s))"
    using assms(3) by (intro nth_equalityI) (auto simp: contents_def fbyte_def add.assoc)
  ultimately show ?thesis by (simp add: splice_def assms(3))
qed

section \<open>Resizing\<close>

lemma copy_sectors_correct:
  assumes "\<forall>i\<in>set is. unat (old + i) < length d \<and> unat (new + i) < length d"
    and "\<forall>i\<in>set is. \<forall>i'\<in>set is. old + i \<noteq> new + i'" "disk_wf d"
  shows "\<exists>d'. copy_sectors d old new is = Some d' \<and> disk_wf d' \<and> length d' = length d \<and>
    (\<forall>i\<in>set is. d' ! unat (new + i) = d ! unat (old + i)) \<and>
    (\<forall>j. j \<notin> (\<lambda>i. unat (new + i)) ` set is \<longrightarrow> d' ! j = d ! j)"
  using assms
proof (induction "is" arbitrary: d)
  case Nil
  then show ?case by simp
next
  case (Cons i "is")
  let ?d = "d[unat (new + i) := d ! unat (old + i)]"
  have in_d: "unat (old + i) < length d" "unat (new + i) < length d" using Cons.prems(1) by simp_all
  have wf: "disk_wf ?d" using Cons.prems(3) in_d disk_wf_nth by (intro disk_wf_update) auto
  from Cons.IH [of ?d] Cons.prems wf obtain d' where d': "copy_sectors ?d old new is = Some d'"
    "disk_wf d'" "length d' = length d"
    "\<forall>i'\<in>set is. d' ! unat (new + i') = ?d ! unat (old + i')"
    "\<forall>j. j \<notin> (\<lambda>i. unat (new + i)) ` set is \<longrightarrow> d' ! j = ?d ! j" by auto
  have ne: "unat (old + i') \<noteq> unat (new + i)" if "i' \<in> set (i # is)" for i'
    using that Cons.prems(2) word_eq_unatI [of "old + i'" "new + i"] by auto
  have here: "d' ! unat (new + i) = d ! unat (old + i)"
  proof (cases "i \<in> set is")
    case True
    then show ?thesis using d'(4) ne [of i] by simp
  next
    case False
    then have "unat (new + i) \<notin> (\<lambda>i. unat (new + i)) ` set is"
      by (auto dest!: word_eq_unatI)
    then show ?thesis using d'(5) in_d by simp
  qed
  have "copy_sectors d old new (i # is) = Some d'"
    using in_d d'(1) by (simp add: read_sector_def write_sector_def)
  moreover have "\<forall>i'\<in>set (i # is). d' ! unat (new + i') = d ! unat (old + i')"
    using d'(4) ne here by (metis nth_list_update_neq set_ConsD)
  moreover have "\<forall>j. j \<notin> (\<lambda>i. unat (new + i)) ` set (i # is) \<longrightarrow> d' ! j = d ! j"
    using d'(5) by simp
  ultimately show ?case using d'(2,3) by blast
qed

text \<open>
  Every branch of \<open>resize_inner\<close> that changes something ends in a state of this form.
\<close>

definition resized :: "vn_state \<Rightarrow> disk \<Rightarrow> free_map \<Rightarrow> inum \<Rightarrow> u32 \<Rightarrow> u32 \<Rightarrow> vn_state" where
  "resized s d fm start shrink len =
     (let di = (data (ino s))\<lparr>di_start := start, di_len := len\<rparr>
      in \<lparr>vdisk = d[f_sector s := encode_inode di], vmap = fm,
          ino = \<lparr>desc = (desc (ino s))\<lparr>id_shrink_len := shrink\<rparr>, data = di\<rparr>\<rparr>)"

lemma resized_simps [simp]:
  "vmap (resized s d fm start shrink len) = fm"
  "data (ino (resized s d fm start shrink len)) = (data (ino s))\<lparr>di_start := start, di_len := len\<rparr>"
  "desc (ino (resized s d fm start shrink len)) = (desc (ino s))\<lparr>id_shrink_len := shrink\<rparr>"
  "vdisk (resized s d fm start shrink len) =
     d[f_sector s := encode_inode ((data (ino s))\<lparr>di_start := start, di_len := len\<rparr>)]"
  by (simp_all add: resized_def Let_def)

lemma flush_len_resized:
  assumes "f_sector s < length d"
  shows "flush_len (set_start (set_shrink_len (s\<lparr>vdisk := d, vmap := fm\<rparr>) shrink) start) len =
      Some (Ok (), resized s d fm start shrink len)"
    and "flush_len (set_shrink_len (s\<lparr>vmap := fm\<rparr>) shrink) len =
      (if f_sector s < length (vdisk s)
       then Some (Ok (), resized s (vdisk s) fm (di_start (data (ino s))) shrink len) else None)"
    and "flush_len (set_shrink_len s shrink) len =
      (if f_sector s < length (vdisk s)
       then Some (Ok (), resized s (vdisk s) (vmap s) (di_start (data (ino s))) shrink len) else None)"
  using assms
  by (simp_all add: flush_len_def set_start_def set_shrink_len_def write_sector_def slice_set_def
      resized_def Let_def)

lemma dbyte_other_sector: "i div 512 \<noteq> k \<Longrightarrow> dbyte (d[k := b]) i = dbyte d i"
  by (simp add: dbyte_def)

lemma resized_ok:
  fixes s d fm start shrink len
  defines "new_run \<equiv> {unat start..<unat start + sectors (unat len + unat shrink)}"
  assumes "inode_ok s" "disk_wf d" "length d = length (vdisk s)" "fm_wf fm" "size fm = size (vmap s)"
    and "unat len + unat shrink < 2 ^ 32"
    and "unat start + sectors (unat len + unat shrink) \<le> unat (size (vmap s))"
    and "\<forall>j\<in>new_run. fm_bit fm j" "fm_bit fm (f_sector s)" "f_sector s \<notin> new_run"
    and "\<forall>j. fm_bit (vmap s) j \<and> j \<notin> own s \<longrightarrow> fm_bit fm j \<and> j \<notin> new_run \<and> d ! j = vdisk s ! j"
    and "\<forall>i < min (f_len s) (unat len). dbyte d (unat start * 512 + i) = fbyte s i"
  shows "inode_ok (resized s d fm start shrink len) \<and>
    others_kept s (resized s d fm start shrink len) \<and>
    (\<forall>i < min (f_len s) (unat len). fbyte (resized s d fm start shrink len) i = fbyte s i)"
proof -
  let ?s = "resized s d fm start shrink len"
  have sec: "f_sector s < length d" using inode_ok_sector [OF assms(2)] assms(4) by simp
  have run: "run ?s = new_run" by (simp add: run_def new_run_def)
  then have own: "own ?s = insert (f_sector s) new_run" by (simp add: own_def)
  have "disk_wf (vdisk ?s)"
    using assms(2,3) by (auto intro: disk_wf_update simp: length_encode_inode inode_ok_def)
  then have "inode_ok ?s"
    using assms sec by (simp add: inode_ok_def own run)
  moreover have "others_kept s ?s"
    unfolding others_kept_def own using assms(4,6,12) by (auto simp: own_def)
  moreover have "fbyte ?s i = fbyte s i" if "i < min (f_len s) (unat len)" for i
  proof -
    have "(unat start * 512 + i) div 512 \<in> new_run"
      using byte_in_sectors [of i "unat len + unat shrink"] that by (simp add: new_run_def)
    then have "(unat start * 512 + i) div 512 \<noteq> f_sector s" using assms(11) by auto
    then show ?thesis using that assms(13) by (simp add: fbyte_def dbyte_other_sector)
  qed
  ultimately show ?thesis by blast
qed

end
