(* ===== verification/Sync_Prims.thy ===== *)
theory Sync_Prims
  imports Tacos_Prelude
begin

text \<open>
  The locks that do not involve the thread manager (\<open>src/src/sync/intr.rs\<close>, \<open>spin.rs\<close>), the
  mutex on top of a lock (\<open>mutex.rs\<close>) and one-time initialisation (\<open>once.rs\<close>, \<open>lazy.rs\<close>).
  The interrupt level is an explicit \<open>bool\<close>; \<open>None\<close> is a panic. The trait \<open>Lock\<close> is the locale
  \<open>lock_trait\<close>.
\<close>

section \<open>Locks\<close>

text \<open>\<open>sbi::interrupt::set\<close>, on the level alone: the old level and the new one.\<close>

definition level_set :: "bool \<Rightarrow> bool \<Rightarrow> bool \<times> bool" where
  "level_set on level = (on, if on \<noteq> level then level else on)"

lemma level_set_simp [simp]: "level_set on level = (on, level)"
  by (simp add: level_set_def)

text \<open>\<open>Intr\<close> holds the interrupt level to restore while it is taken.\<close>

type_synonym intr_lock = "bool option"

definition intr_new :: intr_lock where
  "intr_new = None"

definition intr_acquire :: "intr_lock \<Rightarrow> bool \<Rightarrow> (intr_lock \<times> bool) option" where
  "intr_acquire l on = do {
     let (old, on) = level_set on False;
     rust_assert (l = None);
     let (_, on) = level_set on old;
     let (saved, on) = level_set on False;
     Some (Some saved, on)
   }"

definition intr_release :: "intr_lock \<Rightarrow> bool \<Rightarrow> (intr_lock \<times> bool) option" where
  "intr_release l on = do {
     saved \<leftarrow> l;
     let (_, on) = level_set on saved;
     Some (None, on)
   }"

text \<open>
  A round of the loop of \<open>Spin::acquire\<close>: the flag is set, and if it was set before the thread
  tries again, provided that interrupts are on. The flag says whether the lock was taken.
\<close>

type_synonym spin_lock = bool

definition spin_new :: spin_lock where
  "spin_new = False"

definition spin_round :: "spin_lock \<Rightarrow> bool \<Rightarrow> (bool \<times> spin_lock) option" where
  "spin_round l on = (if l then do { rust_assert on; Some (False, True) } else Some (True, True))"

text \<open>\<open>acquire\<close> as a thread sees it that nobody interrupts: it spins for ever on a taken lock.\<close>

partial_function (option) spin_acquire :: "spin_lock \<Rightarrow> bool \<Rightarrow> (spin_lock \<times> bool) option" where
  "spin_acquire l on = do {
     (taken, l) \<leftarrow> spin_round l on;
     if taken then Some (l, on) else spin_acquire l on
   }"

definition spin_release :: "spin_lock \<Rightarrow> bool \<Rightarrow> (spin_lock \<times> bool) option" where
  "spin_release l on = Some (False, on)"

section \<open>Mutexes\<close>

record ('t, 'l) mutex =
  mx_value :: 't
  mx_lock :: 'l

type_synonym 'l lock_op = "'l \<Rightarrow> bool \<Rightarrow> ('l \<times> bool) option"

definition mutex_new :: "'l \<Rightarrow> 't \<Rightarrow> ('t, 'l) mutex" where
  "mutex_new lock value = \<lparr>mx_value = value, mx_lock = lock\<rparr>"

definition mutex_lock :: "'l lock_op \<Rightarrow> ('t, 'l) mutex \<Rightarrow> bool \<Rightarrow> (('t, 'l) mutex \<times> bool) option" where
  "mutex_lock acquire m on = do {
     (l, on) \<leftarrow> acquire (mx_lock m) on;
     Some (m\<lparr>mx_lock := l\<rparr>, on)
   }"

text \<open>\<open>Deref\<close> and \<open>DerefMut\<close> of the guard, and its \<open>Drop\<close>.\<close>

definition guard_deref :: "('t, 'l) mutex \<Rightarrow> 't" where
  "guard_deref m = mx_value m"

definition guard_deref_mut :: "('t \<Rightarrow> 't) \<Rightarrow> ('t, 'l) mutex \<Rightarrow> ('t, 'l) mutex" where
  "guard_deref_mut f m = m\<lparr>mx_value := f (mx_value m)\<rparr>"

definition guard_drop :: "'l lock_op \<Rightarrow> ('t, 'l) mutex \<Rightarrow> bool \<Rightarrow> (('t, 'l) mutex \<times> bool) option" where
  "guard_drop release m on = do {
     (l, on) \<leftarrow> release (mx_lock m) on;
     Some (m\<lparr>mx_lock := l\<rparr>, on)
   }"

text \<open>A statement such as \<open>*m.lock() = f(*m)\<close>: lock, access, drop of the temporary guard.\<close>

definition with_mutex :: "'l lock_op \<Rightarrow> 'l lock_op \<Rightarrow> ('t \<Rightarrow> 't) \<Rightarrow> ('t, 'l) mutex \<Rightarrow> bool \<Rightarrow>
    ('t \<times> ('t, 'l) mutex \<times> bool) option" where
  "with_mutex acquire release f m on = do {
     (m, on) \<leftarrow> mutex_lock acquire m on;
     let m = guard_deref_mut f m;
     let v = guard_deref m;
     (m, on) \<leftarrow> guard_drop release m on;
     Some (v, m, on)
   }"

section \<open>One-time initialisation\<close>

datatype once_state = InComplete | Complete

record once =
  on_inner :: once_state
  on_lock :: intr_lock

definition once_new :: once where
  "once_new = \<lparr>on_inner = InComplete, on_lock = intr_new\<rparr>"

definition is_completed :: "once \<Rightarrow> bool" where
  "is_completed c \<longleftrightarrow> on_inner c = Complete"

text \<open>
  The state a closure can reach is \<open>'w\<close>; it runs with interrupts off and may turn them on
  (through another lock, for example), so it maps the level too.
\<close>

type_synonym 'w closure = "bool \<Rightarrow> 'w \<Rightarrow> (bool \<times> 'w) option"

definition call_once :: "'w closure \<Rightarrow> once \<Rightarrow> bool \<Rightarrow> 'w \<Rightarrow> (once \<times> bool \<times> 'w) option" where
  "call_once f c on w =
     (if is_completed c then Some (c, on, w)
      else do {
        (l, on) \<leftarrow> intr_acquire (on_lock c) on;
        let c = c\<lparr>on_lock := l\<rparr>;
        (c, on, w) \<leftarrow>
          (if on_inner c = InComplete then do {
             (on, w) \<leftarrow> f on w;
             Some (c\<lparr>on_inner := Complete\<rparr>, on, w)
           } else Some (c, on, w));
        (l, on) \<leftarrow> intr_release (on_lock c) on;
        Some (c\<lparr>on_lock := l\<rparr>, on, w)
      })"

record 't once_cell =
  oc_inner :: "'t option"
  oc_once :: once

definition cell_new :: "'t once_cell" where
  "cell_new = \<lparr>oc_inner = None, oc_once = once_new\<rparr>"

definition cell_get :: "'t once_cell \<Rightarrow> 't option" where
  "cell_get c = oc_inner c"

text \<open>\<open>init\<close> runs \<open>f\<close> and stores its value, through \<open>call_once\<close> on the cell's own \<open>Once\<close>.\<close>

definition cell_init :: "(bool \<Rightarrow> 'w \<Rightarrow> ('t \<times> bool \<times> 'w) option) \<Rightarrow> 't once_cell \<Rightarrow> bool \<Rightarrow> 'w \<Rightarrow>
    ('t once_cell \<times> bool \<times> 'w) option" where
  "cell_init f c on w = do {
     (o1, on, w, inner) \<leftarrow> call_once (\<lambda>on (w, _). do { (v, on, w) \<leftarrow> f on w; Some (on, w, Some v) })
       (oc_once c) on (w, oc_inner c);
     Some (\<lparr>oc_inner = inner, oc_once = o1\<rparr>, on, w)
   }"

definition get_or_init :: "(bool \<Rightarrow> 'w \<Rightarrow> ('t \<times> bool \<times> 'w) option) \<Rightarrow> 't once_cell \<Rightarrow> bool \<Rightarrow> 'w \<Rightarrow>
    ('t \<times> 't once_cell \<times> bool \<times> 'w) option" where
  "get_or_init f c on w =
     (if is_completed (oc_once c) then do { v \<leftarrow> cell_get c; Some (v, c, on, w) }
      else do {
        (c, on, w) \<leftarrow> cell_init f c on w;
        v \<leftarrow> cell_get c;
        Some (v, c, on, w)
      })"

text \<open>\<open>Lazy\<close>: the closure is taken out of its cell when it is run.\<close>

record ('t, 'w) lazy =
  lz_cell :: "'t once_cell"
  lz_init :: "(bool \<Rightarrow> 'w \<Rightarrow> ('t \<times> bool \<times> 'w) option) option"

definition lazy_new :: "(bool \<Rightarrow> 'w \<Rightarrow> ('t \<times> bool \<times> 'w) option) \<Rightarrow> ('t, 'w) lazy" where
  "lazy_new f = \<lparr>lz_cell = cell_new, lz_init = Some f\<rparr>"

definition lazy_get :: "('t, 'w) lazy \<Rightarrow> bool \<Rightarrow> 'w \<Rightarrow> ('t \<times> ('t, 'w) lazy \<times> bool \<times> 'w) option" where
  "lazy_get z on w = do {
     (v, c, on, w, i) \<leftarrow> get_or_init
       (\<lambda>on (w, i). do { f \<leftarrow> i; (v, on, w) \<leftarrow> f on w; Some (v, on, w, None) })
       (lz_cell z) on (w, lz_init z);
     Some (v, \<lparr>lz_cell = c, lz_init = i\<rparr>, on, w)
   }"

section \<open>The trait Lock\<close>

text \<open>
  A free lock can be acquired, and releasing it restores the lock and the interrupt level; a
  taken lock cannot be acquired by the same thread again: the call panics or does not return.
\<close>

locale lock_trait =
  fixes acquire :: "'l lock_op"
    and release :: "'l lock_op"
    and free :: "'l \<Rightarrow> bool"
    and fresh :: 'l
  assumes fresh_free: "free fresh"
    and acquire_release: "free l \<Longrightarrow>
      \<exists>l' on'. acquire l on = Some (l', on') \<and> \<not> free l' \<and> release l' on' = Some (l, on)"
    and acquire_taken: "\<not> free l \<Longrightarrow> acquire l on = None"
begin

lemma with_mutex_correct:
  assumes "free (mx_lock m)"
  shows "with_mutex acquire release f m on = Some (f (mx_value m), m\<lparr>mx_value := f (mx_value m)\<rparr>, on)"
  using acquire_release [OF assms, of on]
  by (auto simp: with_mutex_def mutex_lock_def guard_deref_mut_def guard_deref_def guard_drop_def Let_def)

lemma mutex_relock:
  assumes "free (mx_lock m)" "mutex_lock acquire m on = Some (m', on')"
  shows "mutex_lock acquire m' on'' = None" "mx_value m' = mx_value m"
  using acquire_release [OF assms(1), of on] assms(2) acquire_taken by (auto simp: mutex_lock_def)

end

lemma spin_acquire_free: "spin_acquire False on = Some (True, on)"
  by (subst spin_acquire.simps) (simp add: spin_round_def)

text \<open>A taken spin lock: a panic with interrupts off, an endless loop with interrupts on.\<close>

lemma spin_acquire_taken: "spin_acquire True on = None"
proof -
  have "\<not> l" if "spin_acquire l on = Some r" for l on r
    using that
  proof (rule spin_acquire.raw_induct [where P = "\<lambda>l on r. \<not> l", rotated])
    fix sa l on r
    assume "\<And>l on r. sa l on = Some r \<Longrightarrow> \<not> l"
      "(do { (taken, l) \<leftarrow> spin_round l on; if taken then Some (l, on) else sa l on }) = Some r"
    then show "\<not> l" by (fastforce simp: spin_round_def bind_eq_Some_conv split: if_splits)
  qed
  then show ?thesis by (cases "spin_acquire True on") auto
qed

interpretation intr_lock: lock_trait intr_acquire intr_release "\<lambda>l. l = None" intr_new
  by unfold_locales (auto simp: intr_acquire_def intr_release_def intr_new_def)

interpretation spin_lock: lock_trait spin_acquire spin_release "\<lambda>l. \<not> l" spin_new
proof
  fix l on
  show "\<not> spin_new" by (simp add: spin_new_def)
  show "\<not> l \<Longrightarrow> \<exists>l' on'. spin_acquire l on = Some (l', on') \<and> \<not> \<not> l' \<and> spin_release l' on' = Some (l, on)"
    by (auto simp: spin_acquire_free spin_release_def)
  show "\<not> \<not> l \<Longrightarrow> spin_acquire l on = None" by (simp add: spin_acquire_taken)
qed

section \<open>Nested locks\<close>

text \<open>Acquire a list of interrupt locks in order; release them in the order of a second list of indices.\<close>

fun acquire_all :: "intr_lock list \<Rightarrow> bool \<Rightarrow> (intr_lock list \<times> bool) option" where
  "acquire_all [] on = Some ([], on)"
| "acquire_all (l # ls) on = do {
     (l, on) \<leftarrow> intr_acquire l on;
     (ls, on) \<leftarrow> acquire_all ls on;
     Some (l # ls, on)
   }"

fun release_order :: "nat list \<Rightarrow> intr_lock list \<Rightarrow> bool \<Rightarrow> (intr_lock list \<times> bool) option" where
  "release_order [] ls on = Some (ls, on)"
| "release_order (i # is) ls on = do {
     l \<leftarrow> slice_get ls i;
     (l, on) \<leftarrow> intr_release l on;
     release_order is (ls[i := l]) on
   }"

lemma acquire_all_fresh:
  "acquire_all (replicate n None) on =
     Some (case n of 0 \<Rightarrow> [] | Suc m \<Rightarrow> Some on # replicate m (Some False), if n = 0 then on else False)"
proof (induction n arbitrary: on)
  case (Suc n)
  then show ?case by (cases n) (simp_all add: intr_acquire_def)
qed simp

lemma release_order_append:
  "release_order (is @ js) ls on = do { (ls, on) \<leftarrow> release_order is ls on; release_order js ls on }"
  by (induction "is" arbitrary: ls on) (auto simp: Option.bind_assoc split: option.splits bind_splits)

lemma release_inner:
  "release_order (rev [1..<Suc m]) (x # replicate m (Some False) @ replicate j None) False =
     Some (x # replicate (m + j) None, False)"
proof (induction m arbitrary: j)
  case (Suc m)
  have e: "x # replicate (Suc m) (Some False) @ replicate j None =
      x # replicate m (Some False) @ Some False # replicate j None" by (simp add: replicate_app_Cons_same)
  have "(x # replicate (Suc m) (Some False) @ replicate j None)[Suc m := None] =
      x # replicate m (Some False) @ replicate (Suc j) None"
    unfolding e by (simp add: list_update_append)
  moreover have "slice_get (x # replicate (Suc m) (Some False) @ replicate j None) (Suc m) = Some (Some False)"
    unfolding e by (simp add: slice_get_def nth_append)
  ultimately show ?case using Suc.IH [of "Suc j"] by (simp add: intr_release_def del: replicate_Suc)
qed simp

text \<open>
  Interrupt locks. Acquiring any number of free \<open>Intr\<close> locks turns interrupts off, and
  releasing them in the reverse order restores the level of before and frees all of them. The
  order matters: with two locks released in the order of acquisition, interrupts are on again
  while the second lock is still held, and stay off after it is released.
\<close>

lemma intr_nesting:
  "(\<exists>ls. acquire_all (replicate (Suc n) None) on = Some (ls, False) \<and>
     release_order (rev [0..<Suc n]) ls False = Some (replicate (Suc n) None, on)) \<and>
   (\<exists>ls ls'. acquire_all [None, None] True = Some (ls, False) \<and>
     release_order [0] ls False = Some (ls', True) \<and> ls' ! 1 \<noteq> None \<and>
     release_order [0, 1] ls False = Some ([None, None], False))"
proof (intro conjI)
  have "rev [0..<Suc n] = rev [1..<Suc n] @ [0]" by (simp add: upt_rec)
  then show "\<exists>ls. acquire_all (replicate (Suc n) None) on = Some (ls, False) \<and>
     release_order (rev [0..<Suc n]) ls False = Some (replicate (Suc n) None, on)"
    using release_inner [of n "Some on" 0] acquire_all_fresh [of "Suc n" on]
    by (simp add: release_order_append intr_release_def del: upt_Suc acquire_all.simps replicate_Suc) simp
qed (auto simp: intr_acquire_def intr_release_def)

section \<open>Lazy values\<close>

lemma call_once_first:
  assumes "on_inner c = InComplete" "on_lock c = None" "f False w = Some (on', w')"
  shows "call_once f c on w = Some (\<lparr>on_inner = Complete, on_lock = None\<rparr>, on, w')"
  using assms by (cases c) (simp add: call_once_def is_completed_def intr_acquire_def intr_release_def)

text \<open>A closure that calls \<open>call_once\<close> on the same object finds its lock taken and panics.\<close>

lemma call_once_reentrant:
  assumes "on_inner c = InComplete" "intr_acquire (on_lock c) on = Some (l, on')"
  shows "call_once g (c\<lparr>on_lock := l\<rparr>) on' w = None"
  using assms by (auto simp: call_once_def is_completed_def intr_acquire_def split: if_splits)

text \<open>
  \<open>Lazy\<close>. The first access runs the closure once, with interrupts off, and returns its
  value with the interrupt level restored; every later access returns the same value and changes
  nothing, whatever has become of the state meanwhile.
\<close>

lemma lazy_initialised_once:
  assumes "f False w = Some (v, on', w')"
  shows "\<exists>z. lazy_get (lazy_new f) on w = Some (v, z, on, w') \<and>
    (\<forall>on2 w2. lazy_get z on2 w2 = Some (v, z, on2, w2))"
proof -
  let ?z = "\<lparr>lz_cell = \<lparr>oc_inner = Some v, oc_once = \<lparr>on_inner = Complete, on_lock = None\<rparr>\<rparr>, lz_init = None\<rparr>"
  have "lazy_get (lazy_new f) on w = Some (v, ?z, on, w')"
    using assms by (simp add: lazy_get_def lazy_new_def cell_new_def once_new_def intr_new_def get_or_init_def
        is_completed_def cell_init_def call_once_first cell_get_def)
  moreover have "lazy_get ?z on2 w2 = Some (v, ?z, on2, w2)" for on2 w2
    by (simp add: lazy_get_def get_or_init_def is_completed_def cell_get_def)
  ultimately show ?thesis by blast
qed

end
