(* ===== verification/Plic.thy ===== *)
theory Plic
  imports Mem_Utils Sync_Prims
begin

unbundle bit_operations_syntax

text \<open>
  The driver of the interrupt controller (\<open>src/src/device/plic.rs\<close>). Registers are 32-bit
  words that the driver reads and writes with volatile accesses; the device behind them is a
  parameter: its state, and what reads and writes do to it (\<open>rd32\<close>, \<open>wr32\<close>). The hart id is
  a \<open>OnceCell\<close>; reading it before \<open>init\<close> panics.
\<close>

section \<open>Registers of a device\<close>

record 'd mmio =
  rd32 :: "usize \<Rightarrow> 'd \<Rightarrow> u32 \<times> 'd"
  wr32 :: "usize \<Rightarrow> u32 \<Rightarrow> 'd \<Rightarrow> 'd"

record 'd plic =
  hart :: "usize once_cell"
  dev :: 'd

section \<open>Addresses\<close>

definition VIRTIO0_ID :: usize where
  "VIRTIO0_ID = 1"

definition get_priority_ptr :: "usize \<Rightarrow> usize" where
  "get_priority_ptr irq = PLIC_BASE + 0x4 * irq"

definition get_pending_ptr :: "usize \<Rightarrow> usize" where
  "get_pending_ptr irq = PLIC_BASE + 0x1000 + 0x4 * (irq div 32)"

definition get_enable_ptr :: "usize \<Rightarrow> usize \<Rightarrow> usize" where
  "get_enable_ptr hart_id irq = PLIC_BASE + 0x2000 + 0x80 * (2 * hart_id + 1) + 0x4 * (irq div 32)"

definition get_threshold_ptr :: "usize \<Rightarrow> usize" where
  "get_threshold_ptr hart_id = PLIC_BASE + 0x200000 + 0x1000 * (2 * hart_id + 1)"

definition get_completion_ptr :: "usize \<Rightarrow> usize" where
  "get_completion_ptr hart_id = PLIC_BASE + 0x200000 + 0x1000 * (2 * hart_id + 1) + 0x4"

definition get_claim_ptr :: "usize \<Rightarrow> usize" where
  "get_claim_ptr hart_id = get_completion_ptr hart_id"

section \<open>Operations\<close>

definition hart_id :: "'d plic \<Rightarrow> usize option" where
  "hart_id p = cell_get (hart p)"

definition read_reg :: "'d mmio \<Rightarrow> usize \<Rightarrow> 'd plic \<Rightarrow> u32 \<times> 'd plic" where
  "read_reg io a p = (let (v, d) = rd32 io a (dev p) in (v, p\<lparr>dev := d\<rparr>))"

definition write_reg :: "'d mmio \<Rightarrow> usize \<Rightarrow> u32 \<Rightarrow> 'd plic \<Rightarrow> 'd plic" where
  "write_reg io a v p = p\<lparr>dev := wr32 io a v (dev p)\<rparr>"

definition id_bit :: "usize \<Rightarrow> u32" where
  "id_bit irq = push_bit (unat (irq mod 32)) 1"

definition read_priority :: "'d mmio \<Rightarrow> usize \<Rightarrow> 'd plic \<Rightarrow> u32 \<times> 'd plic" where
  "read_priority io irq p = read_reg io (get_priority_ptr irq) p"

definition write_priority :: "'d mmio \<Rightarrow> usize \<Rightarrow> u32 \<Rightarrow> 'd plic \<Rightarrow> 'd plic" where
  "write_priority io irq val p = write_reg io (get_priority_ptr irq) val p"

definition read_pending :: "'d mmio \<Rightarrow> usize \<Rightarrow> 'd plic \<Rightarrow> bool \<times> 'd plic" where
  "read_pending io irq p = (let (v, p) = read_reg io (get_pending_ptr irq) p in (v AND id_bit irq \<noteq> 0, p))"

definition read_enable :: "'d mmio \<Rightarrow> usize \<Rightarrow> 'd plic \<Rightarrow> (bool \<times> 'd plic) option" where
  "read_enable io irq p = do {
     h \<leftarrow> hart_id p;
     let (v, p) = read_reg io (get_enable_ptr h irq) p;
     Some (v AND id_bit irq \<noteq> 0, p)
   }"

definition set_enable :: "'d mmio \<Rightarrow> usize \<Rightarrow> 'd plic \<Rightarrow> 'd plic option" where
  "set_enable io irq p = do {
     h \<leftarrow> hart_id p;
     let (prev, p) = read_reg io (get_enable_ptr h irq) p;
     Some (write_reg io (get_enable_ptr h irq) (prev OR id_bit irq) p)
   }"

definition clear_enable :: "'d mmio \<Rightarrow> usize \<Rightarrow> 'd plic \<Rightarrow> 'd plic option" where
  "clear_enable io irq p = do {
     h \<leftarrow> hart_id p;
     let (prev, p) = read_reg io (get_enable_ptr h irq) p;
     Some (write_reg io (get_enable_ptr h irq) (prev AND NOT (id_bit irq)) p)
   }"

definition read_threshold :: "'d mmio \<Rightarrow> 'd plic \<Rightarrow> (u32 \<times> 'd plic) option" where
  "read_threshold io p = do { h \<leftarrow> hart_id p; Some (read_reg io (get_threshold_ptr h) p) }"

definition write_threshold :: "'d mmio \<Rightarrow> u32 \<Rightarrow> 'd plic \<Rightarrow> 'd plic option" where
  "write_threshold io val p = do { h \<leftarrow> hart_id p; Some (write_reg io (get_threshold_ptr h) val p) }"

definition read_claim :: "'d mmio \<Rightarrow> 'd plic \<Rightarrow> (u32 \<times> 'd plic) option" where
  "read_claim io p = do { h \<leftarrow> hart_id p; Some (read_reg io (get_claim_ptr h) p) }"

definition write_completion :: "'d mmio \<Rightarrow> u32 \<Rightarrow> 'd plic \<Rightarrow> 'd plic option" where
  "write_completion io val p = do { h \<leftarrow> hart_id p; Some (write_reg io (get_completion_ptr h) val p) }"

text \<open>\<open>init\<close>, with the interrupt level \<open>on\<close> around the \<open>OnceCell\<close>.\<close>

definition plic_init :: "'d mmio \<Rightarrow> usize \<Rightarrow> bool \<Rightarrow> 'd plic \<Rightarrow> (bool \<times> 'd plic) option" where
  "plic_init io h on p = do {
     (c, on, _) \<leftarrow> cell_init (\<lambda>on w. Some (h, on, w)) (hart p) on ();
     let p = p\<lparr>hart := c\<rparr>;
     p \<leftarrow> write_threshold io 0 p;
     let p = write_priority io VIRTIO0_ID 1 p;
     p \<leftarrow> set_enable io VIRTIO0_ID p;
     Some (on, p)
   }"

section \<open>The address map\<close>

lemma PLIC_BASE_eq: "PLIC_BASE = 0xFFFFFFC00C000000"
  by (simp add: PLIC_BASE_def VM_OFFSET_eq)

lemma plic_address:
  assumes "a = PLIC_BASE + of_nat n" "n < 2 ^ 37"
  shows "unat a = unat PLIC_BASE + n"
proof -
  have "unat (of_nat n :: usize) = n" by (rule unat_of_nat_small) (use assms(2) in simp)
  then show ?thesis
    unfolding assms(1) by (subst unat_add_no_wrap) (use assms(2) in \<open>simp_all add: PLIC_BASE_eq\<close>)
qed

lemma plic_addresses:
  assumes "unat irq < 1024" "unat h < 256"
  shows "unat (get_priority_ptr irq) = unat PLIC_BASE + 4 * unat irq"
    "unat (get_pending_ptr irq) = unat PLIC_BASE + (0x1000 + 4 * (unat irq div 32))"
    "unat (get_enable_ptr h irq) = unat PLIC_BASE + (0x2000 + 0x80 * (2 * unat h + 1) + 4 * (unat irq div 32))"
    "unat (get_threshold_ptr h) = unat PLIC_BASE + (0x200000 + 0x1000 * (2 * unat h + 1))"
    "unat (get_completion_ptr h) = unat PLIC_BASE + (0x200000 + 0x1000 * (2 * unat h + 1) + 4)"
proof -
  have "unat (irq div 32) = unat irq div 32" by (simp add: unat_div)
  then have "of_nat (unat (irq div 32)) = (of_nat (unat irq div 32) :: usize)" by (rule arg_cong)
  then have dv: "of_nat (unat irq div 32) = irq div 32" by simp
  have le: "unat irq div 32 < 32" using assms(1) by (simp add: less_mult_imp_div_less)
  note defs = get_priority_ptr_def get_pending_ptr_def get_enable_ptr_def get_threshold_ptr_def get_completion_ptr_def
  show "unat (get_priority_ptr irq) = unat PLIC_BASE + 4 * unat irq"
    "unat (get_pending_ptr irq) = unat PLIC_BASE + (0x1000 + 4 * (unat irq div 32))"
    "unat (get_enable_ptr h irq) = unat PLIC_BASE + (0x2000 + 0x80 * (2 * unat h + 1) + 4 * (unat irq div 32))"
    "unat (get_threshold_ptr h) = unat PLIC_BASE + (0x200000 + 0x1000 * (2 * unat h + 1))"
    "unat (get_completion_ptr h) = unat PLIC_BASE + (0x200000 + 0x1000 * (2 * unat h + 1) + 4)"
    by (rule plic_address; use assms le in \<open>simp add: defs dv algebra_simps\<close>)+
qed



section \<open>Initialisation and enable bits\<close>

text \<open>Registers of the controller that keep what is written to them.\<close>

definition keeps :: "'d mmio \<Rightarrow> usize set \<Rightarrow> bool" where
  "keeps io S \<longleftrightarrow> (\<forall>a \<in> S. \<forall>d. snd (rd32 io a d) = d \<and> (\<forall>v. fst (rd32 io a (wr32 io a v d)) = v) \<and>
     (\<forall>b \<in> S. \<forall>v. b \<noteq> a \<longrightarrow> fst (rd32 io a (wr32 io b v d)) = fst (rd32 io a d)))"

definition value_at :: "'d mmio \<Rightarrow> usize \<Rightarrow> 'd plic \<Rightarrow> u32" where
  "value_at io a p = fst (rd32 io a (dev p))"

lemma keepsD:
  assumes "keeps io S" "a \<in> S"
  shows "read_reg io a p = (value_at io a p, p)"
    "b \<in> S \<Longrightarrow> value_at io a (write_reg io b v p) = (if a = b then v else value_at io a p)"
proof -
  have "snd (rd32 io a (dev p)) = dev p" using assms by (simp add: keeps_def)
  then show "read_reg io a p = (value_at io a p, p)"
    by (cases "rd32 io a (dev p)") (simp add: read_reg_def value_at_def)
  show "value_at io a (write_reg io b v p) = (if a = b then v else value_at io a p)" if "b \<in> S"
    using assms that by (auto simp: keeps_def value_at_def write_reg_def)
qed

lemma hart_write_reg [simp]: "hart_id (write_reg io a v p) = hart_id p"
  by (simp add: hart_id_def write_reg_def)

lemma id_bit_bit: "bit (id_bit irq) n \<longleftrightarrow> n = unat irq mod 32"
proof -
  have "unat (irq mod 32) = unat irq mod 32" by (simp add: unat_mod)
  moreover have "unat irq mod 32 < 32" by simp
  ultimately show ?thesis by (auto simp: id_bit_def bit_exp_iff)
qed

lemma id_bit_test: "v AND id_bit irq \<noteq> 0 \<longleftrightarrow> bit v (unat irq mod 32)"
proof -
  have "v AND id_bit irq = 0 \<longleftrightarrow> (\<forall>n. \<not> bit (v AND id_bit irq) n)" by (auto intro: bit_word_eqI)
  then show ?thesis by (simp add: bit_and_iff id_bit_bit)
qed

lemma bit_word_less: "bit (w :: u32) n \<Longrightarrow> n < 32"
  using bit_imp_le_length [of w n] by simp

text \<open>\<open>set_enable\<close> and \<open>clear_enable\<close> switch exactly the bit of their source.\<close>

lemma enable_bits:
  assumes "keeps io S" "get_enable_ptr h irq \<in> S" "hart_id p = Some h"
  shows "\<exists>p'. set_enable io irq p = Some p' \<and> hart_id p' = Some h \<and> map_option fst (read_enable io irq p') = Some True \<and>
      (\<forall>n. bit (value_at io (get_enable_ptr h irq) p') n \<longleftrightarrow> n = unat irq mod 32 \<or> bit (value_at io (get_enable_ptr h irq) p) n) \<and>
      (\<forall>a \<in> S. a \<noteq> get_enable_ptr h irq \<longrightarrow> value_at io a p' = value_at io a p)"
    and "\<exists>p'. clear_enable io irq p = Some p' \<and> hart_id p' = Some h \<and> map_option fst (read_enable io irq p') = Some False \<and>
      (\<forall>n. bit (value_at io (get_enable_ptr h irq) p') n \<longleftrightarrow> n \<noteq> unat irq mod 32 \<and> bit (value_at io (get_enable_ptr h irq) p) n) \<and>
      (\<forall>a \<in> S. a \<noteq> get_enable_ptr h irq \<longrightarrow> value_at io a p' = value_at io a p)"
  using assms keepsD [OF assms(1)]
  by (auto simp: set_enable_def clear_enable_def read_enable_def id_bit_test bit_or_iff bit_and_iff bit_not_iff
      id_bit_bit dest: bit_word_less)

lemma cell_init_new: "cell_init (\<lambda>on w. Some (v, on, ())) cell_new on () = Some (\<lparr>oc_inner = Some v, oc_once =
    \<lparr>on_inner = Complete, on_lock = None\<rparr>\<rparr>, on, ())"
  by (simp add: cell_init_def call_once_def cell_new_def once_new_def is_completed_def intr_new_def intr_acquire_def
      intr_release_def)

text \<open>
  Initialisation of the interrupt controller. \<open>init\<close> records the hart and leaves the interrupt
  level as it was; afterwards the hart accepts every priority, the disk has a positive
  priority and its interrupt is enabled, and no enable bit of another source has changed.
\<close>

lemma plic_init_correct:
  assumes "unat h < 256" "hart p = cell_new"
    and "keeps io {get_threshold_ptr h, get_priority_ptr VIRTIO0_ID, get_enable_ptr h VIRTIO0_ID}"
  shows "\<exists>p'. plic_init io h on p = Some (on, p') \<and> hart_id p' = Some h \<and>
    value_at io (get_threshold_ptr h) p' = 0 \<and> value_at io (get_priority_ptr VIRTIO0_ID) p' = 1 \<and>
    map_option fst (read_enable io VIRTIO0_ID p') = Some True \<and>
    (\<forall>n. bit (value_at io (get_enable_ptr h VIRTIO0_ID) p') n \<longleftrightarrow>
      n = 1 \<or> bit (value_at io (get_enable_ptr h VIRTIO0_ID) p) n)"
proof -
  let ?t = "get_threshold_ptr h" and ?q = "get_priority_ptr VIRTIO0_ID" and ?e = "get_enable_ptr h VIRTIO0_ID"
  have v: "unat VIRTIO0_ID < 1024" by (simp add: VIRTIO0_ID_def)
  have ne: "?t \<noteq> ?q" "?e \<noteq> ?q" "?e \<noteq> ?t"
    using plic_addresses [OF v assms(1)] assms(1) by (auto simp: word_unat_eq_iff VIRTIO0_ID_def)
  define p1 where "p1 = write_reg io ?q 1 (write_reg io ?t 0 (p\<lparr>hart := \<lparr>oc_inner = Some h, oc_once =
    \<lparr>on_inner = Complete, on_lock = None\<rparr>\<rparr>\<rparr>))"
  have h: "hart_id p1 = Some h" by (simp add: p1_def hart_id_def cell_get_def write_reg_def)
  have val: "value_at io ?t p1 = 0" "value_at io ?q p1 = 1" "value_at io ?e p1 = value_at io ?e p"
    using ne keepsD(2) [OF assms(3)] by (auto simp: p1_def) (simp add: value_at_def)
  from enable_bits(1) [OF assms(3) _ h, of VIRTIO0_ID] obtain p' where p': "set_enable io VIRTIO0_ID p1 = Some p'"
    "hart_id p' = Some h" "map_option fst (read_enable io VIRTIO0_ID p') = Some True"
    "\<forall>n. bit (value_at io ?e p') n \<longleftrightarrow> n = unat VIRTIO0_ID mod 32 \<or> bit (value_at io ?e p1) n"
    "value_at io ?t p' = value_at io ?t p1" "value_at io ?q p' = value_at io ?q p1" using ne by auto
  have "plic_init io h on p = Some (on, p')"
    using p'(1) by (simp add: plic_init_def assms(2) cell_init_new write_threshold_def write_priority_def p1_def
        hart_id_def cell_get_def)
  then show ?thesis using p'(2-) val by (auto simp: VIRTIO0_ID_def)
qed

definition ram_regs :: "(usize \<Rightarrow> u32) mmio" where
  "ram_regs = \<lparr>rd32 = (\<lambda>a d. (d a, d)), wr32 = (\<lambda>a v d. d(a := v))\<rparr>"

end
