(* ===== verification/Virtio.thy ===== *)
theory Virtio
  imports Inode Plic Semaphore Kernel_Heap
begin

unbundle bit_operations_syntax

text \<open>
  The driver of the virtio block device (\<open>src/src/device/virtio.rs\<close>): the negotiation at
  initialisation, requests of one sector through a queue of four descriptors, and the interrupt
  handler. The device is a parameter: what volatile accesses to its registers do, and what it does
  to the queue, to the memory and to its own state when it serves the request it was notified of. The
  memory that the device reaches is a map from physical addresses to bytes.
\<close>

section \<open>Registers\<close>

definition MAGIC_VALUE :: usize where "MAGIC_VALUE = MMIO_BASE + 0x0"
definition VERSION :: usize where "VERSION = MMIO_BASE + 0x4"
definition DEVICE_ID :: usize where "DEVICE_ID = MMIO_BASE + 0x8"
definition DEVICE_FEATURES :: usize where "DEVICE_FEATURES = MMIO_BASE + 0x10"
definition DRIVER_FEATURES :: usize where "DRIVER_FEATURES = MMIO_BASE + 0x20"
definition QUEUE_SEL :: usize where "QUEUE_SEL = MMIO_BASE + 0x30"
definition QUEUE_NUM_MAX :: usize where "QUEUE_NUM_MAX = MMIO_BASE + 0x34"
definition QUEUE_NUM :: usize where "QUEUE_NUM = MMIO_BASE + 0x38"
definition QUEUE_READY :: usize where "QUEUE_READY = MMIO_BASE + 0x44"
definition QUEUE_NOTIFY :: usize where "QUEUE_NOTIFY = MMIO_BASE + 0x50"
definition INTERRUPT_STATUS :: usize where "INTERRUPT_STATUS = MMIO_BASE + 0x60"
definition INTERRUPT_ACK :: usize where "INTERRUPT_ACK = MMIO_BASE + 0x64"
definition STATUS :: usize where "STATUS = MMIO_BASE + 0x70"
definition QUEUE_DESC_LOW :: usize where "QUEUE_DESC_LOW = MMIO_BASE + 0x80"
definition QUEUE_DESC_HIGH :: usize where "QUEUE_DESC_HIGH = MMIO_BASE + 0x84"
definition QUEUE_DRIVER_LOW :: usize where "QUEUE_DRIVER_LOW = MMIO_BASE + 0x90"
definition QUEUE_DRIVER_HIGH :: usize where "QUEUE_DRIVER_HIGH = MMIO_BASE + 0x94"
definition QUEUE_DEVICE_LOW :: usize where "QUEUE_DEVICE_LOW = MMIO_BASE + 0xa0"
definition QUEUE_DEVICE_HIGH :: usize where "QUEUE_DEVICE_HIGH = MMIO_BASE + 0xa4"
definition CONFIG :: usize where "CONFIG = MMIO_BASE + 0x100"

text \<open>The bits of \<open>Status\<close>.\<close>

definition ACKNOWLEDGE :: u32 where "ACKNOWLEDGE = 1"
definition DRIVER :: u32 where "DRIVER = 2"
definition DRIVER_OK :: u32 where "DRIVER_OK = 4"
definition FEATURES_OK :: u32 where "FEATURES_OK = 8"

section \<open>The queue\<close>

definition QUEUE_SIZE :: u16 where
  "QUEUE_SIZE = 4"

definition DESC_NEXT :: u16 where "DESC_NEXT = 1"
definition DESC_WRITE :: u16 where "DESC_WRITE = 2"

record vdesc =
  vd_addr :: u64
  vd_len :: u32
  vd_flag :: u16
  vd_next :: u16

record avail =
  av_flags :: u16
  av_idx :: u16
  av_ring :: "u16 list"

record used_elem =
  ue_id :: u32
  ue_len :: u32

record used =
  us_flags :: u16
  us_idx :: u16
  us_ring :: "used_elem list"

definition vdesc_default :: vdesc where
  "vdesc_default = \<lparr>vd_addr = 0, vd_len = 0, vd_flag = 0, vd_next = 0\<rparr>"

definition avail_default :: avail where
  "avail_default = \<lparr>av_flags = 0, av_idx = 0, av_ring = replicate (unat QUEUE_SIZE) 0\<rparr>"

definition used_default :: used where
  "used_default = \<lparr>us_flags = 0, us_idx = 0, us_ring = replicate (unat QUEUE_SIZE) \<lparr>ue_id = 0, ue_len = 0\<rparr>\<rparr>"

text \<open>\<open>Virtio\<close>: the addresses of the three parts of the queue, what is stored there, and the capacity.\<close>

record virtio =
  desc_ptr :: usize
  avail_ptr :: usize
  used_ptr :: usize
  desc_table :: "vdesc list"
  avail_ring :: avail
  used_ring :: used
  v_capacity :: u64

section \<open>Initialisation\<close>

text \<open>The three boxes come from the kernel heap: 64, 12 and 36 bytes.\<close>

definition box_layouts :: "layout list" where
  "box_layouts = [\<lparr>l_size = 64, l_align = 8\<rparr>, \<lparr>l_size = 12, l_align = 2\<rparr>, \<lparr>l_size = 36, l_align = 4\<rparr>]"

definition alloc_queue :: "usize list \<Rightarrow> virtio \<Rightarrow> kmem \<Rightarrow> (virtio \<times> kmem) option" where
  "alloc_queue da v st = do {
     (p, st) \<leftarrow> heap_alloc da (box_layouts ! 0) st;
     (q, st) \<leftarrow> heap_alloc da (box_layouts ! 1) st;
     (r, st) \<leftarrow> heap_alloc da (box_layouts ! 2) st;
     Some (v\<lparr>desc_ptr := p, avail_ptr := q, used_ptr := r,
             desc_table := replicate (unat QUEUE_SIZE) vdesc_default, avail_ring := avail_default,
             used_ring := used_default\<rparr>, st)
   }"

definition low_half :: "usize \<Rightarrow> u32" where
  "low_half p = ucast (p - VM_OFFSET)"

definition high_half :: "usize \<Rightarrow> u32" where
  "high_half p = ucast (drop_bit 32 (p - VM_OFFSET))"

definition virtio_init :: "'d mmio \<Rightarrow> (usize \<Rightarrow> 'd \<Rightarrow> u64 \<times> 'd) \<Rightarrow> usize list \<Rightarrow> virtio \<Rightarrow> 'd \<Rightarrow> kmem \<Rightarrow>
    (virtio \<times> 'd \<times> kmem) option" where
  "virtio_init io rd64 da v d st = do {
     let (magic, d) = rd32 io MAGIC_VALUE d;
     rust_assert (magic = 0x74726976);
     let (version, d) = rd32 io VERSION d;
     rust_assert (version = 0x2);
     let (device_id, d) = rd32 io DEVICE_ID d;
     rust_assert (device_id = 0x2);
     let status = (0 :: u32);
     let d = wr32 io STATUS status d;
     let status = status OR ACKNOWLEDGE;
     let d = wr32 io STATUS status d;
     let status = status OR DRIVER;
     let d = wr32 io STATUS status d;
     let (_, d) = rd32 io DEVICE_FEATURES d;
     let d = wr32 io DRIVER_FEATURES 0 d;
     let status = status OR FEATURES_OK;
     let d = wr32 io STATUS status d;
     let (status, d) = rd32 io STATUS d;
     rust_assert (status AND FEATURES_OK = FEATURES_OK);
     let (capacity, d) = rd64 CONFIG d;
     let v = v\<lparr>v_capacity := capacity\<rparr>;
     let d = wr32 io QUEUE_SEL 0 d;
     let (ready, d) = rd32 io QUEUE_READY d;
     rust_assert (ready = 0);
     let (max_size, d) = rd32 io QUEUE_NUM_MAX d;
     rust_assert (QUEUE_SIZE \<le> ucast max_size);
     let d = wr32 io QUEUE_NUM (ucast QUEUE_SIZE) d;
     (v, st) \<leftarrow> alloc_queue da v st;
     let d = wr32 io QUEUE_DESC_LOW (low_half (desc_ptr v)) d;
     let d = wr32 io QUEUE_DESC_HIGH (high_half (desc_ptr v)) d;
     let d = wr32 io QUEUE_DRIVER_LOW (low_half (avail_ptr v)) d;
     let d = wr32 io QUEUE_DRIVER_HIGH (high_half (avail_ptr v)) d;
     let d = wr32 io QUEUE_DEVICE_LOW (low_half (used_ptr v)) d;
     let d = wr32 io QUEUE_DEVICE_HIGH (high_half (used_ptr v)) d;
     let d = wr32 io QUEUE_READY 0x1 d;
     let status = status OR DRIVER_OK;
     let d = wr32 io STATUS status d;
     Some (v, d, st)
   }"

text \<open>\<open>Virtio::get\<close>: the first use initialises a driver with null pointers.\<close>

definition virtio_null :: virtio where
  "virtio_null = \<lparr>desc_ptr = 0, avail_ptr = 0, used_ptr = 0, desc_table = [], avail_ring = avail_default,
     used_ring = used_default, v_capacity = 0\<rparr>"

definition virtio_get :: "'d mmio \<Rightarrow> (usize \<Rightarrow> 'd \<Rightarrow> u64 \<times> 'd) \<Rightarrow> usize list \<Rightarrow> virtio option \<Rightarrow> 'd \<Rightarrow> kmem \<Rightarrow>
    (virtio \<times> 'd \<times> kmem) option" where
  "virtio_get io rd64 da v d st =
     (case v of Some v \<Rightarrow> Some (v, d, st) | None \<Rightarrow> virtio_init io rd64 da virtio_null d st)"

definition capacity :: "virtio \<Rightarrow> u64" where
  "capacity v = v_capacity v"

section \<open>Requests\<close>

datatype blk_req_type = In | Out

definition req_type_code :: "blk_req_type \<Rightarrow> u32" where
  "req_type_code t = (case t of In \<Rightarrow> 0 | Out \<Rightarrow> 1)"

record blk_req_header =
  req_type :: blk_req_type
  reserved :: u32
  req_sector :: u64

definition le64 :: "u64 \<Rightarrow> u8 list" where
  "le64 w = le32 (ucast w) @ le32 (ucast (drop_bit 32 w))"

definition header_bytes :: "blk_req_header \<Rightarrow> u8 list" where
  "header_bytes h = le32 (req_type_code (req_type h)) @ le32 (reserved h) @ le64 (req_sector h)"

text \<open>Bytes of the memory.\<close>

type_synonym pmem = "u64 \<Rightarrow> u8"

definition put_bytes :: "u64 \<Rightarrow> u8 list \<Rightarrow> pmem \<Rightarrow> pmem" where
  "put_bytes a bs m = (\<lambda>b. if unat (b - a) < length bs then bs ! unat (b - a) else m b)"

definition get_bytes :: "u64 \<Rightarrow> nat \<Rightarrow> pmem \<Rightarrow> u8 list" where
  "get_bytes a n m = map (\<lambda>k. m (a + of_nat k)) [0..<n]"

definition supply_buffer :: "'d mmio \<Rightarrow> u16 \<Rightarrow> virtio \<Rightarrow> 'd \<Rightarrow> (virtio \<times> 'd) option" where
  "supply_buffer io i v d = do {
     ring \<leftarrow> slice_set (av_ring (avail_ring v)) (unat (av_idx (avail_ring v) mod QUEUE_SIZE)) i;
     let v = v\<lparr>avail_ring := (avail_ring v)\<lparr>av_ring := ring\<rparr>\<rparr>;
     let v = v\<lparr>avail_ring := (avail_ring v)\<lparr>av_idx := av_idx (avail_ring v) + 1\<rparr>\<rparr>;
     Some (v, wr32 io QUEUE_NOTIFY 0 d)
   }"

text \<open>
  The three descriptors of a request: header, data, status. \<open>hp\<close>, \<open>bp\<close> and \<open>sp\<close> are the
  addresses of \<open>header\<close>, \<open>buf\<close> and \<open>status\<close>.
\<close>

definition request_chain :: "usize \<Rightarrow> usize \<Rightarrow> usize \<Rightarrow> u16 \<Rightarrow> vdesc list" where
  "request_chain hp bp sp data_flag =
     [\<lparr>vd_addr = hp - VM_OFFSET, vd_len = 16, vd_flag = DESC_NEXT, vd_next = 1\<rparr>,
      \<lparr>vd_addr = bp - VM_OFFSET, vd_len = of_nat SECTOR_SIZE, vd_flag = data_flag, vd_next = 2\<rparr>,
      \<lparr>vd_addr = sp - VM_OFFSET, vd_len = 1, vd_flag = DESC_WRITE, vd_next = 0\<rparr>]"

definition set_chain :: "vdesc list \<Rightarrow> virtio \<Rightarrow> virtio option" where
  "set_chain ds v = do {
     t \<leftarrow> slice_set (desc_table v) 0 (ds ! 0);
     t \<leftarrow> slice_set t 1 (ds ! 1);
     t \<leftarrow> slice_set t 2 (ds ! 2);
     Some (v\<lparr>desc_table := t\<rparr>)
   }"

text \<open>
  What the device does to queue, memory and its own state until it raises the interrupt; the
  calling thread sleeps in \<open>USED_RING_NOTIFICATION.down()\<close> meanwhile.
\<close>

type_synonym 'd serve = "virtio \<Rightarrow> pmem \<Rightarrow> 'd \<Rightarrow> virtio \<times> pmem \<times> 'd"

text \<open>The length the device reports for the last request.\<close>

definition last_len :: "virtio \<Rightarrow> u32 option" where
  "last_len v = map_option ue_len
     (slice_get (us_ring (used_ring v)) (unat ((us_idx (used_ring v) - 1) mod QUEUE_SIZE)))"

definition read_sector_impl :: "'d mmio \<Rightarrow> 'd serve \<Rightarrow> usize \<Rightarrow> usize \<Rightarrow> usize \<Rightarrow> u64 \<Rightarrow>
    virtio \<Rightarrow> pmem \<Rightarrow> 'd \<Rightarrow> (virtio \<times> pmem \<times> 'd) option" where
  "read_sector_impl io serve hp bp sp sector v m d = do {
     let m = put_bytes (hp - VM_OFFSET) (header_bytes \<lparr>req_type = In, reserved = 0, req_sector = sector\<rparr>) m;
     let m = put_bytes (sp - VM_OFFSET) [0xff] m;
     v \<leftarrow> set_chain (request_chain hp bp sp (DESC_NEXT OR DESC_WRITE)) v;
     (v, d) \<leftarrow> supply_buffer io 0 v d;
     let (v, m, d) = serve v m d;
     rust_assert (m (sp - VM_OFFSET) = 0);
     len \<leftarrow> last_len v;
     rust_assert (len = of_nat (SECTOR_SIZE + 1));
     Some (v, m, wr32 io INTERRUPT_ACK 1 d)
   }"

definition write_sector_impl :: "'d mmio \<Rightarrow> 'd serve \<Rightarrow> usize \<Rightarrow> usize \<Rightarrow> usize \<Rightarrow> u64 \<Rightarrow>
    virtio \<Rightarrow> pmem \<Rightarrow> 'd \<Rightarrow> (virtio \<times> pmem \<times> 'd) option" where
  "write_sector_impl io serve hp bp sp sector v m d = do {
     let m = put_bytes (hp - VM_OFFSET) (header_bytes \<lparr>req_type = Out, reserved = 0, req_sector = sector\<rparr>) m;
     let m = put_bytes (sp - VM_OFFSET) [0xff] m;
     v \<leftarrow> set_chain (request_chain hp bp sp DESC_NEXT) v;
     (v, d) \<leftarrow> supply_buffer io 0 v d;
     let (v, m, d) = serve v m d;
     rust_assert (m (sp - VM_OFFSET) = 0);
     len \<leftarrow> last_len v;
     rust_assert (len = 1);
     Some (v, m, wr32 io INTERRUPT_ACK 1 d)
   }"

text \<open>The interrupt handler: the status must say that a buffer was used; it wakes up the caller.\<close>

definition handle_interrupt :: "'q reg_op \<Rightarrow> 'q sch_op \<Rightarrow> 'd mmio \<Rightarrow> 'd \<Rightarrow> 'q kernel \<Rightarrow> sema \<Rightarrow>
    ('d \<times> 'q kernel \<times> sema) option" where
  "handle_interrupt rg sc io d k notification = do {
     let (status, d) = rd32 io INTERRUPT_STATUS d;
     rust_assert (status = 1);
     (k, notification) \<leftarrow> sema_up rg sc k notification;
     Some (d, k, notification)
   }"

section \<open>Bytes\<close>

definition area :: "u64 \<Rightarrow> nat \<Rightarrow> u64 set" where
  "area a n = {a + of_nat k | k. k < n}"

lemma put_bytes_other: "b \<notin> area a (length bs) \<Longrightarrow> put_bytes a bs m b = m b"
  unfolding put_bytes_def area_def by (auto intro!: exI [of _ "unat (b - a)"])

lemma get_put_same:
  assumes "length bs < 2 ^ 64"
  shows "get_bytes a (length bs) (put_bytes a bs m) = bs"
proof (rule nth_equalityI)
  fix k assume "k < length (get_bytes a (length bs) (put_bytes a bs m))"
  then have k: "k < length bs" by (simp add: get_bytes_def)
  moreover have "unat (of_nat k :: u64) = k" by (rule unat_of_nat_small) (use k assms in simp)
  ultimately show "get_bytes a (length bs) (put_bytes a bs m) ! k = bs ! k"
    by (simp add: get_bytes_def put_bytes_def)
qed (simp add: get_bytes_def)

lemma get_put_other:
  assumes "area a n \<inter> area b (length bs) = {}"
  shows "get_bytes a n (put_bytes b bs m) = get_bytes a n m"
proof -
  have "put_bytes b bs m (a + of_nat k) = m (a + of_nat k)" if "k < n" for k
    by (rule put_bytes_other) (use assms that in \<open>auto simp: area_def\<close>)
  then show ?thesis by (simp add: get_bytes_def)
qed

lemma length_header_bytes: "length (header_bytes h) = 16"
  by (simp add: header_bytes_def le64_def)

section \<open>The device\<close>

definition queue_ok :: "virtio \<Rightarrow> bool" where
  "queue_ok v \<longleftrightarrow> length (desc_table v) = 4 \<and> length (av_ring (avail_ring v)) = 4 \<and> length (us_ring (used_ring v)) = 4"

text \<open>The newest entry of the available ring is a chain of three descriptors at index 0.\<close>

definition offers :: "virtio \<Rightarrow> u64 \<Rightarrow> u64 \<Rightarrow> u64 \<Rightarrow> blk_req_type \<Rightarrow> bool" where
  "offers v hp bp sp t \<longleftrightarrow> queue_ok v \<and>
     av_ring (avail_ring v) ! unat ((av_idx (avail_ring v) - 1) mod QUEUE_SIZE) = 0 \<and>
     take 3 (desc_table v) =
       [\<lparr>vd_addr = hp, vd_len = 16, vd_flag = DESC_NEXT, vd_next = 1\<rparr>,
        \<lparr>vd_addr = bp, vd_len = 512, vd_flag = (case t of In \<Rightarrow> DESC_NEXT OR DESC_WRITE | Out \<Rightarrow> DESC_NEXT), vd_next = 2\<rparr>,
        \<lparr>vd_addr = sp, vd_len = 1, vd_flag = DESC_WRITE, vd_next = 0\<rparr>]"

definition used_entry :: "u32 \<Rightarrow> virtio \<Rightarrow> virtio" where
  "used_entry len v = v\<lparr>used_ring := (used_ring v)\<lparr>us_idx := us_idx (used_ring v) + 1,
     us_ring := (us_ring (used_ring v))[unat (us_idx (used_ring v) mod QUEUE_SIZE) := \<lparr>ue_id = 0, ue_len = len\<rparr>]\<rparr>\<rparr>"

text \<open>
  What the specification of virtio says of a block device that is offered such a chain: it reads or
  writes the sector and reports success (0), or an error (1) for a sector it does not have, and
  enters the chain in the used ring with the number of bytes it has written.
\<close>

definition served :: "('d \<Rightarrow> disk) \<Rightarrow> u64 \<Rightarrow> u64 \<Rightarrow> blk_req_type \<Rightarrow> nat \<Rightarrow> virtio \<Rightarrow> pmem \<Rightarrow> 'd \<Rightarrow>
    virtio \<times> pmem \<times> 'd \<Rightarrow> bool" where
  "served disk_of bp sp t n v m d r \<longleftrightarrow> (case r of (v', m', d') \<Rightarrow>
     if length (disk_of d) \<le> n then v' = used_entry 1 v \<and> m' = put_bytes sp [1] m \<and> disk_of d' = disk_of d
     else (case t of
       In \<Rightarrow> v' = used_entry 513 v \<and> m' = put_bytes sp [0] (put_bytes bp (disk_of d ! n) m) \<and> disk_of d' = disk_of d
     | Out \<Rightarrow> v' = used_entry 1 v \<and> m' = put_bytes sp [0] m \<and> disk_of d' = (disk_of d)[n := get_bytes bp 512 m]))"

definition block_device :: "'d mmio \<Rightarrow> 'd serve \<Rightarrow> ('d \<Rightarrow> disk) \<Rightarrow> bool" where
  "block_device io serve disk_of \<longleftrightarrow>
     (\<forall>v m d hp bp sp t s. offers v hp bp sp t \<and>
        get_bytes hp 16 m = header_bytes \<lparr>req_type = t, reserved = 0, req_sector = s\<rparr> \<longrightarrow>
        served disk_of bp sp t (unat s) v m d (serve v m d)) \<and>
     (\<forall>d w. disk_of (wr32 io QUEUE_NOTIFY w d) = disk_of d \<and> disk_of (wr32 io INTERRUPT_ACK w d) = disk_of d)"

section \<open>Requests\<close>

text \<open>The buffers of a request do not overlap.\<close>

definition apart :: "usize \<Rightarrow> usize \<Rightarrow> usize \<Rightarrow> bool" where
  "apart hp bp sp \<longleftrightarrow> area (hp - VM_OFFSET) 16 \<inter> area (bp - VM_OFFSET) 512 = {} \<and>
     area (hp - VM_OFFSET) 16 \<inter> area (sp - VM_OFFSET) 1 = {} \<and> area (bp - VM_OFFSET) 512 \<inter> area (sp - VM_OFFSET) 1 = {}"

lemma mod_queue: "unat (i mod QUEUE_SIZE) < 4"
  by (simp add: QUEUE_SIZE_def unat_mod)

lemma last_used: "queue_ok v \<Longrightarrow> last_len (used_entry len v) = Some len"
  using mod_queue [of "us_idx (used_ring v)"]
  by (simp add: last_len_def used_entry_def slice_get_def queue_ok_def)

lemma queue_ok_used [simp]: "queue_ok (used_entry len v) = queue_ok v"
  by (simp add: queue_ok_def used_entry_def)

text \<open>Setting up a chain and supplying it.\<close>

lemma offer_chain:
  assumes "queue_ok v"
  shows "\<exists>v' v''. set_chain (request_chain hp bp sp (case t of In \<Rightarrow> DESC_NEXT OR DESC_WRITE | Out \<Rightarrow> DESC_NEXT)) v = Some v' \<and>
    supply_buffer io 0 v' d = Some (v'', wr32 io QUEUE_NOTIFY 0 d) \<and> queue_ok v'' \<and>
    offers v'' (hp - VM_OFFSET) (bp - VM_OFFSET) (sp - VM_OFFSET) t \<and> used_ring v'' = used_ring v"
proof -
  let ?f = "case t of In \<Rightarrow> DESC_NEXT OR DESC_WRITE | Out \<Rightarrow> DESC_NEXT"
  let ?ds = "request_chain hp bp sp ?f"
  obtain a b c e where dt: "desc_table v = [a, b, c, e]"
    using assms by (auto simp: queue_ok_def eval_nat_numeral length_Suc_conv)
  define v1 where "v1 = v\<lparr>desc_table := [?ds ! 0, ?ds ! 1, ?ds ! 2, e]\<rparr>"
  have c: "set_chain ?ds v = Some v1"
    by (simp add: set_chain_def slice_set_def dt v1_def eval_nat_numeral)
  let ?i = "av_idx (avail_ring v)"
  define v2 where "v2 = v1\<lparr>avail_ring := (avail_ring v)\<lparr>av_ring := (av_ring (avail_ring v))[unat (?i mod QUEUE_SIZE) := 0],
    av_idx := ?i + 1\<rparr>\<rparr>"
  have s: "supply_buffer io 0 v1 d = Some (v2, wr32 io QUEUE_NOTIFY 0 d)"
    using assms mod_queue [of ?i] by (simp add: supply_buffer_def slice_set_def v1_def v2_def queue_ok_def)
  have q: "queue_ok v2" using assms by (simp add: queue_ok_def v2_def v1_def)
  moreover have "offers v2 (hp - VM_OFFSET) (bp - VM_OFFSET) (sp - VM_OFFSET) t"
    using q assms mod_queue [of ?i]
    by (simp add: offers_def v2_def v1_def queue_ok_def request_chain_def SECTOR_SIZE_def eval_nat_numeral)
  ultimately show ?thesis using c s by (auto simp: v2_def v1_def)
qed

text \<open>The memory at the time of the request.\<close>

definition request_mem :: "usize \<Rightarrow> usize \<Rightarrow> blk_req_type \<Rightarrow> u64 \<Rightarrow> pmem \<Rightarrow> pmem" where
  "request_mem hp sp t s m = put_bytes (sp - VM_OFFSET) [0xff]
     (put_bytes (hp - VM_OFFSET) (header_bytes \<lparr>req_type = t, reserved = 0, req_sector = s\<rparr>) m)"

lemma request_mem_get:
  assumes "apart hp bp sp"
  shows "get_bytes (hp - VM_OFFSET) 16 (request_mem hp sp t s m) = header_bytes \<lparr>req_type = t, reserved = 0, req_sector = s\<rparr>"
    "get_bytes (bp - VM_OFFSET) 512 (request_mem hp sp t s m) = get_bytes (bp - VM_OFFSET) 512 m"
    "b \<notin> area (hp - VM_OFFSET) 16 \<union> area (sp - VM_OFFSET) 1 \<Longrightarrow> request_mem hp sp t s m b = m b"
proof -
  let ?h = "header_bytes \<lparr>req_type = t, reserved = 0, req_sector = s\<rparr>"
  have "get_bytes (hp - VM_OFFSET) 16 (request_mem hp sp t s m) = get_bytes (hp - VM_OFFSET) 16 (put_bytes (hp - VM_OFFSET) ?h m)"
    unfolding request_mem_def by (rule get_put_other) (use assms in \<open>simp add: apart_def\<close>)
  also have "\<dots> = ?h" using get_put_same [of ?h "hp - VM_OFFSET" m] by (simp add: length_header_bytes)
  finally show "get_bytes (hp - VM_OFFSET) 16 (request_mem hp sp t s m) = ?h" .
  show "get_bytes (bp - VM_OFFSET) 512 (request_mem hp sp t s m) = get_bytes (bp - VM_OFFSET) 512 m"
    unfolding request_mem_def using assms
    by (subst get_put_other; (subst get_put_other)?; auto simp: apart_def length_header_bytes)
  show "request_mem hp sp t s m b = m b" if "b \<notin> area (hp - VM_OFFSET) 16 \<union> area (sp - VM_OFFSET) 1"
    unfolding request_mem_def using that by (simp add: put_bytes_other length_header_bytes)
qed

lemma put_byte_at: "put_bytes a [b] m a = b"
  by (simp add: put_bytes_def)

text \<open>One request from the set-up to the end of the service.\<close>

lemma request_served:
  assumes dev: "block_device io serve disk_of" and "queue_ok v" "apart hp bp sp"
  shows "\<exists>v' v'' v3 m3 d3.
    set_chain (request_chain hp bp sp (case t of In \<Rightarrow> DESC_NEXT OR DESC_WRITE | Out \<Rightarrow> DESC_NEXT)) v = Some v' \<and>
    supply_buffer io 0 v' d = Some (v'', wr32 io QUEUE_NOTIFY 0 d) \<and> queue_ok v'' \<and>
    serve v'' (request_mem hp sp t s m) (wr32 io QUEUE_NOTIFY 0 d) = (v3, m3, d3) \<and>
    served disk_of (bp - VM_OFFSET) (sp - VM_OFFSET) t (unat s) v'' (request_mem hp sp t s m) (wr32 io QUEUE_NOTIFY 0 d) (v3, m3, d3)"
proof -
  from offer_chain [OF assms(2), of hp bp sp t io d] obtain v' v'' where
    o: "set_chain (request_chain hp bp sp (case t of In \<Rightarrow> DESC_NEXT OR DESC_WRITE | Out \<Rightarrow> DESC_NEXT)) v = Some v'"
    "supply_buffer io 0 v' d = Some (v'', wr32 io QUEUE_NOTIFY 0 d)" "queue_ok v''"
    "offers v'' (hp - VM_OFFSET) (bp - VM_OFFSET) (sp - VM_OFFSET) t" by blast
  have "served disk_of (bp - VM_OFFSET) (sp - VM_OFFSET) t (unat s) v'' (request_mem hp sp t s m) (wr32 io QUEUE_NOTIFY 0 d)
      (serve v'' (request_mem hp sp t s m) (wr32 io QUEUE_NOTIFY 0 d))"
    using dev o(4) request_mem_get(1) [OF assms(3)] unfolding block_device_def by blast
  then show ?thesis using o by (metis prod_cases3)
qed

lemma block_device_regs:
  assumes "block_device io serve disk_of"
  shows "disk_of (wr32 io QUEUE_NOTIFY w e) = disk_of e" "disk_of (wr32 io INTERRUPT_ACK w e) = disk_of e"
  using assms by (simp_all add: block_device_def)

lemma read_sector_refines:
  assumes dev: "block_device io serve disk_of" and q: "queue_ok v" and ap: "apart hp bp sp"
    and len: "\<forall>b \<in> set (disk_of d). length b = 512"
  shows "case read_sector (disk_of d) (unat s) of
      None \<Rightarrow> read_sector_impl io serve hp bp sp s v m d = None
    | Some b \<Rightarrow> \<exists>v' m' d'. read_sector_impl io serve hp bp sp s v m d = Some (v', m', d') \<and> queue_ok v' \<and>
        get_bytes (bp - VM_OFFSET) 512 m' = b \<and> disk_of d' = disk_of d \<and>
        (\<forall>a. a \<notin> area (hp - VM_OFFSET) 16 \<union> area (bp - VM_OFFSET) 512 \<union> area (sp - VM_OFFSET) 1 \<longrightarrow> m' a = m a)"
proof -
  note reg = block_device_regs [OF dev]
  from request_served [OF dev q ap, of In d s m] obtain v1 v2 v3 m3 d3 where
    o: "set_chain (request_chain hp bp sp (DESC_NEXT OR DESC_WRITE)) v = Some v1"
    "supply_buffer io 0 v1 d = Some (v2, wr32 io QUEUE_NOTIFY 0 d)" "queue_ok v2"
    "serve v2 (request_mem hp sp In s m) (wr32 io QUEUE_NOTIFY 0 d) = (v3, m3, d3)"
    "served disk_of (bp - VM_OFFSET) (sp - VM_OFFSET) In (unat s) v2 (request_mem hp sp In s m) (wr32 io QUEUE_NOTIFY 0 d) (v3, m3, d3)"
    by auto
  have impl: "read_sector_impl io serve hp bp sp s v m d = do {
      rust_assert (m3 (sp - VM_OFFSET) = 0); l \<leftarrow> last_len v3; rust_assert (l = 513);
      Some (v3, m3, wr32 io INTERRUPT_ACK 1 d3) }"
    using o(1,2,4) by (simp add: read_sector_impl_def request_mem_def SECTOR_SIZE_def)
  show ?thesis
  proof (cases "unat s < length (disk_of d)")
    case True
    let ?b = "disk_of d ! unat s"
    have v3: "v3 = used_entry 513 v2" and m3: "m3 = put_bytes (sp - VM_OFFSET) [0] (put_bytes (bp - VM_OFFSET) ?b (request_mem hp sp In s m))"
      and d3: "disk_of d3 = disk_of d" using o(5) True by (simp_all add: served_def reg)
    have lb: "length ?b = 512" using len True by simp
    have "get_bytes (bp - VM_OFFSET) 512 m3 = get_bytes (bp - VM_OFFSET) 512 (put_bytes (bp - VM_OFFSET) ?b (request_mem hp sp In s m))"
      unfolding m3 by (rule get_put_other) (use ap in \<open>simp add: apart_def\<close>)
    also have "\<dots> = ?b" using get_put_same [of ?b] lb by simp
    finally have "get_bytes (bp - VM_OFFSET) 512 m3 = ?b" .
    moreover have "m3 a = m a" if "a \<notin> area (hp - VM_OFFSET) 16 \<union> area (bp - VM_OFFSET) 512 \<union> area (sp - VM_OFFSET) 1" for a
      unfolding m3 using that request_mem_get(3) [OF ap] lb by (simp add: put_bytes_other)
    moreover have "read_sector_impl io serve hp bp sp s v m d = Some (v3, m3, wr32 io INTERRUPT_ACK 1 d3)"
      unfolding impl v3 using last_used [OF o(3)] by (simp add: m3 put_byte_at)
    ultimately show ?thesis using True v3 o(3) d3 reg by (simp add: read_sector_def slice_get_def)
  next
    case False
    then have "m3 = put_bytes (sp - VM_OFFSET) [1] (request_mem hp sp In s m)" using o(5) by (simp add: served_def reg)
    then show ?thesis using False impl by (simp add: read_sector_def slice_get_def put_byte_at)
  qed
qed

lemma write_sector_refines:
  assumes dev: "block_device io serve disk_of" and q: "queue_ok v" and ap: "apart hp bp sp"
  shows "(case write_sector (disk_of d) (unat s) (get_bytes (bp - VM_OFFSET) 512 m) of
      None \<Rightarrow> write_sector_impl io serve hp bp sp s v m d = None
    | Some D \<Rightarrow> \<exists>v' m' d'. write_sector_impl io serve hp bp sp s v m d = Some (v', m', d') \<and> queue_ok v' \<and>
        disk_of d' = D \<and> (\<forall>a. a \<notin> area (hp - VM_OFFSET) 16 \<union> area (sp - VM_OFFSET) 1 \<longrightarrow> m' a = m a))"
proof -
  note reg = block_device_regs [OF dev]
  from request_served [OF dev q ap, of Out d s m] obtain v1 v2 v3 m3 d3 where
    o: "set_chain (request_chain hp bp sp DESC_NEXT) v = Some v1"
    "supply_buffer io 0 v1 d = Some (v2, wr32 io QUEUE_NOTIFY 0 d)" "queue_ok v2"
    "serve v2 (request_mem hp sp Out s m) (wr32 io QUEUE_NOTIFY 0 d) = (v3, m3, d3)"
    "served disk_of (bp - VM_OFFSET) (sp - VM_OFFSET) Out (unat s) v2 (request_mem hp sp Out s m) (wr32 io QUEUE_NOTIFY 0 d) (v3, m3, d3)"
    by auto
  have impl: "write_sector_impl io serve hp bp sp s v m d = do {
      rust_assert (m3 (sp - VM_OFFSET) = 0); l \<leftarrow> last_len v3; rust_assert (l = 1);
      Some (v3, m3, wr32 io INTERRUPT_ACK 1 d3) }"
    using o(1,2,4) by (simp add: write_sector_impl_def request_mem_def)
  show ?thesis
  proof (cases "unat s < length (disk_of d)")
    case True
    have v3: "v3 = used_entry 1 v2" and m3: "m3 = put_bytes (sp - VM_OFFSET) [0] (request_mem hp sp Out s m)"
      and d3: "disk_of d3 = (disk_of d)[unat s := get_bytes (bp - VM_OFFSET) 512 m]"
      using o(5) True by (simp_all add: served_def reg request_mem_get(2) [OF ap])
    have "m3 a = m a" if "a \<notin> area (hp - VM_OFFSET) 16 \<union> area (sp - VM_OFFSET) 1" for a
      unfolding m3 using that request_mem_get(3) [OF ap] by (simp add: put_bytes_other)
    moreover have "write_sector_impl io serve hp bp sp s v m d = Some (v3, m3, wr32 io INTERRUPT_ACK 1 d3)"
      unfolding impl v3 using last_used [OF o(3)] by (simp add: m3 put_byte_at)
    ultimately show ?thesis using True v3 o(3) d3 reg by (simp add: write_sector_def slice_set_def)
  next
    case False
    then have "m3 = put_bytes (sp - VM_OFFSET) [1] (request_mem hp sp Out s m)" using o(5) by (simp add: served_def reg)
    then show ?thesis using False impl by (simp add: write_sector_def slice_set_def put_byte_at)
  qed
qed

text \<open>
  C14. The driver implements the sectors that the file system works on. With a device that follows the
  specification, reading a sector of the disk returns exactly its 512 bytes in the caller's buffer
  and changes nothing on the disk; writing one stores exactly the bytes of the buffer and touches no other
  sector. A sector beyond the end panics in both cases. The queue is ready for the next
  request, whatever the wrap-around of its indices, and no other memory has changed.
\<close>

theorem virtio_refines_sectors:
  assumes dev: "block_device io serve disk_of" and q: "queue_ok v" and ap: "apart hp bp sp"
    and len: "\<forall>b \<in> set (disk_of d). length b = 512"
  shows "(case read_sector (disk_of d) (unat s) of
      None \<Rightarrow> read_sector_impl io serve hp bp sp s v m d = None
    | Some b \<Rightarrow> \<exists>v' m' d'. read_sector_impl io serve hp bp sp s v m d = Some (v', m', d') \<and> queue_ok v' \<and>
        get_bytes (bp - VM_OFFSET) 512 m' = b \<and> disk_of d' = disk_of d \<and>
        (\<forall>a. a \<notin> area (hp - VM_OFFSET) 16 \<union> area (bp - VM_OFFSET) 512 \<union> area (sp - VM_OFFSET) 1 \<longrightarrow> m' a = m a)) \<and>
    (case write_sector (disk_of d) (unat s) (get_bytes (bp - VM_OFFSET) 512 m) of
      None \<Rightarrow> write_sector_impl io serve hp bp sp s v m d = None
    | Some D \<Rightarrow> \<exists>v' m' d'. write_sector_impl io serve hp bp sp s v m d = Some (v', m', d') \<and> queue_ok v' \<and>
        disk_of d' = D \<and> (\<forall>a. a \<notin> area (hp - VM_OFFSET) 16 \<union> area (sp - VM_OFFSET) 1 \<longrightarrow> m' a = m a))"
  using read_sector_refines [OF assms] write_sector_refines [OF dev q ap] by blast

section \<open>Initialisation\<close>

text \<open>The writes of the initialisation, in the order that the specification of virtio asks for.\<close>

definition init_writes :: "virtio \<Rightarrow> (usize \<times> u32) list" where
  "init_writes v =
     [(STATUS, 0), (STATUS, 1), (STATUS, 3), (DRIVER_FEATURES, 0), (STATUS, 11), (QUEUE_SEL, 0), (QUEUE_NUM, 4),
      (QUEUE_DESC_LOW, low_half (desc_ptr v)), (QUEUE_DESC_HIGH, high_half (desc_ptr v)),
      (QUEUE_DRIVER_LOW, low_half (avail_ptr v)), (QUEUE_DRIVER_HIGH, high_half (avail_ptr v)),
      (QUEUE_DEVICE_LOW, low_half (used_ptr v)), (QUEUE_DEVICE_HIGH, high_half (used_ptr v)),
      (QUEUE_READY, 1), (STATUS, 15)]"

definition write_regs :: "'d mmio \<Rightarrow> (usize \<times> u32) list \<Rightarrow> 'd \<Rightarrow> 'd" where
  "write_regs io ws d = foldl (\<lambda>d (a, w). wr32 io a w d) d ws"

lemma word_halves:
  fixes w :: u64
  shows "push_bit 32 (ucast (ucast (drop_bit 32 w) :: u32)) OR ucast (ucast w :: u32) = w"
  by (rule bit_word_eqI) (auto simp: bit_simps)

text \<open>
  A device that is a block device of version 2 before it is initialised: reading its registers has no effect,
  the identification is right, it accepts a driver without features, and its first queue is not in
  use and has room for four descriptors.
\<close>

definition fresh_device :: "'d mmio \<Rightarrow> (usize \<Rightarrow> 'd \<Rightarrow> u64 \<times> 'd) \<Rightarrow> 'd \<Rightarrow> bool" where
  "fresh_device io rd64 d \<longleftrightarrow>
     (\<forall>a e. snd (rd32 io a e) = e) \<and> (\<forall>a e. snd (rd64 a e) = e) \<and>
     fst (rd32 io MAGIC_VALUE d) = 0x74726976 \<and> fst (rd32 io VERSION d) = 2 \<and> fst (rd32 io DEVICE_ID d) = 2 \<and>
     fst (rd32 io STATUS (write_regs io [(STATUS, 0), (STATUS, 1), (STATUS, 3), (DRIVER_FEATURES, 0), (STATUS, 11)] d)) = 11 \<and>
     (let e = write_regs io [(STATUS, 0), (STATUS, 1), (STATUS, 3), (DRIVER_FEATURES, 0), (STATUS, 11), (QUEUE_SEL, 0)] d
      in fst (rd32 io QUEUE_READY e) = 0 \<and> 4 \<le> fst (rd32 io QUEUE_NUM_MAX e) \<and> fst (rd32 io QUEUE_NUM_MAX e) \<le> 0xFFFF)"

lemma alloc_queue_capacity:
  assumes "alloc_queue da v st = Some (q, st')"
  shows "alloc_queue da (v\<lparr>v_capacity := c\<rparr>) st = Some (q\<lparr>v_capacity := c\<rparr>, st')" "queue_ok q"
  using assms by (auto simp: alloc_queue_def queue_ok_def avail_default_def used_default_def QUEUE_SIZE_def split: bind_splits)

lemma queue_fits: "4 \<le> w \<Longrightarrow> w \<le> 0xFFFF \<Longrightarrow> QUEUE_SIZE \<le> ucast (w :: u32)"
proof -
  assume w: "4 \<le> w" "w \<le> 0xFFFF"
  have "unat (ucast w :: u16) = take_bit 16 (unat w)" by (simp add: unsigned_ucast_eq unsigned_take_bit_eq)
  also have "\<dots> = unat w" by (rule take_bit_nat_eq_self) (use w(2) in \<open>simp add: word_le_nat_alt\<close>)
  finally show "QUEUE_SIZE \<le> ucast w" using w(1) by (simp add: QUEUE_SIZE_def word_le_nat_alt)
qed

lemma virtio_init_state:
  assumes dev: "fresh_device io rd64 d"
  shows "virtio_init io rd64 da v d st = do {
      (q, st') \<leftarrow> alloc_queue da (v\<lparr>v_capacity := fst (rd64 CONFIG (write_regs io (take 5 (init_writes q0)) d))\<rparr>) st;
      Some (q, write_regs io (init_writes q) d, st') }"
proof -
  define r where "r a e = fst (rd32 io a e)" for a e
  define r64 where "r64 a e = fst (rd64 a e)" for a e
  have rd: "rd32 io a e = (r a e, e)" "rd64 a e = (r64 a e, e)" for a e
    using dev by (auto simp: fresh_device_def r_def r64_def prod_eq_iff)
  note W = write_regs_def
  have ids: "r MAGIC_VALUE d = 0x74726976" "r VERSION d = 2" "r DEVICE_ID d = 2"
    using dev by (simp_all add: fresh_device_def r_def)
  have neg: "r STATUS (wr32 io STATUS 11 (wr32 io DRIVER_FEATURES 0 (wr32 io STATUS 3 (wr32 io STATUS 1 (wr32 io STATUS 0 d))))) = 11"
    using dev by (simp add: fresh_device_def r_def W)
  let ?e = "wr32 io QUEUE_SEL 0 (wr32 io STATUS 11 (wr32 io DRIVER_FEATURES 0 (wr32 io STATUS 3 (wr32 io STATUS 1 (wr32 io STATUS 0 d)))))"
  have que: "r QUEUE_READY ?e = 0" "QUEUE_SIZE \<le> ucast (r QUEUE_NUM_MAX ?e)"
    using dev queue_fits by (simp_all add: fresh_device_def r_def W Let_def)
  show ?thesis
    unfolding virtio_init_def rd Let_def prod.case ids
    by (simp add: ACKNOWLEDGE_def DRIVER_def FEATURES_OK_def DRIVER_OK_def neg que [unfolded QUEUE_SIZE_def]
        W init_writes_def QUEUE_SIZE_def)
qed

text \<open>
  C31. Initialisation of the disk. With a fresh block device the driver panics only if there is no memory for
  the queue. Otherwise it writes exactly the registers of the specified sequence in this order
  (reset, acknowledge, driver, features, queue, ready, driver ok), tells the device the
  physical addresses of the three parts of the empty queue, and takes over the capacity.
\<close>

theorem virtio_init_correct:
  assumes dev: "fresh_device io rd64 d"
  shows "case alloc_queue da v st of
      None \<Rightarrow> virtio_init io rd64 da v d st = None
    | Some (q, st') \<Rightarrow> \<exists>cap. virtio_init io rd64 da v d st = Some (q\<lparr>v_capacity := cap\<rparr>, write_regs io (init_writes q) d, st') \<and>
        cap = fst (rd64 CONFIG (write_regs io (take 5 (init_writes q)) d)) \<and> queue_ok q \<and>
        (\<forall>p \<in> {desc_ptr q, avail_ptr q, used_ptr q}.
          push_bit 32 (ucast (high_half p)) OR ucast (low_half p) = p - VM_OFFSET)"
proof (cases "alloc_queue da v st")
  case None
  then have "alloc_queue da (v\<lparr>v_capacity := c\<rparr>) st = None" for c
    by (auto simp: alloc_queue_def split: bind_splits)
  then show ?thesis using None virtio_init_state [OF dev, of da v st v] by simp
next
  case (Some r)
  obtain q st' where r: "r = (q, st')" by (cases r)
  have "push_bit 32 (ucast (high_half p)) OR ucast (low_half p) = p - VM_OFFSET" for p
    unfolding high_half_def low_half_def by (rule word_halves)
  then show ?thesis
    using Some r virtio_init_state [OF dev, of da v st q] alloc_queue_capacity [of da v st q st']
    by (simp add: init_writes_def)
qed

text \<open>A device with plain registers.\<close>

definition sample_regs :: "usize \<Rightarrow> u32" where
  "sample_regs = (\<lambda>_. 0)(MAGIC_VALUE := 0x74726976, VERSION := 2, DEVICE_ID := 2, QUEUE_NUM_MAX := 8)"

lemma heap_alloc_class:
  assumes "layout_ok l" "small l" "class_of l = i"
  shows "heap_alloc da l st = desc_alloc da i st"
  using assms by (auto simp: heap_alloc_def layout_ok_def small_def)

lemma desc_index_exp: "e < 64 \<Longrightarrow> desc_index (2 ^ e) = e - 3"
  by (simp add: desc_index_def)

lemma box_request:
  "layout_ok (box_layouts ! 0)" "small (box_layouts ! 0)" "class_of (box_layouts ! 0) = 3"
  "layout_ok (box_layouts ! 1)" "small (box_layouts ! 1)" "class_of (box_layouts ! 1) = 1"
  "layout_ok (box_layouts ! 2)" "small (box_layouts ! 2)" "class_of (box_layouts ! 2) = 3"
proof -
  have "bit_len 63 = 6" "bit_len 11 = 4" "bit_len 35 = 6" by (simp_all add: bit_len.simps)
  moreover have "\<not> (64 :: usize) \<le> 1" "\<not> (12 :: usize) \<le> 1" "\<not> (36 :: usize) \<le> 1" by (simp_all add: word_le_nat_alt)
  ultimately have b: "block_request (box_layouts ! 0) = 2 ^ 6" "block_request (box_layouts ! 1) = 2 ^ 4"
    "block_request (box_layouts ! 2) = 2 ^ 6"
    by (simp_all add: block_request_def box_layouts_def next_power_of_two_def)
  have c: "desc_index (2 ^ 6) = 3" "desc_index (2 ^ 4) = 1"
    using desc_index_exp [of 6] desc_index_exp [of 4] by simp_all
  have "is_power_of_two (8 :: usize)" "is_power_of_two (2 :: usize)" "is_power_of_two (4 :: usize)"
    using is_power_of_two_exp [of 3] is_power_of_two_exp [of 1] is_power_of_two_exp [of 2] by simp_all
  then show "layout_ok (box_layouts ! 0)" "layout_ok (box_layouts ! 1)" "layout_ok (box_layouts ! 2)"
    by (simp_all add: box_layouts_def layout_ok_def)
  show "small (box_layouts ! 0)" "small (box_layouts ! 1)" "small (box_layouts ! 2)"
    unfolding small_def b by (simp_all add: MAX_BLKSIZE_def)
  show "class_of (box_layouts ! 0) = 3" "class_of (box_layouts ! 1) = 1" "class_of (box_layouts ! 2) = 3"
    unfolding b by (simp_all only: c)
qed

text \<open>Two pages are enough for the queue.\<close>

lemma sample_alloc_queue: "\<exists>q st. alloc_queue sample_da v sample_kmem = Some (q, st)"
proof -
  let ?A = "{0x2000..<0x4000} :: nat set"
  have X: "replicate 8 [] ! 3 = []" "replicate 8 [] ! 1 = []" by simp_all
  from desc_alloc_fresh [OF sample_kmem_rel, of 3] obtain p x xs st1 where
    p: "page_bytes p \<subseteq> ?A" "rev (map (slot 3 p) [0..<slots 3]) = x # xs" and a: "desc_alloc sample_da 3 sample_kmem = Some (x, st1)"
    and rel1: "heap_rel sample_da st1 (?A - page_bytes p) ((replicate 8 [])[3 := p # replicate 8 [] ! 3]) ((replicate 8 [])[3 := xs])"
    by auto
  have "card (page_bytes p) = 4096" by (simp add: page_bytes_def)
  then have "card (?A - page_bytes p) = 4096"
    using p(1) card_Diff_subset [of "page_bytes p" ?A] by (simp add: finite_subset)
  then have "?A - page_bytes p \<noteq> {}" by (metis card.empty zero_neq_numeral)
  from desc_alloc_fresh [OF rel1 _ _ this, of 1] obtain p2 y ys st2 P X where b: "desc_alloc sample_da 1 st1 = Some (y, st2)"
    and rel2: "heap_rel sample_da st2 (?A - page_bytes p - page_bytes p2) P X" and X: "X ! 3 = xs" by auto
  have "length (x # xs) = slots 3" unfolding p(2) [symmetric] by simp
  then have "xs \<noteq> []" by (auto simp: slots_def bsz_def)
  then obtain z zs where "X ! 3 = z # zs" using X by (cases xs) auto
  from desc_alloc_pop [OF rel2 _ this] obtain st3 where "desc_alloc sample_da 3 st2 = Some (z, st3)" by auto
  then show ?thesis using a b by (simp add: alloc_queue_def heap_alloc_class [OF box_request(1-3)]
      heap_alloc_class [OF box_request(4-6)] heap_alloc_class [OF box_request(7-9)] del: One_nat_def)
qed

theorem virtio_init_correct_witness:
  "\<exists>v q d st. virtio_init ram_regs (\<lambda>a e. (ucast (e a), e)) sample_da v sample_regs sample_kmem = Some (q, d, st) \<and>
     d = write_regs ram_regs (init_writes q) sample_regs"
proof -
  obtain v :: virtio where "True" by blast
  obtain q st where a: "alloc_queue sample_da v sample_kmem = Some (q, st)" using sample_alloc_queue by blast
  have "fresh_device ram_regs (\<lambda>a e. (ucast (e a), e)) sample_regs"
    by (simp add: fresh_device_def ram_regs_def sample_regs_def write_regs_def Let_def MAGIC_VALUE_def VERSION_def
        DEVICE_ID_def STATUS_def QUEUE_NUM_MAX_def QUEUE_READY_def QUEUE_SEL_def DRIVER_FEATURES_def)
  from virtio_init_correct [OF this, of sample_da v sample_kmem] a
  obtain cap where "virtio_init ram_regs (\<lambda>a e. (ucast (e a), e)) sample_da v sample_regs sample_kmem =
      Some (q\<lparr>v_capacity := cap\<rparr>, write_regs ram_regs (init_writes q) sample_regs, st)"
    by (simp only: option.case prod.case) blast
  moreover have "init_writes (q\<lparr>v_capacity := cap\<rparr>) = init_writes q" by (simp add: init_writes_def)
  ultimately show ?thesis
    by (intro exI [of _ v] exI [of _ "q\<lparr>v_capacity := cap\<rparr>"] exI conjI) (simp, simp)
qed

section \<open>A device in software\<close>

definition of_le64 :: "u8 list \<Rightarrow> u64" where
  "of_le64 bs = push_bit 32 (ucast (of_le32 (drop 4 bs))) OR ucast (of_le32 (take 4 bs))"

definition soft_disk :: "disk serve" where
  "soft_disk v m d =
     (let h = get_bytes (vd_addr (desc_table v ! 0)) 16 m; bp = vd_addr (desc_table v ! 1);
          sp = vd_addr (desc_table v ! 2); n = unat (of_le64 (drop 8 h))
      in if length d \<le> n then (used_entry 1 v, put_bytes sp [1] m, d)
         else if h ! 0 = 0 then (used_entry 513 v, put_bytes sp [0] (put_bytes bp (d ! n) m), d)
         else (used_entry 1 v, put_bytes sp [0] m, d[n := get_bytes bp 512 m]))"

definition soft_regs :: "disk mmio" where
  "soft_regs = \<lparr>rd32 = (\<lambda>a d. (0, d)), wr32 = (\<lambda>a v d. d)\<rparr>"

lemma soft_disk_serves: "block_device soft_regs soft_disk (\<lambda>d. d)"
  unfolding block_device_def
proof (intro conjI allI impI; (elim conjE)?)
  fix v m d hp bp sp t s
  assume o: "offers v hp bp sp t"
    and h: "get_bytes hp 16 m = header_bytes \<lparr>req_type = t, reserved = 0, req_sector = s\<rparr>"
  obtain e f g i where dt: "desc_table v = [e, f, g, i]"
    using o by (auto simp: offers_def queue_ok_def eval_nat_numeral length_Suc_conv)
  then have a: "vd_addr (desc_table v ! 0) = hp" "vd_addr (desc_table v ! 1) = bp" "vd_addr (desc_table v ! 2) = sp"
    using o by (auto simp: offers_def eval_nat_numeral)
  have "of_le64 (drop 8 (header_bytes \<lparr>req_type = t, reserved = 0, req_sector = s\<rparr>)) = s"
    by (simp add: header_bytes_def le64_def of_le64_def word_halves)
  moreover have "header_bytes \<lparr>req_type = t, reserved = 0, req_sector = s\<rparr> ! 0 = (case t of In \<Rightarrow> 0 | Out \<Rightarrow> 1)"
    by (cases t) (simp_all add: header_bytes_def req_type_code_def le32_def)
  ultimately show "served (\<lambda>d. d) bp sp t (unat s) v m d (soft_disk v m d)"
    unfolding soft_disk_def Let_def a h by (cases t) (simp_all add: served_def)
qed (simp_all add: soft_regs_def)

theorem virtio_refines_sectors_witness:
  "\<exists>v' m' d'. read_sector_impl soft_regs soft_disk VM_OFFSET (VM_OFFSET + 16) (VM_OFFSET + 528) 1
      \<lparr>desc_ptr = 0, avail_ptr = 0, used_ptr = 0, desc_table = replicate 4 vdesc_default, avail_ring = avail_default,
        used_ring = used_default, v_capacity = 2\<rparr> (\<lambda>_. 0) [replicate 512 7, replicate 512 9] = Some (v', m', d') \<and>
     get_bytes 16 512 m' = replicate 512 9"
proof -
  let ?v = "\<lparr>desc_ptr = 0, avail_ptr = 0, used_ptr = 0, desc_table = replicate 4 vdesc_default, avail_ring = avail_default,
        used_ring = used_default, v_capacity = 2\<rparr>"
  have q: "queue_ok ?v" by (simp add: queue_ok_def avail_default_def used_default_def QUEUE_SIZE_def)
  have un: "unat (a + of_nat k) = unat a + k" if "unat a + k < 2 ^ 64" for a :: u64 and k
    using that unat_of_nat_small [of k, where ?'a = 64] by (subst unat_add_no_wrap) simp_all
  have ap: "apart VM_OFFSET (VM_OFFSET + 16) (VM_OFFSET + 528)"
    by (auto simp: apart_def area_def dest!: arg_cong [where f = unat]) (simp_all add: un unat_of_nat_small)
  show ?thesis
    using virtio_refines_sectors [OF soft_disk_serves q ap, of "[replicate 512 7, replicate 512 9]" 1 "\<lambda>_. 0"]
    by (auto simp: read_sector_def slice_get_def)
qed

end
