(* ===== verification/Trap.thy ===== *)
theory Trap
  imports Trap_Code Page_Table Virtio
begin

unbundle bit_operations_syntax

text \<open>
  The trap handler (\<open>src/src/trap.rs\<close>), system calls (\<open>trap/syscall.rs\<close>), page faults
  (\<open>trap/pagefault.rs\<close>), the access to bytes of user space that survives page faults
  (\<open>mem/userbuf.rs\<close>) and the first entry to user mode (\<open>start\<close> of \<open>userproc.rs\<close>). The
  handler works on the frame and on the state of the kernel around it: threads, disk notification
  and devices. It returns the frame that the thread goes on with when it next runs, or none if
  the thread has exited.
\<close>

section \<open>The handler\<close>

datatype trap_cause =
    UserEnvCall | SupervisorTimer | SupervisorExternal | InstructionFault | IllegalInstruction
  | LoadPageFault | StorePageFault | InstructionPageFault | OtherTrap

record ('q, 'd) world =
  w_kernel :: "'q kernel"
  w_notification :: sema
  w_plic :: "'d plic"
  w_sie :: bool

definition syscall_handler :: "usize \<Rightarrow> usize list \<Rightarrow> int" where
  "syscall_handler sysno args = -1"

text \<open>\<open>pagefault::handler\<close>: the new frame, or none if the process exits.\<close>

definition spp_supervisor :: "frame \<Rightarrow> bool" where
  "spp_supervisor fr = bit (fr_sstatus fr) ST_SPP"

definition page_fault_handler :: "(symbol \<Rightarrow> usize) \<Rightarrow> memory \<Rightarrow> usize \<Rightarrow> frame \<Rightarrow> usize \<Rightarrow> (frame option) option" where
  "page_fault_handler lnk m satp fr addr = do {
     table \<leftarrow> effective_pagetable satp;
     pte \<leftarrow> pt_get_pte m table addr;
     let present = (case pte of Some e \<Rightarrow> is_valid e | None \<Rightarrow> False);
     if spp_supervisor fr then
       if fr_sepc fr = lnk Read_usr_byte_pc then
         Some (Some (fr\<lparr>fr_x := (fr_x fr)[11 := 1], fr_sepc := lnk Read_usr_exit\<rparr>))
       else if fr_sepc fr = lnk Write_usr_byte_pc then
         Some (Some (fr\<lparr>fr_x := (fr_x fr)[11 := 1], fr_sepc := lnk Write_usr_exit\<rparr>))
       else None
     else Some None
   }"

definition external_interrupt :: "'q reg_op \<Rightarrow> 'q sch_op \<Rightarrow> 'd mmio \<Rightarrow> ('q, 'd) world \<Rightarrow> ('q, 'd) world option" where
  "external_interrupt rg sc io w = do {
     (irq, p) \<leftarrow> read_claim io (w_plic w);
     if irq = 0 then None
     else if ucast irq = VIRTIO0_ID then do {
       (d, k, n) \<leftarrow> handle_interrupt rg sc io (dev p) (w_kernel w) (w_notification w);
       p \<leftarrow> write_completion io irq (p\<lparr>dev := d\<rparr>);
       Some (w\<lparr>w_kernel := k, w_notification := n, w_plic := p\<rparr>)
     } else None
   }"

definition trap_handler :: "'q reg_op \<Rightarrow> 'q sch_op \<Rightarrow> heap_pick \<Rightarrow> 'd mmio \<Rightarrow> (symbol \<Rightarrow> usize) \<Rightarrow> memory \<Rightarrow> usize \<Rightarrow>
    trap_cause \<Rightarrow> usize \<Rightarrow> frame \<Rightarrow> ('q, 'd) world \<Rightarrow> (frame option \<times> ('q, 'd) world) option" where
  "trap_handler rg sc pick io lnk m satp cause stval fr w = (case cause of
     UserEnvCall \<Rightarrow> do {
       let sysno = fr_x fr ! 17;
       let args = [fr_x fr ! 10, fr_x fr ! 11, fr_x fr ! 12];
       let w = w\<lparr>w_sie := True\<rparr>;
       let fr = fr\<lparr>fr_sepc := fr_sepc fr + 4\<rparr>;
       let fr = fr\<lparr>fr_x := (fr_x fr)[10 := of_int (syscall_handler sysno args)]\<rparr>;
       Some (Some fr, w)
     }
   | SupervisorTimer \<Rightarrow> do {
       k \<leftarrow> tick rg pick (w_kernel w);
       let w = w\<lparr>w_sie := True\<rparr>;
       k \<leftarrow> manager_schedule rg sc k;
       Some (Some fr, w\<lparr>w_kernel := k\<rparr>)
     }
   | SupervisorExternal \<Rightarrow> do {
       w \<leftarrow> external_interrupt rg sc io w;
       Some (Some fr, w)
     }
   | InstructionFault \<Rightarrow> None
   | IllegalInstruction \<Rightarrow> None
   | OtherTrap \<Rightarrow> None
   | _ \<Rightarrow> do {
       res \<leftarrow> page_fault_handler lnk m satp fr stval;
       let w = w\<lparr>w_sie := True\<rparr>;
       (case res of
          Some fr \<Rightarrow> Some (Some fr, w)
        | None \<Rightarrow> do { k \<leftarrow> thread_exit rg sc (w_kernel w); Some (None, w\<lparr>w_kernel := k\<rparr>) })
     })"

section \<open>Traps from user mode and from the kernel\<close>

lemma trap_status:
  "status_bit ST_SPP (take_trap c v s) = (\<not> user_mode s)" "status_bit ST_SPIE (take_trap c v s) = status_bit ST_SIE s"
  "status_bit ST_SIE (take_trap c v s) = False"
  by (simp_all add: take_trap_def Let_def status_bit_def set_status_bit_def csrs_frame machine_simps bit_simps)

lemma trap_state:
  "reg (take_trap c v s) q = reg s q" "m_mem (take_trap c v s) = m_mem s" "csrs (take_trap c v s) Sepc = pc s"
  "csrs (take_trap c v s) Sscratch = csrs s Sscratch" "user_mode (take_trap c v s) = False"
  "pc (take_trap c v s) = csrs s Stvec"
  by (simp_all add: take_trap_def Let_def reg_def set_status_bit_def set_csr_def)

lemma sret_state:
  "reg (sret s) q = reg s q" "m_mem (sret s) = m_mem s" "pc (sret s) = csrs s Sepc"
  "user_mode (sret s) = (\<not> status_bit ST_SPP s)" "c \<noteq> Sstatus \<Longrightarrow> csrs (sret s) c = csrs s c"
  "status_bit ST_SIE (sret s) = status_bit ST_SPIE s"
  by (simp_all add: sret_def Let_def reg_def set_status_bit_def set_csr_def status_bit_def machine_simps bit_simps)

lemma sum_bits: "8 * (32 :: usize) = 256" "8 * (33 :: usize) = 264" "34 * (8 :: usize) = 272"
  by simp_all

text \<open>
  The frame that \<open>trap_entry_u\<close> passes on, and where \<open>trap_exit_u\<close> leads to from any frame.
\<close>

lemma user_frame_saved:
  fixes s :: machine and lnk :: "symbol \<Rightarrow> usize" and c v :: usize
  defines "e \<equiv> exec lnk trap_entry_u (take_trap c v s)"
  defines "f \<equiv> frame_at (m_mem e) (reg e 10)"
  shows "\<forall>i. 0 < i \<and> i < 32 \<longrightarrow> fr_x f ! i = reg s i" "fr_sepc f = pc s" "bit (fr_sstatus f) ST_SPP = (\<not> user_mode s)"
    "bit (fr_sstatus f) ST_SPIE = status_bit ST_SIE s" "length (fr_x f) = 32"
    "reg e 10 = reg e 2" "reg e 2 = csrs s Sscratch - 34 * 8"
    "a \<notin> frame_bytes (csrs s Sscratch - 34 * 8) \<Longrightarrow> m_mem e a = m_mem s a"
proof -
  note E = entry_u_state [where lnk = lnk and s = "take_trap c v s", folded e_def, unfolded trap_state]
  show "\<forall>i. 0 < i \<and> i < 32 \<longrightarrow> fr_x f ! i = reg s i"
    using E(1,3) by (auto simp: f_def frame_cell)
  show "fr_sepc f = pc s" using E(1) E(3) [of 33] by (simp add: f_def frame_at_def)
  have "fr_sstatus f = csrs (take_trap c v s) Sstatus" using E(1) E(3) [of 32] by (simp add: f_def frame_at_def)
  then show "bit (fr_sstatus f) ST_SPP = (\<not> user_mode s)" "bit (fr_sstatus f) ST_SPIE = status_bit ST_SIE s"
    using trap_status [of c v s] by (simp_all add: status_bit_def)
  show "length (fr_x f) = 32" by (simp add: f_def frame_at_def)
  show "reg e 10 = reg e 2" "reg e 2 = csrs s Sscratch - 34 * 8" using E(1,2) by simp_all
  show "m_mem e a = m_mem s a" if "a \<notin> frame_bytes (csrs s Sscratch - 34 * 8)" using E(4) that by simp
qed

lemma leave_u_frame:
  fixes s :: machine and lnk :: "symbol \<Rightarrow> usize"
  defines "r \<equiv> leave_trap_u lnk s" and "f \<equiv> frame_at (m_mem s) (reg s 2)"
  shows "\<forall>i. 0 < i \<and> i < 32 \<longrightarrow> reg r i = fr_x f ! i" "pc r = fr_sepc f" "user_mode r = (\<not> bit (fr_sstatus f) ST_SPP)"
    "csrs r Sscratch = reg s 2 + 34 * 8" "csrs r Stvec = lnk Trap_entry_u" "m_mem r = m_mem s"
    "status_bit ST_SIE r = bit (fr_sstatus f) ST_SPIE"
proof -
  note X = exit_u_state [where lnk = lnk and s = s]
  show "\<forall>i. 0 < i \<and> i < 32 \<longrightarrow> reg r i = fr_x f ! i"
    using X(1) by (simp add: r_def leave_trap_u_def f_def frame_cell sret_state)
  show "pc r = fr_sepc f" "user_mode r = (\<not> bit (fr_sstatus f) ST_SPP)" "csrs r Sscratch = reg s 2 + 34 * 8"
    "csrs r Stvec = lnk Trap_entry_u" "m_mem r = m_mem s" "status_bit ST_SIE r = bit (fr_sstatus f) ST_SPIE"
    using X(2-) by (simp_all add: r_def leave_trap_u_def f_def frame_at_def sret_state) (simp_all add: status_bit_def)
qed

text \<open>
  C10. A trap from user mode. On entry the frame on the kernel stack holds all registers of the user program,
  its program counter and its mode, and no other memory changes. Whatever the handler makes of the
  frame, on exit the processor is in the state that the frame describes: all 31 registers,
  among them the user's stack pointer, the program counter and the mode; \<open>sscratch\<close> holds the kernel
  stack pointer of before, ready for the next trap, and traps lead to \<open>trap_entry_u\<close> again.
\<close>

theorem user_trap_roundtrip:
  assumes e: "e = exec lnk trap_entry_u (take_trap c v s)" and f: "f = frame_at (m_mem e) (reg e a0)"
    and h: "handler_call F e s'" and r: "r = leave_trap_u lnk s'"
  shows "(\<forall>i. 0 < i \<and> i < 32 \<longrightarrow> fr_x f ! i = reg s i) \<and> fr_sepc f = pc s \<and> bit (fr_sstatus f) ST_SPP = (\<not> user_mode s) \<and>
    (\<forall>a. a \<notin> frame_bytes (csrs s Sscratch - 34 * 8) \<longrightarrow> m_mem e a = m_mem s a) \<and>
    (\<forall>i. 0 < i \<and> i < 32 \<longrightarrow> reg r i = fr_x (F f) ! i) \<and> pc r = fr_sepc (F f) \<and>
    user_mode r = (\<not> bit (fr_sstatus (F f)) ST_SPP) \<and> m_mem r = m_mem s' \<and>
    csrs r Sscratch = csrs s Sscratch \<and> csrs r Stvec = lnk Trap_entry_u"
proof -
  note U = user_frame_saved [where lnk = lnk and c = c and v = v and s = s, folded e, folded f]
  have p: "reg s' 2 = reg e 2" and F: "frame_at (m_mem s') (reg s' 2) = F f"
    using h U(6) by (simp_all add: handler_call_def f)
  note L = leave_u_frame [where lnk = lnk and s = s', folded r, unfolded F]
  show ?thesis using U L p by simp
qed

text \<open>A machine to try the properties on, and a handler that does to the frame what \<open>F\<close> says.\<close>

definition sample_machine :: "bool \<Rightarrow> machine" where
  "sample_machine user = \<lparr>gpr = of_nat, csrs = (\<lambda>_. 0)(Sscratch := 0x90000), m_mem = (\<lambda>_. 0), pc = 0x10000, user_mode = user\<rparr>"

lemma sample_machine [simp]:
  "reg (sample_machine u) i = (if i = 0 then 0 else of_nat i)" "pc (sample_machine u) = 0x10000"
  "user_mode (sample_machine u) = u"
  by (simp_all add: sample_machine_def reg_def)

definition frame_handler :: "(frame \<Rightarrow> frame) \<Rightarrow> machine \<Rightarrow> machine" where
  "frame_handler F e = e\<lparr>m_mem := write_frame (m_mem e) (reg e a0) (F (frame_at (m_mem e) (reg e a0)))\<rparr>"

lemma frame_handler_call:
  assumes "\<not> user_mode e" "\<And>f. length (fr_x f) = 32 \<Longrightarrow> length (fr_x (F f)) = 32"
  shows "handler_call F e (frame_handler F e)"
proof -
  have "reg (frame_handler F e) q = reg e q" "user_mode (frame_handler F e) = user_mode e" for q
    by (simp_all add: frame_handler_def reg_def)
  moreover have "length (fr_x (F (frame_at (m_mem e) (reg e 10)))) = 32" by (rule assms(2)) (simp add: frame_at_def)
  note frame_at_write [OF this]
  ultimately show ?thesis using assms(1) by (simp add: handler_call_def) (simp add: frame_handler_def)
qed

lemma kernel_entered: "\<not> user_mode (exec lnk cs (take_trap c v s))"
  by (simp add: machine_simps trap_state)

theorem user_trap_roundtrip_witness:
  "\<exists>r. r = leave_trap_u (\<lambda>_. 0) (frame_handler (\<lambda>f. f\<lparr>fr_sepc := 0x20000\<rparr>) (exec (\<lambda>_. 0) trap_entry_u (take_trap 8 0 (sample_machine True)))) \<and>
     user_mode r \<and> pc r = 0x20000 \<and> reg r 31 = 31"
proof -
  let ?F = "\<lambda>f. f\<lparr>fr_sepc := 0x20000\<rparr>"
  let ?e = "exec (\<lambda>_. 0) trap_entry_u (take_trap 8 0 (sample_machine True))"
  have h: "handler_call ?F ?e (frame_handler ?F ?e)" by (rule frame_handler_call [OF kernel_entered]) simp
  from user_trap_roundtrip [OF refl refl h refl]
  have "fr_x (frame_at (m_mem ?e) (reg ?e 10)) ! 31 = 31" "\<not> bit (fr_sstatus (frame_at (m_mem ?e) (reg ?e 10))) ST_SPP"
    by auto
  with user_trap_roundtrip [OF refl refl h refl] show ?thesis by auto
qed

lemma kernel_frame_saved:
  fixes s :: machine and lnk :: "symbol \<Rightarrow> usize" and c v :: usize
  defines "e \<equiv> exec lnk trap_entry_k (take_trap c v s)"
  defines "f \<equiv> frame_at (m_mem e) (reg e 10)"
  shows "\<forall>i. 0 < i \<and> i < 32 \<and> i \<noteq> 2 \<longrightarrow> fr_x f ! i = reg s i" "fr_sepc f = pc s" "bit (fr_sstatus f) ST_SPP = (\<not> user_mode s)"
    "bit (fr_sstatus f) ST_SPIE = status_bit ST_SIE s" "length (fr_x f) = 32"
    "reg e 10 = reg e 2" "reg e 2 = reg s 2 - 34 * 8"
    "a \<notin> frame_bytes (reg s 2 - 34 * 8) \<Longrightarrow> m_mem e a = m_mem s a"
proof -
  note E = entry_k_state [where lnk = lnk and s = "take_trap c v s", folded e_def, unfolded trap_state]
  show "\<forall>i. 0 < i \<and> i < 32 \<and> i \<noteq> 2 \<longrightarrow> fr_x f ! i = reg s i"
    using E(1,3) by (auto simp: f_def frame_cell)
  show "fr_sepc f = pc s" using E(1) E(3) [of 33] by (simp add: f_def frame_at_def)
  have "fr_sstatus f = csrs (take_trap c v s) Sstatus" using E(1) E(3) [of 32] by (simp add: f_def frame_at_def)
  then show "bit (fr_sstatus f) ST_SPP = (\<not> user_mode s)" "bit (fr_sstatus f) ST_SPIE = status_bit ST_SIE s"
    using trap_status [of c v s] by (simp_all add: status_bit_def)
  show "length (fr_x f) = 32" by (simp add: f_def frame_at_def)
  show "reg e 10 = reg e 2" "reg e 2 = reg s 2 - 34 * 8" using E(1,2) by simp_all
  show "m_mem e a = m_mem s a" if "a \<notin> frame_bytes (reg s 2 - 34 * 8)" using E(4) that by simp
qed

lemma leave_k_frame:
  fixes s :: machine and lnk :: "symbol \<Rightarrow> usize"
  defines "r \<equiv> leave_trap_k lnk s" and "f \<equiv> frame_at (m_mem s) (reg s 2)"
  shows "\<forall>i. 0 < i \<and> i < 32 \<and> i \<noteq> 2 \<longrightarrow> reg r i = fr_x f ! i" "reg r 2 = reg s 2 + 34 * 8" "pc r = fr_sepc f"
    "user_mode r = (\<not> bit (fr_sstatus f) ST_SPP)" "csrs r Stvec = lnk Trap_entry_k" "m_mem r = m_mem s"
    "status_bit ST_SIE r = bit (fr_sstatus f) ST_SPIE" "csrs r Sscratch = csrs s Sscratch"
proof -
  note X = exit_k_state [where lnk = lnk and s = s]
  show "\<forall>i. 0 < i \<and> i < 32 \<and> i \<noteq> 2 \<longrightarrow> reg r i = fr_x f ! i" "reg r 2 = reg s 2 + 34 * 8"
    using X(1) by (simp_all add: r_def leave_trap_k_def f_def frame_cell sret_state)
  show "pc r = fr_sepc f" "user_mode r = (\<not> bit (fr_sstatus f) ST_SPP)"
    "csrs r Stvec = lnk Trap_entry_k" "m_mem r = m_mem s" "status_bit ST_SIE r = bit (fr_sstatus f) ST_SPIE"
    "csrs r Sscratch = csrs s Sscratch"
    using X(2-) by (simp_all add: r_def leave_trap_k_def f_def frame_at_def sret_state) (simp_all add: status_bit_def)
qed

text \<open>A trap in the kernel, seen from the interrupted code.\<close>

lemma kernel_trap_state:
  assumes e: "e = exec lnk trap_entry_k (take_trap c v s)" and f: "f = frame_at (m_mem e) (reg e a0)"
    and h: "handler_call F e s'" and r: "r = leave_trap_k lnk s'"
  shows "\<forall>i. 0 < i \<and> i < 32 \<and> i \<noteq> 2 \<longrightarrow> reg r i = fr_x (F f) ! i" "reg r 2 = reg s 2" "pc r = fr_sepc (F f)"
    "user_mode r = (\<not> bit (fr_sstatus (F f)) ST_SPP)" "status_bit ST_SIE r = bit (fr_sstatus (F f)) ST_SPIE"
    "m_mem r = m_mem s'" "csrs r Stvec = lnk Trap_entry_k"
proof -
  note U = kernel_frame_saved [where lnk = lnk and c = c and v = v and s = s, folded e, folded f]
  have p: "reg s' 2 = reg e 2" and F: "frame_at (m_mem s') (reg s' 2) = F f"
    using h U(6) by (simp_all add: handler_call_def f)
  note L = leave_k_frame [where lnk = lnk and s = s', folded r, unfolded F]
  show "\<forall>i. 0 < i \<and> i < 32 \<and> i \<noteq> 2 \<longrightarrow> reg r i = fr_x (F f) ! i" "reg r 2 = reg s 2" "pc r = fr_sepc (F f)"
    "user_mode r = (\<not> bit (fr_sstatus (F f)) ST_SPP)" "status_bit ST_SIE r = bit (fr_sstatus (F f)) ST_SPIE"
    "m_mem r = m_mem s'" "csrs r Stvec = lnk Trap_entry_k"
    using L p U(7) by simp_all
qed

text \<open>
  C11. An interrupt in the kernel is invisible to the code it interrupts. If the handler deals with a timer or
  a disk interrupt, then all registers, the program counter, the mode and the interrupt enable bit are as
  before when the interrupted code goes on, possibly after other threads have run.
\<close>

theorem kernel_interrupt_transparent:
  assumes "\<not> user_mode s" and e: "e = exec lnk trap_entry_k (take_trap c v s)" and f: "f = frame_at (m_mem e) (reg e a0)"
    and "cause \<in> {SupervisorTimer, SupervisorExternal}"
    and t: "trap_handler rg sc pick io lnk m satp cause stval f w = Some (Some (F f), w')"
    and h: "handler_call F e s'" and r: "r = leave_trap_k lnk s'"
  shows "(\<forall>i. 0 < i \<and> i < 32 \<longrightarrow> reg r i = reg s i) \<and> pc r = pc s \<and> \<not> user_mode r \<and>
    status_bit ST_SIE r = status_bit ST_SIE s \<and> csrs r Stvec = lnk Trap_entry_k"
proof -
  have "F f = f" using t assms(4) by (auto simp: trap_handler_def split: bind_splits)
  then show ?thesis
    using kernel_trap_state [OF e f h r] kernel_frame_saved [where lnk = lnk and c = c and v = v and s = s, folded e, folded f]
      assms(1) by auto
qed

text \<open>A kernel of two threads with the scheduler in order of arrival.\<close>

definition sample_kernel :: "fcfs kernel" where
  "sample_kernel = the (manager_init fcfs_register fcfs_default True)"

definition sample_world :: "(fcfs, usize \<Rightarrow> u32) world" where
  "sample_world = \<lparr>w_kernel = sample_kernel, w_notification = sema_new 0,
     w_plic = \<lparr>hart = cell_new, dev = (\<lambda>_. 0)\<rparr>, w_sie = False\<rparr>"

lemma sample_timer:
  "\<exists>w'. trap_handler fcfs_register fcfs_schedule (\<lambda>_. 0) ram_regs (\<lambda>_. 0) (\<lambda>_. 0) 0 SupervisorTimer 0 f sample_world = Some (Some f, w')"
  by (simp add: trap_handler_def sample_world_def sample_kernel_def manager_init_def manager_register_def sched_register_def
      fcfs_register_def fcfs_default_def tick_def sq_len_def interrupt_set_def manager_schedule_def fcfs_schedule_def
      status_of_def set_status_def overflow_def thread_new_def initial_tid_def idle_tid_def schedule_tail_def Let_def)

theorem kernel_interrupt_transparent_witness:
  "\<exists>r. r = leave_trap_k (\<lambda>_. 0) (frame_handler (\<lambda>f. f) (exec (\<lambda>_. 0) trap_entry_k (take_trap 5 0 (sample_machine False)))) \<and>
     (\<forall>i. 0 < i \<and> i < 32 \<longrightarrow> reg r i = of_nat i) \<and> pc r = 0x10000"
proof -
  let ?e = "exec (\<lambda>_. 0) trap_entry_k (take_trap 5 0 (sample_machine False))"
  have h: "handler_call (\<lambda>f. f) ?e (frame_handler (\<lambda>f. f) ?e)" by (rule frame_handler_call [OF kernel_entered]) simp
  obtain w' where t: "trap_handler fcfs_register fcfs_schedule (\<lambda>_. 0) ram_regs (\<lambda>_. 0) (\<lambda>_. 0) 0 SupervisorTimer 0
      (frame_at (m_mem ?e) (reg ?e 10)) sample_world = Some (Some (frame_at (m_mem ?e) (reg ?e 10)), w')"
    using sample_timer by blast
  have "\<not> user_mode (sample_machine False)" "SupervisorTimer \<in> {SupervisorTimer, SupervisorExternal}"
    by simp_all
  from kernel_interrupt_transparent [OF this(1) refl refl this(2) t h refl]
  show ?thesis by auto
qed

text \<open>
  System calls. A user program that executes \<open>ecall\<close> goes on in user mode after the
  instruction, with \<open>-1\<close> in \<open>a0\<close> (no call is implemented) and every other register as it
  was; the threads of the kernel and its devices are not involved, and interrupts are enabled.
\<close>

lemma syscall_returns:
  assumes "user_mode s" and e: "e = exec lnk trap_entry_u (take_trap c v s)" and f: "f = frame_at (m_mem e) (reg e a0)"
    and t: "trap_handler rg sc pick io lnk m satp UserEnvCall stval f w = Some (Some (F f), w')"
    and h: "handler_call F e s'" and r: "r = leave_trap_u lnk s'"
  shows "user_mode r \<and> pc r = pc s + 4 \<and> reg r a0 = -1 \<and> (\<forall>i. i \<noteq> a0 \<and> i < 32 \<longrightarrow> reg r i = reg s i) \<and>
    w' = w\<lparr>w_sie := True\<rparr>"
proof -
  note U = user_frame_saved [where lnk = lnk and c = c and v = v and s = s, folded e, folded f]
  have p: "reg s' 2 = reg e 2" and F: "frame_at (m_mem s') (reg s' 2) = F f"
    using h U(6) by (simp_all add: handler_call_def f)
  note L = leave_u_frame [where lnk = lnk and s = s', folded r, unfolded F]
  have Ff: "F f = f\<lparr>fr_sepc := fr_sepc f + 4, fr_x := (fr_x f)[10 := -1]\<rparr>" and w: "w' = w\<lparr>w_sie := True\<rparr>"
    using t by (auto simp: trap_handler_def syscall_handler_def)
  have "reg r i = reg s i" if "i \<noteq> 10" "i < 32" for i
    using that L(1) U(1) by (cases "i = 0") (simp_all add: Ff reg_0)
  moreover have "reg r 10 = -1" using L(1) U(5) by (simp add: Ff)
  ultimately show ?thesis using L U assms(1) w by (simp add: Ff)
qed

section \<open>Bytes of user space\<close>

text \<open>What user space looks like through the active page table.\<close>

record umem =
  u_byte :: "usize \<Rightarrow> u8"
  u_read :: "usize \<Rightarrow> bool"
  u_write :: "usize \<Rightarrow> bool"

text \<open>
  A page fault in the kernel: the hardware takes the trap, \<open>hnd\<close> is the call of the compiled
  trap handler, and \<open>trap_exit_k\<close> goes on at the address in the frame.
\<close>

definition page_fault :: "(symbol \<Rightarrow> usize) \<Rightarrow> (machine \<Rightarrow> machine) \<Rightarrow> usize \<Rightarrow> usize \<Rightarrow> machine \<Rightarrow> machine" where
  "page_fault lnk hnd cause addr s = leave_trap_k lnk (hnd (exec lnk trap_entry_k (take_trap cause addr s)))"

definition knrl_read_usr_byte :: "(symbol \<Rightarrow> usize) \<Rightarrow> (machine \<Rightarrow> machine) \<Rightarrow> umem \<Rightarrow> machine \<Rightarrow> machine option" where
  "knrl_read_usr_byte lnk hnd um s = do {
     let s = jump (lnk Read_usr_byte_pc) (exec lnk [Mv t1 a1, Li a1 0] s);
     let s = (if u_read um (reg s a0)
              then jump (lnk Read_usr_exit) (set_reg t0 (scast (u_byte um (reg s a0))) s)
              else page_fault lnk hnd 13 (reg s a0) s);
     if pc s = lnk Read_usr_exit then Some (exec lnk [Sb t0 t1, Mv a0 a1] s) else None
   }"

definition knrl_write_usr_byte :: "(symbol \<Rightarrow> usize) \<Rightarrow> (machine \<Rightarrow> machine) \<Rightarrow> umem \<Rightarrow> machine \<Rightarrow> (umem \<times> machine) option" where
  "knrl_write_usr_byte lnk hnd um s = do {
     let s = jump (lnk Write_usr_byte_pc) (exec lnk [Mv t1 a1, Li a1 0] s);
     let (um, s) = (if u_write um (reg s a0)
              then (um\<lparr>u_byte := (u_byte um)(reg s a0 := ucast (reg s t1))\<rparr>, jump (lnk Write_usr_exit) s)
              else (um, page_fault lnk hnd 15 (reg s a0) s));
     if pc s = lnk Write_usr_exit then Some (um, exec lnk [Mv a0 a1] s) else None
   }"

text \<open>\<open>bp\<close> is the address of the local variable \<open>byte\<close>.\<close>

definition read_user_byte :: "(symbol \<Rightarrow> usize) \<Rightarrow> (machine \<Rightarrow> machine) \<Rightarrow> umem \<Rightarrow> usize \<Rightarrow> usize \<Rightarrow> machine \<Rightarrow>
    (u8 result \<times> machine) option" where
  "read_user_byte lnk hnd um user_src bp s =
     (if in_kernel_space user_src then Some (Err BadPtr, s)
      else do {
        s \<leftarrow> knrl_read_usr_byte lnk hnd um (set_reg a1 bp (set_reg a0 user_src s));
        if (ucast (reg s a0) :: u8) = 0 then Some (Ok (ucast (m_mem s bp)), s) else Some (Err BadPtr, s)
      })"

definition write_user_byte :: "(symbol \<Rightarrow> usize) \<Rightarrow> (machine \<Rightarrow> machine) \<Rightarrow> umem \<Rightarrow> usize \<Rightarrow> u8 \<Rightarrow> machine \<Rightarrow>
    (unit result \<times> umem \<times> machine) option" where
  "write_user_byte lnk hnd um user_src val s =
     (if in_kernel_space user_src then Some (Err BadPtr, um, s)
      else do {
        (um, s) \<leftarrow> knrl_write_usr_byte lnk hnd um (set_reg a1 (ucast val) (set_reg a0 user_src s));
        if (ucast (reg s a0) :: u8) = 0 then Some (Ok (), um, s) else Some (Err BadPtr, um, s)
      })"

text \<open>
  The compiled handler does to the frames of page faults at the two marked instructions what \<open>trap_handler\<close>
  says.
\<close>

definition handles_faults :: "(symbol \<Rightarrow> usize) \<Rightarrow> memory \<Rightarrow> usize \<Rightarrow> usize \<Rightarrow> (machine \<Rightarrow> machine) \<Rightarrow> bool" where
  "handles_faults lnk m satp addr hnd \<longleftrightarrow> (\<exists>F. (\<forall>e. \<not> user_mode e \<longrightarrow> handler_call F e (hnd e)) \<and>
     (\<forall>fr. spp_supervisor fr \<and> fr_sepc fr \<in> {lnk Read_usr_byte_pc, lnk Write_usr_byte_pc} \<longrightarrow>
        page_fault_handler lnk m satp fr addr = Some (Some (F fr))))"

lemma fault_resumes:
  assumes hnd: "handles_faults lnk m satp addr hnd" and s: "\<not> user_mode s" and r: "r = page_fault lnk hnd c addr s"
    and ne: "lnk Read_usr_byte_pc \<noteq> lnk Write_usr_byte_pc" and p: "pc s = lnk Read_usr_byte_pc \<or> pc s = lnk Write_usr_byte_pc"
  shows "pc r = (if pc s = lnk Read_usr_byte_pc then lnk Read_usr_exit else lnk Write_usr_exit)" "\<not> user_mode r"
    "reg r 11 = 1" "0 < i \<Longrightarrow> i < 32 \<Longrightarrow> i \<noteq> 11 \<Longrightarrow> reg r i = reg s i"
proof -
  define e where "e = exec lnk trap_entry_k (take_trap c addr s)"
  define f where "f = frame_at (m_mem e) (reg e 10)"
  note U = kernel_frame_saved [where lnk = lnk and c = c and v = addr and s = s, folded e_def, folded f_def]
  have em: "\<not> user_mode e" by (simp add: e_def machine_simps trap_state)
  from hnd obtain F where h: "handler_call F e (hnd e)"
    and F: "spp_supervisor f \<Longrightarrow> page_fault_handler lnk m satp f addr = Some (Some (F f))"
    using em U(2) p unfolding handles_faults_def by auto
  have spp: "spp_supervisor f" using U(3) s by (simp add: spp_supervisor_def)
  have Ff: "F f = f\<lparr>fr_x := (fr_x f)[11 := 1], fr_sepc := if pc s = lnk Read_usr_byte_pc then lnk Read_usr_exit else lnk Write_usr_exit\<rparr>"
    using F [OF spp] spp U(2) p ne unfolding page_fault_handler_def by (auto split: bind_splits if_splits)
  have r': "r = leave_trap_k lnk (hnd e)" by (simp add: r page_fault_def e_def)
  note K = kernel_trap_state [OF e_def f_def h r']
  show "pc r = (if pc s = lnk Read_usr_byte_pc then lnk Read_usr_exit else lnk Write_usr_exit)" using K(3) by (simp add: Ff)
  show "\<not> user_mode r" using K(4) U(3) s by (simp add: Ff)
  show "reg r 11 = 1" using K(1) U(5) by (simp add: Ff)
  show "reg r i = reg s i" if "0 < i" "i < 32" "i \<noteq> 11"
    using K(1,2) U(1) that by (cases "i = 2") (auto simp: Ff)
qed

lemma ucast_up_down: "ucast (ucast (b :: u8) :: usize) = b"
  by (rule bit_word_eqI) (simp add: bit_simps)

lemma byte_stored: "ucast ((w AND - 256) OR (scast (b :: u8) AND 0xFF) :: usize) = b"
proof -
  have m: "(0xFF :: usize) = mask 8" "(- 256 :: usize) = NOT (mask 8)" by (simp_all add: mask_eq_exp_minus_1)
  show ?thesis unfolding m by (rule bit_word_eqI) (auto simp: bit_simps)
qed

lemma read_byte_ok:
  assumes s: "\<not> user_mode s" and hnd: "handles_faults lnk m satp addr hnd"
    and ne: "lnk Read_usr_byte_pc \<noteq> lnk Write_usr_byte_pc"
  shows "\<exists>s'. read_user_byte lnk hnd um addr bp s =
        Some (if \<not> in_kernel_space addr \<and> u_read um addr then Ok (u_byte um addr) else Err BadPtr, s') \<and>
        (\<forall>i. 0 < i \<and> i < 32 \<and> i \<notin> {t0, t1, a0, a1} \<longrightarrow> reg s' i = reg s i)"
proof -
  define s1 where "s1 = jump (lnk Read_usr_byte_pc) (exec lnk [Mv 6 11, Li 11 0] (set_reg 11 bp (set_reg 10 addr s)))"
  have S: "reg s1 q = (if q = 6 then bp else if q = 11 then 0 else if q = 10 then addr else reg s q)" for q
    by (simp add: machine_simps s1_def)
  have S': "\<not> user_mode s1" "pc s1 = lnk Read_usr_byte_pc" using s by (simp_all add: machine_simps s1_def)
  note R = fault_resumes [OF hnd S'(1) refl ne disjI1 [OF S'(2)], where c = 13]
  define s2 where "s2 = (if u_read um addr then jump (lnk Read_usr_exit) (set_reg 5 (scast (u_byte um addr)) s1)
    else page_fault lnk hnd 13 addr s1)"
  have pc: "pc s2 = lnk Read_usr_exit" using R(1) S'(2) by (simp add: s2_def machine_simps)
  have regs: "0 < i \<Longrightarrow> i < 32 \<Longrightarrow> i \<notin> {5, 11} \<Longrightarrow> reg s2 i = reg s1 i"
    "reg s2 11 = (if u_read um addr then 0 else 1)" "u_read um addr \<Longrightarrow> reg s2 5 = scast (u_byte um addr)" for i
    using R(3,4) by (auto simp: s2_def machine_simps S)
  have impl: "knrl_read_usr_byte lnk hnd um (set_reg 11 bp (set_reg 10 addr s)) = Some (exec lnk [Sb 5 6, Mv 10 11] s2)"
    unfolding knrl_read_usr_byte_def Let_def s1_def [symmetric] using pc S [of 10] by (simp add: s2_def del: exec.simps split: if_splits)
  let ?s = "exec lnk [Sb 5 6, Mv 10 11] s2"
  have fin: "reg ?s 10 = (if u_read um addr then 0 else 1)"
    "u_read um addr \<Longrightarrow> ucast (m_mem ?s bp) = u_byte um addr"
    "\<forall>i. 0 < i \<and> i < 32 \<and> i \<notin> {5, 6, 10, 11} \<longrightarrow> reg ?s i = reg s i"
    using regs S by (auto simp: machine_simps byte_stored)
  show ?thesis
  proof (cases "in_kernel_space addr")
    case False
    then show ?thesis using impl fin by (auto simp: read_user_byte_def)
  qed (simp add: read_user_byte_def)
qed

lemma write_byte_ok:
  assumes s: "\<not> user_mode s" and hnd: "handles_faults lnk m satp addr hnd"
    and ne: "lnk Read_usr_byte_pc \<noteq> lnk Write_usr_byte_pc"
  shows "\<exists>s'. write_user_byte lnk hnd um addr b s =
        Some (if \<not> in_kernel_space addr \<and> u_write um addr then (Ok (), um\<lparr>u_byte := (u_byte um)(addr := b)\<rparr>, s')
              else (Err BadPtr, um, s')) \<and>
        (\<forall>i. 0 < i \<and> i < 32 \<and> i \<notin> {t0, t1, a0, a1} \<longrightarrow> reg s' i = reg s i)"
proof -
  define s1 where "s1 = jump (lnk Write_usr_byte_pc) (exec lnk [Mv 6 11, Li 11 0] (set_reg 11 (ucast b) (set_reg 10 addr s)))"
  have S: "reg s1 q = (if q = 6 then ucast b else if q = 11 then 0 else if q = 10 then addr else reg s q)" for q
    by (simp add: machine_simps s1_def)
  have S': "\<not> user_mode s1" "pc s1 = lnk Write_usr_byte_pc" using s by (simp_all add: machine_simps s1_def)
  note R = fault_resumes [OF hnd S'(1) refl ne disjI2 [OF S'(2)], where c = 15]
  define s2 where "s2 = (if u_write um addr then jump (lnk Write_usr_exit) s1 else page_fault lnk hnd 15 addr s1)"
  have pc: "pc s2 = lnk Write_usr_exit" using R(1) S'(2) ne by (auto simp: s2_def machine_simps)
  have regs: "0 < i \<Longrightarrow> i < 32 \<Longrightarrow> i \<noteq> 11 \<Longrightarrow> reg s2 i = reg s1 i" "reg s2 11 = (if u_write um addr then 0 else 1)" for i
    using R(3,4) by (auto simp: s2_def machine_simps S)
  have impl: "knrl_write_usr_byte lnk hnd um (set_reg 11 (ucast b) (set_reg 10 addr s)) =
      Some (if u_write um addr then um\<lparr>u_byte := (u_byte um)(addr := b)\<rparr> else um, exec lnk [Mv 10 11] s2)"
    unfolding knrl_write_usr_byte_def Let_def s1_def [symmetric] using pc S [of 10] S [of 6]
    by (simp add: s2_def ucast_up_down del: exec.simps split: if_splits)
  let ?s = "exec lnk [Mv 10 11] s2"
  have fin: "reg ?s 10 = (if u_write um addr then 0 else 1)"
    "\<forall>i. 0 < i \<and> i < 32 \<and> i \<notin> {5, 6, 10, 11} \<longrightarrow> reg ?s i = reg s i"
    using regs S by (auto simp: machine_simps)
  show ?thesis
  proof (cases "in_kernel_space addr")
    case False
    then show ?thesis using impl fin by (auto simp: write_user_byte_def)
  qed (simp add: write_user_byte_def)
qed

text \<open>
  C29. Access to user space. Reading or writing a byte at an address that the process gives never panics,
  whatever the address is. The result is the byte (or the byte is written) exactly if the address is
  outside the kernel and the page allows the access; otherwise it is \<open>BadPtr\<close> and user space
  is unchanged: the page fault handler resumes the access at its exit with a status of 1. The stack
  pointer and all registers but the two arguments and two temporaries survive.
\<close>

theorem user_bytes_safe:
  assumes s: "\<not> user_mode s" and hnd: "handles_faults lnk m satp addr hnd"
    and ne: "lnk Read_usr_byte_pc \<noteq> lnk Write_usr_byte_pc"
  shows "(\<exists>s'. read_user_byte lnk hnd um addr bp s =
        Some (if \<not> in_kernel_space addr \<and> u_read um addr then Ok (u_byte um addr) else Err BadPtr, s') \<and>
        (\<forall>i. 0 < i \<and> i < 32 \<and> i \<notin> {t0, t1, a0, a1} \<longrightarrow> reg s' i = reg s i)) \<and>
    (\<exists>s'. write_user_byte lnk hnd um addr b s =
        Some (if \<not> in_kernel_space addr \<and> u_write um addr then (Ok (), um\<lparr>u_byte := (u_byte um)(addr := b)\<rparr>, s')
              else (Err BadPtr, um, s')) \<and>
        (\<forall>i. 0 < i \<and> i < 32 \<and> i \<notin> {t0, t1, a0, a1} \<longrightarrow> reg s' i = reg s i))"
  using read_byte_ok [OF assms] write_byte_ok [OF assms] by blast

lemma sample_page_tables: "effective_pagetable 0 = Some VM_OFFSET" "pt_get_pte (\<lambda>_. 0) VM_OFFSET 0x5000 = Some None"
  using entry_0_invalid
  by (simp_all add: effective_pagetable_def from_raw_def into_va_def from_pa_def is_page_aligned_iff VM_OFFSET_eq
      pt_get_pte_def walk_def entry_at_def)

definition sample_lnk :: "symbol \<Rightarrow> usize" where
  "sample_lnk l = (case l of Read_usr_byte_pc \<Rightarrow> 0x100 | Read_usr_exit \<Rightarrow> 0x104 | Write_usr_byte_pc \<Rightarrow> 0x200 |
     Write_usr_exit \<Rightarrow> 0x204 | _ \<Rightarrow> 0)"

definition fault_frame :: "frame \<Rightarrow> frame" where
  "fault_frame f = f\<lparr>fr_x := (fr_x f)[11 := 1], fr_sepc := if fr_sepc f = 0x100 then 0x104 else 0x204\<rparr>"

lemma sample_handles_faults: "handles_faults sample_lnk (\<lambda>_. 0) 0 0x5000 (frame_handler fault_frame)"
  unfolding handles_faults_def
proof (intro exI conjI allI impI)
  fix e :: machine assume "\<not> user_mode e"
  then show "handler_call fault_frame e (frame_handler fault_frame e)" by (rule frame_handler_call) (simp add: fault_frame_def)
next
  fix fr :: frame assume a: "spp_supervisor fr \<and> fr_sepc fr \<in> {sample_lnk Read_usr_byte_pc, sample_lnk Write_usr_byte_pc}"
  show "page_fault_handler sample_lnk (\<lambda>_. 0) 0 fr 0x5000 = Some (Some (fault_frame fr))"
    using a sample_page_tables by (auto simp: page_fault_handler_def sample_lnk_def fault_frame_def)
qed

theorem user_bytes_safe_witness:
  "\<exists>s'. read_user_byte sample_lnk (frame_handler fault_frame) \<lparr>u_byte = (\<lambda>_. 7), u_read = (\<lambda>_. False), u_write = (\<lambda>_. False)\<rparr>
     0x5000 0x80000 (sample_machine False) = Some (Err BadPtr, s') \<and> reg s' 2 = 2"
proof -
  have "\<not> user_mode (sample_machine False)" "sample_lnk Read_usr_byte_pc \<noteq> sample_lnk Write_usr_byte_pc"
    by (simp_all add: sample_lnk_def)
  from user_bytes_safe [OF this(1) sample_handles_faults this(2),
      of "\<lparr>u_byte = (\<lambda>_. 7), u_read = (\<lambda>_. False), u_write = (\<lambda>_. False)\<rparr>" "0x80000" 0]
  show ?thesis by auto
qed

section \<open>The first entry to user mode\<close>

text \<open>\<open>start\<close> of \<open>userproc.rs\<close>; \<open>fp\<close> is the address of the local variable \<open>frame\<close>.\<close>

definition user_start :: "(symbol \<Rightarrow> usize) \<Rightarrow> usize \<Rightarrow> frame \<Rightarrow> machine \<Rightarrow> machine" where
  "user_start lnk fp fr s =
     (let s = set_status_bit ST_SPP False s;
          fr = fr\<lparr>fr_sstatus := csrs s Sstatus\<rparr>;
          s = s\<lparr>m_mem := write_frame (m_mem s) fp fr\<rparr>;
          s = exec lnk [Mv sp t0] (set_reg t1 (lnk Trap_exit_u) (set_reg t0 fp s))
      in leave_trap_u lnk s)"

text \<open>
  The first entry to user mode. \<open>start\<close> ends in user mode at the entry point of the frame with exactly the
  registers of the frame. The next trap of the process switches to the kernel stack again and stores its frame at
  the very place of the first one, so that the kernel stack does not grow from trap to trap.
\<close>

lemma user_start_enters:
  assumes fr: "length (fr_x fr) = 32" and r: "r = user_start lnk fp fr s"
    and e: "e = exec lnk trap_entry_u (take_trap c v r')" and r': "csrs r' Sscratch = csrs r Sscratch"
  shows "user_mode r \<and> pc r = fr_sepc fr \<and> (\<forall>i. 0 < i \<and> i < 32 \<longrightarrow> reg r i = fr_x fr ! i) \<and>
    csrs r Stvec = lnk Trap_entry_u \<and> csrs r Sscratch = fp + 34 * 8 \<and> reg e sp = fp \<and> reg e a0 = fp"
proof -
  let ?s = "set_status_bit ST_SPP False s"
  let ?fr = "fr\<lparr>fr_sstatus := csrs ?s Sstatus\<rparr>"
  define s1 where "s1 = exec lnk [Mv 2 5] (set_reg 6 (lnk Trap_exit_u) (set_reg 5 fp (?s\<lparr>m_mem := write_frame (m_mem ?s) fp ?fr\<rparr>)))"
  have s1: "reg s1 2 = fp" "frame_at (m_mem s1) fp = ?fr"
    using frame_at_write [of ?fr] fr by (simp_all add: s1_def machine_simps)
  have "\<not> bit (csrs ?s Sstatus) ST_SPP" using status_bit_set [of ST_SPP ST_SPP False s] by (simp add: status_bit_def machine_simps)
  moreover have "r = leave_trap_u lnk s1" by (simp add: r user_start_def Let_def s1_def)
  note L = leave_u_frame [where lnk = lnk and s = s1, folded this, unfolded s1]
  moreover note U = user_frame_saved(6,7) [where lnk = lnk and c = c and v = v and s = r', folded e]
  ultimately show ?thesis using r' by simp
qed

text \<open>
  Until \<open>sret\<close>, \<open>start\<close> runs the exit code in supervisor mode with the interrupt enable bit it found: a thread
  that interrupts may preempt reaches \<open>trap_entry_u\<close> from the kernel, with the user's stack pointer in
  \<open>sscratch\<close>.
\<close>

lemma user_start_window:
  assumes "length (fr_x fr) = 32" "\<not> user_mode s" "status_bit ST_SIE s"
  shows "\<exists>q. user_start lnk fp fr s = sret q \<and> \<not> user_mode q \<and> status_bit ST_SIE q \<and> csrs q Stvec = lnk Trap_entry_u"
proof -
  let ?s = "set_status_bit ST_SPP False s"
  let ?fr = "fr\<lparr>fr_sstatus := csrs ?s Sstatus\<rparr>"
  define s1 where "s1 = exec lnk [Mv 2 5] (set_reg 6 (lnk Trap_exit_u) (set_reg 5 fp (?s\<lparr>m_mem := write_frame (m_mem ?s) fp ?fr\<rparr>)))"
  have s1: "reg s1 2 = fp" "fr_sstatus (frame_at (m_mem s1) fp) = csrs ?s Sstatus" "\<not> user_mode s1"
    using frame_at_write [of ?fr] assms by (simp_all add: s1_def machine_simps)
  note X = exit_u_state [where lnk = lnk and s = s1, unfolded s1(1)]
  have "csrs (exec lnk trap_exit_u s1) Sstatus = csrs ?s Sstatus" using X(3) s1(2) by (simp add: frame_at_def)
  then have "status_bit ST_SIE (exec lnk trap_exit_u s1)"
    using assms(3) status_bit_set [of ST_SPP ST_SIE False s] by (simp add: status_bit_def machine_simps)
  then show ?thesis
    using X(6) s1(3) by (intro exI [of _ "exec lnk trap_exit_u s1"])
      (simp add: user_start_def leave_trap_u_def Let_def s1_def machine_simps del: exec.simps)
qed

section \<open>Traps and threads\<close>



end
