(* ===== verification/Load.thy ===== *)
theory Load
  imports Thread_Memory Trap Inmem
begin

text \<open>
  Loading an executable into a page table and starting a process (\<open>src/src/userproc/load.rs\<close> and
  \<open>src/src/userproc.rs\<close>). The ELF parser is the crate \<open>elf_rs\<close>: a parameter that returns the
  entry point and the program headers. The buffer with the file is a value; its block of the
  heap and the boxed closure of the new thread are not modelled.
\<close>

section \<open>Bytes of memory\<close>

text \<open>
  The memory holds words at aligned addresses. \<open>mem_byte\<close> is the byte at any address, and
  \<open>store_page\<close> fills a page with bytes.
\<close>

definition mem_byte :: "memory \<Rightarrow> usize \<Rightarrow> u8" where
  "mem_byte m a = le64 (m (a AND NOT 7)) ! unat (a AND 7)"

definition store_page :: "usize \<Rightarrow> u8 list \<Rightarrow> memory \<Rightarrow> memory" where
  "store_page p bs m = (\<lambda>a. let k = unat (a - p) in
     if k < 4096 \<and> k mod 8 = 0 then of_le64 (take 8 (drop k bs)) else m a)"

section \<open>Program headers\<close>

datatype program_type = LOAD | Other_type

record phdr =
  ph_type :: program_type
  ph_offset :: usize
  ph_vaddr :: usize
  ph_filesz :: usize
  ph_memsz :: usize
  ph_execute :: bool
  ph_write :: bool

datatype elf = Elf64 usize "phdr list" | Elf32

record exec_info =
  entry_point :: usize
  init_sp :: usize

definition segment_flags :: "phdr \<Rightarrow> pte_flags" where
  "segment_flags ph =
     (let leaf_flag = PTE_V OR PTE_U OR PTE_R;
          leaf_flag = (if ph_execute ph then leaf_flag OR PTE_X else leaf_flag)
      in if ph_write ph then leaf_flag OR PTE_W else leaf_flag)"

text \<open>One round of the loop: a page of the user pool, its bytes, and its mapping.\<close>

definition load_page :: "usize list \<Rightarrow> u8 list \<Rightarrow> usize \<Rightarrow> usize \<Rightarrow> pte_flags \<Rightarrow> usize \<Rightarrow> usize \<Rightarrow> usize \<Rightarrow> kmem \<Rightarrow>
    (usize \<times> usize \<times> kmem) option" where
  "load_page da filebuf t ubase leaf_flag p readpos readbytes st = do {
     (buf, st) \<leftarrow> user_alloc_pages 1 st;
     rust_assert (buf \<noteq> 0);
     let readsz = min readbytes PG_SIZE;
     src \<leftarrow> slice_sub filebuf (unat readpos) (unat readsz);
     let st = st\<lparr>km_mem := store_page buf (src @ replicate (4096 - unat readsz) 0) (km_mem st)\<rparr>;
     pa \<leftarrow> phys_from_va buf;
     st \<leftarrow> pt_map da t pa (ubase + p * PG_SIZE) 1 leaf_flag st;
     Some (readpos + readsz, readbytes - readsz, st)
   }"

fun load_pages :: "usize list \<Rightarrow> u8 list \<Rightarrow> usize \<Rightarrow> usize \<Rightarrow> pte_flags \<Rightarrow> usize list \<Rightarrow> usize \<Rightarrow> usize \<Rightarrow> kmem \<Rightarrow>
    (usize \<times> usize \<times> kmem) option" where
  "load_pages da filebuf t ubase leaf_flag [] readpos readbytes st = Some (readpos, readbytes, st)"
| "load_pages da filebuf t ubase leaf_flag (p # ps) readpos readbytes st = do {
     (readpos, readbytes, st) \<leftarrow> load_page da filebuf t ubase leaf_flag p readpos readbytes st;
     load_pages da filebuf t ubase leaf_flag ps readpos readbytes st
   }"

definition load_segment :: "usize list \<Rightarrow> u8 list \<Rightarrow> phdr \<Rightarrow> usize \<Rightarrow> kmem \<Rightarrow> kmem option" where
  "load_segment da filebuf ph t st = do {
     rust_assert (ph_type ph = LOAD);
     let fileoff = ph_offset ph;
     let readpos = fileoff AND NOT PG_MASK;
     let leaf_flag = segment_flags ph;
     let ubase = ph_vaddr ph AND NOT PG_MASK;
     let pageoff = ph_vaddr ph AND PG_MASK;
     rust_assert (fileoff AND PG_MASK = pageoff);
     pages \<leftarrow> div_round_up (pageoff + ph_memsz ph) PG_SIZE;
     let readbytes = ph_filesz ph + pageoff;
     (_, readbytes, st) \<leftarrow> load_pages da filebuf t ubase leaf_flag (word_range 0 pages) readpos readbytes st;
     rust_assert (readbytes = 0);
     Some st
   }"

fun load_segments :: "usize list \<Rightarrow> u8 list \<Rightarrow> phdr list \<Rightarrow> usize \<Rightarrow> kmem \<Rightarrow> kmem option" where
  "load_segments da filebuf [] t st = Some st"
| "load_segments da filebuf (ph # phs) t st = do {
     st \<leftarrow> load_segment da filebuf ph t st;
     load_segments da filebuf phs t st
   }"

definition load_elf :: "usize list \<Rightarrow> (u8 list \<Rightarrow> elf option) \<Rightarrow> usize \<Rightarrow> 's vnode_ops \<Rightarrow> 's \<Rightarrow> File \<Rightarrow> usize \<Rightarrow> kmem \<Rightarrow>
    (exec_info result \<times> File \<times> kmem) option" where
  "load_elf da parse bufp ops s f t st =
     (case rewind ops s f of
        (Err e, f) \<Rightarrow> Some (Err e, f, st)
      | (Ok _, f) \<Rightarrow> do {
          (r, buf, f) \<leftarrow> file_read ops s f bufp (replicate (unat (vn_len ops s)) 0);
          (case r of
             Err e \<Rightarrow> Some (Err e, f, st)
           | Ok _ \<Rightarrow>
               (case parse buf of
                  Some (Elf64 entry phs) \<Rightarrow> do {
                    st \<leftarrow> load_segments da buf (filter (\<lambda>p. ph_type p = LOAD) phs) t st;
                    Some (Ok \<lparr>entry_point = entry, init_sp = 0x80500000\<rparr>, f, st)
                  }
                | _ \<Rightarrow> Some (Err UnknownFormat, f, st)))
        })"

definition init_user_stack :: "usize list \<Rightarrow> usize \<Rightarrow> usize \<Rightarrow> kmem \<Rightarrow> kmem option" where
  "init_user_stack da t sp0 st = do {
     rust_assert (sp0 mod PG_SIZE = 0);
     (stack_va, st) \<leftarrow> user_alloc_pages 1 st;
     stack_pa \<leftarrow> phys_from_va stack_va;
     let stack_page_begin = page_floor (sp0 - 1);
     pt_map da t stack_pa stack_page_begin PG_SIZE (PTE_V OR PTE_R OR PTE_W OR PTE_U) st
   }"

definition load_executable :: "usize list \<Rightarrow> (u8 list \<Rightarrow> elf option) \<Rightarrow> usize \<Rightarrow> 's vnode_ops \<Rightarrow> 's \<Rightarrow> File \<Rightarrow> usize \<Rightarrow> kmem \<Rightarrow>
    (exec_info result \<times> 's \<times> File \<times> kmem) option" where
  "load_executable da parse bufp ops s f t st = do {
     (r, f, st) \<leftarrow> load_elf da parse bufp ops s f t st;
     (case r of
        Err e \<Rightarrow> Some (Err e, s, f, st)
      | Ok info \<Rightarrow> do {
          st \<leftarrow> init_user_stack da t (init_sp info) st;
          let (s, f) = file_deny_write ops s f;
          Some (Ok info, s, f, st)
        })
   }"

section \<open>Processes\<close>

record user_proc =
  bin :: File

definition user_frame :: "exec_info \<Rightarrow> frame" where
  "user_frame info = \<lparr>fr_x = (replicate 32 0)[2 := init_sp info], fr_sstatus = 0, fr_sepc = entry_point info\<rparr>"

text \<open>
  The result of \<open>execute\<close>: the value returned, and for a new process the frame of its first entry to user mode and
  its thread. \<open>fnp\<close> is the address of the boxed closure that calls \<open>start\<close> on the frame.
\<close>

definition execute :: "'q reg_op \<Rightarrow> 'q sch_op \<Rightarrow> usize list \<Rightarrow> (symbol \<Rightarrow> usize) \<Rightarrow> usize \<Rightarrow> (u8 list \<Rightarrow> elf option) \<Rightarrow> usize \<Rightarrow> usize \<Rightarrow>
    's vnode_ops \<Rightarrow> 's \<Rightarrow> File \<Rightarrow> 'q kernel \<Rightarrow> kmem \<Rightarrow>
    (int \<times> (frame \<times> user_proc thread_object) option \<times> 's \<times> 'q kernel \<times> kmem) option" where
  "execute rg sch da lnk kpt parse bufp fnp ops s f k st = do {
     (pt, st) \<leftarrow> pt_clone da kpt st;
     (r, s, f, st) \<leftarrow> load_executable da parse bufp ops s f pt st;
     (case r of
        Err _ \<Rightarrow> do {
          st \<leftarrow> destroy da pt st;
          Some (-1, None, file_drop ops s f, k, st)
        }
      | Ok info \<Rightarrow> do {
          let b = builder_userproc \<lparr>bin = f\<rparr> (builder_pagetable pt (builder_new fnp));
          (th, st) \<leftarrow> builder_build da lnk b st;
          let tid = next_tid k;
          k \<leftarrow> spawn rg sch k (b_name b) (b_priority b) (Some (unat pt));
          Some (int tid, Some (user_frame info, th), s, k, st)
        })
   }"

definition process_exit :: "'q reg_op \<Rightarrow> 'q sch_op \<Rightarrow> int \<Rightarrow> 'q kernel \<Rightarrow> 'q kernel option" where
  "process_exit rg sch v k = thread_exit rg sch k"

definition process_wait :: "int \<Rightarrow> int option" where
  "process_wait tid = Some (-1)"

section \<open>Bytes in pages\<close>

lemma le32_of_le32: "length bs = 4 \<Longrightarrow> le32 (of_le32 bs) = bs"
proof -
  assume "length bs = 4"
  then obtain a b c d where bs: "bs = [a, b, c, d]" by (auto simp: length_Suc_conv numeral_eq_Suc)
  have "ucast (of_le32 bs) = a" "ucast (drop_bit 8 (of_le32 bs)) = b" "ucast (drop_bit 16 (of_le32 bs)) = c"
    "ucast (drop_bit 24 (of_le32 bs)) = d"
    by (rule bit_word_eqI; auto simp: bs of_le32_def bit_simps dest: bit_imp_le_length)+
  then show ?thesis by (simp add: le32_def bs)
qed

lemma le64_of_le64:
  assumes "length bs = 8"
  shows "le64 (of_le64 bs) = bs"
proof -
  have "ucast (of_le64 bs) = of_le32 (take 4 bs)" "ucast (drop_bit 32 (of_le64 bs)) = of_le32 (drop 4 bs)"
    by (rule bit_word_eqI; auto simp: of_le64_def bit_simps dest: bit_imp_le_length)+
  then show ?thesis using assms le32_of_le32 [of "take 4 bs"] le32_of_le32 [of "drop 4 bs"] by (simp add: le64_def)
qed

lemma byte_address:
  assumes "page_ok p" "j < 4096"
  shows "(p + of_nat j) AND NOT 7 = p + of_nat (j div 8 * 8)" "unat ((p + of_nat j) AND 7) = j mod 8"
proof -
  have 8: "(4096 * c + j) mod 8 = j mod 8" for c :: nat
    using mod_mult_self3 [of "512 * c" 8 j] by (simp add: mult.commute mult.left_commute)
  have u: "unat (p + of_nat j) = unat p + j" by (rule unat_in_page [OF assms])
  obtain c where c: "unat p = 4096 * c" using assms by (auto simp: page_ok_def elim: dvdE)
  have m: "(7 :: usize) = mask 3" by (simp add: mask_eq_exp_minus_1)
  have "unat ((p + of_nat j) AND NOT (mask 3)) = (4096 * c + j) div 8 * 8" by (simp add: unat_and_not_mask u c)
  also have "(4096 * c + j) div 8 = 512 * c + j div 8" by simp
  then have "(4096 * c + j) div 8 * 8 = unat p + j div 8 * 8" by (simp add: c)
  also have "\<dots> = unat (p + of_nat (j div 8 * 8))" using unat_in_page [OF assms(1), of "j div 8 * 8"] assms(2) by simp
  finally show "(p + of_nat j) AND NOT 7 = p + of_nat (j div 8 * 8)" by (simp add: m word_unat_eq_iff)
  show "unat ((p + of_nat j) AND 7) = j mod 8" 
    unfolding m unat_and_mask u c using 8 by simp
qed

lemma mem_byte_store:
  assumes p: "page_ok p" and bs: "length bs = 4096" and j: "j < 4096"
  shows "mem_byte (store_page p bs m) (p + of_nat j) = bs ! j"
proof -
  let ?k = "j div 8 * 8"
  have k: "?k < 4096" "unat (of_nat ?k :: usize) = ?k"
    using j unat_of_nat_small [of ?k, where 'a = 64] by (auto simp del: of_nat_mult)
  then have "store_page p bs m (p + of_nat ?k) = of_le64 (take 8 (drop ?k bs))"
    by (simp add: store_page_def del: of_nat_mult)
  moreover have "?k + 8 \<le> 4096" using j by presburger
  then have "length (take 8 (drop ?k bs)) = 8" using bs by simp
  ultimately have "mem_byte (store_page p bs m) (p + of_nat j) = take 8 (drop ?k bs) ! (j mod 8)"
    unfolding mem_byte_def byte_address [OF p j] by (simp only: le64_of_le64)
  also have "\<dots> = bs ! (?k + j mod 8)" using bs j by simp
  finally show ?thesis by simp
qed

lemma store_page_untouched:
  assumes "page_ok p"
  shows "untouched (page_bytes p) m (store_page p bs m)"
  unfolding untouched_def
proof (intro allI impI)
  fix a :: usize assume a: "unat a \<notin> page_bytes p"
  have "\<not> unat (a - p) < 4096"
  proof
    assume "unat (a - p) < 4096"
    from unat_in_page [OF assms this] have "unat a = unat p + unat (a - p)" by simp
    then show False using a \<open>unat (a - p) < 4096\<close> by (simp add: page_bytes_def)
  qed
  then show "store_page p bs m a = m a" by (simp add: store_page_def)
qed

lemma mem_byte_untouched:
  assumes "untouched Y m m'" "page_ok p" "page_bytes p \<inter> Y = {}" "j < 4096"
  shows "mem_byte m' (p + of_nat j) = mem_byte m (p + of_nat j)"
proof -
  have "unat (p + of_nat (j div 8 * 8)) = unat p + j div 8 * 8"
    using unat_in_page [OF assms(2), of "j div 8 * 8"] assms(4) by simp
  then have "unat (p + of_nat (j div 8 * 8)) \<in> page_bytes p" using assms(4) by (simp add: page_bytes_def)
  then show ?thesis
    unfolding mem_byte_def byte_address [OF assms(2,4)] using untouchedD [OF assms(1)] assms(3) by (metis disjoint_iff)
qed

section \<open>The space of a process\<close>

text \<open>
  The state that loading works on: the heap with the unused bytes \<open>U\<close> and the free pages \<open>A\<close>, the
  user pool with the free pages \<open>V\<close>, and the page table \<open>t\<close>, all apart from each other.
\<close>

definition space :: "usize list \<Rightarrow> usize \<Rightarrow> kmem \<Rightarrow> nat set \<Rightarrow> nat set \<Rightarrow> nat set \<Rightarrow> bool" where
  "space da t st U A V \<longleftrightarrow> heap_pages da st U A \<and> user_pages st V V \<and> kernel_only A \<and> kernel_only V \<and> U \<inter> V = {} \<and>
     pt_tree (km_mem st) t (U \<union> V)"

text \<open>The memory that loading may write to, and a step of it.\<close>

definition reach :: "usize \<Rightarrow> kmem \<Rightarrow> nat set \<Rightarrow> nat set \<Rightarrow> nat set" where
  "reach t st A V = A \<union> V \<union> table_bytes (km_mem st) t"

definition space_step :: "usize \<Rightarrow> kmem \<Rightarrow> nat set \<Rightarrow> nat set \<Rightarrow> kmem \<Rightarrow> nat set \<Rightarrow> nat set \<Rightarrow> bool" where
  "space_step t st A V st' A' V' \<longleftrightarrow> A' \<subseteq> A \<and> V' \<subseteq> V \<and> reach t st' A' V' \<subseteq> reach t st A V \<and>
     untouched (reach t st A V) (km_mem st) (km_mem st') \<and>
     (\<forall>r. path_ok r \<longrightarrow> table_at (km_mem st) t r \<noteq> None \<longrightarrow> table_at (km_mem st') t r = table_at (km_mem st) t r)"

lemma space_step_refl: "space_step t st A V st A V"
  by (simp add: space_step_def)

lemma space_step_trans:
  assumes "space_step t st A V st1 A1 V1" "space_step t st1 A1 V1 st2 A2 V2"
  shows "space_step t st A V st2 A2 V2"
proof -
  have "untouched (reach t st A V) (km_mem st1) (km_mem st2)"
    using assms untouched_mono unfolding space_step_def by blast
  moreover have "table_at (km_mem st2) t r = table_at (km_mem st) t r" if "path_ok r" "table_at (km_mem st) t r \<noteq> None" for r
    using assms that unfolding space_step_def by metis
  ultimately show ?thesis using assms untouched_trans unfolding space_step_def by blast
qed

lemma pt_tree_Un: "pt_tree m t (U \<union> V) \<longleftrightarrow> pt_tree m t U \<and> table_bytes m t \<inter> V = {}"
proof
  assume "pt_tree m t (U \<union> V)"
  then show "pt_tree m t U \<and> table_bytes m t \<inter> V = {}"
    unfolding pt_tree_def table_ok_def table_bytes_def by blast
next
  assume "pt_tree m t U \<and> table_bytes m t \<inter> V = {}"
  then show "pt_tree m t (U \<union> V)" unfolding pt_tree_def table_ok_def table_bytes_def by blast
qed

lemma mapping_untouched:
  assumes "pt_tree m t U" "untouched Y m m'" "Y \<subseteq> U"
  shows "mapping m' t x = mapping m t x"
proof -
  have "mapping m' t x = Some e \<longleftrightarrow> mapping m t x = Some e" for e
    using get_pte_untouched [OF assms] by (simp add: get_pte_mapping)
  then show ?thesis by (metis option.exhaust)
qed

lemma pt_tree_untouched:
  assumes "pt_tree m t U" "untouched Y m m'" "Y \<subseteq> U"
  shows "pt_tree m' t U" "table_bytes m' t = table_bytes m t"
proof -
  note same = table_at_untouched [OF assms]
  show "pt_tree m' t U" using assms(1) unfolding pt_tree_def by (simp add: same)
  show "table_bytes m' t = table_bytes m t" unfolding table_bytes_def by (metis (no_types, lifting) same)
qed

text \<open>A page from the user pool, filled by its owner.\<close>

lemma take_user_page:
  assumes sp: "space da t st U A V" and V: "V \<noteq> {}"
  shows "\<exists>p st'. user_alloc_pages 1 st = Some (p, st') \<and> page_ok p \<and> page_bytes p \<subseteq> V \<and> in_kernel_space p \<and>
    (\<forall>m. untouched (page_bytes p) (km_mem st') m \<longrightarrow>
       space da t (st'\<lparr>km_mem := m\<rparr>) U A (V - page_bytes p) \<and>
       space_step t st A V (st'\<lparr>km_mem := m\<rparr>) A (V - page_bytes p) \<and> untouched V (km_mem st) m)"
proof -
  have h: "heap_pages da st U A" and u: "user_pages st V V" and k: "kernel_only A" "kernel_only V" and UV: "U \<inter> V = {}"
    and tr: "pt_tree (km_mem st) t (U \<union> V)" using sp by (auto simp: space_def)
  from upool.take_write [OF u V] obtain p st' where a: "user_alloc_pages 1 st = Some (p, st')"
    and p: "page_ok p" "page_bytes p \<subseteq> V"
    and w: "\<forall>m Y. untouched Y (km_mem st') m \<longrightarrow> Y \<inter> V \<subseteq> page_bytes p \<longrightarrow>
      user_pages (st'\<lparr>km_mem := m\<rparr>) (V - page_bytes p) (V - page_bytes p) \<and>
      untouched (V \<union> Y) (km_mem st) m" by auto
  have pk: "in_kernel_space p" using k(2) p(2) page_start [of p] unfolding in_kernel_space_iff kernel_only_def by blast
  have hp: "heap_pages da (st'\<lparr>km_mem := m\<rparr>) U A" if "untouched V (km_mem st) m" for m
  proof -
    have "heap_pages da (st\<lparr>km_mem := m\<rparr>) U A" by (rule kheap.write_law [OF h that]) (use UV in blast)
    moreover have "km_palloc st' = km_palloc st" "km_heap st' = km_heap st"
      using a by (auto simp: user_alloc_pages_def bind_eq_Some_conv)
    ultimately show ?thesis by (simp add: heap_pages_def heap_rel_def)
  qed
  have "space da t (st'\<lparr>km_mem := m\<rparr>) U A (V - page_bytes p) \<and>
      space_step t st A V (st'\<lparr>km_mem := m\<rparr>) A (V - page_bytes p) \<and> untouched V (km_mem st) m"
    if m: "untouched (page_bytes p) (km_mem st') m" for m
  proof -
    have up: "user_pages (st'\<lparr>km_mem := m\<rparr>) (V - page_bytes p) (V - page_bytes p)" and "untouched (V \<union> page_bytes p) (km_mem st) m"
      using w m by blast+
    then have un: "untouched V (km_mem st) m" using p(2) by (simp add: Un_absorb2)
    note T = pt_tree_untouched [OF tr un Un_upper2]
    have "pt_tree m t (U \<union> (V - page_bytes p))" using T(1) unfolding pt_tree_Un by blast
    moreover have "kernel_only (V - page_bytes p)" by (rule kernel_only_mono [OF k(2)]) blast
    ultimately have "space da t (st'\<lparr>km_mem := m\<rparr>) U A (V - page_bytes p)"
      using hp [OF un] up k(1) UV by (auto simp: space_def)
    moreover have "untouched (reach t st A V) (km_mem st) m"
      by (rule untouched_mono [OF un]) (auto simp: reach_def)
    ultimately show ?thesis using un T(2) table_at_untouched [OF tr un Un_upper2] by (auto simp: space_step_def reach_def)
  qed
  then show ?thesis using a p pk by blast
qed

text \<open>A page of the kernel space mapped at a user address.\<close>

lemma map_user_page:
  assumes sp: "space da t st U A V" and A: "table_at (km_mem st) t (va_path va) = None \<longrightarrow> 4096 * 2 \<le> card A"
    and f: "flags_ok flag" "flags_contain flag PTE_V" and va: "is_page_aligned va"
    and p: "page_ok p" "in_kernel_space p" and sz: "page_count sz = 1"
  shows "\<exists>st' U' A'. pt_map da t (PhysAddr (p - VM_OFFSET)) va sz flag st = Some st' \<and> space da t st' U' A' V \<and>
    space_step t st A V st' A' V \<and> card A \<le> card A' + (if table_at (km_mem st) t (va_path va) = None then 4096 * 2 else 0) \<and>
    table_at (km_mem st') t (va_path va) \<noteq> None \<and>
    mapping (km_mem st') t = (\<lambda>x. if vpn x = vpn va then Some (entry_new (PhysAddr (p - VM_OFFSET)) flag) else mapping (km_mem st) t x) \<and>
    untouched (A \<union> table_bytes (km_mem st) t) (km_mem st) (km_mem st')"
proof -
  have h: "heap_pages da st U A" and u: "user_pages st V V" and k: "kernel_only A" "kernel_only V" and UV: "U \<inter> V = {}"
    and tr: "pt_tree (km_mem st) t U" "table_bytes (km_mem st) t \<inter> V = {}" using sp by (auto simp: space_def pt_tree_Un)
  have AU: "A \<subseteq> U" using kheap.pages_owned [OF h] by blast
  note ph = kernel_phys [OF p(2) page_ok_aligned [OF p(1)]]
  have "unat sz \<le> 4096" using page_count_bounds(1) [of sz] sz by simp
  then have ov: "unat (phys_value (PhysAddr (p - VM_OFFSET))) + unat sz + 4096 \<le> 2 ^ 64" using ph(3) by simp
  from map_page_ok [OF h A [THEN mp] k(1) tr(1) f, of va "p - VM_OFFSET"] obtain st' U' A' where
    m: "map_page da t (p - VM_OFFSET) va flag st = Some st'" and s: "pt_step da t st U A st' U' A'"
    and c: "card A \<le> card A' + (if table_at (km_mem st) t (va_path va) = None then 4096 * 2 else 0)"
    and t': "table_at (km_mem st') t (va_path va) \<noteq> None"
    and mp: "mapping (km_mem st') t = (\<lambda>x. if vpn x = vpn va then Some (entry_new (from_pa (p - VM_OFFSET)) flag) else mapping (km_mem st) t x)"
    by blast
  have "pt_map da t (PhysAddr (p - VM_OFFSET)) va sz flag st = Some st'"
    using m ph(2) va by (simp add: pt_map_pages [OF ov] sz)
  moreover have "km_user st' = km_user st" by (rule map_page_user [OF m])
  have S: "heap_pages da st' U' A'" "U' \<subseteq> U" "A' \<subseteq> A" "pt_tree (km_mem st') t U'"
    "untouched (A \<union> table_bytes (km_mem st) t) (km_mem st) (km_mem st')"
    "table_bytes (km_mem st') t \<subseteq> A \<union> table_bytes (km_mem st) t" using s by (auto simp: pt_step_def)
  have "user_pages (st\<lparr>km_mem := km_mem st'\<rparr>) V V"
    by (rule upool.write_law [OF u S(5)]) (use AU UV tr(2) in blast)
  then have "user_pages st' V V" using \<open>km_user st' = km_user st\<close> by (simp add: user_pages_def)
  moreover have "table_bytes (km_mem st') t \<inter> V = {}" using S(6) AU UV tr(2) by blast
  ultimately have "space da t st' U' A' V"
    using S(1-4) k kernel_only_mono [OF k(1) S(3)] UV unfolding space_def pt_tree_Un by blast
  moreover have "untouched (reach t st A V) (km_mem st) (km_mem st')"
    by (rule untouched_mono [OF S(5)]) (auto simp: reach_def)
  then have "space_step t st A V st' A' V" using S(3,6) s by (auto simp: space_step_def reach_def pt_step_def)
  ultimately show ?thesis using c t' mp S(5) \<open>pt_map _ _ _ _ _ _ _ = _\<close> unfolding from_pa_def by blast
qed

section \<open>What a process sees\<close>

text \<open>
  The byte and the flags that the page table gives at an address. \<open>holds\<close> says in addition that the page of the byte
  is outside of the memory \<open>Z\<close>.
\<close>

definition holds :: "memory \<Rightarrow> usize \<Rightarrow> nat set \<Rightarrow> usize \<Rightarrow> pte_flags \<Rightarrow> u8 \<Rightarrow> bool" where
  "holds m t Z x f b \<longleftrightarrow> (\<exists>e. mapping m t x = Some e \<and> entry_flag e = f \<and> page_ok (into_va (entry_pa e)) \<and>
     page_bytes (into_va (entry_pa e)) \<inter> Z = {} \<and> mem_byte m (into_va (entry_pa e) + (x AND PG_MASK)) = b)"

lemma page_offset: "\<exists>j < 4096. x AND PG_MASK = of_nat j"
proof -
  have "unat (x AND PG_MASK) < 4096" by (simp add: PG_MASK_eq_mask unat_and_mask)
  then show ?thesis by (intro exI [of _ "unat (x AND PG_MASK)"]) simp
qed

lemma holds_step:
  assumes h: "holds m t Z x f b" and un: "untouched Z m m'" "Z' \<subseteq> Z" and same: "mapping m' t x = mapping m t x"
  shows "holds m' t Z' x f b"
proof -
  obtain e where e: "mapping m t x = Some e" "entry_flag e = f" "page_ok (into_va (entry_pa e))"
    "page_bytes (into_va (entry_pa e)) \<inter> Z = {}" "mem_byte m (into_va (entry_pa e) + (x AND PG_MASK)) = b"
    using h by (auto simp: holds_def)
  obtain j where j: "j < 4096" "x AND PG_MASK = of_nat j" using page_offset by blast
  have "mem_byte m' (into_va (entry_pa e) + (x AND PG_MASK)) = b"
    using mem_byte_untouched [OF un(1) e(3,4) j(1)] e(5) j(2) by simp
  moreover have "page_bytes (into_va (entry_pa e)) \<inter> Z' = {}" using e(4) un(2) by blast
  ultimately show ?thesis using e(1-3) same unfolding holds_def by (intro exI [of _ e]) simp
qed

lemma user_page_entry:
  assumes "page_ok p" "in_kernel_space p" "flags_ok flag"
  shows "into_va (entry_pa (entry_new (PhysAddr (p - VM_OFFSET)) flag)) = p"
    "entry_flag (entry_new (PhysAddr (p - VM_OFFSET)) flag) = flag"
proof -
  note k = kernel_phys [OF assms(2) page_ok_aligned [OF assms(1)]]
  have "entry_pa (entry_new (PhysAddr (p - VM_OFFSET)) flag) = PhysAddr (p - VM_OFFSET)"
    using k(2,3) by (intro entry_new_pa [OF assms(3)]) (simp_all add: aligned_phys)
  then show "into_va (entry_pa (entry_new (PhysAddr (p - VM_OFFSET)) flag)) = p"
    using into_va_phys_from_va [OF k(1)] by simp
  show "entry_flag (entry_new (PhysAddr (p - VM_OFFSET)) flag) = flag" by (rule entry_new_flag [OF assms(3)])
qed

lemma in_page:
  assumes "is_page_aligned va" "j < 4096"
  shows "vpn (va + of_nat j) = vpn va" "(va + of_nat j) AND PG_MASK = of_nat j"
proof -
  obtain c where c: "unat va = 4096 * c" using assms(1) by (auto simp: is_page_aligned_iff elim: dvdE)
  have "c < 2 ^ 52" using c unat_usize_less [of va] by simp
  moreover have "unat (of_nat j :: usize) = j" using assms(2) by (subst unat_of_nat_small) auto
  ultimately have u: "unat (va + of_nat j) = 4096 * c + j" using assms(2) c by (subst unat_add_no_wrap) auto
  have "(4096 * c + j) div 4096 = c" "(4096 * c + j) mod 4096 = j" using assms(2) by auto
  then show "vpn (va + of_nat j) = vpn va" unfolding vpn_eq_iff u c by simp
  have "unat ((va + of_nat j) AND PG_MASK) = (4096 * c + j) mod 4096" by (simp add: PG_MASK_eq_mask unat_and_mask u)
  also have "\<dots> = unat (of_nat j :: usize)" using \<open>unat (of_nat j :: usize) = j\<close> assms(2) by simp
  finally show "(va + of_nat j) AND PG_MASK = of_nat j" by (simp add: word_unat_eq_iff)
qed

section \<open>Loading a page\<close>

lemma load_page_ok:
  assumes sp: "space da t st U A V" and V: "V \<noteq> {}" and A: "table_at (km_mem st) t (va_path va) = None \<longrightarrow> 4096 * 2 \<le> card A"
    and f: "flags_ok flag" "flags_contain flag PTE_V" and va: "is_page_aligned va" "va = ubase + q * PG_SIZE"
    and src: "slice_sub filebuf (unat readpos) (unat (min readbytes PG_SIZE)) = Some src"
  shows "\<exists>st' U' A' V'. load_page da filebuf t ubase flag q readpos readbytes st =
      Some (readpos + min readbytes PG_SIZE, readbytes - min readbytes PG_SIZE, st') \<and>
    space da t st' U' A' V' \<and> space_step t st A V st' A' V' \<and> card V = card V' + 4096 \<and>
    card A \<le> card A' + (if table_at (km_mem st) t (va_path va) = None then 4096 * 2 else 0) \<and>
    table_at (km_mem st') t (va_path va) \<noteq> None \<and>
    (\<forall>x. vpn x \<noteq> vpn va \<longrightarrow> mapping (km_mem st') t x = mapping (km_mem st) t x) \<and>
    (\<forall>j < 4096. holds (km_mem st') t (reach t st' A' V') (va + of_nat j) flag (if j < length src then src ! j else 0))"
proof -
  let ?rs = "min readbytes PG_SIZE"
  have rs: "unat ?rs \<le> 4096" "length src = unat ?rs"
    using src by (auto simp: slice_sub_def min_def word_le_nat_alt split: if_splits)
  define bs where "bs = src @ replicate (4096 - unat ?rs) 0"
  have bs: "length bs = 4096" "bs ! j = (if j < length src then src ! j else 0)" if "j < 4096" for j
    using that rs by (auto simp: bs_def nth_append)
  have lb: "length bs = 4096" using bs(1) [of 0] by simp
  from take_user_page [OF sp V] obtain p st1 where a: "user_alloc_pages 1 st = Some (p, st1)"
    and p: "page_ok p" "page_bytes p \<subseteq> V" "in_kernel_space p"
    and w: "\<forall>m. untouched (page_bytes p) (km_mem st1) m \<longrightarrow> space da t (st1\<lparr>km_mem := m\<rparr>) U A (V - page_bytes p) \<and>
       space_step t st A V (st1\<lparr>km_mem := m\<rparr>) A (V - page_bytes p) \<and> untouched V (km_mem st) m" by blast
  define m where "m = store_page p bs (km_mem st1)"
  let ?st = "st1\<lparr>km_mem := m\<rparr>" and ?V = "V - page_bytes p"
  have s1: "space da t ?st U A ?V" "space_step t st A V ?st A ?V" "untouched V (km_mem st) m"
    using w store_page_untouched [OF p(1), of "km_mem st1" bs] unfolding m_def by blast+
  have tr: "pt_tree (km_mem st) t (U \<union> V)" using sp by (simp add: space_def)
  have keep: "mapping m t x = mapping (km_mem st) t x" "table_at m t (va_path va) = table_at (km_mem st) t (va_path va)" for x
    by (rule mapping_untouched [OF tr s1(3)], simp) (rule table_at_untouched [OF tr s1(3) _ path_ok_va], simp)
  have one: "page_count 1 = 1" by (simp add: page_count_def)
  have km: "km_mem ?st = m" by simp
  have "table_at (km_mem ?st) t (va_path va) = None \<longrightarrow> 4096 * 2 \<le> card A" using A keep(2) by simp
  from map_user_page [OF s1(1) this f va(1) p(1,3) one, unfolded km keep(2)] obtain st' U' A' where
    mp: "pt_map da t (PhysAddr (p - VM_OFFSET)) va 1 flag ?st = Some st'" and s2: "space da t st' U' A' ?V"
    "space_step t ?st A ?V st' A' ?V"
    and c: "card A \<le> card A' + (if table_at (km_mem st) t (va_path va) = None then 4096 * 2 else 0)"
    and t': "table_at (km_mem st') t (va_path va) \<noteq> None"
    and g: "mapping (km_mem st') t = (\<lambda>x. if vpn x = vpn va then Some (entry_new (PhysAddr (p - VM_OFFSET)) flag) else mapping m t x)"
    and un: "untouched (A \<union> table_bytes m t) m (km_mem st')"
    by blast
  have UV: "U \<inter> V = {}" "A \<subseteq> U" and fin: "finite V"
    using sp kheap.pages_owned [of da st U A] upool.pages_owned [of st V V] by (auto simp: space_def)
  have "table_bytes m t \<inter> V = {}" using pt_tree_untouched [OF tr s1(3)] tr by (simp add: pt_tree_Un)
  then have pZ: "page_bytes p \<inter> (A \<union> table_bytes m t) = {}" using UV p(2) by blast
  have "table_bytes (km_mem st') t \<subseteq> A \<union> ?V \<union> table_bytes m t" "A' \<subseteq> A" using s2(2) by (auto simp: space_step_def reach_def)
  then have pR: "page_bytes p \<inter> reach t st' A' ?V = {}" using pZ unfolding reach_def by blast
  have "holds (km_mem st') t (reach t st' A' ?V) (va + of_nat j) flag (if j < length src then src ! j else 0)" if j: "j < 4096" for j
  proof -
    have "mem_byte (km_mem st') (p + of_nat j) = bs ! j"
      using mem_byte_untouched [OF un p(1) pZ j] mem_byte_store [OF p(1) lb j] by (simp add: m_def)
    then show ?thesis
      unfolding holds_def using g in_page [OF va(1) j] user_page_entry [OF p(1,3) f(1)] p(1) pR bs(2) [OF j]
      by (intro exI [of _ "entry_new (PhysAddr (p - VM_OFFSET)) flag"]) simp
  qed
  moreover have "card V = card ?V + 4096"
    using card_Diff_subset [of "page_bytes p" V] card_mono [OF fin p(2)] p(2) by (simp add: page_bytes_def)
  moreover have "load_page da filebuf t ubase flag q readpos readbytes st = Some (readpos + ?rs, readbytes - ?rs, st')"
    using a p(1) src mp into_va_from_va [OF p(3)] va(2)
    by (simp add: load_page_def Let_def page_ok_def m_def bs_def)
  ultimately show ?thesis
    using s2(1) space_step_trans [OF s1(2) s2(2)] c t' g keep by (intro exI [of _ st'] exI [of _ U'] exI [of _ A'] exI [of _ ?V]) simp
qed

text \<open>
  The pages of a segment: \<open>n\<close> pages from \<open>va\<close> on with the bytes of the file from \<open>readpos\<close> on,
  \<open>readbytes\<close> of them and zeros afterwards.
\<close>

definition file_byte :: "u8 list \<Rightarrow> usize \<Rightarrow> usize \<Rightarrow> nat \<Rightarrow> u8" where
  "file_byte filebuf readpos readbytes i = (if i < unat readbytes then filebuf ! (unat readpos + i) else 0)"

lemma slice_page:
  assumes "unat readpos + unat readbytes \<le> length filebuf" "length filebuf < 2 ^ 63"
  defines "rs \<equiv> min readbytes PG_SIZE"
  shows "\<exists>src. slice_sub filebuf (unat readpos) (unat rs) = Some src \<and>
      (\<forall>j < 4096. (if j < length src then src ! j else 0) = file_byte filebuf readpos readbytes j)"
    "unat (readpos + rs) = unat readpos + unat rs" "unat (readbytes - rs) = unat readbytes - 4096"
    "unat (readpos + rs) + unat (readbytes - rs) \<le> length filebuf"
    "file_byte filebuf (readpos + rs) (readbytes - rs) i = file_byte filebuf readpos readbytes (4096 + i)"
proof -
  have u: "unat rs = min (unat readbytes) 4096" by (simp add: rs_def min_def word_le_nat_alt)
  show "\<exists>src. slice_sub filebuf (unat readpos) (unat rs) = Some src \<and>
      (\<forall>j < 4096. (if j < length src then src ! j else 0) = file_byte filebuf readpos readbytes j)"
    using assms(1) u by (auto simp: slice_sub_def file_byte_def)
  show p: "unat (readpos + rs) = unat readpos + unat rs" using assms u by (subst unat_add_no_wrap) auto
  have le: "rs \<le> readbytes" by (simp add: rs_def)
  show b: "unat (readbytes - rs) = unat readbytes - 4096" using unat_diff_no_wrap [of rs readbytes] le u by (simp add: word_le_nat_alt)
  show "unat (readpos + rs) + unat (readbytes - rs) \<le> length filebuf" using p b u assms(1) by simp
  show "file_byte filebuf (readpos + rs) (readbytes - rs) i = file_byte filebuf readpos readbytes (4096 + i)"
    using p b u by (auto simp: file_byte_def min_def ac_simps)
qed

lemma load_pages_ok:
  assumes "space da t st U A V" "4096 * n \<le> card V" "4096 * tables_needed n va fresh \<le> card A"
    and "\<not> fresh \<longrightarrow> table_at (km_mem st) t (va_path va) \<noteq> None"
    and f: "flags_ok flag" "flags_contain flag PTE_V"
    and va: "is_page_aligned va" "va = ubase + of_nat i * PG_SIZE" "unat va + 4096 * n \<le> 2 ^ 64" "n \<le> 2 ^ 27"
    and "unat readpos + unat readbytes \<le> length filebuf" "length filebuf < 2 ^ 63"
  shows "\<exists>readpos' readbytes' st' U' A' V'.
    load_pages da filebuf t ubase flag (map of_nat [i..<i + n]) readpos readbytes st = Some (readpos', readbytes', st') \<and>
    unat readbytes' = unat readbytes - 4096 * n \<and>
    space da t st' U' A' V' \<and> space_step t st A V st' A' V' \<and> card V = card V' + 4096 * n \<and>
    card A \<le> card A' + 4096 * tables_needed n va fresh \<and>
    (\<forall>x. (\<forall>k < n. vpn x \<noteq> vpn (va + 4096 * of_nat k)) \<longrightarrow> mapping (km_mem st') t x = mapping (km_mem st) t x) \<and>
    (\<forall>k < n. \<forall>j < 4096. holds (km_mem st') t (reach t st' A' V') (va + 4096 * of_nat k + of_nat j) flag
       (file_byte filebuf readpos readbytes (4096 * k + j)))"
  using assms
proof (induction n arbitrary: st U A V va fresh i readpos readbytes)
  case 0
  then show ?case using space_step_refl by (intro exI [of _ readpos] exI [of _ readbytes] exI [of _ st] exI [of _ U] exI [of _ A] exI [of _ V]) simp
next
  case (Suc n)
  let ?rs = "min readbytes PG_SIZE" and ?va = "va + PG_SIZE"
  let ?none = "table_at (km_mem st) t (va_path va) = None" and ?rest = "tables_needed n (va + PG_SIZE) (px 0 (va + PG_SIZE) = 0)"
  note pg = slice_page [OF Suc.prems(11,12)]
  obtain src where src: "slice_sub filebuf (unat readpos) (unat ?rs) = Some src"
    "\<forall>j < 4096. (if j < length src then src ! j else 0) = file_byte filebuf readpos readbytes j" using pg(1) by blast
  have V: "V \<noteq> {}" using Suc.prems(2) by auto
  have none: "?none \<longrightarrow> 4096 * 2 \<le> card A" using Suc.prems(3,4) by (cases fresh) auto
  from load_page_ok [OF Suc.prems(1) V none f Suc.prems(7,8) src(1)] obtain st1 U1 A1 V1 where
    l1: "load_page da filebuf t ubase flag (of_nat i) readpos readbytes st = Some (readpos + ?rs, readbytes - ?rs, st1)"
    and s1: "space da t st1 U1 A1 V1" "space_step t st A V st1 A1 V1" and cV: "card V = card V1 + 4096"
    and cA: "card A \<le> card A1 + (if ?none then 4096 * 2 else 0)" and t1: "table_at (km_mem st1) t (va_path va) \<noteq> None"
    and m1: "\<forall>x. vpn x \<noteq> vpn va \<longrightarrow> mapping (km_mem st1) t x = mapping (km_mem st) t x"
    and h1: "\<forall>j < 4096. holds (km_mem st1) t (reach t st1 A1 V1) (va + of_nat j) flag (if j < length src then src ! j else 0)"
    by blast
  have "(if ?none then 4096 * 2 else 0) \<le> (4096::nat) * (if fresh then 2 else 0)" using Suc.prems(4) by auto
  then have A1: "4096 * ?rest \<le> card A1" "card A \<le> card A1 + 4096 * (if fresh then 2 else 0)"
    using Suc.prems(3) cA by (simp_all split: if_splits)
  have sh: "?va + 4096 * of_nat k = va + 4096 * of_nat (Suc k)" for k by (simp add: algebra_simps)
  have va': "is_page_aligned ?va" "?va = ubase + of_nat (Suc i) * PG_SIZE" "unat ?va + 4096 * n \<le> 2 ^ 64"
  proof -
    have "4096 dvd (unat va + 4096) mod 2 ^ 64" using Suc.prems(7) by (intro dvd_mod) (auto simp: is_page_aligned_iff)
    then show "is_page_aligned ?va" by (simp add: is_page_aligned_iff unat_word_ariths)
    show "?va = ubase + of_nat (Suc i) * PG_SIZE" unfolding Suc.prems(8) by (simp add: algebra_simps)
    show "unat ?va + 4096 * n \<le> 2 ^ 64"
    proof (cases n)
      case (Suc n')
      then have "unat ?va = unat va + 4096" using Suc.prems(9) by (subst unat_add_no_wrap) auto
      then show ?thesis using Suc.prems(9) by simp
    qed (use unat_usize_less [of ?va] in simp)
  qed
  have fr: "\<not> px 0 ?va = 0 \<longrightarrow> table_at (km_mem st1) t (va_path ?va) \<noteq> None" using t1 va_path_next by simp
  have n: "4096 * n \<le> card V1" "n \<le> 2 ^ 27" using Suc.prems(2,10) cV by simp_all
  from Suc.IH [OF s1(1) n(1) A1(1) fr f va' n(2) pg(4) Suc.prems(12)] obtain rp rb st' U' A' V' where
    l2: "load_pages da filebuf t ubase flag (map of_nat [Suc i..<Suc i + n]) (readpos + ?rs) (readbytes - ?rs) st1 = Some (rp, rb, st')"
    and rb: "unat rb = unat (readbytes - ?rs) - 4096 * n" and s2: "space da t st' U' A' V'" "space_step t st1 A1 V1 st' A' V'"
    and c2: "card V1 = card V' + 4096 * n" "card A1 \<le> card A' + 4096 * ?rest"
    and m2: "\<forall>x. (\<forall>k < n. vpn x \<noteq> vpn (?va + 4096 * of_nat k)) \<longrightarrow> mapping (km_mem st') t x = mapping (km_mem st1) t x"
    and h2: "\<forall>k < n. \<forall>j < 4096. holds (km_mem st') t (reach t st' A' V') (?va + 4096 * of_nat k + of_nat j) flag
       (file_byte filebuf (readpos + ?rs) (readbytes - ?rs) (4096 * k + j))" by blast
  have "[i..<i + Suc n] = i # [Suc i..<Suc i + n]" by (simp add: upt_rec)
  then have L: "load_pages da filebuf t ubase flag (map of_nat [i..<i + Suc n]) readpos readbytes st = Some (rp, rb, st')"
    using l1 l2 by (simp del: upt_Suc)
  have M: "mapping (km_mem st') t x = mapping (km_mem st) t x" if x: "\<forall>k < Suc n. vpn x \<noteq> vpn (va + 4096 * of_nat k)" for x
  proof -
    have "vpn x \<noteq> vpn va" using x [rule_format, of 0] by simp
    moreover have "\<forall>k < n. vpn x \<noteq> vpn (?va + 4096 * of_nat k)" using x unfolding sh by blast
    ultimately show ?thesis using m1 m2 by simp
  qed
  have H: "holds (km_mem st') t (reach t st' A' V') (va + 4096 * of_nat k + of_nat j) flag
      (file_byte filebuf readpos readbytes (4096 * k + j))" if k: "k < Suc n" and j: "j < 4096" for k j
  proof (cases k)
    case 0
    have "vpn (va + of_nat j) \<noteq> vpn (?va + 4096 * of_nat k')" if "k' < n" for k'
      using range_inj [OF Suc.prems(9,10), of 0 "Suc k'"] that in_page(1) [OF Suc.prems(7) j] unfolding sh by auto
    then have "mapping (km_mem st') t (va + of_nat j) = mapping (km_mem st1) t (va + of_nat j)" using m2 by blast
    moreover have "holds (km_mem st1) t (reach t st1 A1 V1) (va + of_nat j) flag (file_byte filebuf readpos readbytes j)"
      using h1 src(2) j by simp
    ultimately show ?thesis using 0 holds_step s2(2) by (simp add: space_step_def)
  next
    case (Suc k')
    then have "holds (km_mem st') t (reach t st' A' V') (?va + 4096 * of_nat k' + of_nat j) flag
       (file_byte filebuf (readpos + ?rs) (readbytes - ?rs) (4096 * k' + j))" using h2 k j by simp
    then show ?thesis unfolding sh pg(5) Suc by (simp add: ac_simps)
  qed
  have "card V = card V' + 4096 * Suc n" "card A \<le> card A' + 4096 * tables_needed (Suc n) va fresh"
    "unat rb = unat readbytes - 4096 * Suc n" using cV c2 A1(2) rb pg(3) by simp_all
  then show ?case using L s2(1) space_step_trans [OF s1(2) s2(2)] M H by blast
qed

section \<open>Loading a segment\<close>

text \<open>
  A segment that fits: its part of the file exists, address and offset agree modulo the page size, it is not larger in the
  file than in memory, and it lies in the lower half of the address space.
\<close>

definition segment_fits :: "u8 list \<Rightarrow> phdr \<Rightarrow> bool" where
  "segment_fits filebuf ph \<longleftrightarrow> ph_type ph = LOAD \<and> length filebuf < 2 ^ 63 \<and>
     unat (ph_offset ph) mod 4096 = unat (ph_vaddr ph) mod 4096 \<and> unat (ph_filesz ph) \<le> unat (ph_memsz ph) \<and>
     unat (ph_offset ph) + unat (ph_filesz ph) \<le> length filebuf \<and> unat (ph_vaddr ph) + unat (ph_memsz ph) < 2 ^ 38 - 4096"

definition segment_pages :: "phdr \<Rightarrow> nat" where
  "segment_pages ph = (unat (ph_vaddr ph) mod 4096 + unat (ph_memsz ph) + 4095) div 4096"

definition segment_base :: "phdr \<Rightarrow> usize" where
  "segment_base ph = ph_vaddr ph AND NOT PG_MASK"

definition in_segment :: "phdr \<Rightarrow> usize \<Rightarrow> bool" where
  "in_segment ph x \<longleftrightarrow> (\<exists>k < segment_pages ph. vpn x = vpn (segment_base ph + 4096 * of_nat k))"

text \<open>The byte of the program at offset \<open>i\<close> of the segment.\<close>

definition segment_byte :: "u8 list \<Rightarrow> phdr \<Rightarrow> nat \<Rightarrow> u8" where
  "segment_byte filebuf ph i = (if i < unat (ph_filesz ph) then filebuf ! (unat (ph_offset ph) + i) else 0)"

lemma segment_flags_ok: "flags_ok (segment_flags ph)" "flags_contain (segment_flags ph) PTE_V"
  by (cases "ph_execute ph"; cases "ph_write ph";
      simp add: segment_flags_def flags_ok_def flags_contain_def PTE_V_def PTE_U_def PTE_R_def PTE_X_def PTE_W_def)+

lemma segment_geometry:
  assumes "segment_fits filebuf ph"
  shows "unat (segment_base ph) = unat (ph_vaddr ph) div 4096 * 4096" "is_page_aligned (segment_base ph)"
    "div_round_up ((ph_vaddr ph AND PG_MASK) + ph_memsz ph) PG_SIZE = Some (of_nat (segment_pages ph))"
    "unat (of_nat (segment_pages ph) :: usize) = segment_pages ph" "segment_pages ph \<le> 2 ^ 26"
    "unat (segment_base ph) + 4096 * segment_pages ph < 2 ^ 38"
    "unat (ph_filesz ph + (ph_vaddr ph AND PG_MASK)) = unat (ph_filesz ph) + unat (ph_vaddr ph) mod 4096"
    "unat (ph_vaddr ph) mod 4096 + unat (ph_memsz ph) \<le> 4096 * segment_pages ph"
proof -
  have f: "unat (ph_vaddr ph) + unat (ph_memsz ph) < 2 ^ 38 - 4096" "unat (ph_filesz ph) \<le> unat (ph_memsz ph)"
    using assms by (auto simp: segment_fits_def)
  let ?v = "unat (ph_vaddr ph)" and ?o = "unat (ph_vaddr ph) mod 4096"
  show b: "unat (segment_base ph) = ?v div 4096 * 4096" by (simp add: segment_base_def PG_MASK_eq_mask unat_and_not_mask)
  then show "is_page_aligned (segment_base ph)" by (simp add: is_page_aligned_iff)
  have o: "unat (ph_vaddr ph AND PG_MASK) = ?o" by (simp add: PG_MASK_eq_mask unat_and_mask)
  have vo: "?v = unat (segment_base ph) + ?o" unfolding b by simp
  have lo: "?o < 4096" by simp
  have n: "4096 * segment_pages ph \<le> ?o + unat (ph_memsz ph) + 4095"
    unfolding segment_pages_def by (rule times_div_less_eq_dividend)
  then show "unat (segment_base ph) + 4096 * segment_pages ph < 2 ^ 38" using f(1) vo by linarith
  then show p: "segment_pages ph \<le> 2 ^ 26" by simp
  then show np: "unat (of_nat (segment_pages ph) :: usize) = segment_pages ph" by (intro unat_of_nat_small) simp
  let ?n = "(ph_vaddr ph AND PG_MASK) + ph_memsz ph"
  have un: "unat ?n = ?o + unat (ph_memsz ph)" using f(1) vo by (subst unat_add_no_wrap) (auto simp: o)
  have "unat ((?n + mask 12) AND NOT (mask 12) :: usize) = segment_pages ph * 4096"
    using unat_round_up [of 12 ?n] un f(1) vo by (simp add: segment_pages_def)
  then have "unat (((?n + mask 12) AND NOT (mask 12)) div 4096) = segment_pages ph" by (simp add: unat_div)
  then have "((?n + mask 12) AND NOT (mask 12)) div 4096 = of_nat (segment_pages ph)" using np by (simp add: word_unat_eq_iff)
  moreover have "is_power_of_two 4096" using is_power_of_two_exp [of 12] by simp
  moreover have "round_up ?n 4096 = Some ((?n + mask 12) AND NOT (mask 12))" using round_up_exp [of 12 ?n] by simp
  ultimately show "div_round_up ?n PG_SIZE = Some (of_nat (segment_pages ph))" by (simp add: div_round_up_def)
  show "unat (ph_filesz ph + (ph_vaddr ph AND PG_MASK)) = unat (ph_filesz ph) + ?o"
    using f vo by (subst unat_add_no_wrap) (auto simp: o)
  show "?o + unat (ph_memsz ph) \<le> 4096 * segment_pages ph" unfolding segment_pages_def by linarith
qed

lemma load_segment_ok:
  assumes sp: "space da t st U A V" and fits: "segment_fits filebuf ph" and V: "4096 * segment_pages ph \<le> card V"
    and A: "4096 * tables_needed (segment_pages ph) (segment_base ph) True \<le> card A"
  shows "\<exists>st' U' A' V'. load_segment da filebuf ph t st = Some st' \<and> space da t st' U' A' V' \<and>
    space_step t st A V st' A' V' \<and> card V = card V' + 4096 * segment_pages ph \<and>
    card A \<le> card A' + 4096 * tables_needed (segment_pages ph) (segment_base ph) True \<and>
    (\<forall>x. \<not> in_segment ph x \<longrightarrow> mapping (km_mem st') t x = mapping (km_mem st) t x) \<and>
    (\<forall>i < unat (ph_memsz ph). in_segment ph (ph_vaddr ph + of_nat i) \<and>
      holds (km_mem st') t (reach t st' A' V') (ph_vaddr ph + of_nat i) (segment_flags ph) (segment_byte filebuf ph i))"
proof -
  note g = segment_geometry [OF fits] and fl = segment_flags_ok [of ph]
  let ?o = "unat (ph_vaddr ph) mod 4096" and ?n = "segment_pages ph"
  define rp rb where "rp = ph_offset ph AND NOT PG_MASK" and "rb = ph_filesz ph + (ph_vaddr ph AND PG_MASK)"
  have f: "ph_type ph = LOAD" "unat (ph_offset ph) mod 4096 = ?o" "unat (ph_filesz ph) \<le> unat (ph_memsz ph)"
    "unat (ph_offset ph) + unat (ph_filesz ph) \<le> length filebuf" "length filebuf < 2 ^ 63"
    using fits by (auto simp: segment_fits_def)
  have rp: "unat (ph_offset ph) = unat rp + ?o" and rb: "unat rb = unat (ph_filesz ph) + ?o"
    using f(2) g(7) div_mult_mod_eq [of "unat (ph_offset ph)" 4096]
    by (simp_all add: rp_def rb_def PG_MASK_eq_mask unat_and_not_mask)
  have fb: "unat rp + unat rb \<le> length filebuf" using rp rb f(4) by linarith
  have b: "segment_base ph = segment_base ph + of_nat 0 * PG_SIZE" by simp
  have ov: "unat (segment_base ph) + 4096 * ?n \<le> 2 ^ 64" "?n \<le> 2 ^ 27" using g(5,6) by simp_all
  from load_pages_ok [OF sp V A _ fl g(2) b ov fb f(5)] obtain rp' rb' st' U' A' V' where
    l: "load_pages da filebuf t (segment_base ph) (segment_flags ph) (map of_nat [0..<?n]) rp rb st = Some (rp', rb', st')"
    and rb': "unat rb' = unat rb - 4096 * ?n" and s: "space da t st' U' A' V'" "space_step t st A V st' A' V'"
    and c: "card V = card V' + 4096 * ?n" "card A \<le> card A' + 4096 * tables_needed ?n (segment_base ph) True"
    and m: "\<forall>x. (\<forall>k < ?n. vpn x \<noteq> vpn (segment_base ph + 4096 * of_nat k)) \<longrightarrow> mapping (km_mem st') t x = mapping (km_mem st) t x"
    and h: "\<forall>k < ?n. \<forall>j < 4096. holds (km_mem st') t (reach t st' A' V') (segment_base ph + 4096 * of_nat k + of_nat j)
      (segment_flags ph) (file_byte filebuf rp rb (4096 * k + j))" by auto
  have "unat rb \<le> 4096 * ?n" using rb g(8) f(3) by linarith
  then have "rb' = 0" using rb' by (simp add: unat_eq_zero)
  moreover have "ph_offset ph AND PG_MASK = ph_vaddr ph AND PG_MASK"
    using f(2) by (simp add: word_unat_eq_iff PG_MASK_eq_mask unat_and_mask)
  moreover have "word_range 0 (of_nat ?n :: usize) = map of_nat [0..<?n]" by (simp add: word_range_def g(4))
  ultimately have "load_segment da filebuf ph t st = Some st'"
    using l g(3) f(1) by (simp add: load_segment_def rp_def rb_def segment_base_def)
  moreover have "in_segment ph (ph_vaddr ph + of_nat i) \<and>
      holds (km_mem st') t (reach t st' A' V') (ph_vaddr ph + of_nat i) (segment_flags ph) (segment_byte filebuf ph i)"
    if i: "i < unat (ph_memsz ph)" for i
  proof -
    define k j where "k = (?o + i) div 4096" and "j = (?o + i) mod 4096"
    have kj: "4096 * k + j = ?o + i" "j < 4096" by (simp_all add: k_def j_def)
    have "4096 * k < 4096 * ?n" using kj(1) i g(8) by linarith
    then have k: "k < ?n" by simp
    have "ph_vaddr ph = segment_base ph + of_nat ?o"
      using g(1) unat_usize_less [of "ph_vaddr ph"]
      by (simp add: segment_base_def PG_MASK_eq_mask word_unat_eq_iff unat_word_ariths unat_of_nat)
    then have "ph_vaddr ph + of_nat i = segment_base ph + of_nat (4096 * k + j)" unfolding kj(1) by (simp add: add.assoc)
    then have x: "ph_vaddr ph + of_nat i = segment_base ph + 4096 * of_nat k + of_nat j" by (simp add: add.assoc)
    have al: "is_page_aligned (segment_base ph + 4096 * of_nat k)"
      using g(2) unat_range [OF ov(1) k] by (simp add: is_page_aligned_iff)
    have "file_byte filebuf rp rb (4096 * k + j) = segment_byte filebuf ph i"
      unfolding kj(1) file_byte_def segment_byte_def rb rp by (simp add: ac_simps)
    then show ?thesis unfolding x in_segment_def using h k kj(2) in_page(1) [OF al kj(2)] by metis
  qed
  ultimately show ?thesis using s c m unfolding in_segment_def by blast
qed

text \<open>A program header that does not fit is not an error but a panic.\<close>

lemma load_segment_mismatch_panics:
  assumes "ph_offset ph AND PG_MASK \<noteq> ph_vaddr ph AND PG_MASK"
  shows "load_segment da filebuf ph t st = None"
  using assms by (simp add: load_segment_def)

section \<open>Loading a program\<close>

definition segments_apart :: "phdr list \<Rightarrow> bool" where
  "segments_apart phs \<longleftrightarrow> sorted_wrt (\<lambda>p q. \<forall>x. \<not> (in_segment p x \<and> in_segment q x)) phs"

definition program_pages :: "phdr list \<Rightarrow> nat" where
  "program_pages phs = sum_list (map segment_pages phs)"

definition program_tables :: "phdr list \<Rightarrow> nat" where
  "program_tables phs = sum_list (map (\<lambda>ph. tables_needed (segment_pages ph) (segment_base ph) True) phs)"

lemma space_step_holds:
  assumes "space_step t st A V st' A' V'" "holds (km_mem st) t (reach t st A V) x f b" "mapping (km_mem st') t x = mapping (km_mem st) t x"
  shows "holds (km_mem st') t (reach t st' A' V') x f b"
  using assms by (auto simp: space_step_def intro: holds_step)

lemma load_segments_ok:
  assumes "space da t st U A V" "\<forall>ph \<in> set phs. segment_fits filebuf ph" "segments_apart phs"
    and "4096 * program_pages phs \<le> card V" "4096 * program_tables phs \<le> card A"
  shows "\<exists>st' U' A' V'. load_segments da filebuf phs t st = Some st' \<and> space da t st' U' A' V' \<and>
    space_step t st A V st' A' V' \<and> card V = card V' + 4096 * program_pages phs \<and> card A \<le> card A' + 4096 * program_tables phs \<and>
    (\<forall>x. (\<forall>ph \<in> set phs. \<not> in_segment ph x) \<longrightarrow> mapping (km_mem st') t x = mapping (km_mem st) t x) \<and>
    (\<forall>ph \<in> set phs. \<forall>i < unat (ph_memsz ph). in_segment ph (ph_vaddr ph + of_nat i) \<and>
      holds (km_mem st') t (reach t st' A' V') (ph_vaddr ph + of_nat i) (segment_flags ph) (segment_byte filebuf ph i))"
  using assms
proof (induction phs arbitrary: st U A V)
  case Nil
  then show ?case using space_step_refl
    by (intro exI [of _ st] exI [of _ U] exI [of _ A] exI [of _ V]) (simp add: program_pages_def program_tables_def)
next
  case (Cons ph phs)
  let ?T = "tables_needed (segment_pages ph) (segment_base ph) True"
  have n: "program_pages (ph # phs) = segment_pages ph + program_pages phs" "program_tables (ph # phs) = ?T + program_tables phs"
    by (simp_all add: program_pages_def program_tables_def)
  have fits: "segment_fits filebuf ph" and ap: "segments_apart phs" using Cons.prems(2,3) by (auto simp: segments_apart_def)
  have apart: "\<not> in_segment q x" if "q \<in> set phs" "in_segment ph x" for q x
    using Cons.prems(3) that by (auto simp: segments_apart_def)
  have room: "4096 * segment_pages ph \<le> card V" "4096 * ?T \<le> card A" using Cons.prems(4,5) n by simp_all
  from load_segment_ok [OF Cons.prems(1) fits room] obtain st1 U1 A1 V1 where
    l: "load_segment da filebuf ph t st = Some st1" and s1: "space da t st1 U1 A1 V1" "space_step t st A V st1 A1 V1"
    and c1: "card V = card V1 + 4096 * segment_pages ph" "card A \<le> card A1 + 4096 * ?T"
    and m1: "\<forall>x. \<not> in_segment ph x \<longrightarrow> mapping (km_mem st1) t x = mapping (km_mem st) t x"
    and h1: "\<forall>i < unat (ph_memsz ph). in_segment ph (ph_vaddr ph + of_nat i) \<and>
      holds (km_mem st1) t (reach t st1 A1 V1) (ph_vaddr ph + of_nat i) (segment_flags ph) (segment_byte filebuf ph i)" by blast
  have "4096 * program_pages phs \<le> card V1" "4096 * program_tables phs \<le> card A1" using Cons.prems(4,5) n c1 by simp_all
  from Cons.IH [OF s1(1) _ ap this] Cons.prems(2) obtain st' U' A' V' where
    l2: "load_segments da filebuf phs t st1 = Some st'" and s2: "space da t st' U' A' V'" "space_step t st1 A1 V1 st' A' V'"
    and c2: "card V1 = card V' + 4096 * program_pages phs" "card A1 \<le> card A' + 4096 * program_tables phs"
    and m2: "\<forall>x. (\<forall>q \<in> set phs. \<not> in_segment q x) \<longrightarrow> mapping (km_mem st') t x = mapping (km_mem st1) t x"
    and h2: "\<forall>q \<in> set phs. \<forall>i < unat (ph_memsz q). in_segment q (ph_vaddr q + of_nat i) \<and>
      holds (km_mem st') t (reach t st' A' V') (ph_vaddr q + of_nat i) (segment_flags q) (segment_byte filebuf q i)" by auto
  have "holds (km_mem st') t (reach t st' A' V') (ph_vaddr ph + of_nat i) (segment_flags ph) (segment_byte filebuf ph i)"
    if "i < unat (ph_memsz ph)" for i
    using space_step_holds [OF s2(2)] h1 m2 that apart by metis
  moreover have "load_segments da filebuf (ph # phs) t st = Some st'" using l l2 by simp
  moreover have "card V = card V' + 4096 * program_pages (ph # phs)" "card A \<le> card A' + 4096 * program_tables (ph # phs)"
    using c1 c2 n by simp_all
  ultimately show ?case using s2(1) space_step_trans [OF s1(2) s2(2)] m1 m2 h1 h2
    by (intro exI [of _ st'] exI [of _ U'] exI [of _ A'] exI [of _ V']) simp
qed

definition STACK_FLAGS :: pte_flags where
  "STACK_FLAGS = PTE_V OR PTE_R OR PTE_W OR PTE_U"

definition STACK_PAGE :: usize where
  "STACK_PAGE = 0x804FF000"

lemma init_user_stack_ok:
  assumes sp: "space da t st U A V" and V: "V \<noteq> {}" and A: "4096 * 2 \<le> card A"
  shows "\<exists>st' U' A' V'. init_user_stack da t 0x80500000 st = Some st' \<and> space da t st' U' A' V' \<and>
    space_step t st A V st' A' V' \<and>
    (\<forall>x. vpn x \<noteq> vpn STACK_PAGE \<longrightarrow> mapping (km_mem st') t x = mapping (km_mem st) t x) \<and>
    (\<forall>j < 4096. \<exists>b. holds (km_mem st') t (reach t st' A' V') (STACK_PAGE + of_nat j) STACK_FLAGS b)"
proof -
  have fl: "flags_ok STACK_FLAGS" "flags_contain STACK_FLAGS PTE_V"
    by (simp_all add: STACK_FLAGS_def flags_ok_def flags_contain_def PTE_V_def PTE_R_def PTE_W_def PTE_U_def)
  have al: "is_page_aligned STACK_PAGE" by (simp add: is_page_aligned_iff STACK_PAGE_def)
  from take_user_page [OF sp V] obtain p st1 where a: "user_alloc_pages 1 st = Some (p, st1)"
    and p: "page_ok p" "page_bytes p \<subseteq> V" "in_kernel_space p"
    and w: "\<forall>m. untouched (page_bytes p) (km_mem st1) m \<longrightarrow> space da t (st1\<lparr>km_mem := m\<rparr>) U A (V - page_bytes p) \<and>
       space_step t st A V (st1\<lparr>km_mem := m\<rparr>) A (V - page_bytes p) \<and> untouched V (km_mem st) m" by blast
  let ?V = "V - page_bytes p"
  have s1: "space da t st1 U A ?V" "space_step t st A V st1 A ?V" and un1: "untouched V (km_mem st) (km_mem st1)"
    using w [rule_format, of "km_mem st1"] by simp_all
  have one: "page_count PG_SIZE = 1" by (simp add: page_count_def)
  from map_user_page [OF s1(1) _ fl al p(1,3) one] A obtain st' U' A' where
    mp: "pt_map da t (PhysAddr (p - VM_OFFSET)) STACK_PAGE PG_SIZE STACK_FLAGS st1 = Some st'" and s2: "space da t st' U' A' ?V"
    "space_step t st1 A ?V st' A' ?V"
    and g: "mapping (km_mem st') t = (\<lambda>x. if vpn x = vpn STACK_PAGE then Some (entry_new (PhysAddr (p - VM_OFFSET)) STACK_FLAGS)
      else mapping (km_mem st1) t x)" by blast
  have tr: "pt_tree (km_mem st) t (U \<union> V)" using sp by (simp add: space_def)
  have keep: "mapping (km_mem st1) t x = mapping (km_mem st) t x" for x by (rule mapping_untouched [OF tr un1]) simp
  have "A \<subseteq> U" "U \<inter> V = {}" using sp kheap.pages_owned [of da st U A] by (auto simp: space_def)
  moreover have "table_bytes (km_mem st1) t \<inter> V = {}" using pt_tree_untouched [OF tr un1] tr by (simp add: pt_tree_Un)
  moreover have "reach t st' A' ?V \<subseteq> A \<union> ?V \<union> table_bytes (km_mem st1) t" using s2(2) by (simp add: space_step_def reach_def)
  ultimately have pR: "page_bytes p \<inter> reach t st' A' ?V = {}" using p(2) by blast
  have "\<exists>b. holds (km_mem st') t (reach t st' A' ?V) (STACK_PAGE + of_nat j) STACK_FLAGS b" if j: "j < 4096" for j
    unfolding holds_def using g in_page [OF al j] user_page_entry [OF p(1,3) fl(1)] p(1) pR
    by (intro exI [of _ "mem_byte (km_mem st') (p + of_nat j)"] exI [of _ "entry_new (PhysAddr (p - VM_OFFSET)) STACK_FLAGS"]) simp
  moreover have "page_floor (0x80500000 - 1) = STACK_PAGE" by (simp add: word_unat_eq_iff page_floor_unat STACK_PAGE_def)
  then have "init_user_stack da t 0x80500000 st = Some st'"
    using a mp into_va_from_va [OF p(3)] by (simp add: init_user_stack_def STACK_FLAGS_def)
  ultimately show ?thesis using s2(1) space_step_trans [OF s1(2) s2(2)] g keep
    by (intro exI [of _ st'] exI [of _ U'] exI [of _ A'] exI [of _ ?V]) simp
qed

lemma kernel_not_user:
  assumes "in_kernel_space x" "unat y < 2 ^ 38"
  shows "vpn x \<noteq> vpn y"
proof -
  define r where "r = unat x - (2 ^ 64 - 2 ^ 38)"
  have r: "unat x = 18446743798831644672 + r" "r < 274877906944"
    using assms(1) unat_usize_less [of x] by (simp_all add: r_def in_kernel_space_iff)
  have "unat x div 4096 = 134217728 * 33554431 + (67108864 + r div 4096)" using r(1) by simp
  then have "unat x div 4096 mod 134217728 = 67108864 + r div 4096" using r(2) by (simp only: mod_mult_self4 mod_mult_self3) simp
  moreover have "unat y div 4096 mod 134217728 < 67108864" using assms(2) by simp
  ultimately show ?thesis unfolding vpn_eq_iff by simp
qed

lemma kernel_not_segment:
  assumes "segment_fits filebuf ph" "in_kernel_space x"
  shows "\<not> in_segment ph x"
proof
  assume "in_segment ph x"
  then obtain k where k: "k < segment_pages ph" "vpn x = vpn (segment_base ph + 4096 * of_nat k)" by (auto simp: in_segment_def)
  note g = segment_geometry [OF assms(1)]
  have "unat (segment_base ph + 4096 * of_nat k) = unat (segment_base ph) + 4096 * k" by (rule unat_range [OF _ k(1)]) (use g(6) in simp)
  then have "unat (segment_base ph + 4096 * of_nat k) < 2 ^ 38" using g(6) k(1) by simp
  then show False using kernel_not_user [OF assms(2)] k(2) by blast
qed

lemma load_executable_ok:
  assumes sp: "space da t st U A V"
    and rd: "file_read ops s (f\<lparr>pos := 0\<rparr>) bufp (replicate (unat (vn_len ops s)) 0) = Some (Ok cnt, buf, f')"
    and elf: "parse buf = Some (Elf64 entry phs)" and segs: "segs = filter (\<lambda>p. ph_type p = LOAD) phs"
    and fits: "\<forall>ph \<in> set segs. segment_fits buf ph \<and> \<not> in_segment ph STACK_PAGE" and ap: "segments_apart segs"
    and room: "4096 * (program_pages segs + 1) \<le> card V" "4096 * (program_tables segs + 2) \<le> card A"
  shows "\<exists>st' U' A' V'. load_executable da parse bufp ops s f t st =
      Some (Ok \<lparr>entry_point = entry, init_sp = 0x80500000\<rparr>, vn_deny_write ops s, f'\<lparr>deny_write := True\<rparr>, st') \<and>
    space da t st' U' A' V' \<and>
    (\<forall>ph \<in> set segs. \<forall>i < unat (ph_memsz ph).
      holds (km_mem st') t (reach t st' A' V') (ph_vaddr ph + of_nat i) (segment_flags ph) (segment_byte buf ph i)) \<and>
    (\<forall>j < 4096. \<exists>b. holds (km_mem st') t (reach t st' A' V') (STACK_PAGE + of_nat j) STACK_FLAGS b) \<and>
    (\<forall>x. in_kernel_space x \<longrightarrow> mapping (km_mem st') t x = mapping (km_mem st) t x)"
proof -
  have "4096 * program_pages segs \<le> card V" "4096 * program_tables segs \<le> card A" using room by simp_all
  from load_segments_ok [OF sp _ ap this, of buf] fits obtain st1 U1 A1 V1 where
    l: "load_segments da buf segs t st = Some st1" and s1: "space da t st1 U1 A1 V1" "space_step t st A V st1 A1 V1"
    and c: "card V = card V1 + 4096 * program_pages segs" "card A \<le> card A1 + 4096 * program_tables segs"
    and m1: "\<forall>x. (\<forall>ph \<in> set segs. \<not> in_segment ph x) \<longrightarrow> mapping (km_mem st1) t x = mapping (km_mem st) t x"
    and h1: "\<forall>ph \<in> set segs. \<forall>i < unat (ph_memsz ph). in_segment ph (ph_vaddr ph + of_nat i) \<and>
      holds (km_mem st1) t (reach t st1 A1 V1) (ph_vaddr ph + of_nat i) (segment_flags ph) (segment_byte buf ph i)" by auto
  have "V1 \<noteq> {}" "4096 * 2 \<le> card A1" using c room by auto
  from init_user_stack_ok [OF s1(1) this] obtain st' U' A' V' where
    k: "init_user_stack da t 0x80500000 st1 = Some st'" and s2: "space da t st' U' A' V'" "space_step t st1 A1 V1 st' A' V'"
    and m2: "\<forall>x. vpn x \<noteq> vpn STACK_PAGE \<longrightarrow> mapping (km_mem st') t x = mapping (km_mem st1) t x"
    and h2: "\<forall>j < 4096. \<exists>b. holds (km_mem st') t (reach t st' A' V') (STACK_PAGE + of_nat j) STACK_FLAGS b" by blast
  have "vpn x \<noteq> vpn STACK_PAGE" if "ph \<in> set segs" "in_segment ph x" for ph x
    using fits that unfolding in_segment_def by metis
  then have "\<forall>ph \<in> set segs. \<forall>i < unat (ph_memsz ph).
      holds (km_mem st') t (reach t st' A' V') (ph_vaddr ph + of_nat i) (segment_flags ph) (segment_byte buf ph i)"
    using space_step_holds [OF s2(2)] h1 m2 by metis
  moreover have "mapping (km_mem st') t x = mapping (km_mem st) t x" if x: "in_kernel_space x" for x
  proof -
    have "vpn x \<noteq> vpn STACK_PAGE" by (rule kernel_not_user [OF x]) (simp add: STACK_PAGE_def)
    moreover have "\<forall>ph \<in> set segs. \<not> in_segment ph x" using kernel_not_segment [OF _ x] fits by blast
    ultimately show ?thesis using m1 m2 by simp
  qed
  moreover have "load_executable da parse bufp ops s f t st =
      Some (Ok \<lparr>entry_point = entry, init_sp = 0x80500000\<rparr>, vn_deny_write ops s, f'\<lparr>deny_write := True\<rparr>, st')"
    using rd elf l k segs by (simp add: load_executable_def load_elf_def file_deny_write_def)
  ultimately show ?thesis using s2(1) h2 by blast
qed

text \<open>
  C12. Loading a program. Let the file be an ELF file for 64 bits whose loadable segments fit, do not share
  pages with each other or with the page of the stack, and let there be enough pages. Then \<open>load_executable\<close>
  succeeds with the entry point of the file. Every byte of every segment is mapped for the user, readable, writable and executable
  exactly as its header says, and holds the byte of the file or zero beyond the part in the file; the page below the initial
  stack pointer is mapped for reading and writing. No mapping of the kernel changes, and the heap, the user pool and the
  tables are intact.
\<close>

theorem load_executable_correct:
  assumes sp: "space da t st U A V"
    and rd: "file_read ops s (f\<lparr>pos := 0\<rparr>) bufp (replicate (unat (vn_len ops s)) 0) = Some (Ok cnt, buf, f')"
    and elf: "parse buf = Some (Elf64 entry phs)" and segs: "segs = filter (\<lambda>p. ph_type p = LOAD) phs"
    and fits: "\<forall>ph \<in> set segs. segment_fits buf ph \<and> \<not> in_segment ph STACK_PAGE" and ap: "segments_apart segs"
    and room: "4096 * (program_pages segs + 1) \<le> card V" "4096 * (program_tables segs + 2) \<le> card A"
  shows "\<exists>st' U' A' V'. load_executable da parse bufp ops s f t st =
      Some (Ok \<lparr>entry_point = entry, init_sp = 0x80500000\<rparr>, vn_deny_write ops s, f'\<lparr>deny_write := True\<rparr>, st') \<and>
    space da t st' U' A' V' \<and>
    (\<forall>ph \<in> set segs. \<forall>i < unat (ph_memsz ph).
      holds (km_mem st') t (reach t st' A' V') (ph_vaddr ph + of_nat i) (segment_flags ph) (segment_byte buf ph i)) \<and>
    (\<forall>j < 4096. \<exists>b. holds (km_mem st') t (reach t st' A' V') (STACK_PAGE + of_nat j) STACK_FLAGS b) \<and>
    (\<forall>x. in_kernel_space x \<longrightarrow> mapping (km_mem st') t x = mapping (km_mem st) t x)"
  using assms by (rule load_executable_ok)

text \<open>A state for the witnesses: a megabyte for the heap, a megabyte for the user pool and an empty page table.\<close>

lemma sample_process_space:
  "\<exists>st t U A V. space sample_da t st U A V \<and> card A = 0xFF000 \<and> card V = 0x100000 \<and>
     (\<forall>i < NENTRY. \<not> is_valid (entry_at (km_mem st) t i))"
proof -
  obtain st0 A where h: "heap_pages sample_da st0 A A" "kernel_only A" "card A = 0x100000"
    and A: "A = {0xFFFFFFC080400000..<0xFFFFFFC080500000}" using sample_space by blast
  let ?a = "VM_BASE + 0x600000" and ?b = "VM_BASE + 0x700000"
  define V where "V = {0xFFFFFFC080600000..<0xFFFFFFC080700000 :: nat}"
  have n: "unat ?a = 0xFFFFFFC080600000" "unat ?b = 0xFFFFFFC080700000" by (simp_all add: VM_BASE_def)
  have e: "buddy_free (km_mem st0, buddy_empty) {}"
    using buddy_inv_empty [of "km_mem st0"] unfolding buddy_free_def bytes_def blocks_def
    by (intro exI [of _ "replicate (MAX_ORDER + 1) []"]) (auto simp del: replicate.simps)
  obtain m b where f: "buddy_free (m, b) V" "untouched V (km_mem st0) m"
    using insert_range_free [OF e, of ?a ?b] by (auto simp: n V_def)
  define st1 where "st1 = st0\<lparr>km_mem := m, km_user := b\<rparr>"
  have AV: "A \<inter> V = {}" by (auto simp: A V_def)
  have kV: "kernel_only V" by (auto simp: kernel_only_def V_def)
  have "heap_pages sample_da (st0\<lparr>km_mem := m\<rparr>) A A" by (rule kheap.write_law [OF h(1) f(2)]) (use AV in blast)
  then have h1: "heap_pages sample_da st1 A A" by (simp add: st1_def heap_pages_def heap_rel_def)
  have "A \<noteq> {}" using h(3) by auto
  from new_table [OF h1 this h(2)] obtain t st2 where nt: "pt_new sample_da st1 = Some (t, st2)" and t: "page_bytes t \<subseteq> A"
    and h2: "heap_pages sample_da st2 (A - page_bytes t) (A - page_bytes t)" and un: "untouched A (km_mem st1) (km_mem st2)"
    and c: "card (A - page_bytes t) + 4096 = card A" and tr: "pt_tree (km_mem st2) t (A - page_bytes t)"
    and tb: "table_bytes (km_mem st2) t = page_bytes t" and inv: "\<forall>i < NENTRY. \<not> is_valid (entry_at (km_mem st2) t i)" by blast
  have "user_pages st1 V V" using f(1) by (simp add: user_pages_def st1_def)
  from upool.write_law [OF this un] have "user_pages (st1\<lparr>km_mem := km_mem st2\<rparr>) V V" using AV by blast
  then have "user_pages st2 V V" using pt_new_user [OF nt] by (simp add: user_pages_def)
  moreover have "pt_tree (km_mem st2) t (A - page_bytes t \<union> V)" unfolding pt_tree_Un tb using tr t AV by blast
  ultimately have "space sample_da t st2 (A - page_bytes t) (A - page_bytes t) V"
    using h2 kernel_only_mono [OF h(2), of "A - page_bytes t"] kV AV by (auto simp: space_def)
  moreover have "card V = 0x100000" by (simp add: V_def)
  ultimately show ?thesis using c h(3) inv by (intro exI conjI) auto
qed

definition sample_phdr :: phdr where
  "sample_phdr = \<lparr>ph_type = LOAD, ph_offset = 0, ph_vaddr = 0x10000, ph_filesz = 2, ph_memsz = 3, ph_execute = True, ph_write = False\<rparr>"

lemma sample_phdr_facts:
  "segment_fits [7, 8] sample_phdr" "segment_pages sample_phdr = 1" "segment_base sample_phdr = 0x10000"
  "\<not> in_segment sample_phdr STACK_PAGE" "program_tables [sample_phdr] = 2" "program_pages [sample_phdr] = 1"
proof -
  show f: "segment_fits [7, 8] sample_phdr" "segment_pages sample_phdr = 1"
    by (simp_all add: segment_fits_def segment_pages_def sample_phdr_def)
  show b: "segment_base sample_phdr = 0x10000" by (simp add: word_unat_eq_iff segment_geometry(1) [OF f(1)]) (simp add: sample_phdr_def)
  show "\<not> in_segment sample_phdr STACK_PAGE"
    by (simp add: in_segment_def f b vpn_eq_iff STACK_PAGE_def)
  show "program_tables [sample_phdr] = 2" "program_pages [sample_phdr] = 1"
    using f b by (simp_all add: program_tables_def program_pages_def One_nat_def)
qed

theorem load_executable_correct_witness:
  "\<exists>st t st' r. load_executable sample_da (\<lambda>_. Some (Elf64 0x10000 [sample_phdr])) 0x5000 mem_ops \<lparr>mi_ptr = 0x6000, mi_buf = [7, 8]\<rparr>
      file_new t st = Some (r, \<lparr>mi_ptr = 0x6000, mi_buf = [7, 8]\<rparr>, \<lparr>pos = 2, deny_write = True\<rparr>, st') \<and>
     r = Ok \<lparr>entry_point = 0x10000, init_sp = 0x80500000\<rparr> \<and>
     (\<exists>Z. holds (km_mem st') t Z 0x10001 (segment_flags sample_phdr) 8 \<and> holds (km_mem st') t Z 0x10002 (segment_flags sample_phdr) 0)"
proof -
  let ?i = "\<lparr>mi_ptr = 0x6000, mi_buf = [7, 8 :: u8]\<rparr>" and ?parse = "\<lambda>_. Some (Elf64 0x10000 [sample_phdr])"
  obtain st t U A V where s: "space sample_da t st U A V" "card A = 0xFF000" "card V = 0x100000" using sample_process_space by blast
  have rd: "file_read mem_ops ?i (file_new\<lparr>pos := 0\<rparr>) 0x5000 (replicate (unat (vn_len mem_ops ?i)) 0) = Some (Ok 2, [7, 8], \<lparr>pos = 2, deny_write = False\<rparr>)"
    by (simp add: file_read_def mem_ops_def mem_read_at_def mem_len_def slice_sub_def slice_copy_def splice_def file_new_def Let_def)
  note F = sample_phdr_facts
  have fits: "\<forall>ph \<in> set [sample_phdr]. segment_fits [7, 8] ph \<and> \<not> in_segment ph STACK_PAGE" using F by simp
  have segs: "[sample_phdr] = filter (\<lambda>p. ph_type p = LOAD) [sample_phdr]" by (simp add: sample_phdr_def)
  have ap: "segments_apart [sample_phdr]" by (simp add: segments_apart_def)
  have room: "4096 * (program_pages [sample_phdr] + 1) \<le> card V" "4096 * (program_tables [sample_phdr] + 2) \<le> card A"
    using s F by simp_all
  from load_executable_correct [OF s(1) rd refl [of "Some (Elf64 0x10000 [sample_phdr])"] segs fits ap room] obtain st' A' V' where
    l: "load_executable sample_da ?parse 0x5000 mem_ops ?i file_new t st =
      Some (Ok \<lparr>entry_point = 0x10000, init_sp = 0x80500000\<rparr>, ?i, \<lparr>pos = 2, deny_write = True\<rparr>, st')"
    and h: "\<forall>i < unat (ph_memsz sample_phdr). holds (km_mem st') t (reach t st' A' V') (ph_vaddr sample_phdr + of_nat i)
      (segment_flags sample_phdr) (segment_byte [7, 8] sample_phdr i)" by (auto simp: mem_ops_def)
  have "holds (km_mem st') t (reach t st' A' V') 0x10001 (segment_flags sample_phdr) 8"
    "holds (km_mem st') t (reach t st' A' V') 0x10002 (segment_flags sample_phdr) 0"
    using h [rule_format, of 1] h [rule_format, of 2] by (simp_all add: sample_phdr_def segment_byte_def)
  then show ?thesis using l by blast
qed

end
