(* ===== verification/Process.thy ===== *)
theory Process
  imports Load
begin

text \<open>
  Processes and the page table of the kernel: the clone that \<open>execute\<close> loads a program into shares the tables of
  the kernel, so that a program that does not fit is rejected without a trace, and one with a
  segment in the kernel space changes the kernel's own mappings.
\<close>

section \<open>Clones of the kernel's table\<close>

lemma clone_space:
  assumes sp: "space da kpt st U A V" and A: "A \<noteq> {}"
  shows "\<exists>t st'. pt_clone da kpt st = Some (t, st') \<and> page_ok t \<and> page_bytes t \<subseteq> A \<and>
    space da t st' (U - page_bytes t) (A - page_bytes t) V \<and> untouched A (km_mem st) (km_mem st') \<and>
    card (A - page_bytes t) + 4096 = card A \<and>
    (\<forall>i q. path_ok (i # q) \<longrightarrow> table_at (km_mem st') t (i # q) = table_at (km_mem st) kpt (i # q)) \<and>
    (\<forall>x. mapping (km_mem st') t x = mapping (km_mem st) kpt x)"
proof -
  have h: "heap_pages da st U A" and u: "user_pages st V V" and k: "kernel_only A" "kernel_only V" and UV: "U \<inter> V = {}"
    and tr: "pt_tree (km_mem st) kpt (U \<union> V)" and trU: "pt_tree (km_mem st) kpt U"
    using sp by (auto simp: space_def pt_tree_Un)
  have AU: "A \<subseteq> U" using kheap.pages_owned [OF h] by blast
  from pt_clone_ok [OF h A k(1) trU] obtain t st' where c: "pt_clone da kpt st = Some (t, st')"
    and t: "page_ok t" "in_kernel_space t" "page_bytes t \<subseteq> A" and h': "heap_pages da st' (U - page_bytes t) (A - page_bytes t)"
    and un: "untouched A (km_mem st) (km_mem st')"
    and e: "\<forall>i < NENTRY. entry_at (km_mem st') t i = entry_at (km_mem st) kpt i" by blast
  let ?m = "km_mem st" and ?m' = "km_mem st'"
  have AUV: "A \<subseteq> U \<union> V" using AU by blast
  have kp: "page_ok kpt" "page_bytes kpt \<inter> A = {}"
    using pt_treeD(1) [OF tr, of "[]" kpt] AU by (auto simp: path_ok_def table_ok_def)
  have root: "entry_at ?m' kpt i = entry_at ?m kpt i" if "i < NENTRY" for i
    using untouchedD [OF un] cell_in_page [OF kp(1) that] kp(2) by (auto simp: entry_at_def)
  have ta: "table_at ?m' t (i # q) = table_at ?m kpt (i # q)" if "path_ok (i # q)" for i q
  proof -
    have i: "i < NENTRY" using that by (simp add: path_ok_def)
    then have "entry_at ?m' t i = entry_at ?m' kpt i" using e root by simp
    then have "table_at ?m' t (i # q) = table_at ?m' kpt (i # q)" by (simp add: sub_table_def table_at.simps)
    then show ?thesis using table_at_untouched [OF tr un AUV that] by simp
  qed
  have "km_user st' = km_user st" using c pt_new_user by (auto simp: pt_clone_def bind_eq_Some_conv)
  then have up: "user_pages st' V V" using upool.write_law [OF u un] AU UV by (auto simp: user_pages_def)
  have "pt_tree ?m' t (U - page_bytes t \<union> V)"
    unfolding pt_tree_def
  proof (intro conjI allI impI)
    fix q a assume q: "path_ok q" "table_at ?m' t q = Some a"
    show "table_ok (U - page_bytes t \<union> V) a"
    proof (cases q)
      case Nil
      then show ?thesis using q t AU UV by (auto simp: table_ok_def)
    next
      case (Cons i r)
      then show ?thesis using q ta [of i r] pt_treeD(1) [OF tr, of q a] by (auto simp: table_ok_def)
    qed
  next
    fix q r a assume q: "path_ok q" "path_ok r" "table_at ?m' t q = Some a" "table_at ?m' t r = Some a"
    have ne: "table_at ?m' t (i # s) \<noteq> Some t" if "path_ok (i # s)" for i s
      using ta [OF that] pt_treeD(1) [OF trU that, of t] t(3) AU page_start [of t] by (auto simp: table_ok_def)
    show "q = r"
    proof (cases q; cases r)
      fix i s j s' assume qr: "q = i # s" "r = j # s'"
      then show ?thesis using q ta pt_treeD(2) [OF tr q(1,2), of a] by simp
    qed (use q ne in auto)
  qed
  then have "space da t st' (U - page_bytes t) (A - page_bytes t) V"
    using h' up k UV kernel_only_mono [OF k(1), of "A - page_bytes t"] by (auto simp: space_def)
  moreover have "mapping ?m' t x = mapping ?m kpt x" for x
  proof -
    have "table_at ?m' t (va_path x) = table_at ?m' kpt (va_path x)"
      using ta [of "px 2 x" "[px 1 x]"] table_at_untouched [OF tr un AUV path_ok_va, of x] path_ok_va [of x]
      by (simp add: va_path_def)
    then have "mapping ?m' t x = mapping ?m' kpt x" by (simp add: mapping_def)
    then show ?thesis using mapping_untouched [OF tr un AUV] by simp
  qed
  ultimately show ?thesis using c t un ta kheap.card_after_take [OF h t(1,3)] by blast
qed

section \<open>Segments in the kernel space\<close>

text \<open>The tables of the kernel that a clone shares stay shared while a program is loaded.\<close>

lemma shared_mapping:
  assumes sp: "space da kpt st U A V" and A: "A \<noteq> {}" and c: "pt_clone da kpt st = Some (t, st1)"
    and s: "space_step t st1 (A - page_bytes t) V st2 A2 V2" and x: "mapping (km_mem st) kpt x \<noteq> None"
  shows "mapping (km_mem st2) kpt x = mapping (km_mem st2) t x"
proof -
  from clone_space [OF sp A] c have t: "page_ok t" "page_bytes t \<subseteq> A" and un: "untouched A (km_mem st) (km_mem st1)"
    and ta: "\<And>i q. path_ok (i # q) \<Longrightarrow> table_at (km_mem st1) t (i # q) = table_at (km_mem st) kpt (i # q)" by auto
  have tr: "pt_tree (km_mem st) kpt (U \<union> V)" and AU: "A \<subseteq> U"
    using sp kheap.pages_owned [of da st U A] by (auto simp: space_def)
  have kp: "page_ok kpt" "page_bytes kpt \<inter> (U \<union> V) = {}"
    using pt_treeD(1) [OF tr, of "[]" kpt] by (auto simp: path_ok_def table_ok_def)
  have "page_bytes kpt \<inter> page_bytes a = {}" if "path_ok q" "table_at (km_mem st1) t q = Some a" for q a
  proof (cases q)
    case Nil
    then show ?thesis using that kp(2) t(2) AU by auto
  next
    case (Cons i r)
    then have a: "table_at (km_mem st) kpt q = Some a" using that ta by simp
    have "a \<noteq> kpt" using pt_treeD(2) [OF tr that(1), of "[]" a] a Cons by (auto simp: path_ok_def)
    moreover have "page_ok a" using pt_treeD(1) [OF tr that(1) a] by (simp add: table_ok_def)
    ultimately show ?thesis using page_bytes_disjoint [OF kp(1)] by metis
  qed
  then have "page_bytes kpt \<inter> table_bytes (km_mem st1) t = {}" unfolding table_bytes_def by blast
  then have kR: "page_bytes kpt \<inter> reach t st1 (A - page_bytes t) V = {}" using kp(2) AU by (auto simp: reach_def)
  have cell: "unat (kpt + 8 * px 2 x) \<in> page_bytes kpt" by (rule cell_in_page [OF kp(1) px_less])
  have "km_mem st2 (kpt + 8 * px 2 x) = km_mem st1 (kpt + 8 * px 2 x)"
    using s cell kR by (intro untouchedD [of "reach t st1 (A - page_bytes t) V"]) (auto simp: space_step_def)
  also have "\<dots> = km_mem st (kpt + 8 * px 2 x)" using cell kp(2) AU by (intro untouchedD [OF un]) blast
  finally have root: "entry_at (km_mem st2) kpt (px 2 x) = entry_at (km_mem st) kpt (px 2 x)" by (simp add: entry_at_def)
  have p1: "path_ok [px 2 x]" by (simp add: path_ok_def)
  obtain l1 where l1: "table_at (km_mem st) kpt [px 2 x] = Some l1"
    using x table_at_snoc [of "km_mem st" kpt "[px 2 x]" "px 1 x"]
    by (auto simp: mapping_def va_path_def split: option.splits if_splits)
  then have "table_at (km_mem st2) t [px 2 x] = Some l1" using s ta [OF p1] p1 by (auto simp: space_step_def)
  moreover have "table_at (km_mem st2) kpt [px 2 x] = Some l1" using l1 root by (auto simp: sub_table_def table_at.simps split: if_splits)
  ultimately have "table_at (km_mem st2) kpt (va_path x) = table_at (km_mem st2) t (va_path x)"
    using table_at_snoc [of "km_mem st2" _ "[px 2 x]" "px 1 x"] by (simp add: va_path_def)
  then show ?thesis by (simp add: mapping_def)
qed

lemma page_round_up:
  assumes "0 < unat n" "unat n \<le> 4096"
  shows "div_round_up n PG_SIZE = Some 1"
proof -
  have "(unat n + 4095) div 4096 = 1" using assms by (intro div_nat_eqI) auto
  then have "unat ((n + mask 12) AND NOT (mask 12) :: usize) = 4096" using unat_round_up [of 12 n] assms by simp
  then have "(n + mask 12) AND NOT (mask 12) = 4096" by (simp add: word_unat_eq_iff)
  moreover have "is_power_of_two 4096" using is_power_of_two_exp [of 12] by simp
  moreover have "round_up n 4096 = Some ((n + mask 12) AND NOT (mask 12))" using round_up_exp [of 12 n] by simp
  ultimately show ?thesis by (simp add: div_round_up_def)
qed

text \<open>
  C27. The address of a segment is not checked. A program with a writable segment at the address of any page of the
  kernel is loaded without an error, and afterwards the kernel's own page table, which
  shares its lower tables with that of the process, maps this page to the contents of the file, accessible and
  writable for user programs.
\<close>

theorem kernel_segment_overwrites:
  assumes sp: "space da kpt st U A V" and A: "A \<noteq> {}" and V: "4096 \<le> card V" and c: "pt_clone da kpt st = Some (t, st1)"
    and x: "is_page_aligned x" "mapping (km_mem st) kpt x \<noteq> None"
    and ph: "ph = \<lparr>ph_type = LOAD, ph_offset = 0, ph_vaddr = x, ph_filesz = n, ph_memsz = n, ph_execute = e, ph_write = True\<rparr>"
    and n: "0 < unat n" "unat n \<le> 4096" "unat n \<le> length filebuf" "length filebuf < 2 ^ 63"
  shows "\<exists>st2 Z. load_segment da filebuf ph t st1 = Some st2 \<and> holds (km_mem st2) kpt Z x (segment_flags ph) (filebuf ! 0) \<and>
    flags_contain (segment_flags ph) (PTE_U OR PTE_W)"
proof -
  note fl = segment_flags_ok [of ph]
  from clone_space [OF sp A] c have sp1: "space da t st1 (U - page_bytes t) (A - page_bytes t) V"
    and m: "mapping (km_mem st1) t x = mapping (km_mem st) kpt x" by auto
  have "\<not> False \<longrightarrow> table_at (km_mem st1) t (va_path x) \<noteq> None" using m x(2) by (auto simp: mapping_def split: option.splits)
  moreover have "unat x + 4096 * 1 \<le> 2 ^ 64"
  proof -
    obtain d where "unat x = 4096 * d" using x(1) by (auto simp: is_page_aligned_iff elim: dvdE)
    then show ?thesis using unat_usize_less [of x] by simp
  qed
  ultimately have "\<exists>rp rb st2 U2 A2 V2. load_pages da filebuf t x (segment_flags ph) (map of_nat [0..<0 + 1]) 0 n st1 = Some (rp, rb, st2) \<and>
    unat rb = unat n - 4096 * 1 \<and> space da t st2 U2 A2 V2 \<and> space_step t st1 (A - page_bytes t) V st2 A2 V2 \<and> card V = card V2 + 4096 * 1 \<and>
    card (A - page_bytes t) \<le> card A2 + 4096 * tables_needed 1 x False \<and>
    (\<forall>y. (\<forall>k < 1. vpn y \<noteq> vpn (x + 4096 * of_nat k)) \<longrightarrow> mapping (km_mem st2) t y = mapping (km_mem st1) t y) \<and>
    (\<forall>k < 1. \<forall>j < 4096. holds (km_mem st2) t (reach t st2 A2 V2) (x + 4096 * of_nat k + of_nat j) (segment_flags ph)
       (file_byte filebuf 0 n (4096 * k + j)))"
    by (intro load_pages_ok [OF sp1 _ _ _ fl x(1)]) (use V n in \<open>simp_all add: One_nat_def\<close>)
  then obtain rp rb st2 A2 V2 where
    l: "load_pages da filebuf t x (segment_flags ph) [0] 0 n st1 = Some (rp, rb, st2)" and rb: "unat rb = unat n - 4096"
    and s: "space_step t st1 (A - page_bytes t) V st2 A2 V2"
    and h: "\<forall>j < 4096. holds (km_mem st2) t (reach t st2 A2 V2) (x + of_nat j) (segment_flags ph) (file_byte filebuf 0 n j)"
    by (auto simp: One_nat_def)
  have "holds (km_mem st2) t (reach t st2 A2 V2) x (segment_flags ph) (filebuf ! 0)"
    using h [rule_format, of 0] n(1) by (simp add: file_byte_def)
  moreover have "mapping (km_mem st2) kpt x = mapping (km_mem st2) t x" by (rule shared_mapping [OF sp A c s x(2)])
  ultimately have "holds (km_mem st2) kpt (reach t st2 A2 V2) x (segment_flags ph) (filebuf ! 0)" by (simp add: holds_def)
  moreover have "rb = 0" using rb n(2) by (simp add: unat_eq_zero)
  moreover have "x AND NOT PG_MASK = x" "x AND PG_MASK = 0"
    using x(1) by (simp_all add: word_unat_eq_iff PG_MASK_eq_mask unat_and_not_mask unat_and_mask is_page_aligned_iff)
  then have "load_segment da filebuf ph t st1 = Some st2"
    using l page_round_up [OF n(1,2)] \<open>rb = 0\<close> by (simp add: load_segment_def ph word_range_def)
  moreover have "flags_contain (segment_flags ph) (PTE_U OR PTE_W)"
    by (simp add: ph segment_flags_def flags_contain_def PTE_V_def PTE_U_def PTE_R_def PTE_X_def PTE_W_def)
  ultimately show ?thesis by blast
qed

definition kernel_phdr :: phdr where
  "kernel_phdr = \<lparr>ph_type = LOAD, ph_offset = 0, ph_vaddr = 0xFFFFFFC080000000, ph_filesz = 2, ph_memsz = 2, ph_execute = False,
     ph_write = True\<rparr>"

theorem kernel_segment_overwrites_witness:
  "\<exists>kpt st t st1 st2 Z. pt_clone sample_da kpt st = Some (t, st1) \<and> load_segment sample_da [7, 8] kernel_phdr t st1 = Some st2 \<and>
     holds (km_mem st2) kpt Z 0xFFFFFFC080000000 (segment_flags kernel_phdr) 7"
proof -
  let ?x = "0xFFFFFFC080000000 :: usize"
  obtain st0 kpt U0 A0 V where s0: "space sample_da kpt st0 U0 A0 V" "card A0 = 0xFF000" "card V = 0x100000"
    using sample_process_space by blast
  have fl: "flags_ok FLAGS_RX" "flags_contain FLAGS_RX PTE_V" by (simp_all add: kernel_flags)
  have x: "is_page_aligned ?x" "page_ok ?x" "in_kernel_space ?x"
    by (simp_all add: is_page_aligned_iff page_ok_def in_kernel_space_iff)
  have one: "page_count PG_SIZE = 1" by (simp add: page_count_def)
  have "table_at (km_mem st0) kpt (va_path ?x) = None \<longrightarrow> 4096 * 2 \<le> card A0" using s0(2) by simp
  from map_user_page [OF s0(1) this fl x one] obtain st U A where s: "space sample_da kpt st U A V"
    and c: "card A0 \<le> card A + (if table_at (km_mem st0) kpt (va_path ?x) = None then 4096 * 2 else 0)"
    and m: "mapping (km_mem st) kpt = (\<lambda>y. if vpn y = vpn ?x then Some (entry_new (PhysAddr (?x - VM_OFFSET)) FLAGS_RX)
      else mapping (km_mem st0) kpt y)" by blast
  have "4096 * 253 \<le> card A" using c s0(2) by (simp split: if_splits)
  then have A: "A \<noteq> {}" by auto
  from clone_space [OF s A] obtain t st1 where cl: "pt_clone sample_da kpt st = Some (t, st1)" by blast
  have V: "4096 \<le> card V" and mx: "mapping (km_mem st) kpt ?x \<noteq> None" using s0(3) m by simp_all
  have n: "0 < unat (2 :: usize)" "unat (2 :: usize) \<le> 4096" "unat (2 :: usize) \<le> length [7, 8 :: u8]" "length [7, 8 :: u8] < 2 ^ 63" by simp_all
  have "[7, 8 :: u8] ! 0 = 7" by simp
  with kernel_segment_overwrites [OF s A V cl x(1) mx kernel_phdr_def n] cl show ?thesis by metis
qed

section \<open>Executing a file\<close>

text \<open>
  C28. A file that is not an ELF file for 64 bits. \<open>execute\<close> returns \<open>-1\<close> and starts no thread; it gives the page of the
  cloned table back, so that the heap owns the bytes of before, and the kernel's mappings are unchanged.
\<close>

theorem execute_rejects:
  assumes h: "heap_pages da st U A" "A \<noteq> {}" "kernel_only A" "pt_tree (km_mem st) kpt U"
    and glob: "\<forall>i < NENTRY. is_valid (entry_at (km_mem st) kpt i) \<longrightarrow> is_global (entry_at (km_mem st) kpt i)"
    and rd: "file_read ops s (f\<lparr>pos := 0\<rparr>) bufp (replicate (unat (vn_len ops s)) 0) = Some (r, buf, f')"
    and bad: "case r of Ok _ \<Rightarrow> (case parse buf of Some (Elf64 _ _) \<Rightarrow> False | _ \<Rightarrow> True) | Err _ \<Rightarrow> True"
  shows "\<exists>st' A'. execute rg sch da lnk kpt parse bufp fnp ops s f k st = Some (-1, None, file_drop ops s f', k, st') \<and>
    heap_pages da st' U A' \<and> (\<forall>x. pt_get_pte (km_mem st') kpt x = pt_get_pte (km_mem st) kpt x)"
proof -
  from clone_destroy [OF h glob] obtain t st1 st' A' where c: "pt_clone da kpt st = Some (t, st1)"
    and d: "destroy da t st1 = Some st'" "heap_pages da st' U A'" "\<forall>x. pt_get_pte (km_mem st') kpt x = pt_get_pte (km_mem st) kpt x"
    by blast
  have "\<exists>er. load_executable da parse bufp ops s f t st1 = Some (Err er, s, f', st1)"
    using rd bad by (cases r; cases "parse buf")
      (auto simp: load_executable_def load_elf_def split: elf.splits)
  then show ?thesis using c d by (auto simp: execute_def)
qed

theorem execute_rejects_witness:
  "\<exists>kpt st st'. execute fcfs_register fcfs_schedule sample_da (\<lambda>_. 0) kpt (\<lambda>_. None) 0x5000 0x7000 mem_ops
     \<lparr>mi_ptr = 0x6000, mi_buf = [7, 8]\<rparr> file_new sample_kernel st =
     Some (-1, None, \<lparr>mi_ptr = 0x6000, mi_buf = [7, 8]\<rparr>, sample_kernel, st')"
proof -
  let ?i = "\<lparr>mi_ptr = 0x6000, mi_buf = [7, 8 :: u8]\<rparr>"
  obtain st kpt U A V where s: "space sample_da kpt st U A V" "card A = 0xFF000" "\<forall>i < NENTRY. \<not> is_valid (entry_at (km_mem st) kpt i)"
    using sample_process_space by blast
  have h: "heap_pages sample_da st U A" "A \<noteq> {}" "kernel_only A" "pt_tree (km_mem st) kpt U"
    using s by (auto simp: space_def pt_tree_Un)
  have glob: "\<forall>i < NENTRY. is_valid (entry_at (km_mem st) kpt i) \<longrightarrow> is_global (entry_at (km_mem st) kpt i)" using s(3) by blast
  have rd: "file_read mem_ops ?i (file_new\<lparr>pos := 0\<rparr>) 0x5000 (replicate (unat (vn_len mem_ops ?i)) 0) = Some (Ok 2, [7, 8], \<lparr>pos = 2, deny_write = False\<rparr>)"
    by (simp add: file_read_def mem_ops_def mem_read_at_def mem_len_def slice_sub_def slice_copy_def splice_def file_new_def Let_def)
  from execute_rejects [OF h glob rd, of "\<lambda>_. None" fcfs_register fcfs_schedule "\<lambda>_. 0" "0x7000" sample_kernel]
  show ?thesis by (auto simp: file_drop_def)
qed

end
