(* ===== verification/Sbi.thy ===== *)
theory Sbi
  imports Sync_Prims
begin

unbundle bit_operations_syntax

text \<open>
  The interface to the machine mode firmware (\<open>src/src/sbi.rs\<close>): calls, the console
  (\<open>sbi/console.rs\<close>), the clock (\<open>sbi/timer.rs\<close>) and the interrupt enable register
  (\<open>sbi/interrupt.rs\<close>). The firmware and the clock are not part of the kernel: they are the
  parameter \<open>'f sbi\<close>, operations on an environment \<open>'f\<close>. Text is a list of Unicode scalar values.
\<close>

section \<open>Calls of the firmware\<close>

text \<open>
  A call gets the extension number, the function number and the arguments in \<open>a0\<close>, \<open>a1\<close>, and so
  on; it returns the registers \<open>a0\<close> and \<open>a1\<close>. When the environment is off, the hart runs no
  further code.
\<close>

record 'f sbi =
  ecall :: "usize \<Rightarrow> usize \<Rightarrow> usize list \<Rightarrow> 'f \<Rightarrow> (usize \<times> usize) \<times> 'f"
  rdtime :: "'f \<Rightarrow> usize \<times> 'f"
  powered_off :: "'f \<Rightarrow> bool"

definition SET_TIMER :: usize where "SET_TIMER = 0"
definition CONSOLE_PUTCHAR :: usize where "CONSOLE_PUTCHAR = 1"
definition CONSOLE_GETCHAR :: usize where "CONSOLE_GETCHAR = 2"
definition SHUTDOWN :: usize where "SHUTDOWN = 8"

text \<open>\<open>call!\<close> with a function number, and its older form.\<close>

definition sbi_call :: "'f sbi \<Rightarrow> usize \<Rightarrow> usize \<Rightarrow> usize list \<Rightarrow> 'f \<Rightarrow> (usize \<times> usize) \<times> 'f" where
  "sbi_call io eid fid args e = ecall io eid fid args e"

definition legacy_call :: "'f sbi \<Rightarrow> usize \<Rightarrow> usize list \<Rightarrow> 'f \<Rightarrow> usize \<times> 'f" where
  "legacy_call io eid args e = (let ((err, _), e) = sbi_call io eid 0 args e in (err, e))"

definition set_timer :: "'f sbi \<Rightarrow> usize \<Rightarrow> 'f \<Rightarrow> 'f" where
  "set_timer io timer e = snd (legacy_call io SET_TIMER [timer] e)"

definition console_putchar :: "'f sbi \<Rightarrow> usize \<Rightarrow> 'f \<Rightarrow> 'f" where
  "console_putchar io ch e = snd (legacy_call io CONSOLE_PUTCHAR [ch] e)"

definition console_getchar :: "'f sbi \<Rightarrow> 'f \<Rightarrow> usize \<times> 'f" where
  "console_getchar io e = legacy_call io CONSOLE_GETCHAR [] e"

text \<open>Calls that never return: reaching the code after them panics.\<close>

definition sbi_shutdown :: "'f sbi \<Rightarrow> 'f \<Rightarrow> 'f option" where
  "sbi_shutdown io e = (let (_, e) = legacy_call io SHUTDOWN [] e in if powered_off io e then Some e else None)"

datatype reset_type = Shutdown | ColdReboot | WarmReboot
datatype reset_reason = NoReason | SystemFailure

fun reset_type_code :: "reset_type \<Rightarrow> usize" where
  "reset_type_code Shutdown = 0"
| "reset_type_code ColdReboot = 1"
| "reset_type_code WarmReboot = 2"

fun reset_reason_code :: "reset_reason \<Rightarrow> usize" where
  "reset_reason_code NoReason = 0"
| "reset_reason_code SystemFailure = 1"

definition SYSTEM_RESET :: usize where "SYSTEM_RESET = 0"

definition sbi_reset :: "'f sbi \<Rightarrow> reset_type \<Rightarrow> reset_reason \<Rightarrow> 'f \<Rightarrow> 'f option" where
  "sbi_reset io ty reason e =
     (let (_, e) = sbi_call io 0x53525354 SYSTEM_RESET [reset_type_code ty, reset_reason_code reason] e
      in if powered_off io e then Some e else None)"

section \<open>The clock\<close>

definition TICKS_PER_SEC :: usize where "TICKS_PER_SEC = 10"
definition CLOCK_PRE_SEC :: usize where "CLOCK_PRE_SEC = 12500000"

definition clock :: "'f sbi \<Rightarrow> 'f \<Rightarrow> usize \<times> 'f" where
  "clock io e = rdtime io e"

definition time_ms :: "'f sbi \<Rightarrow> 'f \<Rightarrow> usize \<times> 'f" where
  "time_ms io e = (let (c, e) = clock io e in (c * 1000 div CLOCK_PRE_SEC, e))"

definition time_us :: "'f sbi \<Rightarrow> 'f \<Rightarrow> usize \<times> 'f" where
  "time_us io e = (let (c, e) = clock io e in (c * 1000000 div CLOCK_PRE_SEC, e))"

definition timer_next :: "'f sbi \<Rightarrow> 'f \<Rightarrow> 'f" where
  "timer_next io e = (let (c, e) = clock io e in set_timer io (c + CLOCK_PRE_SEC div TICKS_PER_SEC) e)"

text \<open>\<open>timer_elapsed\<close>, on two readings of the tick counter, an \<open>i64\<close>.\<close>

definition timer_elapsed :: "64 word \<Rightarrow> 64 word \<Rightarrow> int" where
  "timer_elapsed ticks before = sint (ticks - before)"

section \<open>The interrupt level\<close>

text \<open>The registers of the hart that this part of the kernel works on, and what lies behind its calls.\<close>

record 'f hart =
  h_sie :: usize
  h_sstatus :: usize
  h_env :: 'f

definition STIE :: nat where "STIE = 5"
definition SEIE :: nat where "SEIE = 9"
definition SIE_BIT :: nat where "SIE_BIT = 1"

definition intr_on :: "'f hart \<Rightarrow> 'f hart" where
  "intr_on h = h\<lparr>h_sie := set_bit SEIE (set_bit STIE (h_sie h))\<rparr>"

definition intr_off :: "'f hart \<Rightarrow> 'f hart" where
  "intr_off h = h\<lparr>h_sie := unset_bit STIE (unset_bit SEIE (h_sie h))\<rparr>"

definition intr_get :: "'f hart \<Rightarrow> bool" where
  "intr_get h = bit (h_sie h) STIE"

definition intr_set :: "bool \<Rightarrow> 'f hart \<Rightarrow> bool \<times> 'f hart" where
  "intr_set level h =
     (let old = intr_get h
      in (old, if old \<noteq> level then if level then intr_on h else intr_off h else h))"

definition intr_init :: "'f sbi \<Rightarrow> 'f hart \<Rightarrow> 'f hart" where
  "intr_init io h =
     (let h = h\<lparr>h_env := timer_next io (h_env h)\<rparr>;
          h = snd (intr_set True h)
      in h\<lparr>h_sstatus := set_bit SIE_BIT (h_sstatus h)\<rparr>)"

section \<open>The console\<close>

type_synonym rust_str = "u32 list"

definition lit :: "string \<Rightarrow> rust_str" where
  "lit s = map (\<lambda>c. of_nat (of_char c)) s"

text \<open>\<open>Stdout::write_str\<close>, and the lock around it.\<close>

fun stdout_write_str :: "'f sbi \<Rightarrow> rust_str \<Rightarrow> 'f hart \<Rightarrow> 'f hart" where
  "stdout_write_str io [] h = h"
| "stdout_write_str io (ch # cs) h = stdout_write_str io cs (h\<lparr>h_env := console_putchar io (ucast ch) (h_env h)\<rparr>)"

definition stdout_lock :: "'f hart \<Rightarrow> bool \<times> 'f hart" where
  "stdout_lock h = intr_set False h"

definition stdout_unlock :: "bool \<Rightarrow> 'f hart \<Rightarrow> 'f hart" where
  "stdout_unlock intr h = snd (intr_set intr h)"

definition kprint :: "'f sbi \<Rightarrow> rust_str \<Rightarrow> 'f hart \<Rightarrow> 'f hart" where
  "kprint io s h =
     (let (intr, h) = stdout_lock h;
          h = stdout_write_str io s h
      in stdout_unlock intr h)"

text \<open>\<open>{}\<close> of a \<open>usize\<close>.\<close>

fun show_dec :: "nat \<Rightarrow> rust_str" where
  "show_dec n = (if n < 10 then [of_nat (48 + n)] else show_dec (n div 10) @ [of_nat (48 + n mod 10)])"

declare show_dec.simps [simp del]

definition ESC :: rust_str where
  "ESC = [0x1B]"

definition stamp :: "usize \<Rightarrow> rust_str" where
  "stamp ms = lit ''['' @ ESC @ lit ''[38;2;129;165;113;1m'' @ show_dec (unat ms) @ lit '' ms'' @ ESC @ lit ''[0m] ''"

definition kprintln :: "'f sbi \<Rightarrow> rust_str \<Rightarrow> 'f hart \<Rightarrow> 'f hart" where
  "kprintln io s h =
     (let (intr, h) = stdout_lock h;
          (ms, e) = time_ms io (h_env h);
          h = kprint io (stamp ms) (h\<lparr>h_env := e\<rparr>);
          h = kprint io s h;
          h = kprint io [10] h
      in stdout_unlock intr h)"

text \<open>\<open>panic\<close> of \<open>main.rs\<close>, with the text that \<open>PanicInfo\<close> is displayed as.\<close>

definition panic_handler :: "'f sbi \<Rightarrow> rust_str \<Rightarrow> 'f hart \<Rightarrow> 'f option" where
  "panic_handler io info h =
     (let h = snd (intr_set False h);
          h = kprintln io info h
      in sbi_reset io Shutdown SystemFailure (h_env h))"

section \<open>Interrupts and output\<close>

lemmas intr_defs = Let_def intr_set_def intr_get_def intr_on_def intr_off_def STIE_def SEIE_def

text \<open>The register behind the level: \<open>on\<close> and \<open>off\<close> refine the level that the locks work with.\<close>

lemma intr_set_refines: "(fst (intr_set level h), intr_get (snd (intr_set level h))) = level_set (intr_get h) level"
  by (auto simp: intr_defs bit_set_bit_iff bit_unset_bit_iff)

lemma intr_set_simps [simp]:
  "fst (intr_set level h) = intr_get h" "intr_get (snd (intr_set level h)) = level"
  using intr_set_refines [of level h] by simp_all

lemma intr_set_frame [simp]:
  "h_env (snd (intr_set level h)) = h_env h" "h_sstatus (snd (intr_set level h)) = h_sstatus h"
  by (simp_all add: intr_defs)

lemma intr_set_same: "intr_get h = level \<Longrightarrow> intr_set level h = (level, h)"
  by (simp add: intr_set_def)

text \<open>
  Turning interrupts off and restoring the level also turns external interrupts on if the timer was
  enabled, since only its bit is looked at.
\<close>

definition sie_relocked :: "'f hart \<Rightarrow> usize" where
  "sie_relocked h = (if intr_get h then set_bit SEIE (h_sie h) else h_sie h)"

lemma intr_set_back:
  "h_sie (snd (intr_set (intr_get h) (h'\<lparr>h_sie := h_sie (snd (intr_set False h))\<rparr>))) = sie_relocked h"
proof (cases "intr_get h")
  case True
  then show ?thesis
    by (intro bit_eqI) (auto simp: sie_relocked_def intr_defs bit_set_bit_iff bit_unset_bit_iff)
qed (simp add: sie_relocked_def intr_defs)

lemma write_str_frame [simp]:
  "h_sie (stdout_write_str io s h) = h_sie h" "h_sstatus (stdout_write_str io s h) = h_sstatus h"
  by (induction s arbitrary: h) simp_all

lemma intr_get_cong: "h_sie h = h_sie h' \<Longrightarrow> intr_get h = intr_get h'"
  by (simp add: intr_get_def)

text \<open>What a console shows: every call of \<open>console_putchar\<close> adds its argument, and reading the clock adds nothing.\<close>

definition prints :: "'f sbi \<Rightarrow> ('f \<Rightarrow> usize list) \<Rightarrow> bool" where
  "prints io out \<longleftrightarrow> (\<forall>e c. out (snd (ecall io CONSOLE_PUTCHAR 0 [c] e)) = out e @ [c]) \<and>
     (\<forall>e. out (snd (rdtime io e)) = out e)"

lemma putchar_prints: "prints io out \<Longrightarrow> out (console_putchar io c e) = out e @ [c]"
  by (simp add: prints_def console_putchar_def legacy_call_def sbi_call_def case_prod_beta Let_def)

lemma write_str_prints: "prints io out \<Longrightarrow> out (h_env (stdout_write_str io s h)) = out (h_env h) @ map ucast s"
  by (induction s arbitrary: h) (simp_all add: putchar_prints)

lemma kprint_masked:
  assumes "\<not> intr_get h"
  shows "kprint io s h = stdout_write_str io s h"
  using assms intr_get_cong [of "stdout_write_str io s h" h]
  by (simp add: kprint_def stdout_lock_def stdout_unlock_def intr_set_same)

lemma time_ms_prints: "prints io out \<Longrightarrow> out (snd (time_ms io e)) = out e"
  by (simp add: prints_def time_ms_def clock_def case_prod_beta Let_def)

text \<open>Between the lock and its drop nothing but text goes out, and the register stays.\<close>

definition line_body :: "'f sbi \<Rightarrow> rust_str \<Rightarrow> 'f hart \<Rightarrow> 'f hart" where
  "line_body io s h = stdout_write_str io [10] (stdout_write_str io s
     (stdout_write_str io (stamp (fst (time_ms io (h_env h)))) (h\<lparr>h_env := snd (time_ms io (h_env h))\<rparr>)))"

lemma kprintln_eq: "kprintln io s h = snd (intr_set (intr_get h) (line_body io s (snd (intr_set False h))))"
proof -
  define h0 where "h0 = snd (intr_set False h)"
  define h1 where "h1 = h0\<lparr>h_env := snd (time_ms io (h_env h0))\<rparr>"
  have m: "\<not> intr_get x" if "h_sie x = h_sie h0" for x :: "'a hart"
    using that intr_get_cong [of x h0] by (simp add: h0_def)
  have "kprintln io s h =
      snd (intr_set (intr_get h) (kprint io [10] (kprint io s (kprint io (stamp (fst (time_ms io (h_env h0)))) h1))))"
    by (simp add: kprintln_def stdout_lock_def stdout_unlock_def case_prod_beta Let_def h1_def h0_def)
  also have "kprint io (stamp (fst (time_ms io (h_env h0)))) h1 = stdout_write_str io (stamp (fst (time_ms io (h_env h0)))) h1"
    by (rule kprint_masked) (simp add: m h1_def)
  also have "kprint io s \<dots> = stdout_write_str io s \<dots>"
    by (rule kprint_masked) (simp add: m h1_def)
  also have "kprint io [10] \<dots> = stdout_write_str io [10] \<dots>"
    by (rule kprint_masked) (simp add: m h1_def)
  finally show ?thesis unfolding line_body_def h1_def h0_def by simp
qed

lemma line_body_frame: "h_sie (line_body io s h) = h_sie h" "h_sstatus (line_body io s h) = h_sstatus h"
  by (simp_all only: line_body_def write_str_frame) simp_all

definition line :: "usize \<Rightarrow> rust_str \<Rightarrow> usize list" where
  "line ms s = map ucast (stamp ms @ s @ [10])"

lemma line_body_prints:
  "prints io out \<Longrightarrow> out (h_env (line_body io s h)) = out (h_env h) @ line (fst (time_ms io (h_env h))) s"
  by (simp only: line_body_def write_str_prints) (simp add: time_ms_prints line_def)

lemma kprintln_frame [simp]:
  "intr_get (kprintln io s h) = intr_get h" "h_sstatus (kprintln io s h) = h_sstatus h"
  by (simp_all add: kprintln_eq line_body_frame)

lemma kprintln_sie: "h_sie (kprintln io s h) = sie_relocked h"
proof -
  define b where "b = line_body io s (snd (intr_set False h))"
  have "b = b\<lparr>h_sie := h_sie (snd (intr_set False h))\<rparr>" by (simp add: b_def line_body_frame)
  then have "h_sie (snd (intr_set (intr_get h) b)) = sie_relocked h" by (metis intr_set_back)
  then show ?thesis by (simp add: kprintln_eq b_def)
qed

lemma kprintln_out:
  "prints io out \<Longrightarrow> out (h_env (kprintln io s h)) = out (h_env h) @ line (fst (time_ms io (h_env h))) s"
  by (simp add: kprintln_eq line_body_prints)

text \<open>Decimal numbers read back.\<close>

definition read_dec :: "rust_str \<Rightarrow> nat" where
  "read_dec s = foldl (\<lambda>n c. 10 * n + (unat c - 48)) 0 s"

lemma show_dec_correct: "read_dec (show_dec n) = n \<and> (\<forall>c \<in> set (show_dec n). 48 \<le> unat c \<and> unat c \<le> 57)"
proof (induction n rule: show_dec.induct)
  case (1 n)
  have d: "unat (of_nat (48 + k) :: u32) = 48 + k" if "k < 10" for k
    by (rule unat_of_nat_small) (use that in simp)
  show ?case
  proof (cases "n < 10")
    case True
    then show ?thesis using d [of n] by (subst (1 2) show_dec.simps) (simp add: read_dec_def)
  next
    case False
    then show ?thesis using 1 d [of "n mod 10"] by (subst (1 2) show_dec.simps) (auto simp: read_dec_def)
  qed
qed

text \<open>
  A line of output. On a console that shows what it is sent, \<open>kprintln!\<close> adds the stamp with
  the time in decimal, the text and a line feed, in this order and nothing else; the interrupt level
  and the status register are what they were, also when the caller holds the lock of the console already.
\<close>

lemma kprintln_prints_line:
  assumes "prints io out"
  shows "\<exists>ms. out (h_env (kprintln io s h)) = out (h_env h) @ map ucast (stamp ms @ s @ [10]) \<and>
    ms = fst (time_ms io (h_env h)) \<and> read_dec (show_dec (unat ms)) = unat ms \<and>
    intr_get (kprintln io s h) = intr_get h \<and> h_sstatus (kprintln io s h) = h_sstatus h"
  using kprintln_out [OF assms] show_dec_correct by (auto simp: line_def)

text \<open>A terminal: the keys to come, and what was shown; it is off once it was asked to reset.\<close>

record term_env =
  t_keys :: "usize list"
  t_out :: "usize list"
  t_time :: usize
  t_off :: "usize list option"

definition term_sbi :: "term_env sbi" where
  "term_sbi = \<lparr>
     ecall = (\<lambda>eid fid args e.
       if eid = CONSOLE_PUTCHAR then ((0, 0), e\<lparr>t_out := t_out e @ args\<rparr>)
       else if eid = CONSOLE_GETCHAR then
         (case t_keys e of [] \<Rightarrow> ((-1, 0), e) | k # ks \<Rightarrow> ((k, 0), e\<lparr>t_keys := ks\<rparr>))
       else if eid = 0x53525354 then ((0, 0), e\<lparr>t_off := Some args\<rparr>)
       else ((0, 0), e)),
     rdtime = (\<lambda>e. (t_time e, e\<lparr>t_time := t_time e + 1\<rparr>)),
     powered_off = (\<lambda>e. t_off e \<noteq> None)\<rparr>"

lemma term_prints: "prints term_sbi t_out"
  by (simp add: prints_def term_sbi_def)

text \<open>
  The end of a panic. The handler masks the interrupts and asks the firmware for a shutdown
  with the reason of a system failure, after it has shown the message as one line.
\<close>

lemma panic_handler_correct:
  assumes "prints io out" and "\<forall>ty r e. out (snd (ecall io 0x53525354 0 [ty, r] e)) = out e"
    and "\<forall>e. powered_off io (snd (ecall io 0x53525354 0 [0, 1] e))"
  shows "\<exists>e'. panic_handler io info h = Some e' \<and> out e' = out (h_env h) @ line (fst (time_ms io (h_env h))) info"
proof -
  have "panic_handler io info h = Some (snd (ecall io 0x53525354 0 [0, 1] (h_env (kprintln io info (snd (intr_set False h))))))"
    using assms(3) by (simp add: panic_handler_def sbi_reset_def sbi_call_def SYSTEM_RESET_def case_prod_beta Let_def)
  then show ?thesis using assms(2) kprintln_out [OF assms(1), of info "snd (intr_set False h)"] by simp
qed

section \<open>Readings of the clock\<close>

lemma scaled_clock:
  fixes c k :: usize
  assumes "unat c * unat k < 2 ^ 64"
  shows "unat (c * k div CLOCK_PRE_SEC) = unat c * unat k div 12500000"
  using assms by (simp add: unat_div CLOCK_PRE_SEC_def unat_mult_lem [THEN iffD1])

lemma time_ms_correct:
  assumes "unat (fst (rdtime io e)) * 1000 < 2 ^ 64"
  shows "unat (fst (time_ms io e)) = unat (fst (rdtime io e)) * 1000 div 12500000"
  using assms scaled_clock [of "fst (rdtime io e)" 1000] by (simp add: time_ms_def clock_def case_prod_beta Let_def)

lemma time_us_correct:
  assumes "unat (fst (rdtime io e)) * 1000000 < 2 ^ 64"
  shows "unat (fst (time_us io e)) = unat (fst (rdtime io e)) * 1000000 div 12500000"
  using assms scaled_clock [of "fst (rdtime io e)" 1000000] by (simp add: time_us_def clock_def case_prod_beta Let_def)

text \<open>
  After 17 days (1475740 seconds of 12500000 cycles) the product leaves the 64 bits and the reading
  starts again at zero.
\<close>

lemma time_us_wraps:
  "unat (fst (time_us term_sbi (term_env.make [] [] (1475739 * 12500000) None))) = 1475739000000"
  "unat (fst (time_us term_sbi (term_env.make [] [] (1475740 * 12500000) None))) < 1000000"
  by (simp_all add: time_us_def clock_def term_sbi_def term_env.make_def CLOCK_PRE_SEC_def)

end
