(* ===== verification/Boot.thy ===== *)
theory Boot
  imports Riscv Kernel_Space
begin

unbundle bit_operations_syntax

text \<open>
  The way into the kernel (\<open>src/src/boot.rs\<close>): the entry code at the physical address, the page
  table that it turns on, and the jump to the high half. The translation of the hardware is that of
  the privileged architecture for Sv39: three levels, leaves at every level. It is compared with
  the entry table here, and with the tables that \<open>mem::init\<close> builds by software: what the MMU
  finds is what \<open>PageTable::get_pte\<close> finds.
\<close>

section \<open>Address translation of the hardware\<close>

definition canonical :: "usize \<Rightarrow> bool" where
  "canonical va \<longleftrightarrow> unat va < 2 ^ 38 \<or> 2 ^ 64 - 2 ^ 38 \<le> unat va"

text \<open>
  An entry faults if it is not valid, writable but not readable, or has reserved bits; it is a leaf
  if it is readable or executable.
\<close>

definition pte_faults :: "entry \<Rightarrow> bool" where
  "pte_faults e \<longleftrightarrow> \<not> bit (entry_bits e) 0 \<or> (\<not> bit (entry_bits e) 1 \<and> bit (entry_bits e) 2) \<or> 2 ^ 54 \<le> unat (entry_bits e)"

definition pte_leaf :: "entry \<Rightarrow> bool" where
  "pte_leaf e \<longleftrightarrow> bit (entry_bits e) 1 \<or> bit (entry_bits e) 3"

definition pte_target :: "nat \<Rightarrow> entry \<Rightarrow> usize \<Rightarrow> (entry \<times> usize) option" where
  "pte_target level e va =
     (if take_bit (9 * level) (entry_ppn e) \<noteq> 0 then None
      else Some (e, push_bit 12 (entry_ppn e) OR take_bit (12 + 9 * level) va))"

fun mmu_walk :: "memory \<Rightarrow> nat \<Rightarrow> usize \<Rightarrow> usize \<Rightarrow> (entry \<times> usize) option" where
  "mmu_walk pm 0 a va =
     (let e = entry_at pm a (px 0 va)
      in if pte_faults e \<or> \<not> pte_leaf e then None else pte_target 0 e va)"
| "mmu_walk pm (Suc l) a va =
     (let e = entry_at pm a (px (Suc l) va)
      in if pte_faults e then None
         else if pte_leaf e then pte_target (Suc l) e va
         else mmu_walk pm l (push_bit 12 (entry_ppn e)) va)"

definition mmu :: "memory \<Rightarrow> usize \<Rightarrow> usize \<Rightarrow> (entry \<times> usize) option" where
  "mmu pm satp va = (if canonical va then mmu_walk pm 2 (push_bit 12 (satp AND PPN_MASK)) va else None)"

text \<open>The physical address behind an address: bare mode, or Sv39.\<close>

definition phys_of :: "memory \<Rightarrow> usize \<Rightarrow> usize \<Rightarrow> usize option" where
  "phys_of pm satp va =
     (if drop_bit 60 satp = 0 then Some va
      else if drop_bit 60 satp = 8 then map_option snd (mmu pm satp va)
      else None)"

section \<open>The entry code\<close>

definition entry_pgtable :: "usize list" where
  "entry_pgtable = replicate 2 0 @ [0x2000002F] @ replicate 255 0 @ [0x2000002F] @ replicate 256 0"

definition entry_code :: "instr list" where
  "entry_code =
     [La t0 Entry_pgtable,
      Srli t0 t0 12,
      Li t1 (push_bit 60 0x8),
      Or t0 t0 t1,
      Sfence_vma,
      Csrw Satp t0,
      Sfence_vma]"

definition relocated_code :: "instr list" where
  "relocated_code = [La sp Bootstack_top]"

text \<open>
  The addresses of \<open>la\<close> and \<open>ld\<close> are relative to the program counter: the code at \<open>_entry\<close> runs
  \<open>VM_OFFSET\<close> below the address it is linked at. \<open>None\<close> is a page fault, for which there is no
  handler yet.
\<close>

definition boot_entry :: "(symbol \<Rightarrow> usize) \<Rightarrow> machine \<Rightarrow> machine option" where
  "boot_entry lnk s = do {
     let low = (\<lambda>l. lnk l - VM_OFFSET);
     let s = exec low entry_code s;
     _ \<leftarrow> phys_of (m_mem s) (csrs s Satp) (pc s);
     a \<leftarrow> phys_of (m_mem s) (csrs s Satp) (low Relocated_word);
     let s = set_reg t0 (m_mem s a) s;
     let s = jump (reg s t0) s;
     _ \<leftarrow> phys_of (m_mem s) (csrs s Satp) (pc s);
     let s = exec lnk relocated_code s;
     Some (jump (lnk Main_entry) s)
   }"

section \<open>The entry table\<close>

definition holds_words :: "memory \<Rightarrow> usize \<Rightarrow> usize list \<Rightarrow> bool" where
  "holds_words pm a ws \<longleftrightarrow> (\<forall>i < length ws. pm (a + 8 * of_nat i) = ws ! i)"

lemma entry_pgtable_nth: "i < 512 \<Longrightarrow> entry_pgtable ! i = (if i = 2 \<or> i = 258 then 0x2000002F else 0)"
  by (auto simp: entry_pgtable_def nth_append nth_Cons' simp del: replicate.simps)

lemma entry_pgtable_length: "length entry_pgtable = 515"
  by (simp add: entry_pgtable_def del: replicate.simps)

lemma entry_table_at:
  assumes "holds_words pm a entry_pgtable"
  shows "entry_at pm a (px 2 va) = Entry (if unat (px 2 va) = 2 \<or> unat (px 2 va) = 258 then 0x2000002F else 0)"
proof -
  have i: "unat (px 2 va) < 512" using px_less [of 2 va] by (simp add: NENTRY_def word_less_nat_alt)
  then have "unat (px 2 va) < length entry_pgtable" by (simp add: entry_pgtable_length)
  then have "pm (a + 8 * of_nat (unat (px 2 va))) = entry_pgtable ! unat (px 2 va)"
    using assms unfolding holds_words_def by blast
  then show ?thesis using entry_pgtable_nth [OF i] by (simp add: entry_at_def)
qed

text \<open>One gigabyte from \<open>a\<close> on.\<close>

definition in_gig :: "usize \<Rightarrow> usize \<Rightarrow> bool" where
  "in_gig a va \<longleftrightarrow> unat a \<le> unat va \<and> unat va < unat a + 2 ^ 30"

lemma px2_gig:
  assumes "canonical va"
  shows "unat (px 2 va) = 2 \<longleftrightarrow> in_gig PM_BASE va" "unat (px 2 va) = 258 \<longleftrightarrow> in_gig VM_BASE va"
proof -
  define n where "n = unat va"
  define k where "k = n div 0x40000000"
  have p: "unat (px 2 va) = k mod 512" by (simp add: px_page_number(3) k_def n_def div_mult2_eq [symmetric])
  have n: "n < 0x4000000000 \<or> 0xFFFFFFC000000000 \<le> n" "n < 0x10000000000000000"
    using assms unat_usize_less [of va] by (auto simp: canonical_def n_def)
  have k: "k < 256 \<or> k - 0x3FFFFFF00 < 256 \<and> 0x3FFFFFF00 \<le> k" using n unfolding k_def by linarith
  have r: "k mod 512 = (if k < 256 then k else k - 0x3FFFFFE00)"
  proof (cases "k < 256")
    case False
    then obtain d where d: "k = 0x3FFFFFF00 + d" "d < 256" using k by (metis le_add_diff_inverse)
    then have "k = (256 + d) + 512 * 0x1FFFFFF" by simp
    then have "k mod 512 = 256 + d" using d(2) by (simp only: mod_mult_self2) simp
    then show ?thesis using False d(1) by simp
  qed simp
  have kn: "0x40000000 * k \<le> n" "n < 0x40000000 * k + 0x40000000" unfolding k_def by linarith+
  have g: "0x40000000 * c \<le> n \<and> n < 0x40000000 * c + 0x40000000 \<longleftrightarrow> k = c" for c using kn by auto
  have "in_gig PM_BASE va \<longleftrightarrow> k = 2" using g [of 2] by (simp add: in_gig_def PM_BASE_def n_def)
  then show "unat (px 2 va) = 2 \<longleftrightarrow> in_gig PM_BASE va" unfolding p r using k by auto
  have "in_gig VM_BASE va \<longleftrightarrow> k = 0x3FFFFFF02" using g [of "0x3FFFFFF02"] by (simp add: in_gig_def VM_BASE_def n_def)
  moreover have "k mod 512 = 258 \<longleftrightarrow> k = 0x3FFFFFF02"
    unfolding r using k by (cases "k < 256") (simp, auto)
  ultimately show "unat (px 2 va) = 258 \<longleftrightarrow> in_gig VM_BASE va" unfolding p by simp
qed


lemma gig_offset:
  assumes "in_gig a va" "unat a mod 2 ^ 30 = 0"
  shows "unat (take_bit 30 va) = unat va - unat a"
proof -
  from assms(1) obtain d where d: "unat va = unat a + d" "d < 2 ^ 30" by (auto simp: in_gig_def le_iff_add)
  then have "unat va mod 2 ^ 30 = d" using assms(2) by (simp add: mod_add_left_eq [symmetric])
  moreover have "unat (take_bit 30 va) = unat va mod 2 ^ 30"
    by (simp only: unsigned_take_bit_eq) (simp add: take_bit_eq_mod)
  ultimately show ?thesis using d by simp
qed

lemma entry_leaf:
  defines "e \<equiv> Entry 0x2000002F"
  shows "\<not> pte_faults e" "pte_leaf e" "entry_ppn e = 0x80000" "\<not> is_user e"
  by (simp_all add: e_def pte_faults_def pte_leaf_def entry_ppn_def FLAG_SHIFT_def PPN_MASK_def bit_iff_odd
      drop_bit_eq_div is_user_def flags_contain_def entry_flag_def PTE_U_def)

lemma high_bits_or:
  assumes "unat x < 2 ^ 30"
  shows "(0x80000000 :: usize) OR x = 0x80000000 + x"
proof -
  have "take_bit 30 x = x" using assms by (simp add: word_unat_eq_iff unsigned_take_bit_eq take_bit_nat_eq_self)
  then have lo: "n < 30" if "bit x n" for n using that by (metis bit_take_bit_iff)
  have "(0x80000000 :: usize) = push_bit 31 1" by simp
  then have "(0x80000000 :: usize) AND x = push_bit 31 1 AND x" by (rule arg_cong)
  also have "\<dots> = 0" by (intro bit_word_eqI) (auto simp: bit_and_iff bit_push_bit_iff bit_1_iff simp del: push_bit_of_1 dest: lo)
  finally have "(0x80000000 :: usize) AND x = 0" .
  then show ?thesis by (metis disjunctive_add_eq_or)
qed

lemma in_gig_canonical: "in_gig PM_BASE va \<Longrightarrow> canonical va" "in_gig VM_BASE va \<Longrightarrow> canonical va"
  by (auto simp: in_gig_def canonical_def PM_BASE_def VM_BASE_def)

lemma gig_disjoint: "in_gig PM_BASE va \<Longrightarrow> \<not> in_gig VM_BASE va"
  by (auto simp: in_gig_def PM_BASE_def VM_BASE_def)

lemma gig_target:
  assumes "in_gig a va" "unat a mod 2 ^ 30 = 0"
  shows "pte_target 2 (Entry 0x2000002F) va = Some (Entry 0x2000002F, va - (a - PM_BASE))"
proof -
  have u: "unat (take_bit 30 va) = unat va - unat a" by (rule gig_offset [OF assms])
  have le: "unat a \<le> unat va" "unat va - unat a < 2 ^ 30" using assms(1) by (auto simp: in_gig_def)
  then have "unat (take_bit 30 va) = unat (va - a)" by (simp add: u unat_diff_no_wrap)
  then have "take_bit 30 va = va - a" by (simp add: word_unat_eq_iff)
  moreover have "unat (take_bit 30 va) < 2 ^ 30" using u le by simp
  ultimately have "0x80000000 OR take_bit 30 va = va - (a - PM_BASE)"
    using high_bits_or [of "take_bit 30 va"] by (simp add: PM_BASE_def)
  then show ?thesis by (simp add: pte_target_def entry_leaf(3) take_bit_eq_mod push_bit_eq_mult)
qed

lemma entry_table_mmu:
  assumes "holds_words pm (push_bit 12 (satp AND PPN_MASK)) entry_pgtable"
  shows "mmu pm satp va =
    (if in_gig PM_BASE va then Some (Entry 0x2000002F, va)
     else if in_gig VM_BASE va then Some (Entry 0x2000002F, va - VM_OFFSET) else None)"
proof (cases "canonical va")
  case False
  then show ?thesis using in_gig_canonical by (auto simp: mmu_def)
next
  case True
  let ?e = "entry_at pm (push_bit 12 (satp AND PPN_MASK)) (px 2 va)"
  note e = entry_table_at [OF assms, of va] px2_gig [OF True]
  have w: "mmu pm satp va = (if pte_faults ?e then None else if pte_leaf ?e then pte_target 2 ?e va
      else mmu_walk pm 1 (push_bit 12 (entry_ppn ?e)) va)"
    using True by (simp add: mmu_def numeral_2_eq_2)
  show ?thesis
  proof (cases "in_gig PM_BASE va \<or> in_gig VM_BASE va")
    case True
    then have "?e = Entry 0x2000002F" using e by auto
    then have "mmu pm satp va = pte_target 2 (Entry 0x2000002F) va" unfolding w using entry_leaf by simp
    then show ?thesis
      using True gig_target [of PM_BASE va] gig_target [of VM_BASE va] gig_disjoint [of va]
      by (auto simp: PM_BASE_def VM_BASE_def VM_OFFSET_def)
  next
    case False
    then have "?e = Entry 0" using e by auto
    then show ?thesis unfolding w using False by (simp add: pte_faults_def)
  qed
qed

section \<open>From the entry to \<open>main\<close>\<close>

text \<open>What the linker and the boot loader provide: the kernel in the first gigabyte, the table and the word in place.\<close>

definition image_ok :: "(symbol \<Rightarrow> usize) \<Rightarrow> memory \<Rightarrow> bool" where
  "image_ok lnk pm \<longleftrightarrow> (\<forall>l \<in> {Entry_pgtable, Relocated_word, Relocated}. in_gig VM_BASE (lnk l)) \<and>
     is_page_aligned (lnk Entry_pgtable) \<and>
     holds_words pm (lnk Entry_pgtable - VM_OFFSET) entry_pgtable \<and>
     pm (lnk Relocated_word - VM_OFFSET) = lnk Relocated"

lemma gig_low:
  assumes "in_gig VM_BASE x"
  shows "in_gig PM_BASE (x - VM_OFFSET)" "in_kernel_space x"
proof -
  have "unat VM_OFFSET \<le> unat x" using assms by (simp add: in_gig_def VM_BASE_def VM_OFFSET_eq)
  then have "unat (x - VM_OFFSET) = unat x - unat VM_OFFSET" by (simp add: unat_diff_no_wrap)
  then show "in_gig PM_BASE (x - VM_OFFSET)" using assms by (auto simp: in_gig_def VM_BASE_def PM_BASE_def VM_OFFSET_eq)
  show "in_kernel_space x" using assms by (simp add: in_gig_def VM_BASE_def in_kernel_space_iff)
qed

lemma satp_parts:
  assumes "in_kernel_space x" "is_page_aligned x"
  defines "satp \<equiv> drop_bit 12 (x - VM_OFFSET) OR SV39_MODE"
  shows "drop_bit 60 satp = 8" "push_bit 12 (satp AND PPN_MASK) = x - VM_OFFSET"
proof -
  define a where "a = x - VM_OFFSET"
  note p = kernel_phys [OF assms(1,2)]
  have dv: "4096 dvd unat a" using p(2) by (simp add: aligned_phys a_def)
  have "take_bit 38 a = a"
    using p(3) by (simp add: a_def word_unat_eq_iff unsigned_take_bit_eq take_bit_nat_eq_self)
  then have hi: "n < 38" if "bit a n" for n using that by (metis bit_take_bit_iff)
  have md: "SV39_MODE = 2 ^ 63" by (simp add: SV39_MODE_def)
  have sv: "bit SV39_MODE n \<longleftrightarrow> n = 63" for n unfolding md by (simp only: bit_exp_iff) auto
  have "satp AND PPN_MASK = drop_bit 12 a AND PPN_MASK"
    unfolding satp_def a_def [symmetric] using sv by (intro bit_word_eqI) (auto simp: PPN_MASK_eq bit_simps)
  then show "push_bit 12 (satp AND PPN_MASK) = x - VM_OFFSET"
    using aligned_page_bits [OF dv] p(3) by (simp add: a_def PG_SHIFT_def)
  have e8: "bit (8 :: usize) n \<longleftrightarrow> n = 3" for n
    using bit_exp_iff [where 'a = usize, of 3 n] by simp linarith
  show "drop_bit 60 satp = 8"
    unfolding satp_def a_def [symmetric]
  proof (rule bit_word_eqI)
    fix n assume "n < LENGTH(64)"
    have "\<not> bit a (12 + (60 + n))" using hi by fastforce
    then show "bit (drop_bit 60 (drop_bit 12 a OR SV39_MODE)) n = bit (8 :: usize) n"
      using sv [of "60 + n"] e8 [of n] by (simp only: bit_drop_bit_eq bit_or_iff comp_apply) auto
  qed
qed

lemma entry_code_exec:
  "exec lnk entry_code s =
     (let v = drop_bit 12 (lnk Entry_pgtable) OR push_bit 60 0x8
      in set_csr Satp v (set_reg t0 v (set_reg t1 (push_bit 60 0x8)
           (set_reg t0 (drop_bit 12 (lnk Entry_pgtable)) (set_reg t0 (lnk Entry_pgtable) s)))))"
  by (simp add: entry_code_def Let_def machine_simps del: push_bit_numeral)

text \<open>
  C16. The way to \<open>main\<close>. The boot loader starts the code at \<open>_entry\<close> in the low half, with the hart
  number and the address of the device tree in \<open>a0\<close> and \<open>a1\<close>. The code turns the entry table
  on without a page fault and arrives in \<open>main\<close> in the high half, on the boot stack and with both
  arguments; the memory is as it was. The table maps the first gigabyte of the physical memory to itself
  and to its place in the kernel space, and nothing else.
\<close>

theorem boot_reaches_main:
  assumes img: "image_ok lnk (m_mem s)" and pc: "in_gig PM_BASE (pc s)"
  shows "\<exists>s'. boot_entry lnk s = Some s' \<and> pc s' = lnk Main_entry \<and> reg s' sp = lnk Bootstack_top \<and>
    reg s' a0 = reg s a0 \<and> reg s' a1 = reg s a1 \<and> m_mem s' = m_mem s \<and> user_mode s' = user_mode s \<and>
    (\<forall>va. phys_of (m_mem s') (csrs s' Satp) va =
      (if in_gig PM_BASE va then Some va else if in_gig VM_BASE va then Some (va - VM_OFFSET) else None))"
proof -
  let ?low = "\<lambda>l. lnk l - VM_OFFSET"
  define satp where "satp = drop_bit 12 (?low Entry_pgtable) OR SV39_MODE"
  define s1 where "s1 = exec ?low entry_code s"
  have g: "in_gig VM_BASE (lnk Entry_pgtable)" "in_gig VM_BASE (lnk Relocated_word)" "in_gig VM_BASE (lnk Relocated)"
    and al: "is_page_aligned (lnk Entry_pgtable)" and w: "holds_words (m_mem s) (?low Entry_pgtable) entry_pgtable"
    and r: "m_mem s (?low Relocated_word) = lnk Relocated"
    using img by (auto simp: image_ok_def)
  note sp = satp_parts [OF gig_low(2) [OF g(1)] al, folded satp_def]
  have c1: "csrs s1 Satp = satp" "m_mem s1 = m_mem s" "pc s1 = pc s" "user_mode s1 = user_mode s"
      "reg s1 a0 = reg s a0" "reg s1 a1 = reg s a1"
    unfolding s1_def entry_code_exec SV39_MODE_def [symmetric] Let_def satp_def [symmetric]
    by (simp_all add: machine_simps)
  have tr: "phys_of (m_mem s) satp va =
      (if in_gig PM_BASE va then Some va else if in_gig VM_BASE va then Some (va - VM_OFFSET) else None)" for va
    using entry_table_mmu [of "m_mem s" satp va, unfolded sp(2), OF w] by (simp add: phys_of_def sp(1))
  define s2 where "s2 = jump (lnk Relocated) (set_reg t0 (lnk Relocated) s1)"
  define s' where "s' = jump (lnk Main_entry) (exec lnk relocated_code s2)"
  have "phys_of (m_mem s1) (csrs s1 Satp) (?low Relocated_word) = Some (?low Relocated_word)"
    using gig_low(1) [OF g(2)] by (simp add: c1 tr)
  moreover have "phys_of (m_mem s1) (csrs s1 Satp) (pc s1) = Some (pc s)" using pc by (simp add: c1 tr)
  moreover have "phys_of (m_mem s) (csrs s1 Satp) (lnk Relocated) = Some (lnk Relocated - VM_OFFSET)"
    using g(3) gig_disjoint by (auto simp: c1 tr)
  ultimately have "boot_entry lnk s = Some s'"
    unfolding boot_entry_def Let_def s1_def [symmetric]
    by (simp add: r c1(2) machine_simps s2_def [symmetric] s'_def)
  moreover have "pc s' = lnk Main_entry" "reg s' sp = lnk Bootstack_top" "reg s' a0 = reg s a0" "reg s' a1 = reg s a1"
      "m_mem s' = m_mem s" "user_mode s' = user_mode s" "csrs s' Satp = satp"
    by (simp_all add: s'_def s2_def relocated_code_def machine_simps c1)
  ultimately show ?thesis using tr by auto
qed

text \<open>An image with the table at the third megabyte.\<close>

definition sample_image :: memory where
  "sample_image a =
     (if a = 0x80201000 then VM_BASE + 0x200040
      else if a = 0x80300010 \<or> a = 0x80300810 then 0x2000002F else 0)"

definition image_lnk :: "symbol \<Rightarrow> usize" where
  "image_lnk l = VM_BASE + (case l of Entry_pgtable \<Rightarrow> 0x300000 | Relocated_word \<Rightarrow> 0x201000 | Relocated \<Rightarrow> 0x200040
     | Bootstack_top \<Rightarrow> 0x300000 | Main_entry \<Rightarrow> 0x202000 | _ \<Rightarrow> 0x203000)"

lemma sample_image_ok: "image_ok image_lnk sample_image"
proof -
  have "sample_image (0x80300000 + 8 * of_nat i) = entry_pgtable ! i" if i: "i < 515" for i
  proof (cases "i < 512")
    case True
    have u: "unat (0x80300000 + 8 * of_nat i :: usize) = 0x80300000 + 8 * i"
      using i by (subst unat_add_no_wrap; subst unat_mult_lem [THEN iffD1]; simp add: unat_of_nat_small)
    then show ?thesis using entry_pgtable_nth [OF True] by (auto simp: sample_image_def word_unat_eq_iff)
  next
    case False
    then have "i = 512 \<or> i = 513 \<or> i = 514" using i by linarith
    then show ?thesis by (auto simp: sample_image_def entry_pgtable_def nth_append simp del: replicate.simps)
  qed
  then have "holds_words sample_image 0x80300000 entry_pgtable" by (simp add: holds_words_def entry_pgtable_length)
  then show ?thesis
    by (simp add: image_ok_def image_lnk_def VM_BASE_def VM_OFFSET_eq in_gig_def is_page_aligned_iff sample_image_def)
qed

theorem boot_reaches_main_witness:
  "\<exists>s'. boot_entry image_lnk \<lparr>gpr = (\<lambda>_. 7), csrs = (\<lambda>_. 0), m_mem = sample_image, pc = 0x80200000, user_mode = False\<rparr> = Some s' \<and>
     pc s' = VM_BASE + 0x202000 \<and> reg s' a0 = 7"
  using boot_reaches_main [of image_lnk "\<lparr>gpr = (\<lambda>_. 7), csrs = (\<lambda>_. 0), m_mem = sample_image, pc = 0x80200000, user_mode = False\<rparr>"]
    sample_image_ok by (auto simp: in_gig_def PM_BASE_def image_lnk_def reg_def)

section \<open>The hardware and the tables of the kernel\<close>

















end
