(* ===== verification/Inode_Files.thy ===== *)
theory Inode_Files
  imports Inode
begin

text \<open>
  Resizing and writing of disk inodes: the functional behaviour of \<open>resize_inner\<close> and
  \<open>write_at\<close> of \<open>src/src/fs/disk/inode.rs\<close> on every branch, what they leave alone, and
  the instance of the contract \<open>vnode\<close> for disk inodes.
\<close>

section \<open>Resizing\<close>

definition desc_kept :: "vn_state \<Rightarrow> vn_state \<Rightarrow> bool" where
  "desc_kept s s' \<longleftrightarrow> id_sector (desc (ino s')) = id_sector (desc (ino s)) \<and>
     id_removed (desc (ino s')) = id_removed (desc (ino s)) \<and>
     id_deny_write (desc (ino s')) = id_deny_write (desc (ino s))"

text \<open>What a resize to \<open>n\<close> bytes may end in.\<close>

definition resize_outcome :: "vn_state \<Rightarrow> nat \<Rightarrow> (unit result \<times> vn_state) option \<Rightarrow> bool" where
  "resize_outcome s n res \<longleftrightarrow> (\<exists>r s'. res = Some (r, s') \<and> inode_ok s' \<and> others_kept s s' \<and>
     desc_kept s s' \<and>
     (case r of
        Ok _ \<Rightarrow> f_len s' = n \<and> (\<forall>i < min (f_len s) n. fbyte s' i = fbyte s i)
      | Err e \<Rightarrow> e = DiskSectorAllocFail \<and> s' = s \<and>
          (\<forall>j. j + sectors n < unat (size (vmap s)) \<longrightarrow> \<not> free_run (vmap s) j (sectors n))))"

lemma resized_outcome:
  assumes "inode_ok (resized s d fm start shrink len) \<and>
    others_kept s (resized s d fm start shrink len) \<and>
    (\<forall>i < min (f_len s) (unat len). fbyte (resized s d fm start shrink len) i = fbyte s i)"
  shows "resize_outcome s (unat len) (Some (Ok (), resized s d fm start shrink len))"
  using assms by (auto simp: resize_outcome_def desc_kept_def)

lemma others_kept_refl [simp]: "others_kept s s"
  by (simp add: others_kept_def)

text \<open>The branches that keep the sectors of the file.\<close>

lemma resized_same_run:
  assumes "inode_ok s" "unat len + unat shrink = f_len s + f_shrink s"
  shows "resize_outcome s (unat len)
    (Some (Ok (), resized s (vdisk s) (vmap s) (di_start (data (ino s))) shrink len))"
proof (intro resized_outcome resized_ok)
  show "inode_ok s" by (rule assms(1))
qed (use assms in \<open>auto simp: inode_ok_def own_def run_def fbyte_def\<close>)

lemma resize_in_place:
  assumes "inode_ok s" "f_len s + f_shrink s < unat len" "unat start = f_start s + sectors (f_len s + f_shrink s)"
    "f_start s + sectors (unat len) \<le> unat (size (vmap s))" "unat cnt = sectors (unat len) - sectors (f_len s + f_shrink s)"
    "free_run (vmap s) (unat start) (unat cnt)" "fm_wf fm" "size fm = size (vmap s)"
    "\<forall>j. fm_bit fm j \<longleftrightarrow> (unat start \<le> j \<and> j < unat start + unat cnt) \<or> fm_bit (vmap s) j"
  shows "resize_outcome s (unat len)
    (Some (Ok (), resized s (vdisk s) fm (di_start (data (ino s))) 0 len))"
proof (intro resized_outcome resized_ok)
  show "inode_ok s" by (rule assms(1))
  have bits: "\<forall>j\<in>own s. fm_bit (vmap s) j" using assms(1) by (simp add: inode_ok_def)
  have le: "sectors (f_len s + f_shrink s) \<le> sectors (unat len)" using assms(2) by (intro sectors_mono) simp
  let ?new = "{f_start s..<f_start s + sectors (unat len + unat (0 :: u32))}"
  have new: "j \<in> ?new \<longleftrightarrow> j \<in> run s \<or> unat start \<le> j \<and> j < unat start + unat cnt" for j
    using assms(3,5) le by (auto simp: run_def)
  have fresh: "\<not> fm_bit (vmap s) j" if "unat start \<le> j" "j < unat start + unat cnt" for j
    using that assms(6) by (simp add: free_run_def)
  show "\<forall>j\<in>?new. fm_bit fm j"
  proof
    fix j assume "j \<in> ?new"
    then consider "j \<in> run s" | "unat start \<le> j" "j < unat start + unat cnt" using new by blast
    then show "fm_bit fm j" using bits assms(9) by cases (simp_all add: own_def)
  qed
  show "fm_bit fm (f_sector s)" using bits assms(9) by (simp add: own_def)
  show "f_sector s \<notin> ?new" using new bits fresh assms(1) by (auto simp: own_def inode_ok_def)
  show "\<forall>j. fm_bit (vmap s) j \<and> j \<notin> own s \<longrightarrow> fm_bit fm j \<and> j \<notin> ?new \<and> vdisk s ! j = vdisk s ! j"
    using new fresh assms(9) by (auto simp: own_def)
qed (use assms unat_u32_less [of len] in \<open>auto simp: inode_ok_def fbyte_def\<close>)

lemma resize_moved:
  assumes "inode_ok s" "f_len s + f_shrink s < unat len"
    and "unat new + sectors (unat len) < unat (size (vmap s))" "free_run (vmap s) (unat new) (sectors (unat len))"
    and "disk_wf d" "length d = length (vdisk s)"
    and "\<forall>i < sectors (f_len s + f_shrink s). d ! (unat new + i) = vdisk s ! (f_start s + i)"
    and "\<forall>j. j \<notin> {unat new..<unat new + sectors (unat len)} \<longrightarrow> d ! j = vdisk s ! j"
    and "fm_wf fm" "size fm = size (vmap s)"
    and "\<forall>j. fm_bit fm j \<longleftrightarrow> (unat new \<le> j \<and> j < unat new + sectors (unat len) \<or> fm_bit (vmap s) j) \<and> j \<notin> run s"
  shows "resize_outcome s (unat len) (Some (Ok (), resized s d fm new 0 len))"
proof (intro resized_outcome resized_ok)
  show "inode_ok s" by (rule assms(1))
  have bits: "\<forall>j\<in>own s. fm_bit (vmap s) j" using assms(1) by (simp add: inode_ok_def)
  let ?new = "{unat new..<unat new + sectors (unat len + unat (0 :: u32))}"
  have fresh: "\<not> fm_bit (vmap s) j" if "j \<in> ?new" for j
    using that assms(4) by (simp add: free_run_def)
  show "\<forall>j\<in>?new. fm_bit fm j" using bits fresh assms(11) by (auto simp: own_def)
  show "fm_bit fm (f_sector s)" using bits assms(1,11) by (auto simp: own_def inode_ok_def)
  show "f_sector s \<notin> ?new" using bits fresh by (auto simp: own_def)
  show "\<forall>j. fm_bit (vmap s) j \<and> j \<notin> own s \<longrightarrow> fm_bit fm j \<and> j \<notin> ?new \<and> d ! j = vdisk s ! j"
    using fresh assms(8,11) by (auto simp: own_def)
  show "\<forall>i < min (f_len s) (unat len). dbyte d (unat new * 512 + i) = fbyte s i"
  proof (intro allI impI)
    fix i assume "i < min (f_len s) (unat len)"
    then have "i div 512 < sectors (f_len s + f_shrink s)" by (intro byte_in_sectors) simp
    then show "dbyte d (unat new * 512 + i) = fbyte s i"
      using assms(7) by (simp add: dbyte_def fbyte_def)
  qed
qed (use assms unat_u32_less [of len] in \<open>auto simp: inode_ok_def\<close>)


lemma resize_move_correct:
  assumes "inode_ok s" "unat oldlen = f_len s + f_shrink s" "f_len s + f_shrink s < unat len"
  shows "resize_outcome s (unat len) (resize_move s oldlen len)"
proof -
  define cnt where "cnt = bytes_to_sectors (ucast len)"
  define old where "old = bytes_to_sectors (ucast oldlen)"
  let ?st = "di_start (data (ino s))"
  have ok: "fm_wf (vmap s)" "disk_wf (vdisk s)" "unat (size (vmap s)) \<le> length (vdisk s)"
    "f_start s + sectors (f_len s + f_shrink s) \<le> unat (size (vmap s))"
    "\<forall>j\<in>own s. fm_bit (vmap s) j" using assms(1) by (simp_all add: inode_ok_def)
  have u: "unat cnt = sectors (unat len)" "unat old = sectors (f_len s + f_shrink s)"
    by (simp_all add: cnt_def old_def assms(2))
  have le: "unat old \<le> unat cnt" using assms(3) unfolding u by (intro sectors_mono) simp
  have "cnt \<noteq> 0" using u(1) assms(3) by (auto simp: sectors_def)
  from fm_alloc_spec [OF ok(1) this] obtain r fm where
    al: "fm_alloc (vmap s) cnt = Some (r, fm)" "fm_wf fm" "size fm = size (vmap s)" and
    r: "case r of
       Ok i \<Rightarrow> unat i + unat cnt < unat (size (vmap s)) \<and> free_run (vmap s) (unat i) (unat cnt) \<and>
         (\<forall>j < unat i. \<not> free_run (vmap s) j (unat cnt)) \<and>
         (\<forall>j. fm_bit fm j \<longleftrightarrow> (unat i \<le> j \<and> j < unat i + unat cnt) \<or> fm_bit (vmap s) j)
     | Err e \<Rightarrow> e = DiskSectorAllocFail \<and> fm = vmap s \<and>
         (\<forall>j. j + unat cnt < unat (size (vmap s)) \<longrightarrow> \<not> free_run (vmap s) j (unat cnt))" by blast
  show ?thesis
  proof (cases r)
    case (Inl e)
    then have "resize_move s oldlen len = Some (Err e, s)"
      using al(1) r by (simp add: resize_move_def Let_def flip: cnt_def)
    then show ?thesis using Inl r assms(1) u(1) by (simp add: resize_outcome_def desc_kept_def)
  next
    case (Inr new)
    with r have new: "unat new + unat cnt < unat (size (vmap s))" "free_run (vmap s) (unat new) (unat cnt)"
      "\<forall>j. fm_bit fm j \<longleftrightarrow> (unat new \<le> j \<and> j < unat new + unat cnt) \<or> fm_bit (vmap s) j" by auto
    have un: "unat (new + i) = unat new + unat i" if "unat i < unat cnt" for i
      using that new(1) unat_u32_less [of "size (vmap s)"] by (intro unat_add_no_wrap) simp
    have uo: "unat (?st + i) = f_start s + unat i" if "unat i < unat old" for i
      using that ok(4) u(2) unat_u32_less [of "size (vmap s)"] by (intro unat_add_no_wrap) simp
    have set_run: "fm_bit (vmap s) (unat (?st + i))" if "unat i < unat old" for i
      using that ok(5) u(2) by (simp add: uo own_def run_def)
    have rng: "set (word_range 0 old) = {i. unat i < unat old}" by (simp add: set_word_range)
    have "\<forall>i\<in>set (word_range 0 old). \<forall>i'\<in>set (word_range 0 old). ?st + i \<noteq> new + i'"
    proof (intro ballI)
      fix i i' assume a: "i \<in> set (word_range 0 old)" "i' \<in> set (word_range 0 old)"
      then have "\<not> fm_bit (vmap s) (unat (new + i'))" using new(2) un [of i'] le by (simp add: rng free_run_def)
      moreover have "fm_bit (vmap s) (unat (?st + i))" using a set_run by (simp add: rng)
      ultimately show "?st + i \<noteq> new + i'" by auto
    qed
    moreover have "\<forall>i\<in>set (word_range 0 old). unat (?st + i) < length (vdisk s) \<and> unat (new + i) < length (vdisk s)"
      using un uo le new(1) ok(3,4) u(2) by (simp add: rng)
    ultimately obtain d where d: "copy_sectors (vdisk s) ?st new (word_range 0 old) = Some d"
      "disk_wf d" "length d = length (vdisk s)"
      "\<forall>i\<in>set (word_range 0 old). d ! unat (new + i) = vdisk s ! unat (?st + i)"
      "\<forall>j. j \<notin> (\<lambda>i. unat (new + i)) ` set (word_range 0 old) \<longrightarrow> d ! j = vdisk s ! j"
      using copy_sectors_correct [OF _ _ ok(2)] by blast
    have d4: "d ! (unat new + i) = vdisk s ! (f_start s + i)" if "i < sectors (f_len s + f_shrink s)" for i
    proof -
      have i: "unat (of_nat i :: u32) = i"
        using that u(2) unat_u32_less [of old] by (intro unat_of_nat_small) simp
      then have "d ! unat (new + of_nat i) = vdisk s ! unat (?st + of_nat i)"
        using d(4) that u(2) by (simp add: rng)
      then show ?thesis using i that un [of "of_nat i"] uo [of "of_nat i"] le u(2) by simp
    qed
    have d5: "d ! j = vdisk s ! j" if "j \<notin> {unat new..<unat new + sectors (unat len)}" for j
    proof -
      have "j \<notin> (\<lambda>i. unat (new + i)) ` set (word_range 0 old)"
        using that un le u(1) by (auto simp: rng)
      then show ?thesis using d(5) by blast
    qed
    have "\<forall>j. f_start s \<le> j \<and> j < f_start s + unat old \<longrightarrow> fm_bit fm j"
      using new(3) ok(5) u(2) by (simp add: own_def run_def)
    then obtain fm' where fm': "fm_dealloc fm ?st old = Some fm'" "fm_wf fm'" "size fm' = size (vmap s)"
      "\<forall>j. fm_bit fm' j \<longleftrightarrow> fm_bit fm j \<and> \<not> (f_start s \<le> j \<and> j < f_start s + unat old)"
      using fm_dealloc_range [OF al(2), of ?st old] ok(4) u(2) al(3) by auto
    have "f_sector s < length d" using d(3) inode_ok_sector [OF assms(1)] by simp
    then have "resize_move s oldlen len = Some (Ok (), resized s d fm' new 0 len)"
      using Inr al(1) d(1) fm'(1) by (simp add: resize_move_def Let_def flush_len_resized flip: cnt_def old_def)
    moreover have "resize_outcome s (unat len) (Some (Ok (), resized s d fm' new 0 len))"
      using assms new u d fm' d4 d5 by (intro resize_moved) (auto simp: run_def)
    ultimately show ?thesis by simp
  qed
qed

text \<open>The condition under which growing in place asks for sectors of the disk only.\<close>

definition grows_on_disk :: "vn_state \<Rightarrow> nat \<Rightarrow> bool" where
  "grows_on_disk s n \<longleftrightarrow> n \<le> f_len s + f_shrink s \<or> f_start s + sectors n \<le> unat (size (vmap s))"

lemma resize_inner_correct:
  fixes len :: u32
  assumes "inode_ok s" "len = ucast sz" "grows_on_disk s (unat len)"
  shows "resize_outcome s (unat len) (resize_inner s sz)"
proof -
  let ?len = "di_len (data (ino s))" and ?sh = "id_shrink_len (desc (ino s))"
  have tot: "f_len s + f_shrink s < 2 ^ 32" using assms(1) by (simp add: inode_ok_def)
  have ul: "unat (?len + ?sh) = f_len s + f_shrink s" using tot by (intro unat_add_no_wrap) simp
  note sec = inode_ok_sector(2) [OF assms(1)]
  consider "len = ?len" | "len < ?len" | "?len < len" "len \<le> ?len + ?sh" | "?len < len" "?len + ?sh < len"
    by fastforce
  then show ?thesis
  proof cases
    case 1
    then show ?thesis using assms by (simp add: resize_inner_def Let_def resize_outcome_def desc_kept_def)
  next
    case 2
    then have d: "unat (?len - len) = f_len s - unat len"
      by (intro unat_diff_no_wrap) (simp add: word_less_nat_alt)
    have lt: "unat len < f_len s" using 2 by (simp add: word_less_nat_alt)
    have "unat (?sh + (?len - len)) = f_shrink s + (f_len s - unat len)"
      using tot d by (subst unat_add_no_wrap) auto
    then have "resize_outcome s (unat len) (Some (Ok (),
        resized s (vdisk s) (vmap s) (di_start (data (ino s))) (?sh + (?len - len)) len))"
      using lt by (intro resized_same_run assms(1)) simp
    then show ?thesis
      using 2 sec by (simp add: resize_inner_def Let_def flush_len_resized less_imp_neq flip: assms(2))
  next
    case 3
    then have d: "unat (?len + ?sh - len) = f_len s + f_shrink s - unat len"
      using ul by (subst unat_diff_no_wrap) (simp_all add: word_le_nat_alt)
    have "unat len \<le> f_len s + f_shrink s" using 3 ul by (simp add: word_le_nat_alt)
    then have "resize_outcome s (unat len) (Some (Ok (),
        resized s (vdisk s) (vmap s) (di_start (data (ino s))) (?len + ?sh - len) len))"
      using d by (intro resized_same_run assms(1)) simp
    moreover have "len \<noteq> ?len" "\<not> len < ?len" using 3 by auto
    ultimately show ?thesis
      using 3 sec by (simp add: resize_inner_def Let_def flush_len_resized flip: assms(2))
  next
    case 4
    define cnt where "cnt = bytes_to_sectors (ucast len) - bytes_to_sectors (ucast (?len + ?sh))"
    define start where "start = di_start (data (ino s)) + bytes_to_sectors (ucast (?len + ?sh))"
    have lt: "f_len s + f_shrink s < unat len" using 4 ul by (simp add: word_less_nat_alt)
    have mono: "sectors (f_len s + f_shrink s) \<le> sectors (unat len)" using lt by (intro sectors_mono) simp
    have fits: "f_start s + sectors (unat len) \<le> unat (size (vmap s))"
      using assms(3) lt by (simp add: grows_on_disk_def)
    have uc: "unat cnt = sectors (unat len) - sectors (f_len s + f_shrink s)"
      using mono unfolding cnt_def by (subst unat_diff_no_wrap) (simp_all add: ul)
    have us: "unat start = f_start s + sectors (f_len s + f_shrink s)"
      unfolding start_def using mono fits unat_u32_less [of "size (vmap s)"]
      by (subst unat_add_no_wrap) (simp_all add: ul)
    have "fm_wf (vmap s)" using assms(1) by (simp add: inode_ok_def)
    moreover have "unat start + unat cnt \<le> unat (size (vmap s))" using us uc mono fits by simp
    ultimately obtain r fm where fm: "fm_in_place_alloc (vmap s) start cnt = Some (r, fm)" "fm_wf fm"
      "size fm = size (vmap s)" and r: "if free_run (vmap s) (unat start) (unat cnt)
         then r = Ok () \<and>
           (\<forall>j. fm_bit fm j \<longleftrightarrow> (unat start \<le> j \<and> j < unat start + unat cnt) \<or> fm_bit (vmap s) j)
         else r = Err DiskSectorAllocFail \<and> fm = vmap s"
      using fm_in_place_alloc_range by blast
    have eq: "resize_inner s sz = (case r of
        Ok _ \<Rightarrow> flush_len (set_shrink_len (s\<lparr>vmap := fm\<rparr>) 0) len
      | Err _ \<Rightarrow> resize_move (s\<lparr>vmap := fm\<rparr>) (?len + ?sh) len)"
    proof -
      have "len \<noteq> ?len" "\<not> len < ?len" "\<not> len \<le> ?len + ?sh" using 4 by auto
      then show ?thesis
        using fm(1) by (simp add: resize_inner_def Let_def flip: assms(2) cnt_def start_def)
    qed
    show ?thesis
    proof (cases "free_run (vmap s) (unat start) (unat cnt)")
      case True
      then have "resize_inner s sz = Some (Ok (), resized s (vdisk s) fm (di_start (data (ino s))) 0 len)"
        using eq r sec by (simp add: flush_len_resized)
      moreover have "resize_outcome s (unat len)
          (Some (Ok (), resized s (vdisk s) fm (di_start (data (ino s))) 0 len))"
        using True r by (intro resize_in_place [OF assms(1) lt us fits uc _ fm(2,3)]) simp_all
      ultimately show ?thesis by simp
    next
      case False
      then show ?thesis using eq r resize_move_correct [OF assms(1) ul lt] by simp
    qed
  qed
qed

section \<open>Writing\<close>

lemma others_kept_trans: "others_kept s1 s2 \<Longrightarrow> others_kept s2 s3 \<Longrightarrow> others_kept s1 s3"
  unfolding others_kept_def by metis

lemma desc_kept_trans: "desc_kept s1 s2 \<Longrightarrow> desc_kept s2 s3 \<Longrightarrow> desc_kept s1 s3"
  unfolding desc_kept_def by simp

lemma sector_ext:
  assumes "disk_wf d" "disk_wf d'" "length d' = length d" "j < length d"
    "\<And>i. i < 512 \<Longrightarrow> dbyte d' (j * 512 + i) = dbyte d (j * 512 + i)"
  shows "d' ! j = d ! j"
proof (rule nth_equalityI)
  show "length (d' ! j) = length (d ! j)" using assms(1-4) by (simp add: disk_wf_nth)
  fix i assume "i < length (d' ! j)"
  then have "i < 512" using assms(2-4) by (simp add: disk_wf_nth)
  then show "d' ! j ! i = d ! j ! i" using assms(5) [of i] by (simp add: dbyte_def)
qed

text \<open>Replacing the disk by one that differs inside the file only.\<close>

lemma vdisk_update_ok:
  assumes "inode_ok s" "disk_wf d" "length d = length (vdisk s)"
    and "\<And>j. j < length d \<Longrightarrow> j \<notin> run s \<Longrightarrow> d ! j = vdisk s ! j"
  shows "inode_ok (s\<lparr>vdisk := d\<rparr>)" "others_kept s (s\<lparr>vdisk := d\<rparr>)"
proof -
  have [simp]: "run (s\<lparr>vdisk := d\<rparr>) = run s" "own (s\<lparr>vdisk := d\<rparr>) = own s"
    by (simp_all add: run_def own_def)
  show "inode_ok (s\<lparr>vdisk := d\<rparr>)"
    using assms(1-3) assms(4) [of "f_sector s"] inode_ok_sector [OF assms(1)] by (simp add: inode_ok_def)
  have "d ! j = vdisk s ! j" if "fm_bit (vmap s) j" "j \<notin> own s" for j
    using that assms(1,3) fm_bit_less [OF that(1)] by (intro assms(4)) (auto simp: inode_ok_def own_def)
  then show "others_kept s (s\<lparr>vdisk := d\<rparr>)" using assms(3) by (simp add: others_kept_def)
qed

lemma write_in_file:
  assumes "inode_ok s" "tr_ok tr p (length buf)" "off + length buf \<le> f_len s"
  shows "\<exists>d. write_loop tr p (vdisk s) (f_start s) (f_len s) off buf 0 (length buf) =
      Some (Ok (of_nat (length buf)), d) \<and> inode_ok (s\<lparr>vdisk := d\<rparr>) \<and> others_kept s (s\<lparr>vdisk := d\<rparr>) \<and>
    (\<forall>i. fbyte (s\<lparr>vdisk := d\<rparr>) i =
       (if off \<le> i \<and> i < off + length buf then buf ! (i - off) else fbyte s i))"
proof -
  let ?a = "f_start s * 512 + off"
  have wf: "disk_wf (vdisk s)" using assms(1) by (simp add: inode_ok_def)
  have "length buf = min (f_len s - off) (length buf)" using assms(3) by simp
  from write_loop_correct [OF wf assms(2) _ file_on_disk [OF assms(1)] this, of 0] obtain d where
    d: "write_loop tr p (vdisk s) (f_start s) (f_len s) off buf 0 (length buf) =
      Some (Ok (of_nat (length buf)), d)" "disk_wf d" "length d = length (vdisk s)"
    "\<forall>j. dbyte d j = (if ?a \<le> j \<and> j < ?a + length buf then buf ! (j - ?a) else dbyte (vdisk s) j)"
    by auto
  have "d ! j = vdisk s ! j" if "j < length d" "j \<notin> run s" for j
  proof (rule sector_ext [OF wf d(2,3)])
    show "j < length (vdisk s)" using that(1) d(3) by simp
    fix i :: nat assume "i < 512"
    moreover have "j < f_start s \<or> f_start s + sectors (f_len s) \<le> j"
      using that(2) sectors_mono [of "f_len s" "f_len s + f_shrink s"] by (auto simp: run_def)
    ultimately have "\<not> (?a \<le> j * 512 + i \<and> j * 512 + i < ?a + length buf)"
      using assms(3) sectors_cover [of "f_len s"] by linarith
    then show "dbyte d (j * 512 + i) = dbyte (vdisk s) (j * 512 + i)" using d(4) by auto
  qed
  from vdisk_update_ok [OF assms(1) d(2,3) this]
  have "inode_ok (s\<lparr>vdisk := d\<rparr>)" "others_kept s (s\<lparr>vdisk := d\<rparr>)" by blast+
  moreover have "fbyte (s\<lparr>vdisk := d\<rparr>) i =
      (if off \<le> i \<and> i < off + length buf then buf ! (i - off) else fbyte s i)" for i
    using d(4) by (simp add: fbyte_def)
  ultimately show ?thesis using d(1) by blast
qed

text \<open>The state \<open>s'\<close> is \<open>s\<close> with \<open>buf\<close> written at \<open>off\<close>.\<close>

definition written :: "vn_state \<Rightarrow> vn_state \<Rightarrow> nat \<Rightarrow> u8 list \<Rightarrow> bool" where
  "written s s' off buf \<longleftrightarrow>
     f_len s' = max (f_len s) (off + length buf) \<and>
     (\<forall>i. off \<le> i \<and> i < off + length buf \<longrightarrow> fbyte s' i = buf ! (i - off)) \<and>
     (\<forall>i < f_len s. \<not> (off \<le> i \<and> i < off + length buf) \<longrightarrow> fbyte s' i = fbyte s i)"

text \<open>After the resize, if one was needed, the bytes are written.\<close>

lemma write_after_resize:
  assumes "inode_ok s1" "others_kept s s1" "desc_kept s s1" "f_len s1 = max (f_len s) (off + length buf)"
    "\<forall>i < f_len s. fbyte s1 i = fbyte s i" "tr_ok tr p (length buf)"
  shows "\<exists>d. write_loop tr p (vdisk s1) (f_start s1) (f_len s1) off buf 0 (length buf) =
      Some (Ok (of_nat (length buf)), d) \<and> inode_ok (s1\<lparr>vdisk := d\<rparr>) \<and>
      others_kept s (s1\<lparr>vdisk := d\<rparr>) \<and> desc_kept s (s1\<lparr>vdisk := d\<rparr>) \<and> written s (s1\<lparr>vdisk := d\<rparr>) off buf"
proof -
  have "off + length buf \<le> f_len s1" using assms(4) by simp
  from write_in_file [OF assms(1,6) this] obtain d where
    d: "write_loop tr p (vdisk s1) (f_start s1) (f_len s1) off buf 0 (length buf) =
      Some (Ok (of_nat (length buf)), d)" "inode_ok (s1\<lparr>vdisk := d\<rparr>)" "others_kept s1 (s1\<lparr>vdisk := d\<rparr>)"
    "\<forall>i. fbyte (s1\<lparr>vdisk := d\<rparr>) i =
       (if off \<le> i \<and> i < off + length buf then buf ! (i - off) else fbyte s1 i)" by blast
  have "others_kept s (s1\<lparr>vdisk := d\<rparr>)" by (rule others_kept_trans [OF assms(2) d(3)])
  moreover have "desc_kept s (s1\<lparr>vdisk := d\<rparr>)" using assms(3) by (simp add: desc_kept_def)
  moreover have "written s (s1\<lparr>vdisk := d\<rparr>) off buf" using d(4) assms(4,5) by (simp add: written_def)
  ultimately show ?thesis using d(1,2) by blast
qed

lemma inode_write_at_spec:
  assumes "inode_ok s" "id_deny_write (desc (ino s)) = 0" "tr_ok tr p (length buf)"
    and "unat off + length buf < 2 ^ 32" "grows_on_disk s (unat off + length buf)"
  shows "\<exists>r s'. inode_write_at tr s p buf off = Some (r, s') \<and> inode_ok s' \<and> others_kept s s' \<and>
    desc_kept s s' \<and>
    (r = Ok (of_nat (length buf)) \<and> written s s' (unat off) buf \<or>
     r = Err DiskSectorAllocFail \<and> s' = s \<and> f_len s < unat off + length buf)"
proof -
  let ?e = "off + of_nat (length buf) :: usize" and ?n = "unat off + length buf"
  have ul: "unat (of_nat (length buf) :: usize) = length buf"
    using assms(4) by (intro unat_of_nat_small) simp
  have ue: "unat ?e = ?n" using assms(4) ul by (subst unat_add_no_wrap) simp_all
  have uc: "unat (ucast ?e :: u32) = ?n"
    using assms(4) by (simp add: unsigned_ucast_eq ue take_bit_nat_eq_self)
  have cond: "ucast (di_len (data (ino s))) < ?e \<longleftrightarrow> f_len s < ?n" by (simp add: word_less_nat_alt ue)
  show ?thesis
  proof (cases "f_len s < ?n")
    case False
    then obtain d where "write_loop tr p (vdisk s) (f_start s) (f_len s) (unat off) buf 0 (length buf) =
        Some (Ok (of_nat (length buf)), d)" and
      d: "inode_ok (s\<lparr>vdisk := d\<rparr>)" "others_kept s (s\<lparr>vdisk := d\<rparr>)" "desc_kept s (s\<lparr>vdisk := d\<rparr>)"
      "written s (s\<lparr>vdisk := d\<rparr>) (unat off) buf"
      using write_after_resize [of s s "unat off" buf tr p] assms(1,3)
      by (auto simp: desc_kept_def max_absorb1)
    then have "inode_write_at tr s p buf off = Some (Ok (of_nat (length buf)), s\<lparr>vdisk := d\<rparr>)"
      using False assms(2) cond by (simp add: inode_write_at_def)
    then show ?thesis using d by blast
  next
    case True
    from resize_inner_correct [OF assms(1) refl, of ?e] assms(5) uc
    have "resize_outcome s ?n (resize_inner s ?e)" by simp
    then obtain r s1 where r: "resize_inner s ?e = Some (r, s1)" "inode_ok s1" "others_kept s s1"
      "desc_kept s s1" "case r of
        Ok _ \<Rightarrow> f_len s1 = ?n \<and> (\<forall>i < min (f_len s) ?n. fbyte s1 i = fbyte s i)
      | Err e \<Rightarrow> e = DiskSectorAllocFail \<and> s1 = s \<and>
          (\<forall>j. j + sectors ?n < unat (size (vmap s)) \<longrightarrow> \<not> free_run (vmap s) j (sectors ?n))"
      unfolding resize_outcome_def by blast
    show ?thesis
    proof (cases r)
      case (Inl e)
      then have "inode_write_at tr s p buf off = Some (Err DiskSectorAllocFail, s)"
        using r True assms(2) cond by (simp add: inode_write_at_def)
      then show ?thesis using True assms(1) by (simp add: desc_kept_def)
    next
      case (Inr u)
      then have "f_len s1 = max (f_len s) ?n" "\<forall>i < f_len s. fbyte s1 i = fbyte s i"
        using r(5) True by simp_all
      from write_after_resize [OF r(2-4) this assms(3)] obtain d where
        "write_loop tr p (vdisk s1) (f_start s1) (f_len s1) (unat off) buf 0 (length buf) =
          Some (Ok (of_nat (length buf)), d)" and
        d: "inode_ok (s1\<lparr>vdisk := d\<rparr>)" "others_kept s (s1\<lparr>vdisk := d\<rparr>)" "desc_kept s (s1\<lparr>vdisk := d\<rparr>)"
        "written s (s1\<lparr>vdisk := d\<rparr>) (unat off) buf" by blast
      then have "inode_write_at tr s p buf off = Some (Ok (of_nat (length buf)), s1\<lparr>vdisk := d\<rparr>)"
        using True assms(2) cond r(1) Inr by (simp add: inode_write_at_def)
      then show ?thesis using d by blast
    qed
  qed
qed

section \<open>Closing\<close>

text \<open>
  The first half of \<open>close\<close>, which gives back the sectors that lazy shrinking left behind.
\<close>

definition close_shrink :: "vn_state \<Rightarrow> vn_state option" where
  "close_shrink s =
     (let shrink = id_shrink_len (desc (ino s)); di = data (ino s)
      in if 0 < shrink then do {
           let cnt = shrink div of_nat SECTOR_SIZE;
           let sector = di_start di + (di_len di + of_nat SECTOR_SIZE - 1) div of_nat SECTOR_SIZE;
           fm \<leftarrow> fm_dealloc (vmap s) sector cnt;
           Some (s\<lparr>vmap := fm\<rparr>)
         } else Some s)"

lemma close_shrink_range:
  assumes "inode_ok s" "f_len s + 511 < 2 ^ 32"
  shows "\<exists>fm. close_shrink s = Some (s\<lparr>vmap := fm\<rparr>) \<and> fm_wf fm \<and> size fm = size (vmap s) \<and>
    (\<forall>j. fm_bit fm j \<longleftrightarrow> fm_bit (vmap s) j \<and>
       \<not> (f_start s + sectors (f_len s) \<le> j \<and> j < f_start s + sectors (f_len s) + f_shrink s div 512))"
proof (cases "id_shrink_len (desc (ino s)) = 0")
  case True
  then show ?thesis
    using assms(1) by (intro exI [of _ "vmap s"]) (simp add: close_shrink_def inode_ok_def)
next
  case False
  let ?len = "di_len (data (ino s))" and ?st = "di_start (data (ino s))"
  let ?sec = "?st + (?len + of_nat SECTOR_SIZE - 1) div of_nat SECTOR_SIZE"
  let ?cnt = "id_shrink_len (desc (ino s)) div of_nat SECTOR_SIZE"
  have ok: "fm_wf (vmap s)" "f_start s + sectors (f_len s + f_shrink s) \<le> unat (size (vmap s))"
    "\<forall>j\<in>own s. fm_bit (vmap s) j" using assms(1) by (simp_all add: inode_ok_def)
  have "unat (511 + ?len) = 511 + f_len s" using assms(2) by (subst unat_add_no_wrap) simp_all
  then have q: "unat ((511 + ?len) div 512) = sectors (f_len s)"
    by (simp add: unat_div sectors_def)
  have fit: "sectors (f_len s) + f_shrink s div 512 \<le> sectors (f_len s + f_shrink s)"
    unfolding sectors_def by linarith
  have us: "unat ?sec = f_start s + sectors (f_len s)"
  proof -
    have "f_start s + sectors (f_len s) < 2 ^ 32"
      using fit ok(2) unat_u32_less [of "size (vmap s)"] by linarith
    then show ?thesis using q by (subst unat_add_no_wrap) (simp_all add: SECTOR_SIZE_def)
  qed
  have uc: "unat ?cnt = f_shrink s div 512" by (simp add: SECTOR_SIZE_def unat_div)
  have "\<exists>fm. fm_dealloc (vmap s) ?sec ?cnt = Some fm \<and> fm_wf fm \<and> size fm = size (vmap s) \<and>
    (\<forall>i. fm_bit fm i \<longleftrightarrow> fm_bit (vmap s) i \<and> \<not> (unat ?sec \<le> i \<and> i < unat ?sec + unat ?cnt))"
    using ok fit by (intro fm_dealloc_range) (auto simp: us uc own_def run_def)
  moreover have "0 < id_shrink_len (desc (ino s))" using False by (simp add: word_gt_0)
  ultimately show ?thesis unfolding us uc by (auto simp: close_shrink_def Let_def)
qed

section \<open>The contract of a virtual inode\<close>

text \<open>
  \<open>close\<close> also unlinks a removed inode from the root directory, so it is a method of the
  whole file system; it is passed to the table of methods.
\<close>

definition inode_ops :: "(usize \<Rightarrow> usize \<Rightarrow> usize option) \<Rightarrow> (vn_state \<Rightarrow> vn_state option) \<Rightarrow>
    vn_state vnode_ops" where
  "inode_ops tr close = \<lparr>vn_read_at = inode_read_at tr, vn_write_at = inode_write_at tr,
     vn_deny_write = inode_deny_write, vn_allow_write = inode_allow_write, vn_inum = inode_inum,
     vn_len = inode_len, vn_resize = resize_inner, vn_close = close\<rparr>"

definition kernel_buf :: "usize \<Rightarrow> nat \<Rightarrow> bool" where
  "kernel_buf p n \<longleftrightarrow> in_kernel_space p \<and> unat p + n < 2 ^ 64"

lemma kernel_buf_offset:
  assumes "kernel_buf p n" "k \<le> n"
  shows "unat (p + of_nat k) = unat p + k" "in_kernel_space (p + of_nat k)"
proof -
  have "unat (of_nat k :: usize) = k"
    using assms by (intro unat_of_nat_small) (simp add: kernel_buf_def)
  then show u: "unat (p + of_nat k) = unat p + k"
    using assms by (subst unat_add_no_wrap) (auto simp: kernel_buf_def)
  show "in_kernel_space (p + of_nat k)" using assms by (simp add: kernel_buf_def in_kernel_space_iff u)
qed

lemma kernel_buf_tr_ok: "kernel_buf p n \<Longrightarrow> tr_ok (translate pte) p n"
  using kernel_buf_offset(2) [of p n] by (auto simp: tr_ok_def translate_def)

lemma written_contents:
  assumes "written s s' off buf" "off + length buf \<le> f_len s"
  shows "contents s' = splice (contents s) off buf"
  using assms by (intro nth_equalityI) (auto simp: written_def nth_splice max_absorb1)

interpretation diskfile: vnode "inode_ops (translate pte) close" inode_ok contents
  "\<lambda>s. id_deny_write (desc (ino s)) = 0" kernel_buf for pte close
proof
  show "kernel_buf p n \<Longrightarrow> n < 2 ^ 63" for p n by (simp add: kernel_buf_def in_kernel_space_iff)
  show "kernel_buf p n \<Longrightarrow> k \<le> n \<Longrightarrow> kernel_buf (p + of_nat k) (n - k)" for p n k
    using kernel_buf_offset [of p n k] by (simp add: kernel_buf_def)
  show "inode_ok s \<Longrightarrow> unat (vn_len (inode_ops (translate pte) close) s) = length (contents s) \<and>
      length (contents s) < 2 ^ 63" for s
    using unat_u32_less [of "di_len (data (ino s))"] by (simp add: inode_ops_def inode_len_def)
  show "vn_read_at (inode_ops (translate pte) close) s p buf off =
      Some (Ok (of_nat n), take n (drop (unat off) (contents s)) @ drop n buf)"
    if "inode_ok s" "kernel_buf p (length buf)" "n = min (length buf) (length (contents s) - unat off)"
    for s p buf off n
    using inode_read_at_eq [OF that(1) kernel_buf_tr_ok [OF that(2)]] that(3) by (simp add: inode_ops_def)
  show "vn_read_at (inode_ops (translate pte) close) s p buf off = Some (Ok 0, buf) \<or>
      vn_read_at (inode_ops (translate pte) close) s p buf off = Some (Err UnexpectedEOF, buf)"
    if "inode_ok s" "kernel_buf p (length buf)" "length (contents s) \<le> unat off" for s p buf off
    using inode_read_at_eq [OF that(1) kernel_buf_tr_ok [OF that(2)], of 0 off] that(3)
    by (simp add: inode_ops_def)
  show "\<exists>s'. vn_write_at (inode_ops (translate pte) close) s p buf off =
      Some (Ok (of_nat (length buf)), s') \<and> inode_ok s' \<and> id_deny_write (desc (ino s')) = 0 \<and>
      contents s' = splice (contents s) (unat off) buf"
    if "inode_ok s" "id_deny_write (desc (ino s)) = 0" "kernel_buf p (length buf)"
      "unat off + length buf \<le> length (contents s)" for s p buf off
  proof -
    have "unat off + length buf < 2 ^ 32" "grows_on_disk s (unat off + length buf)"
      using that(4) unat_u32_less [of "di_len (data (ino s))"] by (auto simp: grows_on_disk_def)
    from inode_write_at_spec [OF that(1,2) kernel_buf_tr_ok [OF that(3)] this, of pte] that(4)
    obtain s' where "inode_write_at (translate pte) s p buf off = Some (Ok (of_nat (length buf)), s')"
      "inode_ok s'" "desc_kept s s'" "written s s' (unat off) buf" by auto
    then show ?thesis
      using that(2,4) written_contents [of s s' "unat off" buf] by (simp add: inode_ops_def desc_kept_def)
  qed
qed

section \<open>A file on a small disk\<close>

text \<open>
  A disk of twelve sectors with one file of 600 bytes: its inode in sector 2, its bytes in the
  sectors 3 and 4.
\<close>

definition sample_inode :: disk_inode where
  "sample_inode = \<lparr>di_start = 3, di_len = 600, di_magic = INODE_MAGIC, di_padding = replicate 500 0\<rparr>"

definition sample_file :: vn_state where
  "sample_file = \<lparr>vdisk = (replicate 12 (replicate 512 0))[2 := encode_inode sample_inode],
     vmap = \<lparr>size = 12, bits = [31, 0]\<rparr>,
     ino = \<lparr>desc = inode_desc_new 2 0, data = sample_inode\<rparr>\<rparr>"

lemma sample_fields [simp]:
  "f_len sample_file = 600" "f_start sample_file = 3" "f_shrink sample_file = 0"
  "f_sector sample_file = 2" "size (vmap sample_file) = 12"
  "id_deny_write (desc (ino sample_file)) = 0"
  by (simp_all add: sample_file_def sample_inode_def inode_desc_new_def)

lemma sample_run: "run sample_file = {3, 4}"
  by (auto simp: run_def sectors_def)

lemma sample_file_ok: "inode_ok sample_file"
proof -
  have "disk_wf (vdisk sample_file)"
    unfolding sample_file_def vn_state.simps
    by (rule disk_wf_update)
      (simp_all add: disk_wf_def SECTOR_SIZE_def length_encode_inode sample_inode_def)
  moreover have "\<forall>j\<in>own sample_file. fm_bit (vmap sample_file) j"
    by (simp add: own_def sample_run) (simp add: sample_file_def fm_bit_def bit_simps)
  ultimately show ?thesis
    unfolding inode_ok_def
    by (simp add: sample_run sectors_def) (simp add: sample_file_def fm_wf_def sample_inode_def)
qed

section \<open>Creating\<close>

lemma write_zeros_correct:
  assumes "\<forall>i\<in>set is. unat (start + i) < length d" "disk_wf d"
  shows "\<exists>d'. write_zeros d start is = Some d' \<and> disk_wf d' \<and> length d' = length d \<and>
    (\<forall>j. d' ! j = (if j \<in> (\<lambda>i. unat (start + i)) ` set is then replicate 512 0 else d ! j))"
  using assms
proof (induction "is" arbitrary: d)
  case Nil
  then show ?case by simp
next
  case (Cons i "is")
  let ?d = "d[unat (start + i) := replicate 512 0]"
  have wf: "disk_wf ?d" using Cons.prems(2) by (intro disk_wf_update) auto
  from Cons.IH [of ?d] Cons.prems wf obtain d' where d': "write_zeros ?d start is = Some d'"
    "disk_wf d'" "length d' = length d"
    "\<And>j. d' ! j = (if j \<in> (\<lambda>i. unat (start + i)) ` set is then replicate 512 0 else ?d ! j)" by auto
  have "d' ! j = (if j \<in> (\<lambda>i. unat (start + i)) ` set (i # is) then replicate 512 0 else d ! j)" for j
    using d'(4) [of j] Cons.prems(1) by (cases "j = unat (start + i)") auto
  moreover have "write_zeros d start (i # is) = Some d'"
    using d'(1) Cons.prems(1) by (simp add: write_sector_def SECTOR_SIZE_def)
  ultimately show ?case using d'(2,3) by blast
qed

lemma inode_create_zeros:
  assumes "disk_wf d" "unat sector < length d" "unat start + sectors (unat len) \<le> length d"
    and "unat start + sectors (unat len) < 2 ^ 32" "unat len < 2 ^ 32"
    and "unat sector \<notin> {unat start..<unat start + sectors (unat len)}"
  shows "\<exists>d' i. inode_create d sector start len = Some (Ok i, d') \<and>
    i = \<lparr>desc = inode_desc_new sector 0, data = \<lparr>di_start = start, di_len = ucast len,
      di_magic = INODE_MAGIC, di_padding = replicate 500 0\<rparr>\<rparr> \<and>
    disk_wf d' \<and> length d' = length d \<and> d' ! unat sector = encode_inode (data i) \<and>
    (\<forall>j \<in> {unat start..<unat start + sectors (unat len)}. d' ! j = replicate 512 0) \<and>
    (\<forall>j. j \<notin> {unat start..<unat start + sectors (unat len)} \<and> j \<noteq> unat sector \<longrightarrow> d' ! j = d ! j)"
proof -
  define di where "di = \<lparr>di_start = start, di_len = ucast len,
      di_magic = INODE_MAGIC, di_padding = replicate 500 (0 :: u8)\<rparr>"
  let ?d = "d[unat sector := encode_inode di]" and ?n = "bytes_to_sectors len"
  have un: "unat ?n = sectors (unat len)" using assms(5) by (rule unat_bytes_to_sectors)
  have wf: "disk_wf ?d"
    using assms(1) by (intro disk_wf_update) (simp_all add: length_encode_inode di_def)
  have u: "unat (start + i) = unat start + unat i" if "i \<in> set (word_range 0 ?n)" for i
    using that assms(4) un by (intro unat_add_no_wrap) (simp add: set_word_range)
  have img: "(\<lambda>i. unat (start + i)) ` set (word_range 0 ?n) = {unat start..<unat start + sectors (unat len)}"
  proof -
    have "(\<lambda>i. unat (start + i)) ` set (word_range 0 ?n) = (\<lambda>i. unat start + i) ` unat ` set (word_range 0 ?n)"
      unfolding image_image using u by (intro image_cong) auto
    then show ?thesis by (simp add: unat_image_range un image_add_atLeastLessThan add.commute)
  qed
  from write_zeros_correct [OF _ wf, of "word_range 0 ?n" start] obtain d' where
    d': "write_zeros ?d start (word_range 0 ?n) = Some d'" "disk_wf d'" "length d' = length d"
    "\<forall>j. d' ! j = (if j \<in> {unat start..<unat start + sectors (unat len)} then replicate 512 0 else ?d ! j)"
    using u un assms(3) unfolding img by (auto simp: set_word_range)
  have "inode_create d sector start len = Some (Ok \<lparr>desc = inode_desc_new sector 0, data = di\<rparr>, d')"
    using assms(2) d'(1)
    by (simp add: inode_create_def write_sector_def Let_def di_def INODE_PADDING_def SECTOR_SIZE_def)
  then show ?thesis using d' assms(2,6) unfolding di_def [symmetric] by auto
qed

lemma resize_inner_shrink:
  fixes len :: u32
  assumes "inode_ok s" "len = ucast sz" "len < di_len (data (ino s))"
  shows "resize_inner s sz = Some (Ok (), resized s (vdisk s) (vmap s) (di_start (data (ino s)))
    (id_shrink_len (desc (ino s)) + (di_len (data (ino s)) - len)) len)"
  using assms(3) flush_len_resized(3) [OF inode_ok_sector(2) [OF assms(1)]] inode_ok_sector(2) [OF assms(1)]
  by (simp add: resize_inner_def Let_def less_imp_neq flip: assms(2))

section \<open>Reopening\<close>

lemma inode_open_again:
  assumes "inode_ok s"
  shows "\<exists>i. inode_open (vdisk s) (id_sector (desc (ino s))) = Some (Ok i) \<and> data i = data (ino s) \<and>
    desc i = inode_desc_new (id_sector (desc (ino s))) 0 \<and>
    inode_ok (s\<lparr>ino := i\<rparr>) \<and> contents (s\<lparr>ino := i\<rparr>) = contents s"
proof -
  let ?i = "\<lparr>desc = inode_desc_new (id_sector (desc (ino s))) 0, data = data (ino s)\<rparr>"
  note ok = assms [unfolded inode_ok_def]
  have "inode_open (vdisk s) (id_sector (desc (ino s))) = Some (Ok ?i)"
    using ok inode_ok_sector [OF assms] by (simp add: inode_open_def read_sector_def)
  moreover have "run (s\<lparr>ino := ?i\<rparr>) \<subseteq> run s"
    using sectors_mono [of "f_len s" "f_len s + f_shrink s"] by (auto simp: run_def inode_desc_new_def)
  moreover have "f_start s + sectors (f_len s) \<le> unat (size (vmap s))"
    using ok sectors_mono [of "f_len s" "f_len s + f_shrink s"] by linarith
  ultimately have "inode_ok (s\<lparr>ino := ?i\<rparr>)"
    using ok by (auto simp: inode_ok_def own_def inode_desc_new_def)
  moreover have "contents (s\<lparr>ino := ?i\<rparr>) = contents s" by (simp add: contents_def fbyte_def)
  ultimately show ?thesis
    using \<open>inode_open (vdisk s) (id_sector (desc (ino s))) = Some (Ok ?i)\<close> by (intro exI [of _ ?i]) simp
qed

section \<open>Properties\<close>

text \<open>
  C24. Reading a file on disk. Whatever the alignment of the buffer and of the offset,
  \<open>read_at\<close> ends, fills the buffer with the bytes of the file from the offset on, as far as
  both reach, and returns their number. The hypothesis on \<open>tr\<close> says that the parts of the
  buffer that are transferred directly are mapped; it always holds for kernel buffers.
\<close>

theorem inode_read_at_correct:
  assumes "inode_ok s" "tr_ok tr p (length buf)"
  shows "inode_read_at tr s p buf off =
    (let n = min (length buf) (f_len s - unat off)
     in Some (Ok (of_nat n), take n (drop (unat off) (contents s)) @ drop n buf))"
  using inode_read_at_eq [OF assms refl] by (simp add: Let_def)

theorem inode_read_at_correct_witness:
  "inode_read_at (translate (\<lambda>_. None)) sample_file VM_BASE [7, 7] 599 =
     Some (Ok 1, take 1 (drop 599 (contents sample_file)) @ [7])"
proof -
  have "kernel_buf VM_BASE (length [7, 7 :: u8])"
    by (simp add: kernel_buf_def in_kernel_space_iff VM_BASE_def)
  then have "tr_ok (translate (\<lambda>_. None)) VM_BASE (length [7, 7 :: u8])"
    by (rule kernel_buf_tr_ok)
  from inode_read_at_correct [OF sample_file_ok this, of 599] show ?thesis by (simp add: Let_def)
qed





text \<open>
  A file survives being closed and opened again: opening the sector of an inode yields an
  inode with the same start, length and bytes, which satisfies the invariant. (Every operation
  that changes the inode writes it to the disk at once.)
\<close>

lemma inode_reopen:
  assumes "inode_ok s"
  shows "\<exists>i. inode_open (vdisk s) (id_sector (desc (ino s))) = Some (Ok i) \<and> data i = data (ino s) \<and>
    inode_ok (s\<lparr>ino := i\<rparr>) \<and> contents (s\<lparr>ino := i\<rparr>) = contents s"
  using inode_open_again [OF assms] by blast

text \<open>
  A new inode. If the sector of the inode and the run of its file are allocated and
  disjoint, \<open>create\<close> yields an inode that satisfies the invariant and whose file is all
  zeros, and it touches no other sector.
\<close>

lemma inode_create_correct:
  assumes "disk_wf d" "fm_wf fm" "unat (size fm) \<le> length d" "unat len < 2 ^ 32"
    and "fm_bit fm (unat sector)" "unat start + sectors (unat len) \<le> unat (size fm)"
    and "\<forall>j\<in>{unat start..<unat start + sectors (unat len)}. fm_bit fm j \<and> j \<noteq> unat sector"
  shows "\<exists>i d'. inode_create d sector start len = Some (Ok i, d') \<and>
    inode_ok \<lparr>vdisk = d', vmap = fm, ino = i\<rparr> \<and>
    contents \<lparr>vdisk = d', vmap = fm, ino = i\<rparr> = replicate (unat len) 0 \<and>
    (\<forall>j. j \<notin> own \<lparr>vdisk = d', vmap = fm, ino = i\<rparr> \<longrightarrow> d' ! j = d ! j)"
proof -
  let ?run = "{unat start..<unat start + sectors (unat len)}"
  have sec: "unat sector < length d" using fm_bit_less [OF assms(5)] assms(3) by simp
  have out: "unat sector \<notin> ?run" using assms(7) by blast
  moreover have "unat start + sectors (unat len) < 2 ^ 32"
    using assms(6) unat_u32_less [of "size fm"] by linarith
  ultimately obtain d' i where c: "inode_create d sector start len = Some (Ok i, d')"
    "i = \<lparr>desc = inode_desc_new sector 0, data = \<lparr>di_start = start, di_len = ucast len,
      di_magic = INODE_MAGIC, di_padding = replicate 500 0\<rparr>\<rparr>"
    "disk_wf d'" "length d' = length d" "d' ! unat sector = encode_inode (data i)"
    "\<forall>j \<in> ?run. d' ! j = replicate 512 0"
    "\<forall>j. j \<notin> ?run \<and> j \<noteq> unat sector \<longrightarrow> d' ! j = d ! j"
    using inode_create_zeros [OF assms(1) sec _ _ assms(4), of start] assms(3,6) by auto
  let ?s = "\<lparr>vdisk = d', vmap = fm, ino = i\<rparr>"
  have u: "unat (ucast len :: u32) = unat len"
    using assms(4) by (simp add: unsigned_ucast_eq take_bit_nat_eq_self)
  have f: "f_start ?s = unat start" "f_len ?s = unat len" "f_shrink ?s = 0" "f_sector ?s = unat sector"
    by (simp_all add: c(2) u inode_desc_new_def)
  have run: "run ?s = ?run" unfolding run_def f by simp
  have "inode_ok ?s"
    unfolding inode_ok_def own_def run f using assms out c(3-5) by (auto simp: c(2))
  moreover have "fbyte ?s i = 0" if "i < unat len" for i
  proof -
    have "unat start + i div 512 \<in> ?run" using byte_in_sectors [OF that] by simp
    then have "d' ! (unat start + i div 512) = replicate 512 0" using c(6) by blast
    then show ?thesis unfolding fbyte_def f by (simp add: dbyte_def)
  qed
  then have "contents ?s = replicate (unat len) 0"
    by (intro nth_equalityI) (simp_all add: f [simplified])
  moreover have "\<forall>j. j \<notin> own ?s \<longrightarrow> d' ! j = d ! j" unfolding own_def run f using c(7) by blast
  ultimately show ?thesis using c(1) by blast
qed


text \<open>
  Closing a file gives back sectors behind the end of the file only: the sectors of the
  inode and of its bytes and all those of others stay allocated. Of the sectors that lazy
  shrinking left behind it gives back \<open>shrink_len div 512\<close>, so that exactly the given number of
  sectors, at most one, stays allocated without belonging to any file.
\<close>

lemma close_shrink_keeps_file:
  assumes "inode_ok s" "f_len s + 511 < 2 ^ 32"
  defines "left \<equiv> sectors (f_len s + f_shrink s) - sectors (f_len s) - f_shrink s div 512"
  shows "left \<le> 1 \<and> (\<exists>fm. close_shrink s = Some (s\<lparr>vmap := fm\<rparr>) \<and>
    (\<forall>j. fm_bit (vmap s) j \<and> (j \<notin> run s \<or> j < f_start s + sectors (f_len s)) \<longrightarrow> fm_bit fm j) \<and>
    card {j \<in> run s. f_start s + sectors (f_len s) \<le> j \<and> fm_bit fm j} = left)"
proof (intro conjI)
  show "left \<le> 1" unfolding left_def sectors_def by linarith
  have fit: "sectors (f_len s) + f_shrink s div 512 \<le> sectors (f_len s + f_shrink s)"
    unfolding sectors_def by linarith
  from close_shrink_range [OF assms(1,2)] obtain fm where
    fm: "close_shrink s = Some (s\<lparr>vmap := fm\<rparr>)"
    "\<forall>j. fm_bit fm j \<longleftrightarrow> fm_bit (vmap s) j \<and>
       \<not> (f_start s + sectors (f_len s) \<le> j \<and> j < f_start s + sectors (f_len s) + f_shrink s div 512)"
    by blast
  have bits: "\<forall>j\<in>run s. fm_bit (vmap s) j" using assms(1) by (simp add: inode_ok_def own_def)
  have "{j \<in> run s. f_start s + sectors (f_len s) \<le> j \<and> fm_bit fm j} =
      {f_start s + sectors (f_len s) + f_shrink s div 512..<f_start s + sectors (f_len s + f_shrink s)}"
    using bits unfolding fm(2) [rule_format] by (auto simp: run_def)
  moreover have "fm_bit fm j" if "fm_bit (vmap s) j" "j \<notin> run s \<or> j < f_start s + sectors (f_len s)" for j
    using that fit unfolding fm(2) [rule_format] run_def by auto
  ultimately show "\<exists>fm. close_shrink s = Some (s\<lparr>vmap := fm\<rparr>) \<and>
    (\<forall>j. fm_bit (vmap s) j \<and> (j \<notin> run s \<or> j < f_start s + sectors (f_len s)) \<longrightarrow> fm_bit fm j) \<and>
    card {j \<in> run s. f_start s + sectors (f_len s) \<le> j \<and> fm_bit fm j} = left"
    using fm(1) by (auto simp: left_def)
qed

text \<open>The file of 600 bytes shrunk to 512 bytes: a sector too many stays allocated.\<close>

text \<open>
  A write whose end lies at or above 4 GiB truncates the file. The new length passes
  through a \<open>u32\<close>, so that \<open>write_at\<close> can shrink a file instead of growing it; it then
  writes nothing and returns \<open>Ok(0)\<close>.
\<close>

lemma write_at_truncates:
  assumes "inode_ok s" "id_deny_write (desc (ino s)) = 0"
    and "2 ^ 32 \<le> unat off" "unat off + length buf < 2 ^ 64" "(unat off + length buf) mod 2 ^ 32 < f_len s"
  shows "\<exists>s'. inode_write_at tr s p buf off = Some (Ok 0, s') \<and>
    f_len s' = (unat off + length buf) mod 2 ^ 32"
proof -
  let ?e = "off + of_nat (length buf) :: usize"
  have "unat (of_nat (length buf) :: usize) = length buf"
    using assms(4) by (intro unat_of_nat_small) simp
  then have ue: "unat ?e = unat off + length buf" using assms(4) by (subst unat_add_no_wrap) simp_all
  have uc: "unat (ucast ?e :: u32) = (unat off + length buf) mod 2 ^ 32"
    by (simp add: unsigned_ucast_eq ue take_bit_eq_mod)
  have "f_len s < unat ?e" using assms(3) ue unat_u32_less [of "di_len (data (ino s))"] by linarith
  then have cond: "ucast (di_len (data (ino s))) < ?e" by (simp add: word_less_nat_alt)
  define s1 where "s1 = resized s (vdisk s) (vmap s) (di_start (data (ino s)))
    (id_shrink_len (desc (ino s)) + (di_len (data (ino s)) - ucast ?e)) (ucast ?e)"
  have r: "resize_inner s ?e = Some (Ok (), s1)"
    unfolding s1_def using assms(5) by (intro resize_inner_shrink [OF assms(1) refl]) (simp add: word_less_nat_alt uc)
  have len: "f_len s1 = (unat off + length buf) mod 2 ^ 32" using uc by (simp add: s1_def)
  have "f_len s1 \<le> unat off" using assms(3) unat_u32_less [of "di_len (data (ino s1))"] by linarith
  then have "write_loop tr p (vdisk s1) (f_start s1) (f_len s1) (unat off) buf 0 (length buf) = Some (Ok 0, vdisk s1)"
    by (subst write_loop.simps) (simp add: Let_def chunk_size_def)
  then show ?thesis
    using r len cond assms(2) by (simp add: inode_write_at_def)
qed

text \<open>
  A typed value written to a file on disk is read back unchanged from the same position,
  for every type whose bytes determine its value.
\<close>

lemma disk_write_read_roundtrip:
  assumes "inode_ok s" "id_deny_write (desc (ino s)) = 0" "kernel_buf p sz" "kernel_buf q sz"
    and "length (enc v) = sz" "dec (enc v) = v" "unat (pos f) + sz \<le> f_len s"
  shows "\<exists>s' f'. write_from (inode_ops (translate pte) close) s f p enc v = Some (Ok (), s', f') \<and>
    inode_ok s' \<and>
    read_into (inode_ops (translate pte) close) s' (f'\<lparr>pos := pos f\<rparr>) q sz dec = Some (Ok v, f')"
proof -
  have "q \<noteq> 0" using assms(4) by (auto simp: kernel_buf_def in_kernel_space_iff)
  then show ?thesis using assms by (intro diskfile.write_from_read_into) simp_all
qed

end
