(* ===== verification/Root_Dir.thy ===== *)
theory Root_Dir
  imports Inode_Files
begin

text \<open>
  The root directory (\<open>src/src/fs/disk/dir.rs\<close>): a file of 32-byte entries, read and written
  through the typed operations of \<open>Io\<close>. The operations are defined over an arbitrary table of
  inode methods and proved correct against the contract \<open>vnode\<close>; the disk inode interprets it.
  A path is the list of the bytes of its string. \<open>p\<close> is the address of the temporary buffers.

  The abstract directory is a map from names to inode numbers, \<open>dir_map\<close>.
\<close>

section \<open>Entries\<close>

definition FILE_NAME_LEN_MAX :: nat where
  "FILE_NAME_LEN_MAX = 28"

type_synonym path = "u8 list"

record dir_entry =
  de_name :: "u8 list"
  de_inum :: inum

definition entry_is_valid :: "dir_entry \<Rightarrow> bool" where
  "entry_is_valid e \<longleftrightarrow> de_name e ! 0 \<noteq> 35 \<and> de_name e ! 0 \<noteq> 0"

definition entry_invalidate :: "dir_entry \<Rightarrow> dir_entry" where
  "entry_invalidate e = e\<lparr>de_name := (de_name e)[0 := 35]\<rparr>"

text \<open>The 32 bytes of an entry, in \<open>repr(C)\<close>.\<close>

definition encode_entry :: "dir_entry \<Rightarrow> u8 list" where
  "encode_entry e = de_name e @ le32 (de_inum e)"

definition decode_entry :: "u8 list \<Rightarrow> dir_entry" where
  "decode_entry b = \<lparr>de_name = take 28 b, de_inum = of_le32 (take 4 (drop 28 b))\<rparr>"

text \<open>
  \<open>CStr::from_ptr\<close> reads up to the first zero byte, past the end of the name if it has none:
  the four bytes of the inode number follow; without a zero there the behaviour is undefined,
  which is \<open>None\<close>. \<open>to_str\<close> checks that the bytes are UTF-8.
\<close>

definition c_str :: "dir_entry \<Rightarrow> u8 list option" where
  "c_str e = (if 0 \<in> set (encode_entry e) then Some (takeWhile (\<lambda>b. b \<noteq> 0) (encode_entry e)) else None)"

definition utf8_cont :: "u8 \<Rightarrow> u8 \<Rightarrow> u8 \<Rightarrow> bool" where
  "utf8_cont lo hi b \<longleftrightarrow> lo \<le> b \<and> b \<le> hi"

fun utf8_ok :: "u8 list \<Rightarrow> bool" where
  "utf8_ok [] = True"
| "utf8_ok (a # bs) =
     (if a < 0x80 then utf8_ok bs
      else case bs of
        b # bs' \<Rightarrow>
          if 0xC2 \<le> a \<and> a \<le> 0xDF then utf8_cont 0x80 0xBF b \<and> utf8_ok bs'
          else (case bs' of
            c # bs'' \<Rightarrow>
              if 0xE0 \<le> a \<and> a \<le> 0xEF
              then utf8_cont (if a = 0xE0 then 0xA0 else 0x80) (if a = 0xED then 0x9F else 0xBF) b \<and>
                utf8_cont 0x80 0xBF c \<and> utf8_ok bs''
              else (case bs'' of
                d # bs''' \<Rightarrow> 0xF0 \<le> a \<and> a \<le> 0xF4 \<and>
                  utf8_cont (if a = 0xF0 then 0x90 else 0x80) (if a = 0xF4 then 0x8F else 0xBF) b \<and>
                  utf8_cont 0x80 0xBF c \<and> utf8_cont 0x80 0xBF d \<and> utf8_ok bs'''
              | [] \<Rightarrow> False)
          | [] \<Rightarrow> False)
      | [] \<Rightarrow> False)"

definition is_ascii :: "u8 list \<Rightarrow> bool" where
  "is_ascii bs \<longleftrightarrow> (\<forall>b\<in>set bs. b < 0x80)"

section \<open>Operations\<close>

text \<open>The loops end when a read fails; that they do end is proved below.\<close>

partial_function (option) path2inum_loop :: "'s vnode_ops \<Rightarrow> 's \<Rightarrow> usize \<Rightarrow> path \<Rightarrow> File \<Rightarrow> (inum result \<times> File) option" where
  "path2inum_loop ops s p path f = do {
     (r, f) \<leftarrow> read_into ops s f p 32 decode_entry;
     (case r of
        Err e \<Rightarrow> Some (Err NoSuchFile, f)
      | Ok entry \<Rightarrow>
          if \<not> entry_is_valid entry then path2inum_loop ops s p path f
          else do {
            name \<leftarrow> c_str entry;
            if \<not> utf8_ok name then Some (Err CstrFormatErr, f)
            else if path = name then Some (Ok (de_inum entry), f)
            else path2inum_loop ops s p path f
          })
   }"

definition path2inum :: "'s vnode_ops \<Rightarrow> 's \<Rightarrow> usize \<Rightarrow> path \<Rightarrow> File \<Rightarrow> (inum result \<times> File) option" where
  "path2inum ops s p path f = (let (_, f) = rewind ops s f in path2inum_loop ops s p path f)"

definition dir_exists :: "'s vnode_ops \<Rightarrow> 's \<Rightarrow> usize \<Rightarrow> path \<Rightarrow> File \<Rightarrow> (bool \<times> File) option" where
  "dir_exists ops s p path f = do {
     (r, f) \<leftarrow> path2inum ops s p path f;
     Some (case r of Err _ \<Rightarrow> False | Ok _ \<Rightarrow> True, f)
   }"

partial_function (option) first_invalid_loop :: "'s vnode_ops \<Rightarrow> 's \<Rightarrow> usize \<Rightarrow> File \<Rightarrow> (usize result \<times> File) option" where
  "first_invalid_loop ops s p f = do {
     (r, f) \<leftarrow> read_into ops s f p 32 decode_entry;
     (case r of
        Err e \<Rightarrow> Some (Err RootDirFull, f)
      | Ok entry \<Rightarrow>
          if \<not> entry_is_valid entry then Some (seek ops s f (Current (- 32)))
          else first_invalid_loop ops s p f)
   }"

definition first_invalid :: "'s vnode_ops \<Rightarrow> 's \<Rightarrow> usize \<Rightarrow> File \<Rightarrow> (usize result \<times> File) option" where
  "first_invalid ops s p f = (let (_, f) = rewind ops s f in first_invalid_loop ops s p f)"

text \<open>\<open>copy_from_slice\<close> panics when the lengths differ.\<close>

definition dir_insert :: "'s vnode_ops \<Rightarrow> 's \<Rightarrow> usize \<Rightarrow> path \<Rightarrow> inum \<Rightarrow> File \<Rightarrow> (unit result \<times> 's \<times> File) option" where
  "dir_insert ops s p path inum f =
     (if \<not> is_ascii path then Some (Err CstrFormatErr, s, f)
      else do {
        (r, f) \<leftarrow> first_invalid ops s p f;
        (case r of
           Err e \<Rightarrow> Some (Err e, s, f)
         | Ok at \<Rightarrow> do {
             let n = min (length path) (FILE_NAME_LEN_MAX - 1);
             rust_assert (length path = n);
             let entry = \<lparr>de_name = splice (replicate FILE_NAME_LEN_MAX 0) 0 path, de_inum = inum\<rparr>;
             let (_, f) = seek ops s f (Start at);
             write_from ops s f p encode_entry entry
           })
      })"

partial_function (option) dir_remove_loop :: "'s vnode_ops \<Rightarrow> usize \<Rightarrow> inum \<Rightarrow> 's \<Rightarrow> File \<Rightarrow> (unit result \<times> 's \<times> File) option" where
  "dir_remove_loop ops p inum s f = do {
     (r, f) \<leftarrow> read_into ops s f p 32 decode_entry;
     (case r of
        Err e \<Rightarrow> Some (Ok (), s, f)
      | Ok entry \<Rightarrow>
          if de_inum entry = inum then do {
            let (_, f) = seek ops s f (Current (- 32));
            (w, s, f) \<leftarrow> write_from ops s f p encode_entry (entry_invalidate entry);
            (case w of Err e \<Rightarrow> Some (Err e, s, f) | Ok _ \<Rightarrow> dir_remove_loop ops p inum s f)
          } else dir_remove_loop ops p inum s f)
   }"

definition dir_remove :: "'s vnode_ops \<Rightarrow> usize \<Rightarrow> inum \<Rightarrow> 's \<Rightarrow> File \<Rightarrow> (unit result \<times> 's \<times> File) option" where
  "dir_remove ops p inum s f = (let (_, f) = rewind ops s f in dir_remove_loop ops p inum s f)"

section \<open>The abstract directory\<close>

definition nth_entry :: "u8 list \<Rightarrow> nat \<Rightarrow> dir_entry" where
  "nth_entry cs i = decode_entry (take 32 (drop (32 * i) cs))"

definition entries :: "u8 list \<Rightarrow> dir_entry list" where
  "entries cs = map (nth_entry cs) [0..<length cs div 32]"

definition entry_name :: "dir_entry \<Rightarrow> path" where
  "entry_name e = takeWhile (\<lambda>b. b \<noteq> 0) (de_name e)"

text \<open>The names in the directory are terminated ASCII strings: an invariant of all operations.\<close>

definition entry_ok :: "dir_entry \<Rightarrow> bool" where
  "entry_ok e \<longleftrightarrow> length (de_name e) = 28 \<and> (entry_is_valid e \<longrightarrow> 0 \<in> set (de_name e) \<and> is_ascii (entry_name e))"

definition valid_entries :: "u8 list \<Rightarrow> dir_entry list" where
  "valid_entries cs = filter entry_is_valid (entries cs)"

definition dir_ok :: "u8 list \<Rightarrow> bool" where
  "dir_ok cs \<longleftrightarrow> (\<forall>e\<in>set (entries cs). entry_ok e) \<and> distinct (map entry_name (valid_entries cs))"

definition dir_map :: "u8 list \<Rightarrow> path \<rightharpoonup> inum" where
  "dir_map cs path = map_option de_inum (find (\<lambda>e. entry_is_valid e \<and> entry_name e = path) (entries cs))"

lemma length_entries [simp]: "length (entries cs) = length cs div 32"
  by (simp add: entries_def)

lemma nth_entries [simp]: "i < length cs div 32 \<Longrightarrow> entries cs ! i = nth_entry cs i"
  by (simp add: entries_def)

lemma decode_encode_entry [simp]: "length (de_name e) = 28 \<Longrightarrow> decode_entry (encode_entry e) = e"
  by (simp add: decode_entry_def encode_entry_def)

lemma encode_decode_entry:
  assumes "length b = 32"
  shows "length (de_name (decode_entry b)) = 28"
  using assms by (simp add: decode_entry_def)

lemma ascii_utf8: "is_ascii bs \<Longrightarrow> utf8_ok bs"
  by (induction bs) (auto simp: is_ascii_def)

lemma c_str_ok:
  assumes "entry_ok e" "entry_is_valid e"
  shows "c_str e = Some (entry_name e)" "utf8_ok (entry_name e)"
  using assms ascii_utf8 by (auto simp: c_str_def encode_entry_def entry_ok_def entry_name_def takeWhile_append)

text \<open>Writing one entry in place.\<close>

lemma nth_entry_splice:
  assumes "32 * i + 32 \<le> length cs" "length b = 32" "32 * j + 32 \<le> length cs"
  shows "nth_entry (splice cs (32 * i) b) j = (if j = i then decode_entry b else nth_entry cs j)"
proof (cases "j = i")
  case True
  then show ?thesis using assms by (simp add: nth_entry_def splice_def)
next
  case False
  have "take 32 (drop (32 * j) (splice cs (32 * i) b)) = take 32 (drop (32 * j) cs)"
  proof (rule nth_equalityI)
    fix n assume "n < length (take 32 (drop (32 * j) (splice cs (32 * i) b)))"
    then have n: "n < 32" "32 * j + n < length cs" using assms by auto
    have "\<not> (32 * i \<le> 32 * j + n \<and> 32 * j + n < 32 * i + 32)" using False n by arith
    then show "take 32 (drop (32 * j) (splice cs (32 * i) b)) ! n = take 32 (drop (32 * j) cs) ! n"
      using n assms by (auto simp: nth_splice)
  qed (use assms in simp)
  then show ?thesis using False by (simp add: nth_entry_def)
qed

lemma entries_splice:
  assumes "i < length cs div 32" "length b = 32"
  shows "entries (splice cs (32 * i) b) = (entries cs)[i := decode_entry b]"
proof (rule nth_equalityI)
  have le: "32 * i + 32 \<le> length cs" using assms(1) by linarith
  then have len: "length (splice cs (32 * i) b) = length cs" using assms(2) by simp
  then show "length (entries (splice cs (32 * i) b)) = length ((entries cs)[i := decode_entry b])" by simp
  fix j assume "j < length (entries (splice cs (32 * i) b))"
  then have j: "j < length cs div 32" using len by simp
  then have "32 * j + 32 \<le> length cs" by linarith
  then show "entries (splice cs (32 * i) b) ! j = (entries cs)[i := decode_entry b] ! j"
    using nth_entry_splice [OF le assms(2)] j len assms(1) by (simp add: nth_list_update)
qed

section \<open>The operations on the entries\<close>

text \<open>\<open>remove\<close> marks every entry with the inode number, the others stay.\<close>

definition removed_entry :: "inum \<Rightarrow> dir_entry \<Rightarrow> dir_entry" where
  "removed_entry i e = (if de_inum e = i then entry_invalidate e else e)"


context vnode
begin

lemma read_entry:
  assumes "inv s" "buf_ok p 32" "p \<noteq> 0" "pos f = of_nat (32 * i)" "i \<le> length (contents s) div 32"
  shows "i < length (contents s) div 32 \<Longrightarrow>
      read_into ops s f p 32 decode_entry = Some (Ok (nth_entry (contents s) i), f\<lparr>pos := of_nat (32 * Suc i)\<rparr>)"
    "i = length (contents s) div 32 \<Longrightarrow>
      \<exists>e f'. read_into ops s f p 32 decode_entry = Some (Err e, f') \<and> deny_write f' = deny_write f"
proof -
  have small: "length (contents s) < 2 ^ 63" using len_law [OF assms(1)] by simp
  have "32 * i \<le> length (contents s)" using assms(5) by linarith
  then have up: "unat (pos f) = 32 * i"
    unfolding assms(4) using small by (intro unat_of_nat_small) simp
  {
    assume "i < length (contents s) div 32"
    then have le: "32 * i + 32 \<le> length (contents s)" by linarith
    have "read_exact ops s f p (replicate 32 0) =
        Some (Ok (), take 32 (drop (32 * i) (contents s)), f\<lparr>pos := pos f + 32\<rparr>)"
      using read_exact_ok [of s p "replicate 32 0" f] assms(1,2) le up by simp
    then show "read_into ops s f p 32 decode_entry = Some (Ok (nth_entry (contents s) i), f\<lparr>pos := of_nat (32 * Suc i)\<rparr>)"
      using assms(3,4) by (simp add: read_into_def nth_entry_def)
  }
  {
    assume "i = length (contents s) div 32"
    then have "length (contents s) < 32 * i + 32" by linarith
    then have "\<exists>b f'. read_exact ops s f p (replicate 32 0) = Some (Err UnexpectedEOF, b, f') \<and> deny_write f' = deny_write f"
      using read_exact_eof [of s p "replicate 32 0" f] assms(1,2) up by auto
    then show "\<exists>e f'. read_into ops s f p 32 decode_entry = Some (Err e, f') \<and> deny_write f' = deny_write f"
      by (auto simp: read_into_def)
  }
qed

lemma find_drop:
  assumes "i < length xs"
  shows "find P (drop i xs) = (if P (xs ! i) then Some (xs ! i) else find P (drop (Suc i) xs))"
  using assms by (simp add: Cons_nth_drop_Suc [symmetric])

lemma path2inum_loop_correct:
  assumes "inv s" "buf_ok p 32" "p \<noteq> 0" "dir_ok (contents s)" "pos f = of_nat (32 * i)"
    "i \<le> length (contents s) div 32"
  shows "\<exists>f'. path2inum_loop ops s p path f = Some (
      (case find (\<lambda>e. entry_is_valid e \<and> entry_name e = path) (drop i (entries (contents s))) of
         None \<Rightarrow> Err NoSuchFile | Some e \<Rightarrow> Ok (de_inum e)), f')"
  using assms(5,6)
proof (induction "length (contents s) div 32 - i" arbitrary: i f)
  case 0
  then show ?case using read_entry(2) [OF assms(1-3) 0(2,3)] by (subst path2inum_loop.simps) auto
next
  case (Suc n)
  then have i: "i < length (contents s) div 32" by simp
  let ?e = "nth_entry (contents s) i"
  have ok: "entry_ok ?e" using assms(4) i by (auto simp: dir_ok_def entries_def)
  note c = c_str_ok [OF ok]
  note rd = read_entry(1) [OF assms(1-3) Suc(3,4) i]
  have "n = length (contents s) div 32 - Suc i" using Suc(2) by simp
  from Suc(1) [OF this, of "f\<lparr>pos := of_nat (32 * Suc i)\<rparr>"] i obtain f' where
    rest: "path2inum_loop ops s p path (f\<lparr>pos := of_nat (32 * Suc i)\<rparr>) = Some (
      (case find (\<lambda>e. entry_is_valid e \<and> entry_name e = path) (drop (Suc i) (entries (contents s))) of
         None \<Rightarrow> Err NoSuchFile | Some e \<Rightarrow> Ok (de_inum e)), f')" by auto
  show ?case
    using rd rest c i find_drop [of i "entries (contents s)" "\<lambda>e. entry_is_valid e \<and> entry_name e = path"]
    by (subst path2inum_loop.simps) (auto simp del: of_nat_Suc of_nat_mult mult_Suc_right)
qed

lemma path2inum_correct:
  assumes "inv s" "buf_ok p 32" "p \<noteq> 0" "dir_ok (contents s)"
  shows "\<exists>f'. path2inum ops s p path f =
    Some (case dir_map (contents s) path of None \<Rightarrow> Err NoSuchFile | Some i \<Rightarrow> Ok i, f')"
  using path2inum_loop_correct [OF assms, of "f\<lparr>pos := 0\<rparr>" 0 path]
  by (auto simp: path2inum_def dir_map_def split: option.splits)

lemma first_invalid_loop_correct:
  assumes "inv s" "buf_ok p 32" "p \<noteq> 0" "pos f = of_nat (32 * i)" "i \<le> length (contents s) div 32"
    "\<forall>j<i. entry_is_valid (nth_entry (contents s) j)"
  shows "\<exists>r f'. first_invalid_loop ops s p f = Some (r, f') \<and> deny_write f' = deny_write f \<and>
    (if \<forall>e\<in>set (entries (contents s)). entry_is_valid e then r = Err RootDirFull
     else \<exists>j<length (contents s) div 32. r = Ok (of_nat (32 * j)) \<and> \<not> entry_is_valid (nth_entry (contents s) j) \<and>
       (\<forall>j'<j. entry_is_valid (nth_entry (contents s) j')))"
  using assms(4-6)
proof (induction "length (contents s) div 32 - i" arbitrary: i f)
  case 0
  then have "\<forall>e\<in>set (entries (contents s)). entry_is_valid e" by (auto simp: entries_def)
  then show ?case using read_entry(2) [OF assms(1-3) 0(2,3)] 0 by (subst first_invalid_loop.simps) auto
next
  case (Suc n)
  then have i: "i < length (contents s) div 32" by simp
  let ?e = "nth_entry (contents s) i" and ?f = "f\<lparr>pos := of_nat (32 * Suc i)\<rparr>"
  note rd = read_entry(1) [OF assms(1-3) Suc(3,4) i]
  show ?case
  proof (cases "entry_is_valid ?e")
    case True
    then have "\<forall>j<Suc i. entry_is_valid (nth_entry (contents s) j)" using Suc(5) by (auto simp: less_Suc_eq)
    moreover have "n = length (contents s) div 32 - Suc i" using Suc(2) by simp
    ultimately show ?thesis using Suc(1) [of "Suc i" ?f] i rd True
      by (subst first_invalid_loop.simps) (simp del: of_nat_Suc of_nat_mult mult_Suc_right)
  next
    case False
    have small: "length (contents s) < 2 ^ 63" using len_law [OF assms(1)] by simp
    have "32 * i + 32 \<le> length (contents s)" using i by linarith
    then have le: "32 * Suc i \<le> length (contents s)" by simp
    have "unat (of_nat (32 * Suc i) :: usize) = 32 * Suc i" by (rule unat_of_nat_small) (use le small in simp)
    then have u: "unat (pos ?f) = 32 * Suc i" by (simp del: of_nat_Suc of_nat_mult mult_Suc_right)
    have "seek ops s ?f (Current (- 32)) = (Ok (pos ?f - 32), ?f\<lparr>pos := pos ?f - 32\<rparr>)"
      using le small u by (intro seek_Current_back) auto
    moreover have "pos ?f - 32 = of_nat (32 * i)" by simp
    ultimately have "first_invalid_loop ops s p f = Some (Ok (of_nat (32 * i)), ?f\<lparr>pos := of_nat (32 * i)\<rparr>)"
      using rd False by (subst first_invalid_loop.simps) (simp del: of_nat_Suc of_nat_mult mult_Suc_right)
    moreover have "\<not> (\<forall>e\<in>set (entries (contents s)). entry_is_valid e)" using i False by (auto simp: entries_def)
    ultimately show ?thesis using False i Suc(5) by auto
  qed
qed

lemma write_entry:
  assumes "inv s" "writable s" "buf_ok p 32" "i < length (contents s) div 32" "pos f = of_nat (32 * i)"
    "length (de_name e) = 28"
  shows "\<exists>s'. write_from ops s f p encode_entry e = Some (Ok (), s', f\<lparr>pos := of_nat (32 * Suc i)\<rparr>) \<and>
    inv s' \<and> writable s' \<and> length (contents s') = length (contents s) \<and>
    entries (contents s') = (entries (contents s))[i := e]"
proof -
  have le: "32 * i + 32 \<le> length (contents s)" using assms(4) by linarith
  have small: "length (contents s) < 2 ^ 63" using len_law [OF assms(1)] by simp
  have u: "unat (pos f) = 32 * i" unfolding assms(5) by (rule unat_of_nat_small) (use le small in simp)
  have len: "length (encode_entry e) = 32" using assms(6) by (simp add: encode_entry_def)
  from write_all_ok [OF assms(1,2), of p "encode_entry e" f] assms(3) le u len obtain s' where
    "write_all ops s f p (encode_entry e) = Some (Ok (), s', f\<lparr>pos := pos f + 32\<rparr>)" "inv s'" "writable s'"
    "contents s' = splice (contents s) (32 * i) (encode_entry e)" by auto
  then show ?thesis
    using entries_splice [OF assms(4) len] assms(5,6) le len by (intro exI [of _ s']) (simp add: write_from_def)
qed

lemma seek_start_entry:
  "seek ops s f (Start (of_nat (32 * i))) = (Ok (of_nat (32 * i)), f\<lparr>pos := of_nat (32 * i)\<rparr>)"
  by (simp add: seek_def Let_def)

lemma dir_remove_loop_correct:
  assumes "inv s" "writable s" "buf_ok p 32" "p \<noteq> 0" "pos f = of_nat (32 * i)" "i \<le> length (contents s) div 32"
  shows "\<exists>s' f'. dir_remove_loop ops p n s f = Some (Ok (), s', f') \<and> inv s' \<and> writable s' \<and>
    length (contents s') = length (contents s) \<and>
    entries (contents s') = take i (entries (contents s)) @ map (removed_entry n) (drop i (entries (contents s)))"
  using assms(1,2,5,6)
proof (induction "length (contents s) div 32 - i" arbitrary: i s f)
  case 0
  then show ?case using read_entry(2) [OF 0(2) assms(3,4) 0(4,5)] by (subst dir_remove_loop.simps) auto
next
  case (Suc m)
  then have i: "i < length (contents s) div 32" by simp
  let ?e = "nth_entry (contents s) i" and ?f = "f\<lparr>pos := of_nat (32 * Suc i)\<rparr>"
  have m: "m = length (contents s) div 32 - Suc i" using Suc(2) by simp
  note rd = read_entry(1) [OF Suc(3) assms(3,4) Suc(5,6) i]
  have le: "32 * Suc i \<le> length (contents s)" using i by simp
  have split: "drop i (entries (contents s)) = ?e # drop (Suc i) (entries (contents s))"
    using i by (simp add: Cons_nth_drop_Suc [symmetric])
  show ?case
  proof (cases "de_inum ?e = n")
    case False
    from Suc(1) [OF m Suc(3,4), of ?f] i obtain s' f' where
      "dir_remove_loop ops p n s ?f = Some (Ok (), s', f')" "inv s'" "writable s'"
      "length (contents s') = length (contents s)"
      "entries (contents s') = take (Suc i) (entries (contents s)) @ map (removed_entry n) (drop (Suc i) (entries (contents s)))"
      by (auto simp del: of_nat_Suc of_nat_mult mult_Suc_right)
    then show ?thesis using rd False i split
      by (subst dir_remove_loop.simps)
        (simp add: removed_entry_def take_Suc_conv_app_nth del: of_nat_Suc of_nat_mult mult_Suc_right)
  next
    case True
    have small: "length (contents s) < 2 ^ 63" using len_law [OF Suc(3)] by simp
    have "unat (of_nat (32 * Suc i) :: usize) = 32 * Suc i" by (rule unat_of_nat_small) (use le small in simp)
    then have u: "unat (pos ?f) = 32 * Suc i" by (simp del: of_nat_Suc of_nat_mult mult_Suc_right)
    have sk: "seek ops s ?f (Current (- 32)) = (Ok (of_nat (32 * i)), f\<lparr>pos := of_nat (32 * i)\<rparr>)"
      using seek_Current_back [of 32 ?f ops s] le small u by simp
    have "length (de_name ?e) = 28" using le by (simp add: nth_entry_def decode_entry_def)
    then have "length (de_name (entry_invalidate ?e)) = 28" by (simp add: entry_invalidate_def)
    from write_entry [OF Suc(3,4) assms(3) i _ this, of "f\<lparr>pos := of_nat (32 * i)\<rparr>"] obtain s1 where
      w: "write_from ops s (f\<lparr>pos := of_nat (32 * i)\<rparr>) p encode_entry (entry_invalidate ?e) = Some (Ok (), s1, ?f)"
      "inv s1" "writable s1" "length (contents s1) = length (contents s)"
      "entries (contents s1) = (entries (contents s))[i := entry_invalidate ?e]" by auto
    from Suc(1) [of s1 "Suc i" ?f] m w(2-4) i obtain s' f' where
      "dir_remove_loop ops p n s1 ?f = Some (Ok (), s', f')" "inv s'" "writable s'"
      "length (contents s') = length (contents s1)"
      "entries (contents s') = take (Suc i) (entries (contents s1)) @ map (removed_entry n) (drop (Suc i) (entries (contents s1)))"
      by (auto simp del: of_nat_Suc of_nat_mult mult_Suc_right)
    moreover have "take (Suc i) (entries (contents s1)) = take i (entries (contents s)) @ [entry_invalidate ?e]"
      using i by (simp add: w(5) take_Suc_conv_app_nth)
    ultimately show ?thesis using rd True i split sk w(1,4,5)
      by (subst dir_remove_loop.simps)
        (simp add: removed_entry_def del: of_nat_Suc of_nat_mult mult_Suc_right)
  qed
qed

lemma dir_remove_entries:
  assumes "inv s" "writable s" "buf_ok p 32" "p \<noteq> 0"
  shows "\<exists>s' f'. dir_remove ops p n s f = Some (Ok (), s', f') \<and> inv s' \<and> writable s' \<and>
    length (contents s') = length (contents s) \<and> entries (contents s') = map (removed_entry n) (entries (contents s))"
  using dir_remove_loop_correct [OF assms, of "f\<lparr>pos := 0\<rparr>" 0 n] by (simp add: dir_remove_def)

lemma dir_insert_entries:
  assumes "inv s" "writable s" "buf_ok p 32" "p \<noteq> 0" "is_ascii path" "length path \<le> 27"
  shows "if \<forall>e\<in>set (entries (contents s)). entry_is_valid e
    then \<exists>f'. dir_insert ops s p path n f = Some (Err RootDirFull, s, f')
    else \<exists>s' f' j. dir_insert ops s p path n f = Some (Ok (), s', f') \<and> inv s' \<and> writable s' \<and>
      length (contents s') = length (contents s) \<and> j < length (entries (contents s)) \<and>
      \<not> entry_is_valid (entries (contents s) ! j) \<and> (\<forall>j'<j. entry_is_valid (entries (contents s) ! j')) \<and>
      entries (contents s') = (entries (contents s))[j := \<lparr>de_name = path @ replicate (28 - length path) 0, de_inum = n\<rparr>]"
proof -
  let ?e = "\<lparr>de_name = path @ replicate (28 - length path) 0, de_inum = n\<rparr>"
  have e: "splice (replicate FILE_NAME_LEN_MAX 0) 0 path = path @ replicate (28 - length path) 0"
    using assms(6) by (simp add: splice_def FILE_NAME_LEN_MAX_def)
  have n: "min (length path) (FILE_NAME_LEN_MAX - 1) = length path" using assms(6) by (simp add: FILE_NAME_LEN_MAX_def)
  from first_invalid_loop_correct [OF assms(1,3,4), of "f\<lparr>pos := 0\<rparr>" 0] obtain r f1 where
    fi: "first_invalid ops s p f = Some (r, f1)"
    "if \<forall>e\<in>set (entries (contents s)). entry_is_valid e then r = Err RootDirFull
     else \<exists>j<length (contents s) div 32. r = Ok (of_nat (32 * j)) \<and> \<not> entry_is_valid (nth_entry (contents s) j) \<and>
       (\<forall>j'<j. entry_is_valid (nth_entry (contents s) j'))"
    by (auto simp: first_invalid_def)
  show ?thesis
  proof (cases "\<forall>e\<in>set (entries (contents s)). entry_is_valid e")
    case True
    then show ?thesis using fi assms(5) by (simp add: dir_insert_def)
  next
    case False
    then obtain j where j: "j < length (contents s) div 32" "r = Ok (of_nat (32 * j))"
      "\<not> entry_is_valid (nth_entry (contents s) j)" "\<forall>j'<j. entry_is_valid (nth_entry (contents s) j')"
      using fi(2) [unfolded if_not_P [OF False]] by blast
    have "length (de_name ?e) = 28" using assms(6) by simp
    from write_entry [OF assms(1,2,3) j(1) _ this, of "f1\<lparr>pos := of_nat (32 * j)\<rparr>"] obtain s' where
      w: "write_from ops s (f1\<lparr>pos := of_nat (32 * j)\<rparr>) p encode_entry ?e = Some (Ok (), s', f1\<lparr>pos := of_nat (32 * Suc j)\<rparr>)"
      "inv s'" "writable s'" "length (contents s') = length (contents s)"
      "entries (contents s') = (entries (contents s))[j := ?e]" by auto
    have "dir_insert ops s p path n f = Some (Ok (), s', f1\<lparr>pos := of_nat (32 * Suc j)\<rparr>)"
      using fi(1) j(2) w(1) e n assms(5) seek_start_entry [of s f1 j]
      by (simp add: dir_insert_def del: of_nat_Suc of_nat_mult mult_Suc_right)
    then show ?thesis using False w j by (intro iffD2 [OF if_not_P] exI [of _ s'] exI [of _ "f1\<lparr>pos := of_nat (32 * Suc j)\<rparr>"] exI [of _ j])
      (simp_all del: of_nat_Suc of_nat_mult mult_Suc_right)
  qed
qed

lemma dir_insert_long:
  assumes "inv s" "buf_ok p 32" "p \<noteq> 0" "is_ascii path" "27 < length path"
    "\<not> (\<forall>e\<in>set (entries (contents s)). entry_is_valid e)"
  shows "dir_insert ops s p path n f = None"
proof -
  from first_invalid_loop_correct [OF assms(1-3), of "f\<lparr>pos := 0\<rparr>" 0] obtain r f1 where
    "first_invalid ops s p f = Some (r, f1)" "\<exists>at. r = Ok at"
    using assms(6) by (auto simp: first_invalid_def)
  then show ?thesis using assms(4,5) by (auto simp: dir_insert_def FILE_NAME_LEN_MAX_def)
qed

end

section \<open>The abstract directory\<close>

lemma dir_map_eq: "dir_map cs = map_of (map (\<lambda>e. (entry_name e, de_inum e)) (valid_entries cs))"
proof
  fix path
  have "map_option de_inum (find (\<lambda>e. entry_is_valid e \<and> entry_name e = path) es) =
      map_of (map (\<lambda>e. (entry_name e, de_inum e)) (filter entry_is_valid es)) path" for es
    by (induction es) auto
  then show "dir_map cs path = map_of (map (\<lambda>e. (entry_name e, de_inum e)) (valid_entries cs)) path"
    by (simp add: dir_map_def valid_entries_def)
qed

text \<open>Names that can be stored: not empty, at most 27 ASCII characters, no NUL, not starting with \<open>#\<close>.\<close>

definition name_ok :: "path \<Rightarrow> bool" where
  "name_ok path \<longleftrightarrow> path \<noteq> [] \<and> length path \<le> 27 \<and> is_ascii path \<and> 0 \<notin> set path \<and> hd path \<noteq> 35"

lemma new_entry_facts:
  fixes n
  assumes "name_ok path"
  defines "e \<equiv> \<lparr>de_name = path @ replicate (28 - length path) 0, de_inum = n\<rparr>"
  shows "entry_is_valid e" "entry_name e = path" "entry_ok e" "de_inum e = n"
proof -
  have l: "path \<noteq> []" "length path < 28" "0 \<notin> set path" using assms(1) by (auto simp: name_ok_def)
  have h: "path ! 0 = hd path" using l by (simp add: hd_conv_nth)
  have "hd path \<noteq> 0" using l by (metis list.set_sel(1))
  then show v: "entry_is_valid e" using assms(1) l h by (simp add: entry_is_valid_def e_def nth_append name_ok_def)
  have "takeWhile (\<lambda>b. b \<noteq> 0) (replicate (28 - length path) (0 :: u8)) = []" using l by (cases "28 - length path") auto
  then show nm: "entry_name e = path" using l by (auto simp: entry_name_def e_def takeWhile_append)
  show "de_inum e = n" by (simp add: e_def)
  show "entry_ok e" using l assms(1) nm by (auto simp: entry_ok_def e_def name_ok_def)
qed

lemma dir_map_insert:
  assumes "dir_ok cs" "name_ok path" "dir_map cs path = None" "j < length (entries cs)"
    "\<not> entry_is_valid (entries cs ! j)"
    "entries cs' = (entries cs)[j := \<lparr>de_name = path @ replicate (28 - length path) 0, de_inum = n\<rparr>]"
  shows "dir_ok cs'" "dir_map cs' = (dir_map cs)(path \<mapsto> n)"
proof -
  let ?e = "\<lparr>de_name = path @ replicate (28 - length path) 0, de_inum = n\<rparr>" and ?es = "entries cs"
  note e = new_entry_facts [OF assms(2), of n]
  define xs where "xs = filter entry_is_valid (take j ?es)"
  define ys where "ys = filter entry_is_valid (drop (Suc j) ?es)"
  have old: "valid_entries cs = xs @ ys"
    using assms(4,5) unfolding valid_entries_def xs_def ys_def by (subst id_take_nth_drop [of j ?es]) simp_all
  have new: "valid_entries cs' = xs @ ?e # ys"
    using assms(4) e(1) by (simp add: valid_entries_def xs_def ys_def assms(6) upd_conv_take_nth_drop)
  have fresh: "path \<notin> entry_name ` set (xs @ ys)"
    using assms(3) unfolding dir_map_eq map_of_eq_None_iff old by (simp add: image_Un image_image)
  have "distinct (map entry_name (xs @ ?e # ys))"
    using assms(1) fresh e(2) by (auto simp: dir_ok_def old)
  moreover have "\<forall>x\<in>set (entries cs'). entry_ok x"
    using assms(1) e(3) set_update_subset_insert [of ?es j ?e] by (auto simp: dir_ok_def assms(6))
  ultimately show "dir_ok cs'" by (simp add: dir_ok_def new)
  have "map_of (map (\<lambda>e. (entry_name e, de_inum e)) xs) path = None"
    using fresh by (auto simp: map_of_eq_None_iff image_iff)
  then show "dir_map cs' = (dir_map cs)(path \<mapsto> n)"
    unfolding dir_map_eq old new using e(2) by (auto simp: fun_eq_iff map_add_def split: option.splits)
qed

lemma removed_entry_valid:
  assumes "length (de_name e) = 28"
  shows "entry_is_valid (removed_entry n e) \<longleftrightarrow> entry_is_valid e \<and> de_inum e \<noteq> n" "entry_ok e \<Longrightarrow> entry_ok (removed_entry n e)"
proof -
  have "\<not> entry_is_valid (entry_invalidate e)" using assms
    by (cases "de_name e") (simp_all add: entry_is_valid_def entry_invalidate_def)
  then show "entry_is_valid (removed_entry n e) \<longleftrightarrow> entry_is_valid e \<and> de_inum e \<noteq> n"
    "entry_ok e \<Longrightarrow> entry_ok (removed_entry n e)"
    by (auto simp: removed_entry_def entry_ok_def entry_invalidate_def)
qed

lemma map_of_filter_distinct:
  assumes "distinct (map k xs)"
  shows "map_of (map (\<lambda>e. (k e, v e)) (filter (\<lambda>e. v e \<noteq> n) xs)) q =
    (case map_of (map (\<lambda>e. (k e, v e)) xs) q of None \<Rightarrow> None | Some i \<Rightarrow> if i = n then None else Some i)"
  using assms
proof (induction xs)
  case (Cons x xs)
  have "k x \<notin> k ` set xs" using Cons.prems by simp
  then have "map_of (map (\<lambda>e. (k e, v e)) xs) (k x) = None" by (auto simp: map_of_eq_None_iff image_iff)
  then show ?case using Cons by auto
qed simp

lemma dir_map_remove:
  assumes "dir_ok cs" "entries cs' = map (removed_entry n) (entries cs)"
  shows "dir_ok cs'"
    "dir_map cs' q = (case dir_map cs q of None \<Rightarrow> None | Some i \<Rightarrow> if i = n then None else Some i)"
proof -
  have ok: "entry_ok e" "length (de_name e) = 28" if "e \<in> set (entries cs)" for e
    using assms(1) that by (auto simp: dir_ok_def entry_ok_def)
  have v: "valid_entries cs' = filter (\<lambda>e. de_inum e \<noteq> n) (valid_entries cs)"
  proof -
    have "filter entry_is_valid (map (removed_entry n) es) = filter (\<lambda>e. de_inum e \<noteq> n) (filter entry_is_valid es)"
      if "\<forall>e\<in>set es. length (de_name e) = 28" for es
      using that
    proof (induction es)
      case (Cons e es)
      then have "entry_is_valid (removed_entry n e) \<longleftrightarrow> entry_is_valid e \<and> de_inum e \<noteq> n"
        by (intro removed_entry_valid) simp
      moreover have "de_inum e \<noteq> n \<Longrightarrow> removed_entry n e = e" by (simp add: removed_entry_def)
      ultimately show ?case using Cons by simp
    qed simp
    then show ?thesis using ok(2) by (simp add: valid_entries_def assms(2))
  qed
  have d: "distinct (map entry_name (valid_entries cs))" using assms(1) by (simp add: dir_ok_def)
  then have "distinct (map entry_name (valid_entries cs'))"
    unfolding v by (rule distinct_map_filter)
  then show "dir_ok cs'" using ok removed_entry_valid(2) by (auto simp: dir_ok_def assms(2))
  show "dir_map cs' q = (case dir_map cs q of None \<Rightarrow> None | Some i \<Rightarrow> if i = n then None else Some i)"
    unfolding dir_map_eq v by (rule map_of_filter_distinct [OF d])
qed

section \<open>The properties\<close>

text \<open>
  C5. The root directory refines a finite map from names to inode numbers. On a directory file
  whose valid entries have distinct ASCII names, \<open>path2inum\<close> is lookup, \<open>insert\<close> of a fresh
  name of at most 27 characters is update (or fails with \<open>RootDirFull\<close> exactly when no entry
  is free, changing nothing), and \<open>remove\<close> deletes exactly the names of the inode number; all
  of them return and keep the invariants of the directory and of its inode.
\<close>

theorem root_dir_refines_map:
  fixes pte close
  defines "ops \<equiv> inode_ops (translate pte) close"
  assumes "inode_ok s" "id_deny_write (desc (ino s)) = 0" "kernel_buf p 32" "p \<noteq> 0" "dir_ok (contents s)"
  shows "(\<exists>f'. path2inum ops s p path f = Some (case dir_map (contents s) path of None \<Rightarrow> Err NoSuchFile | Some i \<Rightarrow> Ok i, f')) \<and>
    (name_ok path \<and> dir_map (contents s) path = None \<longrightarrow>
      (if \<forall>e\<in>set (entries (contents s)). entry_is_valid e
       then \<exists>f'. dir_insert ops s p path n f = Some (Err RootDirFull, s, f')
       else \<exists>s' f'. dir_insert ops s p path n f = Some (Ok (), s', f') \<and> inode_ok s' \<and> dir_ok (contents s') \<and>
         dir_map (contents s') = (dir_map (contents s))(path \<mapsto> n))) \<and>
    (\<exists>s' f'. dir_remove ops p n s f = Some (Ok (), s', f') \<and> inode_ok s' \<and> dir_ok (contents s') \<and>
      dir_map (contents s') = (\<lambda>q. case dir_map (contents s) q of None \<Rightarrow> None | Some i \<Rightarrow> if i = n then None else Some i))"
proof (intro conjI impI)
  show "\<exists>f'. path2inum ops s p path f = Some (case dir_map (contents s) path of None \<Rightarrow> Err NoSuchFile | Some i \<Rightarrow> Ok i, f')"
    unfolding ops_def by (rule diskfile.path2inum_correct) (use assms in auto)
next
  assume a: "name_ok path \<and> dir_map (contents s) path = None"
  then have "is_ascii path" "length path \<le> 27" by (simp_all add: name_ok_def)
  note ins = diskfile.dir_insert_entries [OF assms(2-5) this, of pte close n f, folded ops_def]
  show "if \<forall>e\<in>set (entries (contents s)). entry_is_valid e
       then \<exists>f'. dir_insert ops s p path n f = Some (Err RootDirFull, s, f')
       else \<exists>s' f'. dir_insert ops s p path n f = Some (Ok (), s', f') \<and> inode_ok s' \<and> dir_ok (contents s') \<and>
         dir_map (contents s') = (dir_map (contents s))(path \<mapsto> n)"
  proof (cases "\<forall>e\<in>set (entries (contents s)). entry_is_valid e")
    case True
    then show ?thesis using ins [unfolded if_P [OF True]] unfolding if_P [OF True] by blast
  next
    case False
    from ins [unfolded if_not_P [OF False]] obtain s' f' j where
      "dir_insert ops s p path n f = Some (Ok (), s', f')" "inode_ok s'"
      "j < length (entries (contents s))" "\<not> entry_is_valid (entries (contents s) ! j)"
      "entries (contents s') = (entries (contents s))[j := \<lparr>de_name = path @ replicate (28 - length path) 0, de_inum = n\<rparr>]"
      by blast
    then show ?thesis unfolding if_not_P [OF False] using dir_map_insert [OF assms(6)] a by blast
  qed
next
  from diskfile.dir_remove_entries [OF assms(2-5), of pte close n f, folded ops_def] obtain s' f' where
    "dir_remove ops p n s f = Some (Ok (), s', f')" "inode_ok s'"
    "entries (contents s') = map (removed_entry n) (entries (contents s))" by blast
  then show "\<exists>s' f'. dir_remove ops p n s f = Some (Ok (), s', f') \<and> inode_ok s' \<and> dir_ok (contents s') \<and>
      dir_map (contents s') = (\<lambda>q. case dir_map (contents s) q of None \<Rightarrow> None | Some i \<Rightarrow> if i = n then None else Some i)"
    using dir_map_remove [OF assms(6)] by blast
qed

text \<open>The sample file is an empty directory of 18 entries.\<close>

lemma sample_directory: "contents sample_file = replicate 600 0" "dir_ok (contents sample_file)"
  "dir_map (contents sample_file) = Map.empty" "\<not> (\<forall>e\<in>set (entries (contents sample_file)). entry_is_valid e)"
proof -
  have "fbyte sample_file i = 0" if "i < 600" for i
  proof -
    have "(1536 + i) div 512 \<noteq> 2" "(1536 + i) div 512 < 12" using that by linarith+
    then show ?thesis by (simp add: fbyte_def dbyte_def sample_file_def sample_inode_def)
  qed
  then show c: "contents sample_file = replicate 600 0"
    by (intro nth_equalityI) (simp_all del: upt_Suc)
  have "nth_entry (replicate 600 0) i = \<lparr>de_name = replicate 28 0, de_inum = 0\<rparr>" if "i < 18" for i
    using that by (simp add: nth_entry_def decode_entry_def of_le32_def min_def)
  then have e: "entries (contents sample_file) = replicate 18 \<lparr>de_name = replicate 28 0, de_inum = 0\<rparr>"
    unfolding c by (intro nth_equalityI) simp_all
  show "dir_ok (contents sample_file)" "dir_map (contents sample_file) = Map.empty"
    "\<not> (\<forall>e\<in>set (entries (contents sample_file)). entry_is_valid e)"
    by (simp_all add: dir_ok_def dir_map_eq valid_entries_def e entry_ok_def entry_is_valid_def)
qed

theorem root_dir_refines_map_witness:
  "\<exists>s' f'. dir_insert (inode_ops (translate (\<lambda>_. None)) Some) sample_file 0xFFFFFFC080000000 [97, 98] 9 file_new =
      Some (Ok (), s', f') \<and> dir_map (contents s') [97, 98] = Some 9"
proof -
  have "kernel_buf 0xFFFFFFC080000000 32" by (simp add: kernel_buf_def in_kernel_space_iff)
  from root_dir_refines_map [OF sample_file_ok _ this _ sample_directory(2), where n = 9 and path = "[97, 98]" and pte = "\<lambda>_. None" and close = Some and f = file_new]
  have "\<exists>s' f'. dir_insert (inode_ops (translate (\<lambda>_. None)) Some) sample_file 0xFFFFFFC080000000 [97, 98] 9 file_new =
      Some (Ok (), s', f') \<and> dir_map (contents s') = (dir_map (contents sample_file))([97, 98] \<mapsto> 9)"
    using sample_directory(3,4) by (simp add: name_ok_def is_ascii_def split del: if_split) blast
  then show ?thesis by fastforce
qed

text \<open>
  Names that \<open>insert\<close> does not handle. With a free entry in the directory, an ASCII name of
  more than 27 characters panics in \<open>copy_from_slice\<close>, although the slice bound looks like a
  truncation; the empty name and a name that starts with \<open>#\<close> are accepted but stored as an
  unused entry, so the directory still does not contain them.
\<close>

lemma dir_insert_bad_names:
  fixes pte close
  defines "ops \<equiv> inode_ops (translate pte) close"
  assumes "inode_ok s" "id_deny_write (desc (ino s)) = 0" "kernel_buf p 32" "p \<noteq> 0" "is_ascii path"
    "\<not> (\<forall>e\<in>set (entries (contents s)). entry_is_valid e)"
  shows "if 27 < length path then dir_insert ops s p path n f = None
    else path = [] \<or> hd path = 35 \<longrightarrow>
      (\<exists>s' f'. dir_insert ops s p path n f = Some (Ok (), s', f') \<and> dir_map (contents s') = dir_map (contents s))"
proof (cases "27 < length path")
  case True
  then show ?thesis using diskfile.dir_insert_long [OF assms(2,4-6) True assms(7)] by (simp add: ops_def)
next
  case False
  then have le: "length path \<le> 27" by simp
  let ?e = "\<lparr>de_name = path @ replicate (28 - length path) 0, de_inum = n\<rparr>"
  from diskfile.dir_insert_entries [OF assms(2-6) le, of pte close n f, folded ops_def, unfolded if_not_P [OF assms(7)]]
  obtain s' f' j where i: "dir_insert ops s p path n f = Some (Ok (), s', f')" "j < length (entries (contents s))"
    "\<not> entry_is_valid (entries (contents s) ! j)" "entries (contents s') = (entries (contents s))[j := ?e]" by blast
  have "dir_map (contents s') = dir_map (contents s)" if "path = [] \<or> hd path = 35"
  proof -
    have "\<not> entry_is_valid ?e" using that le by (cases path) (auto simp: entry_is_valid_def)
    then have "valid_entries (contents s') = valid_entries (contents s)"
      using i(3) arg_cong [OF id_take_nth_drop [OF i(2)], of "filter entry_is_valid"]
      unfolding valid_entries_def i(4) upd_conv_take_nth_drop [OF i(2)] by simp
    then show ?thesis by (simp add: dir_map_eq)
  qed
  then show ?thesis using False i(1) by auto
qed

end
