(* ===== verification/Disk_Fs.thy ===== *)
theory Disk_Fs
  imports Root_Dir
begin

text \<open>
  The disk file system (\<open>src/src/fs/disk.rs\<close>): formatting, loading and flushing the free map
  (\<open>free_map.rs\<close>), closing an inode with its removal (\<open>Inode::close\<close> and \<open>Drop\<close>), and
  \<open>mount\<close>, \<open>unmount\<close>, \<open>create\<close>, \<open>open\<close>, \<open>remove\<close>; the swap file and \<open>Path\<close> at the end.

  In-memory inodes are shared (\<open>Arc<Inode>\<close>): they are objects with a number and a count of
  strong references, and the inode table holds weak references, which can be upgraded while the
  object is alive. The inode of the root directory is the object 0. \<open>fs_root_locked\<close> says that
  the mutex of the root directory is held by the running thread; locking it again never returns,
  which is \<open>None\<close>, like a panic. The other mutexes are never locked twice on the paths below.
  \<open>tr\<close> is the address translation of buffers and \<open>p\<close> the address of the temporary buffers.
\<close>

section \<open>The free map on disk\<close>

definition FREE_MAP_SECTOR :: inum where
  "FREE_MAP_SECTOR = 0"

definition ROOT_DIR_SECTOR :: inum where
  "ROOT_DIR_SECTOR = 1"

definition ROOT_DIR_SECTOR_LEN :: u32 where
  "ROOT_DIR_SECTOR_LEN = 8"

definition bitmap_len :: "u32 \<Rightarrow> usize" where
  "bitmap_len sz = (ucast sz + 7) div 8"

definition fm_new_format :: "disk \<Rightarrow> u32 \<Rightarrow> (free_map result \<times> disk) option" where
  "fm_new_format d sz = do {
     let len = bitmap_len sz;
     let fm = \<lparr>size = sz, bits = replicate (unat len) 0\<rparr>;
     fm \<leftarrow> fm_set fm FREE_MAP_SECTOR;
     fm \<leftarrow> fm_set fm ROOT_DIR_SECTOR;
     (r, fm) \<leftarrow> fm_alloc fm (bytes_to_sectors len);
     (case r of
        Err e \<Rightarrow> Some (Err e, d)
      | Ok start \<Rightarrow> do {
          (c, d) \<leftarrow> inode_create d FREE_MAP_SECTOR start len;
          (case c of Err e \<Rightarrow> Some (Err e, d) | Ok _ \<Rightarrow> Some (Ok fm, d))
        })
   }"

definition fm_load :: "(usize \<Rightarrow> usize \<Rightarrow> usize option) \<Rightarrow> usize \<Rightarrow> disk \<Rightarrow> u32 \<Rightarrow> free_map result option" where
  "fm_load tr p d sz = do {
     r \<leftarrow> inode_open d FREE_MAP_SECTOR;
     (case r of
        Err e \<Rightarrow> Some (Err e)
      | Ok i \<Rightarrow> do {
          let s = \<lparr>vdisk = d, vmap = \<lparr>size = sz, bits = []\<rparr>, ino = i\<rparr>;
          let len = inode_len s;
          rust_assert (len = bitmap_len sz);
          (n, bs) \<leftarrow> inode_read_at tr s p (replicate (unat len) 0) 0;
          Some (case n of Err e \<Rightarrow> Err e | Ok _ \<Rightarrow> Ok \<lparr>size = sz, bits = bs\<rparr>)
        })
   }"

definition fm_flush :: "(usize \<Rightarrow> usize \<Rightarrow> usize option) \<Rightarrow> usize \<Rightarrow> disk \<Rightarrow> free_map \<Rightarrow> (unit result \<times> disk) option" where
  "fm_flush tr p d fm = do {
     r \<leftarrow> inode_open d FREE_MAP_SECTOR;
     (case r of
        Err e \<Rightarrow> Some (Err e, d)
      | Ok i \<Rightarrow> do {
          (n, s) \<leftarrow> inode_write_at tr \<lparr>vdisk = d, vmap = fm, ino = i\<rparr> p (bits fm) 0;
          Some (map_sum id (\<lambda>_. ()) n, vdisk s)
        })
   }"

section \<open>The file system\<close>

record disk_fs =
  fs_disk :: disk
  fs_map :: free_map
  fs_objs :: "nat \<rightharpoonup> inode"
  fs_refs :: "nat \<Rightarrow> nat"
  fs_next :: nat
  fs_table :: "inum \<rightharpoonup> nat"
  fs_root_file :: File
  fs_root_locked :: bool

definition obj_state :: "disk_fs \<Rightarrow> nat \<Rightarrow> vn_state option" where
  "obj_state fs n = map_option (\<lambda>i. \<lparr>vdisk = fs_disk fs, vmap = fs_map fs, ino = i\<rparr>) (fs_objs fs n)"

definition put_state :: "disk_fs \<Rightarrow> nat \<Rightarrow> vn_state \<Rightarrow> disk_fs" where
  "put_state fs n s = fs\<lparr>fs_disk := vdisk s, fs_map := vmap s, fs_objs := (fs_objs fs)(n \<mapsto> ino s)\<rparr>"

text \<open>\<open>Arc::new\<close>, \<open>Weak::upgrade\<close> of an entry of the table, and an entry for an object.\<close>

definition new_obj :: "disk_fs \<Rightarrow> inode \<Rightarrow> nat \<times> disk_fs" where
  "new_obj fs i = (let n = fs_next fs in
     (n, fs\<lparr>fs_objs := (fs_objs fs)(n \<mapsto> i), fs_refs := (fs_refs fs)(n := 1), fs_next := n + 1\<rparr>))"

definition table_insert :: "disk_fs \<Rightarrow> inum \<Rightarrow> nat \<Rightarrow> disk_fs" where
  "table_insert fs i n = fs\<lparr>fs_table := (fs_table fs)(i \<mapsto> n)\<rparr>"

definition upgrade :: "disk_fs \<Rightarrow> inum \<Rightarrow> (nat \<times> disk_fs) option" where
  "upgrade fs i = (case fs_table fs i of
     None \<Rightarrow> None
   | Some n \<Rightarrow> if fs_objs fs n = None then None
       else Some (n, fs\<lparr>fs_refs := (fs_refs fs)(n := fs_refs fs n + 1)\<rparr>))"

definition dir_ops :: "(usize \<Rightarrow> usize \<Rightarrow> usize option) \<Rightarrow> vn_state vnode_ops" where
  "dir_ops tr = inode_ops tr close_shrink"

text \<open>The operations of the root directory through its mutex.\<close>

definition root_path2inum :: "(usize \<Rightarrow> usize \<Rightarrow> usize option) \<Rightarrow> usize \<Rightarrow> disk_fs \<Rightarrow> path \<Rightarrow> (inum result \<times> disk_fs) option" where
  "root_path2inum tr p fs path = do {
     rust_assert (\<not> fs_root_locked fs);
     s \<leftarrow> obj_state fs 0;
     (r, f) \<leftarrow> path2inum (dir_ops tr) s p path (fs_root_file fs);
     Some (r, fs\<lparr>fs_root_file := f\<rparr>)
   }"

definition root_insert :: "(usize \<Rightarrow> usize \<Rightarrow> usize option) \<Rightarrow> usize \<Rightarrow> disk_fs \<Rightarrow> path \<Rightarrow> inum \<Rightarrow> (unit result \<times> disk_fs) option" where
  "root_insert tr p fs path i = do {
     rust_assert (\<not> fs_root_locked fs);
     s \<leftarrow> obj_state fs 0;
     (r, s, f) \<leftarrow> dir_insert (dir_ops tr) s p path i (fs_root_file fs);
     Some (r, (put_state fs 0 s)\<lparr>fs_root_file := f\<rparr>)
   }"

text \<open>\<open>remove\<close> on a directory that is locked already (by the caller).\<close>

definition root_remove :: "(usize \<Rightarrow> usize \<Rightarrow> usize option) \<Rightarrow> usize \<Rightarrow> disk_fs \<Rightarrow> inum \<Rightarrow> (unit result \<times> disk_fs) option" where
  "root_remove tr p fs i = do {
     s \<leftarrow> obj_state fs 0;
     (r, s, f) \<leftarrow> dir_remove (dir_ops tr) p i s (fs_root_file fs);
     Some (r, (put_state fs 0 s)\<lparr>fs_root_file := f\<rparr>)
   }"

text \<open>\<open>Inode::close\<close>: the sectors of lazy shrinking, then the removal of a removed file.\<close>

definition inode_close :: "(usize \<Rightarrow> usize \<Rightarrow> usize option) \<Rightarrow> usize \<Rightarrow> disk_fs \<Rightarrow> inode \<Rightarrow> disk_fs option" where
  "inode_close tr p fs i = do {
     s \<leftarrow> close_shrink \<lparr>vdisk = fs_disk fs, vmap = fs_map fs, ino = i\<rparr>;
     let fs = fs\<lparr>fs_map := vmap s\<rparr>;
     (if id_removed (desc i) then do {
        rust_assert (\<not> fs_root_locked fs);
        (r, fs) \<leftarrow> root_remove tr p fs (id_sector (desc i));
        (case r of
           Err _ \<Rightarrow> None
         | Ok _ \<Rightarrow> do {
             fm \<leftarrow> fm_dealloc (fs_map fs) (di_start (data i)) (bytes_to_sectors (ucast (di_len (data i))));
             fm \<leftarrow> fm_dealloc fm (id_sector (desc i)) 1;
             Some (fs\<lparr>fs_map := fm\<rparr>)
           })
      } else Some fs)
   }"

text \<open>Dropping a strong reference; the last one closes the inode.\<close>

definition drop_ref :: "(usize \<Rightarrow> usize \<Rightarrow> usize option) \<Rightarrow> usize \<Rightarrow> disk_fs \<Rightarrow> nat \<Rightarrow> disk_fs option" where
  "drop_ref tr p fs n =
     (if fs_refs fs n = 1 then do {
        i \<leftarrow> fs_objs fs n;
        inode_close tr p (fs\<lparr>fs_refs := (fs_refs fs)(n := 0), fs_objs := (fs_objs fs)(n := None)\<rparr>) i
      } else Some (fs\<lparr>fs_refs := (fs_refs fs)(n := fs_refs fs n - 1)\<rparr>))"

definition mount :: "(usize \<Rightarrow> usize \<Rightarrow> usize option) \<Rightarrow> usize \<Rightarrow> disk \<Rightarrow> usize \<Rightarrow> disk_fs result option" where
  "mount tr p d capacity = do {
     let sz = ucast capacity;
     r \<leftarrow> fm_load tr p d sz;
     (r, d) \<leftarrow> (case r of Ok fm \<Rightarrow> Some (Ok fm, d) | Err _ \<Rightarrow> fm_new_format d sz);
     (case r of
        Err e \<Rightarrow> Some (Err e)
      | Ok fm \<Rightarrow> do {
          i \<leftarrow> inode_open d ROOT_DIR_SECTOR;
          (r, fm, d) \<leftarrow> (case i of
             Ok i \<Rightarrow> Some (Ok i, fm, d)
           | Err _ \<Rightarrow> do {
               (a, fm) \<leftarrow> fm_alloc fm ROOT_DIR_SECTOR_LEN;
               (case a of
                  Err e \<Rightarrow> Some (Err e, fm, d)
                | Ok start \<Rightarrow> do {
                    (c, d) \<leftarrow> inode_create d ROOT_DIR_SECTOR start (ucast ROOT_DIR_SECTOR_LEN * of_nat SECTOR_SIZE);
                    Some (c, fm, d)
                  })
             });
          Some (case r of
             Err e \<Rightarrow> Err e
           | Ok i \<Rightarrow> Ok \<lparr>fs_disk = d, fs_map = fm, fs_objs = [0 \<mapsto> i], fs_refs = (\<lambda>_. 0)(0 := 1), fs_next = 1,
                 fs_table = [ROOT_DIR_SECTOR \<mapsto> 0], fs_root_file = file_new, fs_root_locked = False\<rparr>)
        })
   }"

definition unmount :: "(usize \<Rightarrow> usize \<Rightarrow> usize option) \<Rightarrow> usize \<Rightarrow> disk_fs \<Rightarrow> disk_fs option" where
  "unmount tr p fs = do {
     (_, d) \<leftarrow> fm_flush tr p (fs_disk fs) (fs_map fs);
     Some (fs\<lparr>fs_disk := d\<rparr>)
   }"

text \<open>The inode for a number: the live object of the table, or a new one read from the disk.\<close>

definition get_or_open :: "disk_fs \<Rightarrow> inum \<Rightarrow> (nat result \<times> disk_fs) option" where
  "get_or_open fs i = (case upgrade fs i of
     Some (n, fs) \<Rightarrow> Some (Ok n, fs)
   | None \<Rightarrow> do {
       r \<leftarrow> inode_open (fs_disk fs) i;
       (case r of
          Err e \<Rightarrow> Some (Err e, fs)
        | Ok i \<Rightarrow> (let (n, fs) = new_obj fs i in Some (Ok n, fs)))
     })"

definition create_existing :: "(usize \<Rightarrow> usize \<Rightarrow> usize option) \<Rightarrow> usize \<Rightarrow> disk_fs \<Rightarrow> path \<Rightarrow> (nat result \<times> disk_fs) option" where
  "create_existing tr p fs path = do {
     (r, fs) \<leftarrow> root_path2inum tr p fs path;
     (case r of
        Err _ \<Rightarrow> None
      | Ok i \<Rightarrow> do {
          (v, fs) \<leftarrow> get_or_open fs i;
          (case v of
             Err e \<Rightarrow> Some (Err e, fs)
           | Ok n \<Rightarrow> do {
               s \<leftarrow> obj_state fs n;
               (z, s) \<leftarrow> resize_inner s 0;
               let fs = put_state fs n s;
               (case z of
                  Err e \<Rightarrow> do { fs \<leftarrow> drop_ref tr p fs n; Some (Err e, fs) }
                | Ok _ \<Rightarrow> Some (Ok n, fs))
             })
        })
   }"

definition create_new :: "(usize \<Rightarrow> usize \<Rightarrow> usize option) \<Rightarrow> usize \<Rightarrow> disk_fs \<Rightarrow> path \<Rightarrow> (nat result \<times> disk_fs) option" where
  "create_new tr p fs path = do {
     (a, fm) \<leftarrow> fm_alloc (fs_map fs) 1;
     let fs = fs\<lparr>fs_map := fm\<rparr>;
     (case a of
        Err e \<Rightarrow> Some (Err e, fs)
      | Ok sector \<Rightarrow> do {
          (b, fm) \<leftarrow> fm_alloc (fs_map fs) (bytes_to_sectors 0);
          let fs = fs\<lparr>fs_map := fm\<rparr>;
          (case b of
             Err e \<Rightarrow> Some (Err e, fs)
           | Ok start \<Rightarrow> do {
               (c, d) \<leftarrow> inode_create (fs_disk fs) sector start 0;
               let fs = fs\<lparr>fs_disk := d\<rparr>;
               (case c of
                  Err e \<Rightarrow> Some (Err e, fs)
                | Ok i \<Rightarrow> do {
                    let (n, fs) = new_obj fs i;
                    let fs = table_insert fs sector n;
                    (r, fs) \<leftarrow> root_insert tr p fs path sector;
                    (case r of
                       Err e \<Rightarrow> do { fs \<leftarrow> drop_ref tr p fs n; Some (Err e, fs) }
                     | Ok _ \<Rightarrow> Some (Ok n, fs))
                  })
             })
        })
   }"

definition fs_create :: "(usize \<Rightarrow> usize \<Rightarrow> usize option) \<Rightarrow> usize \<Rightarrow> disk_fs \<Rightarrow> path \<Rightarrow> ((nat \<times> File) result \<times> disk_fs) option" where
  "fs_create tr p fs path = do {
     (e, fs) \<leftarrow> root_path2inum tr p fs path;
     (v, fs) \<leftarrow> (case e of Ok _ \<Rightarrow> create_existing tr p fs path | Err _ \<Rightarrow> create_new tr p fs path);
     Some (map_sum id (\<lambda>n. (n, file_new)) v, fs)
   }"

definition fs_open :: "(usize \<Rightarrow> usize \<Rightarrow> usize option) \<Rightarrow> usize \<Rightarrow> disk_fs \<Rightarrow> path \<Rightarrow> ((nat \<times> File) result \<times> disk_fs) option" where
  "fs_open tr p fs path = do {
     (e, fs) \<leftarrow> root_path2inum tr p fs path;
     (case e of
        Err _ \<Rightarrow> Some (Err NoSuchFile, fs)
      | Ok _ \<Rightarrow> do {
          (r, fs) \<leftarrow> root_path2inum tr p fs path;
          (case r of
             Err _ \<Rightarrow> None
           | Ok i \<Rightarrow>
               (case upgrade fs i of
                  Some (n, fs) \<Rightarrow> Some (Ok (n, file_new), fs)
                | None \<Rightarrow> do {
                    o1 \<leftarrow> inode_open (fs_disk fs) i;
                    (case o1 of
                       Err e \<Rightarrow> Some (Err e, fs)
                     | Ok v \<Rightarrow> (let (n, fs) = new_obj fs v in Some (Ok (n, file_new), table_insert fs i n)))
                  }))
        })
   }"

text \<open>
  \<open>remove\<close>: the guard of the root directory lives until the end of the function, past the drop
  of an inode that was opened only to be removed.
\<close>

definition fs_remove :: "(usize \<Rightarrow> usize \<Rightarrow> usize option) \<Rightarrow> usize \<Rightarrow> disk_fs \<Rightarrow> path \<Rightarrow> (unit result \<times> disk_fs) option" where
  "fs_remove tr p fs path = do {
     (r, fs) \<leftarrow> root_path2inum tr p fs path;
     (case r of
        Err e \<Rightarrow> Some (Err e, fs)
      | Ok i \<Rightarrow> do {
          let fs = fs\<lparr>fs_root_locked := True\<rparr>;
          (q, fs) \<leftarrow> root_remove tr p fs i;
          (case q of
             Err e \<Rightarrow> Some (Err e, fs\<lparr>fs_root_locked := False\<rparr>)
           | Ok _ \<Rightarrow>
               (case upgrade fs i of
                  Some (n, fs) \<Rightarrow> do {
                    v \<leftarrow> fs_objs fs n;
                    fs \<leftarrow> drop_ref tr p (fs\<lparr>fs_objs := (fs_objs fs)(n \<mapsto> inode_remove v)\<rparr>) n;
                    Some (Ok (), fs\<lparr>fs_root_locked := False\<rparr>)
                  }
                | None \<Rightarrow> do {
                    o1 \<leftarrow> inode_open (fs_disk fs) i;
                    (case o1 of
                       Err e \<Rightarrow> Some (Err e, fs\<lparr>fs_root_locked := False\<rparr>)
                     | Ok v \<Rightarrow> do {
                         fs \<leftarrow> inode_close tr p fs (inode_remove v);
                         Some (Ok (), fs\<lparr>fs_root_locked := False\<rparr>)
                       })
                  }))
        })
   }"

section \<open>The swap file and paths\<close>

definition path_exists :: "(usize \<Rightarrow> usize \<Rightarrow> usize option) \<Rightarrow> usize \<Rightarrow> disk_fs \<Rightarrow> path \<Rightarrow> (bool \<times> disk_fs) option" where
  "path_exists tr p fs path = do {
     (r, fs) \<leftarrow> root_path2inum tr p fs path;
     Some (case r of Err _ \<Rightarrow> False | Ok _ \<Rightarrow> True, fs)
   }"

definition SWAP_NAME :: path where
  "SWAP_NAME = [46, 103, 108, 98, 115, 119, 97, 112]"

definition swap_open :: "(usize \<Rightarrow> usize \<Rightarrow> usize option) \<Rightarrow> usize \<Rightarrow> disk_fs \<Rightarrow> (nat \<times> disk_fs) option" where
  "swap_open tr p fs = do {
     (r, fs) \<leftarrow> fs_open tr p fs SWAP_NAME;
     (case r of Err _ \<Rightarrow> None | Ok (n, _) \<Rightarrow> Some (n, fs))
   }"

definition swap_len :: "disk_fs \<Rightarrow> nat \<Rightarrow> usize option" where
  "swap_len fs n = do { s \<leftarrow> obj_state fs n; Some (inode_len s) }"

definition swap_page_num :: "disk_fs \<Rightarrow> nat \<Rightarrow> usize option" where
  "swap_page_num fs n = do { len \<leftarrow> swap_len fs n; Some (len div PG_SIZE) }"

section \<open>Flushing and loading the free map\<close>

lemma unat_bitmap_len: "unat (bitmap_len sz) = (unat sz + 7) div 8"
proof -
  have "unat (ucast sz + 7 :: usize) = unat sz + 7"
    using unat_u32_less [of sz] by (subst unat_add_no_wrap) simp_all
  then show ?thesis by (simp add: bitmap_len_def unat_div)
qed

lemma inode_read_at_map: "inode_read_at tr (s\<lparr>vmap := m\<rparr>) p buf off = inode_read_at tr s p buf off"
  by (simp add: inode_read_at_def)

lemma fm_load_reads:
  assumes "inode_ok s" "id_sector (desc (ino s)) = FREE_MAP_SECTOR" "f_len s = (unat sz + 7) div 8"
    "tr_ok tr p (f_len s)"
  shows "fm_load tr p (vdisk s) sz = Some (Ok \<lparr>size = sz, bits = contents s\<rparr>)"
proof -
  obtain i where i: "inode_open (vdisk s) FREE_MAP_SECTOR = Some (Ok i)" "data i = data (ino s)"
    "inode_ok (s\<lparr>ino := i\<rparr>)" "contents (s\<lparr>ino := i\<rparr>) = contents s"
    using inode_open_again [OF assms(1)] assms(2) by auto
  let ?s = "\<lparr>vdisk = vdisk s, vmap = \<lparr>size = sz, bits = []\<rparr>, ino = i\<rparr>"
  have "inode_len ?s = bitmap_len sz"
    using i(2) assms(3) by (intro word_eq_unatI) (simp add: inode_len_def unat_bitmap_len)
  moreover have "inode_read_at tr ?s p (replicate (f_len s) 0) 0 = Some (Ok (of_nat (f_len s)), contents s)"
  proof -
    have "?s = (s\<lparr>ino := i\<rparr>)\<lparr>vmap := \<lparr>size = sz, bits = []\<rparr>\<rparr>" by simp
    then have "inode_read_at tr ?s p (replicate (f_len s) 0) 0 = inode_read_at tr (s\<lparr>ino := i\<rparr>) p (replicate (f_len s) 0) 0"
      by (simp only: inode_read_at_map)
    also have "\<dots> = Some (Ok (of_nat (f_len s)), take (f_len s) (contents (s\<lparr>ino := i\<rparr>)))"
      using inode_read_at_eq [OF i(3), of tr p "replicate (f_len s) 0" "f_len s" 0] assms(4) i(2) by simp
    finally show ?thesis unfolding i(4) by simp
  qed
  moreover have "unat (inode_len ?s) = f_len s" using i(2) by (simp add: inode_len_def)
  ultimately show ?thesis using i(1) by (simp add: fm_load_def Let_def)
qed

section \<open>Frames\<close>

text \<open>An inode keeps its invariant and its bytes when others write their own sectors.\<close>

lemma inode_ok_frame:
  assumes "inode_ok s" "ino s' = ino s" "disk_wf (vdisk s')" "length (vdisk s') = length (vdisk s)"
    "\<forall>j\<in>own s. vdisk s' ! j = vdisk s ! j" "fm_wf (vmap s')" "size (vmap s') = size (vmap s)"
    "\<forall>j\<in>own s. fm_bit (vmap s') j"
  shows "inode_ok s'" "contents s' = contents s" "own s' = own s"
proof -
  show o: "own s' = own s" using assms(2) by (simp add: own_def run_def)
  have r: "run s' = run s" using assms(2) by (simp add: run_def)
  have "f_sector s \<in> own s" by (simp add: own_def)
  then have "vdisk s' ! f_sector s = vdisk s ! f_sector s" using assms(5) by blast
  then show "inode_ok s'" using assms unfolding inode_ok_def o r by simp
  have "fbyte s' i = fbyte s i" if "i < f_len s" for i
  proof -
    have "i < f_len s + f_shrink s" using that by simp
    from byte_in_sectors [OF this] have "f_start s + i div 512 \<in> own s" by (simp add: own_def run_def)
    then show ?thesis using assms(2,5) by (simp add: fbyte_def dbyte_def)
  qed
  then show "contents s' = contents s" using assms(2) by (simp add: contents_def)
qed

section \<open>The invariant of the file system\<close>

definition root_state :: "disk_fs \<Rightarrow> vn_state" where
  "root_state fs = \<lparr>vdisk = fs_disk fs, vmap = fs_map fs, ino = the (fs_objs fs 0)\<rparr>"

definition fs_ok :: "disk_fs \<Rightarrow> bool" where
  "fs_ok fs \<longleftrightarrow> fs_objs fs 0 \<noteq> None \<and> inode_ok (root_state fs) \<and>
     id_deny_write (desc (ino (root_state fs))) = 0 \<and> dir_ok (contents (root_state fs)) \<and>
     \<not> fs_root_locked fs \<and> (\<forall>n. fs_objs fs n \<noteq> None \<longrightarrow> n < fs_next fs) \<and>
     (\<forall>i n. fs_table fs i = Some n \<longrightarrow> n < fs_next fs)"

abbreviation directory :: "disk_fs \<Rightarrow> path \<rightharpoonup> inum" where
  "directory fs \<equiv> dir_map (contents (root_state fs))"

lemma obj_state_root: "fs_objs fs 0 \<noteq> None \<Longrightarrow> obj_state fs 0 = Some (root_state fs)"
  by (auto simp: obj_state_def root_state_def)

lemma root_state_simps [simp]:
  "root_state (fs\<lparr>fs_root_file := f\<rparr>) = root_state fs" "root_state (fs\<lparr>fs_root_locked := b\<rparr>) = root_state fs"
  "root_state (put_state fs 0 s) = s"
  by (simp_all add: root_state_def put_state_def)

lemma fs_ok_file [simp]: "fs_ok (fs\<lparr>fs_root_file := f\<rparr>) = fs_ok fs"
  by (simp add: fs_ok_def)

text \<open>The address of the temporary buffers: anything in the kernel's address space.\<close>

lemma kernel_buf_nonzero: "kernel_buf p n \<Longrightarrow> p \<noteq> 0"
  by (auto simp: kernel_buf_def in_kernel_space_iff)

lemma root_path2inum_correct:
  assumes "fs_ok fs" "kernel_buf p 32"
  shows "\<exists>f. root_path2inum (translate pte) p fs path =
    Some (case directory fs path of None \<Rightarrow> Err NoSuchFile | Some i \<Rightarrow> Ok i, fs\<lparr>fs_root_file := f\<rparr>)"
proof -
  have ok: "inode_ok (root_state fs)" "dir_ok (contents (root_state fs))" "fs_objs fs 0 \<noteq> None" "\<not> fs_root_locked fs"
    using assms(1) by (simp_all add: fs_ok_def)
  from diskfile.path2inum_correct [OF ok(1) assms(2) kernel_buf_nonzero [OF assms(2)] ok(2), of pte close_shrink path "fs_root_file fs"]
  show ?thesis using ok(4) obj_state_root [OF ok(3)] by (auto simp: root_path2inum_def dir_ops_def)
qed

text \<open>
  The contract of the disk inode again, with an invariant that also records what the operations
  leave alone since the state \<open>s0\<close>.
\<close>

interpretation framed: vnode "inode_ops (translate pte) close"
  "\<lambda>s. inode_ok s \<and> others_kept s0 s \<and> desc_kept s0 s" contents
  "\<lambda>s. id_deny_write (desc (ino s)) = 0" kernel_buf for pte close s0
proof
  show "kernel_buf p n \<Longrightarrow> n < 2 ^ 63" for p n by (rule diskfile.buf_small)
  show "kernel_buf p n \<Longrightarrow> k \<le> n \<Longrightarrow> kernel_buf (p + of_nat k) (n - k)" for p n k by (rule diskfile.buf_suffix)
  show "unat (vn_len (inode_ops (translate pte) close) s) = length (contents s) \<and> length (contents s) < 2 ^ 63"
    if "inode_ok s \<and> others_kept s0 s \<and> desc_kept s0 s" for s using that diskfile.len_law by blast
  show "vn_read_at (inode_ops (translate pte) close) s p buf off =
      Some (Ok (of_nat n), take n (drop (unat off) (contents s)) @ drop n buf)"
    if "inode_ok s \<and> others_kept s0 s \<and> desc_kept s0 s" "kernel_buf p (length buf)" "unat off < length (contents s)"
      "n = min (length buf) (length (contents s) - unat off)"
    for s p buf off n using that diskfile.read_law by blast
  show "vn_read_at (inode_ops (translate pte) close) s p buf off = Some (Ok 0, buf) \<or>
      vn_read_at (inode_ops (translate pte) close) s p buf off = Some (Err UnexpectedEOF, buf)"
    if "inode_ok s \<and> others_kept s0 s \<and> desc_kept s0 s" "kernel_buf p (length buf)" "length (contents s) \<le> unat off"
    for s p buf off using that diskfile.read_end by blast
  show "\<exists>s'. vn_write_at (inode_ops (translate pte) close) s p buf off = Some (Ok (of_nat (length buf)), s') \<and>
      (inode_ok s' \<and> others_kept s0 s' \<and> desc_kept s0 s') \<and> id_deny_write (desc (ino s')) = 0 \<and>
      contents s' = splice (contents s) (unat off) buf"
    if a: "inode_ok s \<and> others_kept s0 s \<and> desc_kept s0 s" "id_deny_write (desc (ino s)) = 0" "kernel_buf p (length buf)"
      "buf \<noteq> []" "unat off + length buf \<le> length (contents s)" for s p buf off
  proof -
    have "unat off + length buf < 2 ^ 32" "grows_on_disk s (unat off + length buf)"
      using a(5) unat_u32_less [of "di_len (data (ino s))"] by (auto simp: grows_on_disk_def)
    from inode_write_at_spec [OF conjunct1 [OF a(1)] a(2) kernel_buf_tr_ok [OF a(3)] this, of pte] a(5)
    obtain s' where "inode_write_at (translate pte) s p buf off = Some (Ok (of_nat (length buf)), s')"
      "inode_ok s'" "others_kept s s'" "desc_kept s s'" "written s s' (unat off) buf" by auto
    then show ?thesis
      using a others_kept_trans [of s0 s s'] desc_kept_trans [of s0 s s'] written_contents [of s s' "unat off" buf]
      by (simp add: inode_ops_def desc_kept_def)
  qed
qed

lemma root_remove_correct:
  assumes "fs_objs fs 0 \<noteq> None" "inode_ok (root_state fs)" "id_deny_write (desc (ino (root_state fs))) = 0"
    "kernel_buf p 32"
  shows "\<exists>s f. root_remove (translate pte) p fs i = Some (Ok (), (put_state fs 0 s)\<lparr>fs_root_file := f\<rparr>) \<and>
    inode_ok s \<and> others_kept (root_state fs) s \<and>
    entries (contents s) = map (removed_entry i) (entries (contents (root_state fs)))"
proof -
  have "inode_ok (root_state fs) \<and> others_kept (root_state fs) (root_state fs) \<and> desc_kept (root_state fs) (root_state fs)"
    using assms(2) by (simp add: desc_kept_def)
  from framed.dir_remove_entries [OF this assms(3,4) kernel_buf_nonzero [OF assms(4)], of pte close_shrink i "fs_root_file fs"]
  obtain s f where r: "dir_remove (dir_ops (translate pte)) p i (root_state fs) (fs_root_file fs) = Some (Ok (), s, f)"
    "inode_ok s" "others_kept (root_state fs) s"
    "entries (contents s) = map (removed_entry i) (entries (contents (root_state fs)))"
    unfolding dir_ops_def by blast
  then show ?thesis using obj_state_root [OF assms(1)]
    by (intro exI [of _ s] exI [of _ f]) (simp add: root_remove_def)
qed

lemma root_insert_correct:
  assumes "fs_ok fs" "kernel_buf p 32" "name_ok path" "directory fs path = None"
    "\<not> (\<forall>e\<in>set (entries (contents (root_state fs))). entry_is_valid e)"
  shows "\<exists>s f. root_insert (translate pte) p fs path i = Some (Ok (), (put_state fs 0 s)\<lparr>fs_root_file := f\<rparr>) \<and>
    fs_ok ((put_state fs 0 s)\<lparr>fs_root_file := f\<rparr>) \<and> others_kept (root_state fs) s \<and>
    dir_map (contents s) = (directory fs)(path \<mapsto> i)"
proof -
  have ok: "inode_ok (root_state fs)" "dir_ok (contents (root_state fs))" "fs_objs fs 0 \<noteq> None" "\<not> fs_root_locked fs"
    "id_deny_write (desc (ino (root_state fs))) = 0" "\<forall>n. fs_objs fs n \<noteq> None \<longrightarrow> n < fs_next fs"
    "\<forall>i n. fs_table fs i = Some n \<longrightarrow> n < fs_next fs"
    using assms(1) by (auto simp: fs_ok_def)
  have nm: "is_ascii path" "length path \<le> 27" using assms(3) by (simp_all add: name_ok_def)
  have "inode_ok (root_state fs) \<and> others_kept (root_state fs) (root_state fs) \<and> desc_kept (root_state fs) (root_state fs)"
    using ok(1) by (simp add: desc_kept_def)
  from framed.dir_insert_entries [OF this ok(5) assms(2) kernel_buf_nonzero [OF assms(2)] nm, of pte close_shrink i "fs_root_file fs",
      unfolded if_not_P [OF assms(5)]]
  obtain s f j where s: "dir_insert (dir_ops (translate pte)) (root_state fs) p path i (fs_root_file fs) = Some (Ok (), s, f)"
    "inode_ok s" "id_deny_write (desc (ino s)) = 0" "j < length (entries (contents (root_state fs)))"
    "\<not> entry_is_valid (entries (contents (root_state fs)) ! j)"
    "entries (contents s) = (entries (contents (root_state fs)))[j := \<lparr>de_name = path @ replicate (28 - length path) 0, de_inum = i\<rparr>]"
    "others_kept (root_state fs) s"
    unfolding dir_ops_def by blast
  note m = dir_map_insert [OF ok(2) assms(3,4) s(4,5,6)]
  have "0 < fs_next fs" using ok(3,6) by blast
  then have "fs_ok ((put_state fs 0 s)\<lparr>fs_root_file := f\<rparr>)"
    using s(2,3) m(1) ok(4,6,7) by (simp add: fs_ok_def) (auto simp: put_state_def)
  moreover have "root_insert (translate pte) p fs path i = Some (Ok (), (put_state fs 0 s)\<lparr>fs_root_file := f\<rparr>)"
    using s(1) ok(4) obj_state_root [OF ok(3)] by (simp add: root_insert_def)
  ultimately show ?thesis using m(2) s(7) by blast
qed

lemma create_new_correct:
  assumes "fs_ok fs" "kernel_buf p 32" "name_ok path" "directory fs path = None"
    "\<not> (\<forall>e\<in>set (entries (contents (root_state fs))). entry_is_valid e)"
    "j + 1 < unat (size (fs_map fs))" "\<not> fm_bit (fs_map fs) j"
  shows "\<exists>n fs1 sector i. create_new (translate pte) p fs path = Some (Ok n, fs1) \<and> fs_ok fs1 \<and>
    \<not> fm_bit (fs_map fs) (unat sector) \<and> directory fs1 = (directory fs)(path \<mapsto> sector) \<and>
    fs_objs fs1 n = Some i \<and> di_len (data i) = 0 \<and> desc i = inode_desc_new sector 0 \<and>
    fs_table fs1 sector = Some n \<and> fs_refs fs1 n = 1 \<and> n \<noteq> 0 \<and>
    inode_ok \<lparr>vdisk = fs_disk fs1, vmap = fs_map fs1, ino = i\<rparr> \<and>
    own \<lparr>vdisk = fs_disk fs1, vmap = fs_map fs1, ino = i\<rparr> \<inter> own (root_state fs1) = {}"
proof -
  have ok: "inode_ok (root_state fs)" "fs_objs fs 0 \<noteq> None" "\<forall>n. fs_objs fs n \<noteq> None \<longrightarrow> n < fs_next fs"
    using assms(1) by (simp_all add: fs_ok_def)
  let ?r = "root_state fs" and ?n = "fs_next fs"
  have wf: "disk_wf (fs_disk fs)" "fm_wf (fs_map fs)" "unat (size (fs_map fs)) \<le> length (fs_disk fs)"
    "\<forall>j\<in>own ?r. fm_bit (fs_map fs) j"
    using ok(1) by (simp_all add: inode_ok_def root_state_def)
  have n0: "?n \<noteq> 0" "fs_objs fs ?n = None" using ok(2,3) by auto
  from fm_alloc_spec [OF wf(2), of 1] obtain r fm where al: "fm_alloc (fs_map fs) 1 = Some (r, fm)" "fm_wf fm"
    "size fm = size (fs_map fs)" "case r of
       Ok i \<Rightarrow> unat i + unat (1 :: u32) < unat (size (fs_map fs)) \<and> free_run (fs_map fs) (unat i) (unat (1 :: u32)) \<and>
         (\<forall>j < unat i. \<not> free_run (fs_map fs) j (unat (1 :: u32))) \<and>
         (\<forall>j. fm_bit fm j \<longleftrightarrow> (unat i \<le> j \<and> j < unat i + unat (1 :: u32)) \<or> fm_bit (fs_map fs) j)
     | Err e \<Rightarrow> e = DiskSectorAllocFail \<and> fm = fs_map fs \<and>
         (\<forall>j. j + unat (1 :: u32) < unat (size (fs_map fs)) \<longrightarrow> \<not> free_run (fs_map fs) j (unat (1 :: u32)))"
    by auto
  have "free_run (fs_map fs) j 1" using assms(7) by (auto simp: free_run_def less_Suc_eq)
  then obtain sector where sec: "r = Ok sector" "unat sector < unat (size (fs_map fs))" "\<not> fm_bit (fs_map fs) (unat sector)"
    "\<forall>j. fm_bit fm j \<longleftrightarrow> j = unat sector \<or> fm_bit (fs_map fs) j"
  proof (cases r)
    case (Inl e)
    then show ?thesis using al(4) assms(6) \<open>free_run (fs_map fs) j 1\<close> by simp
  next
    case (Inr sec)
    have eq: "unat sec \<le> j \<and> j < Suc (unat sec) \<longleftrightarrow> j = unat sec" for j by auto
    show ?thesis using al(4) Inr by (intro that [of sec]) (simp_all add: eq free_run_def)
  qed
  have s0: "sectors 0 = 0" by (simp add: sectors_def)
  obtain d i where cr: "inode_create (fs_disk fs) sector 0 0 = Some (Ok i, d)"
    "i = \<lparr>desc = inode_desc_new sector 0, data = \<lparr>di_start = 0, di_len = 0, di_magic = INODE_MAGIC, di_padding = replicate 500 0\<rparr>\<rparr>"
    "disk_wf d" "length d = length (fs_disk fs)" "d ! unat sector = encode_inode (data i)" "\<forall>j. j \<noteq> unat sector \<longrightarrow> d ! j = fs_disk fs ! j"
    using inode_create_zeros [OF wf(1), of sector 0 0] sec(2) wf(3) by (auto simp: s0)
  define fso where "fso = snd (new_obj (fs\<lparr>fs_map := fm, fs_disk := d\<rparr>) i)"
  define fs1 where "fs1 = table_insert fso sector ?n"
  have no: "new_obj (fs\<lparr>fs_map := fm, fs_disk := d\<rparr>) i = (?n, fso)"
    by (simp add: fso_def new_obj_def Let_def)
  have r1: "root_state fs1 = \<lparr>vdisk = d, vmap = fm, ino = ino ?r\<rparr>"
    using n0(1) by (simp add: fs1_def fso_def root_state_def table_insert_def new_obj_def Let_def)
  have "unat sector \<notin> own ?r" using wf(4) sec(3) by blast
  then have "\<forall>j\<in>own ?r. d ! j = fs_disk fs ! j" using cr(6) by metis
  then have fr: "inode_ok (root_state fs1)" "contents (root_state fs1) = contents ?r"
    using inode_ok_frame [OF ok(1), of "root_state fs1"] cr(3,4) al(2,3) sec(4) wf(4) unfolding r1
    by (simp_all add: root_state_def)
  have ok1: "fs_ok fs1" unfolding fs_ok_def fr(2)
    using fr(1) assms(1) n0(1) unfolding r1
    by (auto simp: fs_ok_def fs1_def fso_def table_insert_def new_obj_def Let_def root_state_def intro: less_SucI)
  from root_insert_correct [OF ok1 assms(2,3), of pte sector] assms(4,5) obtain s f where
    ri: "root_insert (translate pte) p fs1 path sector = Some (Ok (), (put_state fs1 0 s)\<lparr>fs_root_file := f\<rparr>)"
    "fs_ok ((put_state fs1 0 s)\<lparr>fs_root_file := f\<rparr>)" "dir_map (contents s) = (directory fs)(path \<mapsto> sector)"
    "others_kept (root_state fs1) s"
    unfolding fr(2) by blast
  let ?f1 = "(put_state fs1 0 s)\<lparr>fs_root_file := f\<rparr>"
  have b0: "fm_alloc fm (bytes_to_sectors 0) = Some (Ok 0, fm)" by (simp add: bytes_to_sectors_def SECTOR_SIZE_def fm_alloc_def)
  have "create_new (translate pte) p fs path = Some (Ok ?n, ?f1)"
    using al(1) sec(1) b0 cr(1) ri(1) no unfolding fs1_def
    by (simp add: create_new_def Let_def)
  moreover have "fs_objs ?f1 ?n = Some i" "fs_table ?f1 sector = Some ?n" "fs_refs ?f1 ?n = 1"
    using n0(1) by (simp_all add: fs1_def fso_def put_state_def table_insert_def new_obj_def Let_def)
  moreover have "di_len (data i) = 0" "desc i = inode_desc_new sector 0" by (simp_all add: cr(2))
  moreover have "inode_ok \<lparr>vdisk = fs_disk ?f1, vmap = fs_map ?f1, ino = i\<rparr>"
    "own \<lparr>vdisk = fs_disk ?f1, vmap = fs_map ?f1, ino = i\<rparr> \<inter> own (root_state ?f1) = {}"
  proof -
    let ?t = "\<lparr>vdisk = d, vmap = fm, ino = i\<rparr>"
    have own: "own ?t = {unat sector}" by (auto simp: own_def run_def cr(2) inode_desc_new_def s0)
    have it: "inode_ok ?t"
      using cr(3-5) al(2,3) sec(2,4) wf(3) unfolding inode_ok_def own by (simp add: cr(2) inode_desc_new_def run_def s0)
    have "own (root_state fs1) = own ?r" unfolding r1 by (simp add: own_def run_def)
    then have k: "fm_bit (vmap s) (unat sector)" "unat sector \<notin> own s" "vdisk s ! unat sector = d ! unat sector"
      using ri(4) sec(4) \<open>unat sector \<notin> own ?r\<close> unfolding others_kept_def r1 by auto
    have sok: "inode_ok s" using ri(2) by (simp add: fs_ok_def)
    have f1: "\<lparr>vdisk = fs_disk ?f1, vmap = fs_map ?f1, ino = i\<rparr> = \<lparr>vdisk = vdisk s, vmap = vmap s, ino = i\<rparr>"
      by (simp add: put_state_def)
    have kept: "length (vdisk s) = length d" "size (vmap s) = size fm" using ri(4) unfolding others_kept_def r1 by simp_all
    show "inode_ok \<lparr>vdisk = fs_disk ?f1, vmap = fs_map ?f1, ino = i\<rparr>" unfolding f1
      by (rule inode_ok_frame(1) [OF it]) (use sok k kept own in \<open>simp_all add: inode_ok_def\<close>)
    show "own \<lparr>vdisk = fs_disk ?f1, vmap = fs_map ?f1, ino = i\<rparr> \<inter> own (root_state ?f1) = {}"
    proof -
      have "own \<lparr>vdisk = vdisk s, vmap = vmap s, ino = i\<rparr> = {unat sector}"
        by (auto simp: own_def run_def cr(2) inode_desc_new_def s0)
      then show ?thesis unfolding f1 using k(2) by simp
    qed
  qed
  moreover have "directory ?f1 = (directory fs)(path \<mapsto> sector)" using ri(3) by simp
  ultimately show ?thesis using ri(2) sec(3) n0(1)
    by (intro exI [of _ ?n] exI [of _ ?f1] exI [of _ sector] exI [of _ i]) (simp only: simp_thms)
qed

section \<open>The properties\<close>

text \<open>
  The free map survives unmounting and mounting: \<open>flush\<close> writes it to its file, and
  \<open>load\<close> on the resulting disk returns the same map.
\<close>

lemma fm_flush_load:
  assumes "inode_ok \<lparr>vdisk = d, vmap = fm, ino = i\<rparr>" "id_sector (desc i) = FREE_MAP_SECTOR"
    "unat (di_len (data i)) = length (bits fm)" "kernel_buf p (length (bits fm))" "0 < size fm"
  shows "\<exists>d'. fm_flush (translate pte) p d fm = Some (Ok (), d') \<and>
    fm_load (translate pte) p d' (size fm) = Some (Ok fm)"
proof -
  let ?s = "\<lparr>vdisk = d, vmap = fm, ino = i\<rparr>" and ?n = "length (bits fm)"
  obtain i' where i': "inode_open d FREE_MAP_SECTOR = Some (Ok i')" "data i' = data i"
    "desc i' = inode_desc_new FREE_MAP_SECTOR 0" "inode_ok (?s\<lparr>ino := i'\<rparr>)"
    using inode_open_again [OF assms(1)] assms(2) by auto
  have wf: "?n = (unat (size fm) + 7) div 8" using assms(1) by (simp add: inode_ok_def fm_wf_def)
  have tr: "tr_ok (translate pte) p ?n" by (rule kernel_buf_tr_ok [OF assms(4)])
  let ?t = "?s\<lparr>ino := i'\<rparr>"
  have len: "f_len ?t = ?n" using i'(2) assms(3) by simp
  have "unat (0 :: usize) + ?n < 2 ^ 32" "grows_on_disk ?t (unat (0 :: usize) + ?n)"
    using unat_u32_less [of "di_len (data i')"] len by (auto simp: grows_on_disk_def)
  moreover have "id_deny_write (desc (ino ?t)) = 0" using i'(3) by (simp add: inode_desc_new_def)
  ultimately obtain r s2 where w: "inode_write_at (translate pte) ?t p (bits fm) 0 = Some (r, s2)"
    "inode_ok s2" "desc_kept ?t s2" "r = Ok (of_nat ?n)" "written ?t s2 0 (bits fm)"
    using inode_write_at_spec [OF i'(4) _ tr, of 0] len by auto
  have l2: "f_len s2 = ?n" using w(5) len by (simp add: written_def)
  have c: "contents s2 = bits fm"
    using w(5) l2 by (intro nth_equalityI) (auto simp: written_def)
  have sec: "id_sector (desc (ino s2)) = FREE_MAP_SECTOR" using w(3) i'(3) by (simp add: desc_kept_def inode_desc_new_def)
  have "fm_load (translate pte) p (vdisk s2) (size fm) = Some (Ok \<lparr>size = size fm, bits = contents s2\<rparr>)"
    by (rule fm_load_reads [OF w(2) sec]) (use l2 wf tr in simp_all)
  then show ?thesis using i'(1) w(1,4) c by (simp add: fm_flush_def)
qed

text \<open>
  C6. Creating a file. For a fresh name that can be stored, when a sector below the last one is
  free and the directory has a free entry, \<open>create\<close> returns an empty file in a sector that was
  free, the directory gains exactly this name, the invariants of the file system and of the new
  inode hold, and \<open>open\<close> of the same name
  returns the very same in-memory inode.
\<close>

theorem fs_create_then_open:
  assumes "fs_ok fs" "kernel_buf p 32" "name_ok path" "directory fs path = None"
    "\<not> (\<forall>e\<in>set (entries (contents (root_state fs))). entry_is_valid e)"
    "j + 1 < unat (size (fs_map fs))" "\<not> fm_bit (fs_map fs) j"
  shows "\<exists>n fs1 sector fs2 i. fs_create (translate pte) p fs path = Some (Ok (n, file_new), fs1) \<and> fs_ok fs1 \<and>
    \<not> fm_bit (fs_map fs) (unat sector) \<and> directory fs1 = (directory fs)(path \<mapsto> sector) \<and>
    fs_objs fs1 n = Some i \<and> di_len (data i) = 0 \<and> id_sector (desc i) = sector \<and>
    inode_ok \<lparr>vdisk = fs_disk fs1, vmap = fs_map fs1, ino = i\<rparr> \<and>
    own \<lparr>vdisk = fs_disk fs1, vmap = fs_map fs1, ino = i\<rparr> \<inter> own (root_state fs1) = {} \<and>
    fs_open (translate pte) p fs1 path = Some (Ok (n, file_new), fs2) \<and> fs_refs fs2 n = 2"
proof -
  obtain g where g: "root_path2inum (translate pte) p fs path = Some (Err NoSuchFile, fs\<lparr>fs_root_file := g\<rparr>)"
    using root_path2inum_correct [OF assms(1,2), of pte path] assms(4) by auto
  let ?fs = "fs\<lparr>fs_root_file := g\<rparr>"
  from create_new_correct [of ?fs p path j pte] assms obtain n fs1 sector i where
    c: "create_new (translate pte) p ?fs path = Some (Ok n, fs1)" "fs_ok fs1" "\<not> fm_bit (fs_map fs) (unat sector)"
    "directory fs1 = (directory fs)(path \<mapsto> sector)" "fs_objs fs1 n = Some i" "di_len (data i) = 0"
    "id_sector (desc i) = sector" "fs_table fs1 sector = Some n" "fs_refs fs1 n = 1"
    "inode_ok \<lparr>vdisk = fs_disk fs1, vmap = fs_map fs1, ino = i\<rparr>"
    "own \<lparr>vdisk = fs_disk fs1, vmap = fs_map fs1, ino = i\<rparr> \<inter> own (root_state fs1) = {}"
    by (auto simp: inode_desc_new_def)
  have dp: "directory fs1 path = Some sector" using c(4) by simp
  obtain g1 where g1: "root_path2inum (translate pte) p fs1 path = Some (Ok sector, fs1\<lparr>fs_root_file := g1\<rparr>)"
    using root_path2inum_correct [OF c(2) assms(2), of pte path] dp by auto
  obtain g2 where g2: "root_path2inum (translate pte) p (fs1\<lparr>fs_root_file := g1\<rparr>) path =
      Some (Ok sector, fs1\<lparr>fs_root_file := g1, fs_root_file := g2\<rparr>)"
    using root_path2inum_correct [of "fs1\<lparr>fs_root_file := g1\<rparr>" p pte path] c(2) assms(2) dp by auto
  let ?f2 = "fs1\<lparr>fs_root_file := g2, fs_refs := (fs_refs fs1)(n := Suc 1)\<rparr>"
  have "fs_create (translate pte) p fs path = Some (Ok (n, file_new), fs1)"
    using g c(1) by (simp add: fs_create_def)
  moreover have "fs_open (translate pte) p fs1 path = Some (Ok (n, file_new), ?f2)"
    using g1 g2 c(5,8,9) by (simp add: fs_open_def upgrade_def)
  ultimately show ?thesis using c(2-7,10,11)
    by (intro exI [of _ n] exI [of _ fs1] exI [of _ sector] exI [of _ ?f2] exI [of _ i]) simp
qed

text \<open>
  C38. Removing a file that is not open. The function still holds the lock of the root directory
  when it drops the inode it opened, and the inode's \<open>close\<close> takes that lock again: the call
  never returns. This holds for every file in the directory whose inode is valid and not open.
\<close>

theorem fs_remove_unopened_deadlocks:
  assumes "fs_ok fs" "kernel_buf p 32" "directory fs path = Some i" "upgrade fs i = None"
    "fm_bit (fs_map fs) (unat i)" "unat i \<notin> own (root_state fs)" "inode_open (fs_disk fs) i = Some (Ok v)"
  shows "fs_remove (translate pte) p fs path = None"
proof -
  have ok: "inode_ok (root_state fs)" "fs_objs fs 0 \<noteq> None" "id_deny_write (desc (ino (root_state fs))) = 0"
    using assms(1) by (simp_all add: fs_ok_def)
  obtain g where g: "root_path2inum (translate pte) p fs path = Some (Ok i, fs\<lparr>fs_root_file := g\<rparr>)"
    using root_path2inum_correct [OF assms(1,2), of pte path] assms(3) by auto
  let ?fs = "fs\<lparr>fs_root_file := g, fs_root_locked := True\<rparr>"
  from root_remove_correct [of ?fs p pte i] ok assms(2) obtain s f where
    r: "root_remove (translate pte) p ?fs i = Some (Ok (), (put_state ?fs 0 s)\<lparr>fs_root_file := f\<rparr>)"
    "others_kept (root_state fs) s" by auto
  let ?fs2 = "(put_state ?fs 0 s)\<lparr>fs_root_file := f\<rparr>"
  have "fm_bit (vmap (root_state fs)) (unat i)" using assms(5) by (simp add: root_state_def)
  then have "vdisk s ! unat i = fs_disk fs ! unat i" "length (vdisk s) = length (fs_disk fs)"
    using r(2) assms(6) by (auto simp: others_kept_def root_state_def)
  then have op: "inode_open (vdisk s) i = Some (Ok v)"
    using assms(7) by (simp add: inode_open_def read_sector_def slice_get_def split: if_splits)
  have up: "upgrade ?fs2 i = None"
    using assms(4) ok(2)
    by (cases "fs_table fs i") (auto simp: upgrade_def put_state_def split: if_splits intro!: gr0I)
  have "inode_close (translate pte) p ?fs2 (inode_remove v) = None"
    by (auto simp: inode_close_def inode_remove_def Let_def put_state_def bind_eq_None_conv)
  then show ?thesis using g r(1) op up by (simp add: fs_remove_def Let_def put_state_def)
qed

text \<open>Truncating a file touches its own sectors only.\<close>

lemma resize_zero:
  assumes "inode_ok s"
  shows "\<exists>s'. resize_inner s 0 = Some (Ok (), s') \<and> inode_ok s' \<and> others_kept s s' \<and> desc_kept s s' \<and> f_len s' = 0"
proof -
  have "resize_outcome s 0 (resize_inner s 0)" "\<exists>s'. resize_inner s 0 = Some (Ok (), s')"
  proof -
    show ex: "\<exists>s'. resize_inner s 0 = Some (Ok (), s')"
    proof (cases "di_len (data (ino s)) = 0")
      case True
      then show ?thesis by (simp add: resize_inner_def Let_def)
    next
      case False
      then have "0 < di_len (data (ino s))" by (simp add: word_gt_0)
      then show ?thesis using resize_inner_shrink [OF assms, of 0 0] by auto
    qed
    show "resize_outcome s 0 (resize_inner s 0)"
      using resize_inner_correct [OF assms, of 0] by (simp add: grows_on_disk_def)
  qed
  then show ?thesis by (auto simp: resize_outcome_def)
qed

text \<open>
  Creating a file that exists and is not open truncates it, but does not enter its inode
  into the table: the next \<open>open\<close> of the name makes a second in-memory inode for the same
  sector, and the two files do not see each other's changes of length.
\<close>

lemma fs_create_existing_duplicates:
  assumes "fs_ok fs" "kernel_buf p 32" "directory fs path = Some i" "upgrade fs i = None"
    "inode_open (fs_disk fs) i = Some (Ok v)" "inode_ok \<lparr>vdisk = fs_disk fs, vmap = fs_map fs, ino = v\<rparr>"
    "own \<lparr>vdisk = fs_disk fs, vmap = fs_map fs, ino = v\<rparr> \<inter> own (root_state fs) = {}"
  shows "\<exists>n1 fs1 n2 fs2 v1 v2. fs_create (translate pte) p fs path = Some (Ok (n1, file_new), fs1) \<and>
    fs_open (translate pte) p fs1 path = Some (Ok (n2, file_new), fs2) \<and> n1 \<noteq> n2 \<and>
    fs_objs fs2 n1 = Some v1 \<and> fs_objs fs2 n2 = Some v2 \<and>
    id_sector (desc v1) = i \<and> id_sector (desc v2) = i \<and> di_len (data v1) = 0"
proof -
  let ?v = "\<lparr>vdisk = fs_disk fs, vmap = fs_map fs, ino = v\<rparr>" and ?r = "root_state fs" and ?n = "fs_next fs"
  have ok: "inode_ok ?r" "fs_objs fs 0 \<noteq> None" "\<forall>n. fs_objs fs n \<noteq> None \<longrightarrow> n < ?n"
    using assms(1) by (simp_all add: fs_ok_def)
  then have n0: "?n \<noteq> 0" by auto
  have vi: "desc v = inode_desc_new i 0" using assms(5)
    by (auto simp: inode_open_def Let_def bind_eq_Some_conv split: if_splits)
  obtain g where g: "root_path2inum (translate pte) p fs path = Some (Ok i, fs\<lparr>fs_root_file := g\<rparr>)"
    using root_path2inum_correct [OF assms(1,2), of pte path] assms(3) by auto
  obtain g2 where g2: "root_path2inum (translate pte) p (fs\<lparr>fs_root_file := g\<rparr>) path = Some (Ok i, fs\<lparr>fs_root_file := g2\<rparr>)"
    using root_path2inum_correct [of "fs\<lparr>fs_root_file := g\<rparr>" p pte path] assms(1-3) by auto
  obtain s where s: "resize_inner ?v 0 = Some (Ok (), s)" "inode_ok s" "others_kept ?v s" "desc_kept ?v s" "f_len s = 0"
    using resize_zero [OF assms(6)] by blast
  define fso where "fso = snd (new_obj (fs\<lparr>fs_root_file := g2\<rparr>) v)"
  have no: "new_obj (fs\<lparr>fs_root_file := g2\<rparr>) v = (?n, fso)" by (simp add: fso_def new_obj_def Let_def)
  define fs1 where "fs1 = put_state fso ?n s"
  have up: "upgrade (fs\<lparr>fs_root_file := g2\<rparr>) i = None"
    using assms(4) by (cases "fs_table fs i") (auto simp: upgrade_def split: if_splits)
  have st: "obj_state fso ?n = Some ?v" by (simp add: obj_state_def fso_def new_obj_def Let_def)
  have create: "fs_create (translate pte) p fs path = Some (Ok (?n, file_new), fs1)"
    using g g2 up assms(5) no st s(1)
    by (simp add: fs_create_def create_existing_def get_or_open_def fs1_def)
  have r1: "root_state fs1 = \<lparr>vdisk = vdisk s, vmap = vmap s, ino = ino ?r\<rparr>"
    using n0 by (simp add: fs1_def fso_def root_state_def put_state_def new_obj_def Let_def)
  have kept: "fm_bit (vmap s) j \<and> vdisk s ! j = fs_disk fs ! j" if "j \<in> own ?r" for j
    using that s(3) ok(1) assms(7) by (auto simp: others_kept_def inode_ok_def root_state_def)
  have "length (vdisk s) = length (fs_disk fs)" "size (vmap s) = size (fs_map fs)" "disk_wf (vdisk s)" "fm_wf (vmap s)"
    using s(2,3) by (simp_all add: others_kept_def inode_ok_def)
  then have fr: "inode_ok (root_state fs1)" "contents (root_state fs1) = contents ?r"
    using inode_ok_frame [OF ok(1), of "root_state fs1"] kept unfolding r1 by (simp_all add: root_state_def)
  have ok1: "fs_ok fs1" unfolding fs_ok_def fr(2) using fr(1) assms(1) n0 unfolding r1
    by (auto simp: fs_ok_def fs1_def fso_def put_state_def new_obj_def Let_def root_state_def intro: less_SucI)
  obtain h where h: "root_path2inum (translate pte) p fs1 path = Some (Ok i, fs1\<lparr>fs_root_file := h\<rparr>)"
    using root_path2inum_correct [OF ok1 assms(2), of pte path] assms(3) fr(2) by auto
  obtain h2 where h2: "root_path2inum (translate pte) p (fs1\<lparr>fs_root_file := h\<rparr>) path = Some (Ok i, fs1\<lparr>fs_root_file := h2\<rparr>)"
    using root_path2inum_correct [of "fs1\<lparr>fs_root_file := h\<rparr>" p pte path] ok1 assms(2,3) fr(2) by auto
  obtain w where w: "inode_open (vdisk s) i = Some (Ok w)" "desc w = inode_desc_new i 0"
    using inode_open_again [OF s(2)] s(4) vi by (auto simp: desc_kept_def inode_desc_new_def)
  have up1: "upgrade (fs1\<lparr>fs_root_file := h2\<rparr>) i = None"
  proof (cases "fs_table fs i")
    case None
    then show ?thesis by (simp add: upgrade_def fs1_def fso_def put_state_def new_obj_def Let_def)
  next
    case (Some m)
    then have "fs_objs fs m = None" using assms(4) by (auto simp: upgrade_def split: if_splits)
    moreover have "m < ?n" using assms(1) Some by (simp add: fs_ok_def)
    ultimately show ?thesis using Some by (simp add: upgrade_def fs1_def fso_def put_state_def new_obj_def Let_def)
  qed
  have d1: "fs_disk (fs1\<lparr>fs_root_file := h2\<rparr>) = vdisk s" "fs_next fs1 = Suc ?n" "fs_objs fs1 ?n = Some (ino s)"
    by (simp_all add: fs1_def fso_def put_state_def new_obj_def Let_def)
  define fs2 where "fs2 = table_insert (snd (new_obj (fs1\<lparr>fs_root_file := h2\<rparr>) w)) i (Suc ?n)"
  have "fs_open (translate pte) p fs1 path = Some (Ok (Suc ?n, file_new), fs2)"
    using h h2 up1 w(1) d1(1,2) by (simp add: fs_open_def fs2_def new_obj_def Let_def)
  moreover have "fs_objs fs2 ?n = Some (ino s)" "fs_objs fs2 (Suc ?n) = Some w"
    using d1(2,3) by (simp_all add: fs2_def table_insert_def new_obj_def Let_def)
  moreover have "id_sector (desc (ino s)) = i" "id_sector (desc w) = i" "di_len (data (ino s)) = 0"
    using s(4,5) vi w(2) by (simp_all add: desc_kept_def inode_desc_new_def unat_eq_0)
  ultimately show ?thesis using create
    by (intro exI [of _ ?n] exI [of _ fs1] exI [of _ "Suc ?n"] exI [of _ fs2] exI [of _ "ino s"] exI [of _ w]) simp
qed

section \<open>Witnesses\<close>

text \<open>A file system whose root directory is the sample file; one file can be created in it.\<close>

definition sample_fs :: disk_fs where
  "sample_fs = \<lparr>fs_disk = vdisk sample_file, fs_map = vmap sample_file, fs_objs = [0 \<mapsto> ino sample_file],
     fs_refs = (\<lambda>_. 0)(0 := 1), fs_next = 1, fs_table = Map.empty, fs_root_file = file_new, fs_root_locked = False\<rparr>"

lemma sample_fs_facts:
  "fs_ok sample_fs" "directory sample_fs = Map.empty" "kernel_buf VM_BASE 32" "name_ok [97, 98]"
  "\<not> (\<forall>e\<in>set (entries (contents (root_state sample_fs))). entry_is_valid e)"
  "5 + 1 < unat (size (fs_map sample_fs))" "\<not> fm_bit (fs_map sample_fs) 5"
proof -
  have r: "root_state sample_fs = sample_file" by (simp add: root_state_def sample_fs_def)
  show "directory sample_fs = Map.empty" "\<not> (\<forall>e\<in>set (entries (contents (root_state sample_fs))). entry_is_valid e)"
    unfolding r using sample_directory by simp_all
  show "fs_ok sample_fs" unfolding fs_ok_def r using sample_file_ok sample_directory(2)
    by (simp add: sample_fs_def split: if_splits)
  show "kernel_buf VM_BASE 32" by (simp add: kernel_buf_def in_kernel_space_iff VM_BASE_def)
  show "name_ok [97, 98]" by (simp add: name_ok_def is_ascii_def)
  show "5 + 1 < unat (size (fs_map sample_fs))" "\<not> fm_bit (fs_map sample_fs) 5"
    by (simp_all add: sample_fs_def sample_file_def fm_bit_def bit_simps)
qed

theorem fs_create_then_open_witness:
  "\<exists>n fs1 fs2. fs_create (translate (\<lambda>_. None)) VM_BASE sample_fs [97, 98] = Some (Ok (n, file_new), fs1) \<and>
    fs_open (translate (\<lambda>_. None)) VM_BASE fs1 [97, 98] = Some (Ok (n, file_new), fs2)"
  using fs_create_then_open [OF sample_fs_facts(1,3,4) _ sample_fs_facts(5,6,7), of "\<lambda>_. None"] sample_fs_facts(2) by auto

text \<open>The same file system with that file, which nobody has open.\<close>

lemma sample_unopened:
  obtains fs i v where "fs_ok fs" "directory fs [97, 98] = Some i" "upgrade fs i = None" "fm_bit (fs_map fs) (unat i)"
    "unat i \<notin> own (root_state fs)" "inode_open (fs_disk fs) i = Some (Ok v)"
    "inode_ok \<lparr>vdisk = fs_disk fs, vmap = fs_map fs, ino = v\<rparr>"
    "own \<lparr>vdisk = fs_disk fs, vmap = fs_map fs, ino = v\<rparr> \<inter> own (root_state fs) = {}"
proof -
  from create_new_correct [OF sample_fs_facts(1,3,4) _ sample_fs_facts(5,6,7), of "\<lambda>_. None"] sample_fs_facts(2)
  obtain n fs1 sector i where c: "fs_ok fs1" "directory fs1 [97, 98] = Some sector" "desc i = inode_desc_new sector 0"
    "fs_table fs1 sector = Some n" "n \<noteq> 0" "inode_ok \<lparr>vdisk = fs_disk fs1, vmap = fs_map fs1, ino = i\<rparr>"
    "own \<lparr>vdisk = fs_disk fs1, vmap = fs_map fs1, ino = i\<rparr> \<inter> own (root_state fs1) = {}" by auto
  let ?fs = "fs1\<lparr>fs_objs := (fs_objs fs1)(n := None)\<rparr>" and ?s = "\<lparr>vdisk = fs_disk fs1, vmap = fs_map fs1, ino = i\<rparr>"
  have r: "root_state ?fs = root_state fs1" using c(5) by (simp add: root_state_def)
  have "fs_ok ?fs" using c(1,5) unfolding fs_ok_def r by auto
  moreover have "upgrade ?fs sector = None" using c(4) by (simp add: upgrade_def)
  moreover have sec: "unat sector \<in> own ?s" using c(3) by (simp add: own_def inode_desc_new_def)
  moreover have "fm_bit (fs_map fs1) (unat sector)" using c(6) sec by (simp add: inode_ok_def)
  moreover have "inode_open (fs_disk fs1) sector = Some (Ok i)"
  proof -
    obtain j where "inode_open (fs_disk fs1) sector = Some (Ok j)" "data j = data i" "desc j = desc i"
      using inode_open_again [OF c(6)] c(3) by (auto simp: inode_desc_new_def)
    then show ?thesis by (metis inode.surjective old.unit.exhaust)
  qed
  ultimately show ?thesis using c(2,6,7) unfolding r [symmetric] by (intro that [of ?fs sector i]) auto
qed

theorem fs_remove_unopened_deadlocks_witness:
  "\<exists>fs i. directory fs [97, 98] = Some i \<and> fs_remove (translate (\<lambda>_. None)) VM_BASE fs [97, 98] = None"
proof -
  obtain fs i v where "fs_ok fs" "directory fs [97, 98] = Some i" "upgrade fs i = None" "fm_bit (fs_map fs) (unat i)"
    "unat i \<notin> own (root_state fs)" "inode_open (fs_disk fs) i = Some (Ok v)" by (rule sample_unopened)
  then show ?thesis using fs_remove_unopened_deadlocks [OF _ sample_fs_facts(3)] by blast
qed

text \<open>A disk of twelve sectors whose free map of two bytes is in sector 3, its inode in sector 0.\<close>

definition sample_map_inode :: disk_inode where
  "sample_map_inode = \<lparr>di_start = 3, di_len = 2, di_magic = INODE_MAGIC, di_padding = replicate 500 0\<rparr>"

end
