(* ===== verification/Kernel_Main.thy ===== *)
theory Kernel_Main
  imports Sbi Boot Load Disk_Fs
begin

unbundle bit_operations_syntax

text \<open>
  The main function of the kernel (\<open>src/src/main.rs\<close>): the initialisation, the shell of the feature
  \<open>shell\<close> and the shutdown. The device tree is read by the crate \<open>fdt\<close>: a parameter that gives the
  memory regions and the boot arguments. The panic handler is in \<open>Sbi\<close>; its message is the
  argument \<open>info\<close>.
\<close>

section \<open>Initialisation\<close>









section \<open>The shell\<close>

definition char_from_u32 :: "u32 \<Rightarrow> u32 option" where
  "char_from_u32 n = (if n < 0xD800 \<or> (0xE000 \<le> n \<and> n \<le> 0x10FFFF) then Some n else None)"

text \<open>
  Reading a line: \<open>None\<close> if the line never ends, \<open>Inl\<close> if \<open>unwrap\<close> panics.
\<close>

partial_function (option) read_line :: "'f sbi \<Rightarrow> rust_str \<Rightarrow> 'f \<Rightarrow> ('f + rust_str \<times> 'f) option" where
  "read_line io temp e =
     (let (newchar, e) = console_getchar io e
      in if newchar = 10 then Some (Inr (temp, e))
         else case char_from_u32 (ucast newchar) of
           None \<Rightarrow> Some (Inl e)
         | Some c \<Rightarrow> read_line io (temp @ [c]) e)"

partial_function (option) shell :: "'f sbi \<Rightarrow> 'f hart \<Rightarrow> ('f hart + 'f hart) option" where
  "shell io h =
     (let h = kprint io (lit ''PKUOS>'') h
      in Option.bind (read_line io [] (h_env h)) (\<lambda>r.
        case r of
          Inl e \<Rightarrow> Some (Inl (h\<lparr>h_env := e\<rparr>))
        | Inr l \<Rightarrow>
            (let h = h\<lparr>h_env := snd l\<rparr>
             in if fst l = lit ''whoami'' then shell io (kprintln io (lit ''2300012806'') h)
                else if fst l = lit ''exit'' then Some (Inr h)
                else shell io (kprintln io (lit ''invalid command'') h))))"

section \<open>The end\<close>

text \<open>\<open>DISKFS\<close> is a \<open>Lazy\<close>: the first use mounts the disk, and a failure panics.\<close>

definition diskfs_force :: "(usize \<Rightarrow> usize \<Rightarrow> usize option) \<Rightarrow> usize \<Rightarrow> usize \<Rightarrow> disk + disk_fs \<Rightarrow> disk_fs option" where
  "diskfs_force tr p cap fs =
     (case fs of
        Inr f \<Rightarrow> Some f
      | Inl d \<Rightarrow> do {
          r \<leftarrow> mount tr p d cap;
          (case r of Err _ \<Rightarrow> None | Ok f \<Rightarrow> Some f)
        })"

definition main_end :: "'f sbi \<Rightarrow> rust_str \<Rightarrow> (usize \<Rightarrow> usize \<Rightarrow> usize option) \<Rightarrow> usize \<Rightarrow> usize \<Rightarrow> disk + disk_fs \<Rightarrow>
    'f hart \<Rightarrow> ('f \<times> disk_fs option) option" where
  "main_end io info tr p cap fs h =
     (case Option.bind (diskfs_force tr p cap fs) (unmount tr p) of
        None \<Rightarrow> map_option (\<lambda>e. (e, None)) (panic_handler io info h)
      | Some f \<Rightarrow>
          map_option (\<lambda>e. (e, Some f)) (sbi_reset io Shutdown NoReason (h_env (kprintln io (lit ''Goodbye, World!'') h))))"

definition main_shell :: "'f sbi \<Rightarrow> rust_str \<Rightarrow> (usize \<Rightarrow> usize \<Rightarrow> usize option) \<Rightarrow> usize \<Rightarrow> usize \<Rightarrow> disk + disk_fs \<Rightarrow>
    'f hart \<Rightarrow> ('f \<times> disk_fs option) option" where
  "main_shell io info tr p cap fs h = do {
     r \<leftarrow> shell io h;
     (case r of
        Inl h \<Rightarrow> map_option (\<lambda>e. (e, None)) (panic_handler io info h)
      | Inr h \<Rightarrow> main_end io info tr p cap fs h)
   }"

section \<open>A session\<close>

text \<open>What a command is answered with.\<close>

definition shell_answer :: "rust_str \<Rightarrow> rust_str" where
  "shell_answer temp = (if temp = lit ''whoami'' then lit ''2300012806'' else lit ''invalid command'')"

text \<open>
  A terminal: it shows what it is sent, and \<open>console_getchar\<close> returns the keys in the order they were pressed.
\<close>

definition terminal :: "'f sbi \<Rightarrow> ('f \<Rightarrow> usize list) \<Rightarrow> ('f \<Rightarrow> usize list) \<Rightarrow> bool" where
  "terminal io keys out \<longleftrightarrow> prints io out \<and>
     (\<forall>e c. keys (snd (ecall io CONSOLE_PUTCHAR 0 [c] e)) = keys e) \<and> (\<forall>e. keys (snd (rdtime io e)) = keys e) \<and>
     (\<forall>e k ks. keys e = k # ks \<longrightarrow> fst (fst (ecall io CONSOLE_GETCHAR 0 [] e)) = k \<and>
        keys (snd (ecall io CONSOLE_GETCHAR 0 [] e)) = ks \<and> out (snd (ecall io CONSOLE_GETCHAR 0 [] e)) = out e)"

lemma terminal_prints: "terminal io keys out \<Longrightarrow> prints io out"
  by (simp add: terminal_def)

lemma getchar_key:
  assumes "terminal io keys out" "keys e = k # ks"
  shows "\<exists>e'. console_getchar io e = (k, e') \<and> keys e' = ks \<and> out e' = out e"
  using assms by (auto simp: terminal_def console_getchar_def legacy_call_def sbi_call_def case_prod_beta Let_def)

lemma putchar_keys: "terminal io keys out \<Longrightarrow> keys (console_putchar io c e) = keys e"
  by (simp add: terminal_def console_putchar_def legacy_call_def sbi_call_def case_prod_beta Let_def)

lemma write_str_keys: "terminal io keys out \<Longrightarrow> keys (h_env (stdout_write_str io s h)) = keys (h_env h)"
  by (induction s arbitrary: h) (simp_all add: putchar_keys)

lemma time_ms_keys: "terminal io keys out \<Longrightarrow> keys (snd (time_ms io e)) = keys e"
  by (simp add: terminal_def time_ms_def clock_def case_prod_beta Let_def)

lemma kprintln_keys: "terminal io keys out \<Longrightarrow> keys (h_env (kprintln io s h)) = keys (h_env h)"
  by (simp add: kprintln_eq line_body_def write_str_keys time_ms_keys del: stdout_write_str.simps)

lemma kprint_terminal:
  assumes "terminal io keys out"
  shows "out (h_env (kprint io s h)) = out (h_env h) @ map ucast s" "keys (h_env (kprint io s h)) = keys (h_env h)"
    "intr_get (kprint io s h) = intr_get h"
  using assms write_str_keys [OF assms] write_str_prints [OF terminal_prints [OF assms]]
  by (simp_all add: kprint_def stdout_lock_def stdout_unlock_def case_prod_beta Let_def)

text \<open>The keys of a line of proper characters.\<close>

definition typed :: "rust_str \<Rightarrow> usize list" where
  "typed s = map ucast s @ [10]"

definition clean :: "rust_str \<Rightarrow> bool" where
  "clean s \<longleftrightarrow> (\<forall>c \<in> set s. c \<noteq> 10 \<and> char_from_u32 c = Some c)"

lemma char_up_down: "(ucast (ucast (c :: u32) :: usize) :: u32) = c"
  by (intro bit_word_eqI) (simp add: bit_ucast_iff)

lemma read_line_typed:
  assumes t: "terminal io keys out"
  shows "clean s \<Longrightarrow> keys e = typed s @ rest \<Longrightarrow>
    \<exists>e'. read_line io temp e = Some (Inr (temp @ s, e')) \<and> keys e' = rest \<and> out e' = out e"
proof (induction s arbitrary: temp e)
  case Nil
  then obtain e' where "console_getchar io e = (10, e')" "keys e' = rest" "out e' = out e"
    using getchar_key [OF t, of e 10 rest] by (auto simp: typed_def)
  then show ?case by (subst read_line.simps) simp
next
  case (Cons c s)
  then have "keys e = ucast c # (typed s @ rest)" by (simp add: typed_def)
  from getchar_key [OF t this] obtain e1 where
    g: "console_getchar io e = (ucast c, e1)" and k: "keys e1 = typed s @ rest" "out e1 = out e" by blast
  have cl: "clean s" "c \<noteq> 10" "char_from_u32 c = Some c" using Cons.prems(1) by (auto simp: clean_def)
  have "ucast c \<noteq> (10 :: usize)"
  proof
    assume "ucast c = (10 :: usize)"
    then have "ucast (ucast c :: usize) = (ucast (10 :: usize) :: u32)" by (rule arg_cong)
    then show False using cl(2) by (simp add: char_up_down)
  qed
  moreover from Cons.IH [OF cl(1) k(1), of "temp @ [c]"] obtain e' where
    "read_line io (temp @ [c]) e1 = Some (Inr ((temp @ [c]) @ s, e'))" "keys e' = rest" "out e' = out e1" by blast
  ultimately show ?case using g cl(3) k(2) by (subst read_line.simps) (simp add: char_up_down)
qed

definition prompt :: "usize list" where
  "prompt = map ucast (lit ''PKUOS>'')"

text \<open>One round of the loop.\<close>

lemma shell_round:
  assumes t: "terminal io keys out" and s: "clean s" and k: "keys (h_env h) = typed s @ rest"
  shows "\<exists>h'. shell io h = (if s = lit ''exit'' then Some (Inr h') else shell io (kprintln io (shell_answer s) h')) \<and>
    keys (h_env h') = rest \<and> out (h_env h') = out (h_env h) @ prompt \<and> intr_get h' = intr_get h"
proof -
  define h1 where "h1 = kprint io (lit ''PKUOS>'') h"
  note p = kprint_terminal [OF t, of "lit ''PKUOS>''" h, folded h1_def prompt_def]
  from read_line_typed [OF t s, of "h_env h1" rest "[]"] p(2) k obtain e' where
    r: "read_line io [] (h_env h1) = Some (Inr (s, e'))" and e: "keys e' = rest" "out e' = out (h_env h1)" by auto
  have ne: "lit ''exit'' \<noteq> lit ''whoami''" by (simp add: lit_def)
  have "shell io h = (if s = lit ''exit'' then Some (Inr (h1\<lparr>h_env := e'\<rparr>))
      else shell io (kprintln io (shell_answer s) (h1\<lparr>h_env := e'\<rparr>)))"
    using r ne by (subst shell.simps) (auto simp: h1_def Let_def shell_answer_def)
  moreover have "intr_get (h1\<lparr>h_env := e'\<rparr>) = intr_get h1" by (rule intr_get_cong) simp
  ultimately show ?thesis using e p by (intro exI [of _ "h1\<lparr>h_env := e'\<rparr>"]) simp
qed

definition transcript :: "usize list \<Rightarrow> rust_str list \<Rightarrow> usize list" where
  "transcript stamps cmds = concat (map2 (\<lambda>ms s. prompt @ line ms (shell_answer s)) stamps cmds) @ prompt"

lemma shell_session:
  assumes t: "terminal io keys out"
  shows "\<forall>s \<in> set cmds. clean s \<and> s \<noteq> lit ''exit'' \<Longrightarrow>
    keys (h_env h) = concat (map typed cmds) @ typed (lit ''exit'') @ rest \<Longrightarrow>
    \<exists>h' stamps. shell io h = Some (Inr h') \<and> keys (h_env h') = rest \<and> length stamps = length cmds \<and>
      out (h_env h') = out (h_env h) @ transcript stamps cmds \<and> intr_get h' = intr_get h"
proof (induction cmds arbitrary: h)
  case Nil
  have "clean (lit ''exit'')" by (simp add: clean_def lit_def char_from_u32_def word_less_nat_alt)
  from shell_round [OF t this, of h rest] Nil show ?case by (auto simp: transcript_def)
next
  case (Cons s cmds)
  then have "clean s" "s \<noteq> lit ''exit''" "keys (h_env h) = typed s @ concat (map typed cmds) @ typed (lit ''exit'') @ rest"
    by simp_all
  from shell_round [OF t this(1,3)] this(2) obtain h1 where
    1: "shell io h = shell io (kprintln io (shell_answer s) h1)" and
    k: "keys (h_env h1) = concat (map typed cmds) @ typed (lit ''exit'') @ rest" and
    o: "out (h_env h1) = out (h_env h) @ prompt" "intr_get h1 = intr_get h" by auto
  let ?h2 = "kprintln io (shell_answer s) h1"
  have "keys (h_env ?h2) = concat (map typed cmds) @ typed (lit ''exit'') @ rest" using k by (simp add: kprintln_keys [OF t])
  then obtain h' stamps where
    2: "shell io ?h2 = Some (Inr h')" "keys (h_env h') = rest" "length stamps = length cmds"
      "out (h_env h') = out (h_env ?h2) @ transcript stamps cmds" "intr_get h' = intr_get ?h2"
    using Cons.IH [of ?h2] Cons.prems(1) by auto
  have "out (h_env h') = out (h_env h) @ transcript (fst (time_ms io (h_env h1)) # stamps) (s # cmds)"
    using 2(4) o(1) kprintln_out [OF terminal_prints [OF t], of "shell_answer s" h1] by (simp add: transcript_def)
  then show ?case using 1 2 o(2) by (intro exI [of _ h'] exI [of _ "fst (time_ms io (h_env h1)) # stamps"]) simp
qed

section \<open>Shutdown\<close>

text \<open>A reset shows nothing and turns the machine off.\<close>

definition resets :: "'f sbi \<Rightarrow> ('f \<Rightarrow> usize list) \<Rightarrow> bool" where
  "resets io out \<longleftrightarrow> (\<forall>ty r e. out (snd (ecall io 0x53525354 0 [ty, r] e)) = out e \<and>
     powered_off io (snd (ecall io 0x53525354 0 [ty, r] e)))"

lemma panic_line:
  assumes "prints io out" "resets io out"
  shows "\<exists>e'. panic_handler io info h = Some e' \<and> out e' = out (h_env h) @ line (fst (time_ms io (h_env h))) info"
  using panic_handler_correct [OF assms(1), of info h] assms(2) by (simp add: resets_def)

lemma reset_off:
  assumes "resets io out"
  shows "\<exists>e'. sbi_reset io ty r e = Some e' \<and> out e' = out e"
  using assms by (simp add: resets_def sbi_reset_def sbi_call_def SYSTEM_RESET_def case_prod_beta Let_def)

text \<open>The last line of \<open>main\<close>: the farewell if the disk could be unmounted, and the panic message otherwise.\<close>

definition last_words :: "rust_str \<Rightarrow> disk_fs option \<Rightarrow> rust_str" where
  "last_words info f = (case f of None \<Rightarrow> info | Some _ \<Rightarrow> lit ''Goodbye, World!'')"

lemma main_end_line:
  assumes "prints io out" "resets io out" and f_def: "f = Option.bind (diskfs_force tr p cap fs) (unmount tr p)"
  shows "\<exists>e'. main_end io info tr p cap fs h = Some (e', f) \<and>
    out e' = out (h_env h) @ line (fst (time_ms io (h_env h))) (last_words info f)"
proof (cases f)
  case None
  then show ?thesis
    using panic_line [OF assms(1,2), of info h] by (auto simp: main_end_def last_words_def f_def)
next
  case (Some g)
  from reset_off [OF assms(2), of Shutdown NoReason "h_env (kprintln io (lit ''Goodbye, World!'') h)"]
  obtain e' where "sbi_reset io Shutdown NoReason (h_env (kprintln io (lit ''Goodbye, World!'') h)) = Some e'"
    "out e' = out (h_env (kprintln io (lit ''Goodbye, World!'') h))" by blast
  then show ?thesis
    using Some kprintln_out [OF assms(1), of "lit ''Goodbye, World!''" h] by (simp add: main_end_def last_words_def f_def)
qed

text \<open>
  A session of the shell. A user types some commands and then \<open>exit\<close>. The kernel shows the prompt
  before each of them, answers \<open>whoami\<close> with the number and everything else with an error, all in
  order; after \<open>exit\<close> it flushes the file system, says goodbye and turns the machine off. If the
  disk cannot be mounted or flushed, the message of the panic is the last line instead, and the machine is off as well.
\<close>

lemma main_shell_session:
  assumes "terminal io keys out" "resets io out"
    and "\<forall>s \<in> set cmds. clean s \<and> s \<noteq> lit ''exit''"
    and "keys (h_env h) = concat (map typed cmds) @ typed (lit ''exit'') @ rest"
  shows "\<exists>e' stamps ms f. f = Option.bind (diskfs_force tr p cap fs) (unmount tr p) \<and>
    main_shell io info tr p cap fs h = Some (e', f) \<and> length stamps = length cmds \<and>
    out e' = out (h_env h) @ transcript stamps cmds @
      line ms (case f of None \<Rightarrow> info | Some _ \<Rightarrow> lit ''Goodbye, World!'')"
proof -
  from shell_session [OF assms(1,3,4)] obtain h' stamps where
    s: "shell io h = Some (Inr h')" "length stamps = length cmds" "out (h_env h') = out (h_env h) @ transcript stamps cmds"
    by blast
  from main_end_line [OF terminal_prints [OF assms(1)] assms(2) refl, of info tr p cap fs h'] s show ?thesis
    by (auto simp: main_shell_def last_words_def)
qed

lemma term_terminal: "terminal term_sbi t_keys t_out" "resets term_sbi t_out"
  by (auto simp: terminal_def term_prints resets_def)
    (simp_all add: term_sbi_def CONSOLE_PUTCHAR_def CONSOLE_GETCHAR_def)

text \<open>
  No key. The firmware returns minus one from \<open>console_getchar\<close> when no key was pressed. The shell does not
  check for it: the value is no character, the \<open>unwrap\<close> panics, and the kernel shuts the machine down right after
  the prompt.
\<close>

lemma shell_without_key:
  assumes "prints io out" "resets io out"
    and "\<forall>e. fst (fst (ecall io CONSOLE_GETCHAR 0 [] e)) = -1 \<and> out (snd (ecall io CONSOLE_GETCHAR 0 [] e)) = out e"
  shows "\<exists>e' ms. main_shell io info tr p cap fs h = Some (e', None) \<and> out e' = out (h_env h) @ prompt @ line ms info"
proof -
  define h1 where "h1 = kprint io (lit ''PKUOS>'') h"
  have o: "out (h_env h1) = out (h_env h) @ prompt"
    using write_str_prints [OF assms(1)]
    by (simp add: h1_def prompt_def kprint_def stdout_lock_def stdout_unlock_def case_prod_beta Let_def)
  obtain e1 where g: "console_getchar io (h_env h1) = (-1, e1)" "out e1 = out (h_env h1)"
    using assms(3) by (auto simp: console_getchar_def legacy_call_def sbi_call_def case_prod_beta Let_def)
  have "(ucast (- 1 :: usize) :: u32) = - 1" by (intro bit_word_eqI) (simp add: bit_ucast_iff)
  then have "char_from_u32 (ucast (- 1 :: usize)) = None"
    by (simp add: char_from_u32_def word_less_nat_alt word_le_nat_alt unsigned_minus_1_eq_mask mask_eq_exp_minus_1)
  then have "read_line io [] (h_env h1) = Some (Inl e1)"
    using g(1) by (subst read_line.simps) (simp add: word_unat_eq_iff unsigned_minus_1_eq_mask mask_eq_exp_minus_1)
  then have "shell io h = Some (Inl (h1\<lparr>h_env := e1\<rparr>))" by (subst shell.simps) (simp add: h1_def Let_def)
  moreover from panic_line [OF assms(1,2), of info "h1\<lparr>h_env := e1\<rparr>"] obtain e' where
    "panic_handler io info (h1\<lparr>h_env := e1\<rparr>) = Some e'" "out e' = out e1 @ line (fst (time_ms io e1)) info" by auto
  ultimately show ?thesis using o g(2) by (auto simp: main_shell_def)
qed

section \<open>After the initialisation\<close>







end
