(* ===== verification/Book.thy ===== *)
theory Book
  imports Tacos_Prelude "HOL-Library.AList" "HOL-Library.Countable"
begin

text \<open>
  The bookmarks of the test tool (\<open>src/tool/src/book.rs\<close>, with the arguments of
  \<open>src/tool/src/cli.rs\<close>): named sets of test cases in TOML files. A \<open>HashMap\<close> is an association
  list with distinct keys; it is iterated in the order of the list, which stands for the unspecified
  order of the hash map. The file system is a map from paths to contents. The crate \<open>toml\<close> is a
  parameter that prints and parses documents; the derived \<open>serde\<close> code between documents and cases is
  modelled. \<open>None\<close> is a panic of the tool.
\<close>

section \<open>Cases and documents\<close>

text \<open>Arguments, grade and timeout in seconds.\<close>

datatype test_case = Case string "usize option" "u64 option"

fun case_args :: "test_case \<Rightarrow> string" where
  "case_args (Case a g t) = a"

fun case_grade :: "test_case \<Rightarrow> usize option" where
  "case_grade (Case a g t) = g"

fun case_timeout :: "test_case \<Rightarrow> u64 option" where
  "case_timeout (Case a g t) = t"

type_synonym cases = "(string \<times> test_case) list"

text \<open>A document of the form that the books have: a key and an array per line.\<close>

datatype toml_value = Str string | Num "64 word"

type_synonym doc = "(string \<times> toml_value list) list"

record toml =
  tm_parse :: "string \<Rightarrow> doc option"
  tm_print :: "doc \<Rightarrow> string option"

text \<open>
  The derived code for the tuple \<open>Case\<close>: fields that are \<open>None\<close> are skipped, missing ones at the end
  are \<open>None\<close>.
\<close>

fun ser_case :: "test_case \<Rightarrow> toml_value list" where
  "ser_case (Case a g t) =
     Str a # (case g of None \<Rightarrow> [] | Some n \<Rightarrow> [Num n]) @ (case t of None \<Rightarrow> [] | Some n \<Rightarrow> [Num n])"

fun de_case :: "toml_value list \<Rightarrow> test_case option" where
  "de_case [Str a] = Some (Case a None None)"
| "de_case [Str a, Num g] = Some (Case a (Some g) None)"
| "de_case [Str a, Num g, Num t] = Some (Case a (Some g) (Some t))"
| "de_case _ = None"

definition ser_cases :: "cases \<Rightarrow> doc" where
  "ser_cases cs = map (\<lambda>(k, c). (k, ser_case c)) cs"

fun de_cases :: "doc \<Rightarrow> cases option" where
  "de_cases [] = Some []"
| "de_cases ((k, v) # d) = do {
     c \<leftarrow> de_case v;
     cs \<leftarrow> de_cases d;
     Some ((k, c) # cs)
   }"

section \<open>Files\<close>

datatype io_error = Not_found | Not_permitted | Other_error string

record files =
  content :: "string \<Rightarrow> string option"
  denied :: "string \<Rightarrow> bool"

text \<open>
  \<open>PathBuf::push\<close> and \<open>set_extension\<close>, for a name with a proper last component: what follows the last
  dot of it is replaced, unless it starts with that dot.
\<close>

definition last_component :: "string \<Rightarrow> string" where
  "last_component name = rev (takeWhile (\<lambda>c. c \<noteq> CHR ''/'') (rev name))"

definition file_stem :: "string \<Rightarrow> string" where
  "file_stem f =
     (let ext = takeWhile (\<lambda>c. c \<noteq> CHR ''.'') (rev f);
          n = length f - length ext
      in if n \<le> 1 then f else take (n - 1) f)"

definition book_path :: "string \<Rightarrow> string" where
  "book_path name =
     (let f = last_component name;
          path = (if take 1 name = ''/'' then name else ''./bookmarks/'' @ name)
      in take (length path - length f) path @ file_stem f @ ''.toml'')"

definition read_book :: "toml \<Rightarrow> files \<Rightarrow> string \<Rightarrow> (io_error + cases) option" where
  "read_book tm fs name =
     (case content fs (book_path name) of
        None \<Rightarrow> Some (Inl Not_found)
      | Some s \<Rightarrow> do {
          d \<leftarrow> tm_parse tm s;
          cs \<leftarrow> de_cases d;
          Some (Inr cs)
        })"

text \<open>The file is created, and emptied, before the cases are printed.\<close>

definition write_book :: "toml \<Rightarrow> string \<Rightarrow> cases \<Rightarrow> files \<Rightarrow> ((io_error + unit) \<times> files) option" where
  "write_book tm name cs fs =
     (let path = book_path name
      in if denied fs path then Some (Inl Not_permitted, fs)
         else do {
           s \<leftarrow> tm_print tm (ser_cases cs);
           Some (Inr (), fs\<lparr>content := (content fs)(path \<mapsto> s)\<rparr>)
         })"

definition remove_file :: "string \<Rightarrow> files \<Rightarrow> (io_error + unit) \<times> files" where
  "remove_file path fs =
     (if content fs path = None then (Inl Not_found, fs)
      else if denied fs path then (Inl Not_permitted, fs)
      else (Inr (), fs\<lparr>content := (content fs)(path := None)\<rparr>))"

section \<open>Built-in books\<close>

definition PREVIOUS_FAILED_BOOK_NAME :: string where
  "PREVIOUS_FAILED_BOOK_NAME = ''previous-failed''"

definition DEFAULT_GRADE :: usize where "DEFAULT_GRADE = 1"
definition DEFAULT_TIMEOUT :: u64 where "DEFAULT_TIMEOUT = 60"

definition BUILTIN_NAMES :: "string list" where
  "BUILTIN_NAMES = [''unit'', ''lab1'', ''lab2'', ''lab3'', PREVIOUS_FAILED_BOOK_NAME]"

definition hm_extend :: "cases \<Rightarrow> cases \<Rightarrow> cases" where
  "hm_extend m es = foldl (\<lambda>m (k, v). AList.update k v m) m es"

fun read_builtins :: "toml \<Rightarrow> files \<Rightarrow> string list \<Rightarrow> cases list option" where
  "read_builtins tm fs [] = Some []"
| "read_builtins tm fs (n # ns) = do {
     r \<leftarrow> read_book tm fs n;
     bs \<leftarrow> read_builtins tm fs ns;
     Some ((case r of Inl _ \<Rightarrow> [] | Inr cs \<Rightarrow> hm_extend [] cs) # bs)
   }"

definition BUILTINS :: "toml \<Rightarrow> files \<Rightarrow> cases list option" where
  "BUILTINS tm fs = read_builtins tm fs BUILTIN_NAMES"

text \<open>All of them in one map: a later book replaces the cases of an earlier one.\<close>

definition ALL_BUILTIN :: "cases list \<Rightarrow> cases" where
  "ALL_BUILTIN bs = foldl hm_extend [] bs"

definition grade :: "cases \<Rightarrow> string \<Rightarrow> usize option" where
  "grade all k = do {
     c \<leftarrow> map_of all k;
     (case case_grade c of None \<Rightarrow> Some DEFAULT_GRADE | Some g \<Rightarrow> Some g)
   }"

definition timeout :: "cases \<Rightarrow> string \<Rightarrow> u64 option" where
  "timeout all k = do {
     c \<leftarrow> map_of all k;
     (case case_timeout c of None \<Rightarrow> Some DEFAULT_TIMEOUT | Some t \<Rightarrow> Some t)
   }"

section \<open>Changing a book\<close>

record BookArgs =
  ba_name :: string
  ba_del :: bool
  ba_cases :: "string list"
  ba_books :: "string list"
  ba_previous_failed :: bool

type_synonym book_action = "cases \<Rightarrow> string \<Rightarrow> test_case \<Rightarrow> cases"

definition act_insert :: book_action where
  "act_insert m k v = AList.update k v m"

definition act_remove :: book_action where
  "act_remove m k v = AList.delete k m"

text \<open>
  \<open>BUILTINS\<close> and \<open>ALL_BUILTIN\<close> are \<open>Lazy\<close>: the argument \<open>lz\<close> is their value, which panics only where it is used.
\<close>

fun act_cases :: "book_action \<Rightarrow> cases option \<Rightarrow> string list \<Rightarrow> cases \<Rightarrow> cases option" where
  "act_cases act lz [] m = Some m"
| "act_cases act lz (k # ks) m = do {
     all \<leftarrow> lz;
     act_cases act lz ks (case map_of all k of None \<Rightarrow> m | Some v \<Rightarrow> act m k v)
   }"

fun act_entries :: "book_action \<Rightarrow> cases option \<Rightarrow> cases \<Rightarrow> cases \<Rightarrow> cases option" where
  "act_entries act lz [] m = Some m"
| "act_entries act lz ((k, v) # es) m = do {
     all \<leftarrow> lz;
     act_entries act lz es (if map_of all k = None then m else act m k v)
   }"

fun act_books :: "toml \<Rightarrow> files \<Rightarrow> book_action \<Rightarrow> cases option \<Rightarrow> string list \<Rightarrow> cases \<Rightarrow> cases option" where
  "act_books tm fs act lz [] m = Some m"
| "act_books tm fs act lz (b # bs) m = do {
     r \<leftarrow> read_book tm fs b;
     m \<leftarrow> (case r of Inl _ \<Rightarrow> Some m | Inr c \<Rightarrow> act_entries act lz c m);
     act_books tm fs act lz bs m
   }"

definition run_action :: "toml \<Rightarrow> files \<Rightarrow> cases list option \<Rightarrow> BookArgs \<Rightarrow> book_action \<Rightarrow> cases \<Rightarrow> cases option" where
  "run_action tm fs lbs args act m = do {
     let lz = map_option ALL_BUILTIN lbs;
     m \<leftarrow> act_cases act lz (ba_cases args) m;
     m \<leftarrow> act_books tm fs act lz (ba_books args) m;
     if ba_previous_failed args then do { bs \<leftarrow> lbs; act_entries act lz (bs ! 4) m } else Some m
   }"

definition book_main :: "toml \<Rightarrow> BookArgs \<Rightarrow> files \<Rightarrow> ((io_error + unit) \<times> files) option" where
  "book_main tm args fs =
     (if ba_name args \<in> set BUILTIN_NAMES
      then Some (Inl (Other_error (''Cannot modify built-in bookmark: '' @ ba_name args)), fs)
      else do {
        r \<leftarrow> read_book tm fs (ba_name args);
        let original = (case r of Inl _ \<Rightarrow> [] | Inr cs \<Rightarrow> hm_extend [] cs);
        cs \<leftarrow> run_action tm fs (BUILTINS tm fs) args (if ba_del args then act_remove else act_insert) original;
        if ba_del args \<and> ba_cases args = [] then Some (remove_file (book_path (ba_name args)) fs)
        else write_book tm (ba_name args) cs fs
      })"

section \<open>The cases of a test run\<close>

record TestArgs =
  ta_cases :: "string list"
  ta_books :: "string list"
  ta_previous_failed :: bool
  ta_dry :: bool
  ta_gdb :: bool
  ta_grade :: bool
  ta_verbose :: bool

fun book_names :: "toml \<Rightarrow> files \<Rightarrow> string list \<Rightarrow> string set option" where
  "book_names tm fs [] = Some {}"
| "book_names tm fs (b # bs) = do {
     r \<leftarrow> read_book tm fs b;
     S \<leftarrow> book_names tm fs bs;
     Some ((case r of Inl _ \<Rightarrow> {} | Inr c \<Rightarrow> fst ` set c) \<union> S)
   }"

definition from_builtin :: "cases \<Rightarrow> string set \<Rightarrow> cases" where
  "from_builtin b selected = hm_extend [] (filter (\<lambda>(k, v). k \<in> selected) b)"

definition test_cases :: "toml \<Rightarrow> files \<Rightarrow> cases list \<Rightarrow> TestArgs \<Rightarrow> (cases \<times> cases \<times> cases \<times> cases) option" where
  "test_cases tm fs bs args = do {
     S \<leftarrow> book_names tm fs (ta_books args);
     let selected = set (ta_cases args) \<union> S;
     let selected = (if ta_previous_failed args then selected \<union> fst ` set (bs ! 4) else selected);
     Some (from_builtin (bs ! 0) selected, from_builtin (bs ! 1) selected,
       from_builtin (bs ! 2) selected, from_builtin (bs ! 3) selected)
   }"

definition write_previous_failed :: "toml \<Rightarrow> cases list \<Rightarrow> string list \<Rightarrow> files \<Rightarrow> ((io_error + unit) \<times> files) option" where
  "write_previous_failed tm bs failed fs =
     Option.bind (act_cases act_insert (Some (ALL_BUILTIN bs)) failed []) (\<lambda>cs. write_book tm PREVIOUS_FAILED_BOOK_NAME cs fs)"

section \<open>Well-formed cases\<close>

text \<open>
  The derived code loses the position of a field that is skipped: a case with a timeout but no grade would
  come back with its timeout as its grade. No book has such a case, and the tool makes none.
\<close>

fun case_wf :: "test_case \<Rightarrow> bool" where
  "case_wf (Case a g t) \<longleftrightarrow> g = None \<longrightarrow> t = None"

definition cases_ok :: "cases \<Rightarrow> bool" where
  "cases_ok cs \<longleftrightarrow> distinct (map fst cs) \<and> (\<forall>c \<in> snd ` set cs. case_wf c)"

lemma de_ser_case: "de_case (ser_case c) = Some c \<longleftrightarrow> case_wf c"
  by (cases c rule: case_wf.cases) (auto split: option.splits)

lemma ser_case_loses: "de_case (ser_case (Case a None (Some n))) = Some (Case a (Some n) None)"
  by simp

lemma de_case_wf: "de_case v = Some c \<Longrightarrow> case_wf c"
  by (induction v rule: de_case.induct) auto

lemma de_cases_keys: "de_cases d = Some cs \<Longrightarrow> map fst cs = map fst d \<and> (\<forall>c \<in> snd ` set cs. case_wf c)"
  by (induction d arbitrary: cs rule: de_cases.induct) (fastforce simp: bind_eq_Some_conv dest: de_case_wf)+

lemma de_cases_map_of: "de_cases d = Some cs \<Longrightarrow> map_of cs k = Option.bind (map_of d k) de_case"
  by (induction d arbitrary: cs rule: de_cases.induct) (auto simp: bind_eq_Some_conv)

lemma de_cases_total: "\<forall>v \<in> snd ` set d. de_case v \<noteq> None \<Longrightarrow> \<exists>cs. de_cases d = Some cs"
  by (induction d rule: de_cases.induct) auto

text \<open>What the crate promises: documents are read back as they were printed, up to the order of the keys, which are distinct.\<close>

definition toml_ok :: "toml \<Rightarrow> bool" where
  "toml_ok tm \<longleftrightarrow> (\<forall>s d. tm_parse tm s = Some d \<longrightarrow> distinct (map fst d)) \<and>
     (\<forall>d. distinct (map fst d) \<longrightarrow> (\<exists>s d'. tm_print tm d = Some s \<and> tm_parse tm s = Some d' \<and> map_of d' = map_of d))"

lemma read_book_ok: "toml_ok tm \<Longrightarrow> read_book tm fs n = Some (Inr cs) \<Longrightarrow> cases_ok cs"
  by (auto simp: read_book_def toml_ok_def cases_ok_def bind_eq_Some_conv split: option.splits dest!: de_cases_keys)

lemma snd_map_of: "distinct (map fst d) \<Longrightarrow> v \<in> snd ` set d \<longleftrightarrow> v \<in> ran (map_of d)"
  by (simp add: ran_distinct)

lemma write_read_book:
  assumes tm: "toml_ok tm" and cs: "cases_ok cs" and nd: "\<not> denied fs (book_path n)"
  shows "\<exists>s cs'. write_book tm n cs fs = Some (Inr (), fs\<lparr>content := (content fs)(book_path n \<mapsto> s)\<rparr>) \<and>
    read_book tm (fs\<lparr>content := (content fs)(book_path n \<mapsto> s)\<rparr>) n = Some (Inr cs') \<and> cases_ok cs' \<and> map_of cs' = map_of cs"
proof -
  have ks: "map fst (ser_cases cs) = map fst cs" by (auto simp: ser_cases_def)
  then have "distinct (map fst (ser_cases cs))" using cs by (simp add: cases_ok_def)
  then obtain s d where p: "tm_print tm (ser_cases cs) = Some s" "tm_parse tm s = Some d"
    "map_of d = map_of (ser_cases cs)" "distinct (map fst d)" using tm unfolding toml_ok_def by blast
  have ser: "map_of (ser_cases cs) k = map_option ser_case (map_of cs k)" for k
    by (simp add: ser_cases_def map_of_map)
  have wf: "map_of cs k = Some c \<Longrightarrow> case_wf c" for k c using cs by (force simp: cases_ok_def dest: map_of_SomeD)
  have "de_case v \<noteq> None" if "v \<in> snd ` set d" for v
    using that wf unfolding snd_map_of [OF p(4)] p(3) by (auto simp: ran_def ser de_ser_case [THEN iffD2])
  then obtain cs' where c: "de_cases d = Some cs'" using de_cases_total by blast
  have "map_of cs' k = map_of cs k" for k
    using de_cases_map_of [OF c, of k] wf [of k] by (cases "map_of cs k") (simp_all add: p(3) ser de_ser_case)
  moreover have "read_book tm (fs\<lparr>content := (content fs)(book_path n \<mapsto> s)\<rparr>) n = Some (Inr cs')"
    using p(2) c by (simp add: read_book_def)
  moreover from this have "cases_ok cs'" by (rule read_book_ok [OF tm])
  ultimately show ?thesis using p(1) nd by (auto simp: write_book_def Let_def)
qed

section \<open>Operations on maps\<close>

lemma update_values: "snd ` set (AList.update k v m) \<subseteq> insert v (snd ` set m)"
  by (induction m) auto

lemma update_ok: "cases_ok m \<Longrightarrow> case_wf v \<Longrightarrow> cases_ok (AList.update k v m)"
  using update_values [of k v m] AList.distinct_update [of m k v] unfolding cases_ok_def by blast

lemma delete_ok: "cases_ok m \<Longrightarrow> cases_ok (AList.delete k m)"
  using AList.distinct_delete [of m k] by (auto simp: cases_ok_def AList.delete_eq)

lemma case_ok_of: "cases_ok m \<Longrightarrow> map_of m k = Some v \<Longrightarrow> case_wf v"
  by (force simp: cases_ok_def dest: map_of_SomeD)

lemma cases_ok_Cons: "cases_ok ((k, v) # m) \<longleftrightarrow> map_of m k = None \<and> case_wf v \<and> cases_ok m"
  by (auto simp: cases_ok_def map_of_eq_None_iff)

lemma hm_extend_ok:
  assumes "cases_ok m" "cases_ok es"
  shows "cases_ok (hm_extend m es) \<and> map_of (hm_extend m es) = map_of m ++ map_of es"
  using assms
proof (induction es arbitrary: m)
  case Nil
  then show ?case by (simp add: hm_extend_def)
next
  case (Cons e es)
  obtain k v where e: "e = (k, v)" by fastforce
  have c: "map_of es k = None" "case_wf v" "cases_ok es" using Cons.prems(2) unfolding e cases_ok_Cons by auto
  have s: "hm_extend m (e # es) = hm_extend (AList.update k v m) es" by (simp add: hm_extend_def e)
  note ih = Cons.IH [OF update_ok [OF Cons.prems(1) c(2)] c(3), of k, folded s]
  have "map_of (hm_extend m (e # es)) = (map_of m)(k \<mapsto> v) ++ map_of es"
    using conjunct2 [OF ih] by (simp only: AList.update_conv')
  also have "\<dots> = map_of m ++ map_of (e # es)"
    using c(1) by (auto simp: e map_add_def fun_eq_iff split: option.splits)
  finally show ?case using conjunct1 [OF ih] by (rule conjI [rotated])
qed

lemma hm_extend_dom: "cases_ok m \<Longrightarrow> cases_ok es \<Longrightarrow> dom (map_of (hm_extend m es)) = dom (map_of m) \<union> dom (map_of es)"
  by (simp add: hm_extend_ok Un_commute)

lemma cases_ok_Nil [simp]: "cases_ok []"
  by (simp add: cases_ok_def)

lemma read_builtins_ok:
  assumes "toml_ok tm"
  shows "read_builtins tm fs ns = Some bs \<Longrightarrow> length bs = length ns \<and> (\<forall>b \<in> set bs. cases_ok b)"
proof (induction ns arbitrary: bs)
  case (Cons n ns)
  then obtain r bs' where r: "read_book tm fs n = Some r" "read_builtins tm fs ns = Some bs'"
    "bs = (case r of Inl _ \<Rightarrow> [] | Inr cs \<Rightarrow> hm_extend [] cs) # bs'" by (auto simp: bind_eq_Some_conv)
  have "cases_ok (case r of Inl _ \<Rightarrow> [] | Inr cs \<Rightarrow> hm_extend [] cs)"
    using r(1) read_book_ok [OF assms] hm_extend_ok by (auto split: sum.split)
  then show ?case using Cons.IH [OF r(2)] r(3) by simp
qed simp

lemma all_builtin_ok:
  assumes "\<forall>b \<in> set bs. cases_ok b" "cases_ok m"
  shows "cases_ok (foldl hm_extend m bs) \<and> dom (map_of (foldl hm_extend m bs)) = dom (map_of m) \<union> (\<Union>b \<in> set bs. dom (map_of b))"
  using assms
proof (induction bs arbitrary: m)
  case (Cons b bs)
  then show ?case using Cons.IH [of "hm_extend m b"] hm_extend_ok [of m b] hm_extend_dom [of m b] by auto
qed simp

text \<open>The two actions on the names of a book.\<close>

definition names :: "cases \<Rightarrow> string set" where
  "names cs = dom (map_of cs)"

definition act_spec :: "bool \<Rightarrow> string set \<Rightarrow> string set \<Rightarrow> string set" where
  "act_spec del old picked = (if del then old - picked else old \<union> picked)"

definition act_of :: "bool \<Rightarrow> book_action" where
  "act_of del = (if del then act_remove else act_insert)"

lemma act_one:
  assumes "cases_ok m" "case_wf v"
  shows "cases_ok (act_of del m k v)" "names (act_of del m k v) = act_spec del (names m) {k}"
  using assms update_ok [of m v k] delete_ok [of m k]
  by (auto simp: act_of_def act_insert_def act_remove_def names_def act_spec_def AList.update_conv' AList.delete_conv')

lemma act_spec_twice: "act_spec del (act_spec del old p) q = act_spec del old (p \<union> q)"
  by (auto simp: act_spec_def)

lemma act_spec_empty: "act_spec del old {} = old"
  by (simp add: act_spec_def)

lemma names_single: "{k} \<inter> names all = (if map_of all k = None then {} else {k})"
  by (auto simp: names_def)

lemma act_cases_names:
  assumes "cases_ok all"
  shows "cases_ok m \<Longrightarrow> \<exists>m'. act_cases (act_of del) (Some all) ks m = Some m' \<and> cases_ok m' \<and>
    names m' = act_spec del (names m) (set ks \<inter> names all)"
proof (induction ks arbitrary: m)
  case Nil
  then show ?case by (simp add: act_spec_empty)
next
  case (Cons k ks)
  define m1 where "m1 = (case map_of all k of None \<Rightarrow> m | Some v \<Rightarrow> act_of del m k v)"
  have 1: "cases_ok m1" "names m1 = act_spec del (names m) ({k} \<inter> names all)"
    using act_one [OF Cons.prems case_ok_of [OF assms]] Cons.prems
    by (auto simp: m1_def names_single act_spec_empty split: option.split)
  have "{k} \<inter> names all \<union> set ks \<inter> names all = set (k # ks) \<inter> names all" by auto
  then show ?case using Cons.IH [OF 1(1)] 1(2) by (auto simp: m1_def act_spec_twice)
qed

lemma act_entries_names:
  assumes "cases_ok all"
  shows "cases_ok m \<Longrightarrow> cases_ok es \<Longrightarrow> \<exists>m'. act_entries (act_of del) (Some all) es m = Some m' \<and> cases_ok m' \<and>
    names m' = act_spec del (names m) (names es \<inter> names all)"
proof (induction es arbitrary: m)
  case Nil
  then show ?case by (simp add: act_spec_empty names_def)
next
  case (Cons e es)
  obtain k v where e: "e = (k, v)" by fastforce
  have c: "case_wf v" "cases_ok es" using Cons.prems(2) unfolding e cases_ok_Cons by auto
  define m1 where "m1 = (if map_of all k = None then m else act_of del m k v)"
  have 1: "cases_ok m1" "names m1 = act_spec del (names m) ({k} \<inter> names all)"
    using act_one [OF Cons.prems(1) c(1)] Cons.prems(1) by (auto simp: m1_def names_single act_spec_empty)
  have "{k} \<inter> names all \<union> names es \<inter> names all = names (e # es) \<inter> names all" by (auto simp: names_def e)
  then show ?case using Cons.IH [OF 1(1) c(2)] 1(2) by (auto simp: m1_def act_spec_twice e)
qed

lemma names_image: "fst ` set c = names c"
  by (simp add: names_def dom_map_of_conv_image_fst)

lemma act_books_names:
  assumes tm: "toml_ok tm" and all: "cases_ok all"
  shows "cases_ok m \<Longrightarrow> book_names tm fs bs = Some S \<Longrightarrow> \<exists>m'. act_books tm fs (act_of del) (Some all) bs m = Some m' \<and> cases_ok m' \<and>
    names m' = act_spec del (names m) (S \<inter> names all)"
proof (induction bs arbitrary: m S)
  case Nil
  then show ?case by (simp add: act_spec_empty)
next
  case (Cons b bs)
  then obtain r S' where r: "read_book tm fs b = Some r" "book_names tm fs bs = Some S'"
    and S: "S = (case r of Inl _ \<Rightarrow> {} | Inr c \<Rightarrow> names c) \<union> S'"
    unfolding book_names.simps names_image bind_eq_Some_conv by blast
  obtain m1 where m1: "(case r of Inl _ \<Rightarrow> Some m | Inr c \<Rightarrow> act_entries (act_of del) (Some all) c m) = Some m1"
    "cases_ok m1" "names m1 = act_spec del (names m) ((case r of Inl _ \<Rightarrow> {} | Inr c \<Rightarrow> names c) \<inter> names all)"
  proof (cases r)
    case (Inl e)
    then show ?thesis using that [of m] Cons.prems(1) by (simp add: act_spec_empty)
  next
    case (Inr c)
    then have "cases_ok c" using r(1) read_book_ok [OF tm] by blast
    from act_entries_names [OF all Cons.prems(1) this, of del] show ?thesis using that Inr by auto
  qed
  from Cons.IH [OF m1(2) r(2)] obtain m' where "act_books tm fs (act_of del) (Some all) bs m1 = Some m'" "cases_ok m'"
    "names m' = act_spec del (names m1) (S' \<inter> names all)" by blast
  then show ?case using r(1) m1(1,3) S by (auto simp: act_spec_twice Int_Un_distrib2)
qed

text \<open>The cases that the arguments pick, out of the built-in ones.\<close>

definition picked :: "cases list \<Rightarrow> BookArgs \<Rightarrow> string set \<Rightarrow> string set" where
  "picked bs args S = names (ALL_BUILTIN bs) \<inter>
     (set (ba_cases args) \<union> S \<union> (if ba_previous_failed args then names (bs ! 4) else {}))"

lemma run_action_names:
  assumes tm: "toml_ok tm" and b: "BUILTINS tm fs = Some bs" and S: "book_names tm fs (ba_books args) = Some S" and m: "cases_ok m"
  shows "\<exists>m'. run_action tm fs (BUILTINS tm fs) args (act_of del) m = Some m' \<and> cases_ok m' \<and>
    names m' = act_spec del (names m) (picked bs args S)"
proof -
  have ok: "length bs = 5" "\<forall>b \<in> set bs. cases_ok b"
    using read_builtins_ok [OF tm b [unfolded BUILTINS_def]] by (simp_all add: BUILTIN_NAMES_def)
  then have all: "cases_ok (ALL_BUILTIN bs)" using all_builtin_ok [of bs "[]"] by (simp add: ALL_BUILTIN_def)
  from act_cases_names [OF all m, of del "ba_cases args"] obtain m1 where m1:
    "act_cases (act_of del) (Some (ALL_BUILTIN bs)) (ba_cases args) m = Some m1" "cases_ok m1"
    "names m1 = act_spec del (names m) (set (ba_cases args) \<inter> names (ALL_BUILTIN bs))" by blast
  from act_books_names [OF tm all m1(2) S, of del] obtain m2 where m2:
    "act_books tm fs (act_of del) (Some (ALL_BUILTIN bs)) (ba_books args) m1 = Some m2" "cases_ok m2"
    "names m2 = act_spec del (names m1) (S \<inter> names (ALL_BUILTIN bs))" by blast
  have "cases_ok (bs ! 4)" using ok by simp
  from act_entries_names [OF all m2(2) this, of del] obtain m3 where m3:
    "act_entries (act_of del) (Some (ALL_BUILTIN bs)) (bs ! 4) m2 = Some m3" "cases_ok m3"
    "names m3 = act_spec del (names m2) (names (bs ! 4) \<inter> names (ALL_BUILTIN bs))" by blast
  have "names m2 = act_spec del (names m) (names (ALL_BUILTIN bs) \<inter> (set (ba_cases args) \<union> S))"
    unfolding m2(3) m1(3) act_spec_twice by (simp add: Int_Un_distrib Int_commute)
  moreover from this have "names m3 = act_spec del (names m) (names (ALL_BUILTIN bs) \<inter> (set (ba_cases args) \<union> S \<union> names (bs ! 4)))"
    unfolding m3(3) by (simp add: act_spec_twice Int_Un_distrib Int_commute Un_assoc)
  ultimately show ?thesis using m1(1) m2(1,2) m3(1,2) by (simp add: run_action_def b picked_def)
qed

text \<open>
  Editing a bookmark. For a name that is not built in, the tool writes a file whose cases are those that the book
  had before together with the ones that the arguments name, or without these in delete mode: cases and the contents of other
  books, as far as they are built-in cases, and the ones that failed in the previous run. The file can be read back, and no other file changes.
\<close>

lemma book_main_correct:
  assumes tm: "toml_ok tm" and n: "ba_name args \<notin> set BUILTIN_NAMES" and nd: "\<not> denied fs (book_path (ba_name args))"
    and b: "BUILTINS tm fs = Some bs" and S: "book_names tm fs (ba_books args) = Some S"
    and r: "read_book tm fs (ba_name args) = Some r" and del: "\<not> (ba_del args \<and> ba_cases args = [])"
  shows "\<exists>fs' cs. book_main tm args fs = Some (Inr (), fs') \<and> read_book tm fs' (ba_name args) = Some (Inr cs) \<and> cases_ok cs \<and>
    names cs = act_spec (ba_del args) (case r of Inl _ \<Rightarrow> {} | Inr c \<Rightarrow> names c) (picked bs args S) \<and>
    (\<forall>path. path \<noteq> book_path (ba_name args) \<longrightarrow> content fs' path = content fs path)"
proof -
  define m where "m = (case r of Inl _ \<Rightarrow> [] | Inr cs \<Rightarrow> hm_extend [] cs)"
  have m: "cases_ok m" "names m = (case r of Inl _ \<Rightarrow> {} | Inr c \<Rightarrow> names c)"
    using r read_book_ok [OF tm] hm_extend_ok [OF cases_ok_Nil] by (auto simp: m_def names_def split: sum.split)
  from run_action_names [OF tm b S m(1), of "ba_del args"] obtain m' where m':
    "run_action tm fs (BUILTINS tm fs) args (act_of (ba_del args)) m = Some m'" "cases_ok m'"
    "names m' = act_spec (ba_del args) (names m) (picked bs args S)" by blast
  from write_read_book [OF tm m'(2) nd] obtain s cs where w:
    "write_book tm (ba_name args) m' fs = Some (Inr (), fs\<lparr>content := (content fs)(book_path (ba_name args) \<mapsto> s)\<rparr>)"
    "read_book tm (fs\<lparr>content := (content fs)(book_path (ba_name args) \<mapsto> s)\<rparr>) (ba_name args) = Some (Inr cs)"
    "cases_ok cs" "map_of cs = map_of m'" by blast
  have "book_main tm args fs = write_book tm (ba_name args) m' fs"
    using n r m'(1) del by (auto simp: book_main_def m_def act_of_def Let_def)
  then show ?thesis using w m'(3) m(2) by (auto simp: names_def)
qed

text \<open>
  The name of a built-in book is refused, but the extension of the name is replaced: a name with another extension
  reaches the same file.
\<close>

lemma builtin_refused: "ba_name args \<in> set BUILTIN_NAMES \<Longrightarrow>
    book_main tm args fs = Some (Inl (Other_error (''Cannot modify built-in bookmark: '' @ ba_name args)), fs)"
  by (simp add: book_main_def)

lemma builtin_reached: "''lab1.x'' \<notin> set BUILTIN_NAMES" "book_path ''lab1.x'' = book_path ''lab1''"
  by (simp_all add: BUILTIN_NAMES_def PREVIOUS_FAILED_BOOK_NAME_def book_path_def last_component_def file_stem_def Let_def)

text \<open>In delete mode without cases the whole file goes, also when other books were named.\<close>

lemma delete_removes_file:
  assumes "ba_name args \<notin> set BUILTIN_NAMES" "ba_del args" "ba_cases args = []" "read_book tm fs (ba_name args) = Some r"
    and "run_action tm fs (BUILTINS tm fs) args act_remove (case r of Inl _ \<Rightarrow> [] | Inr cs \<Rightarrow> hm_extend [] cs) = Some cs"
  shows "book_main tm args fs = Some (remove_file (book_path (ba_name args)) fs)"
  using assms by (simp add: book_main_def Let_def)

text \<open>A pair of a printer and a parser that numbers the documents.\<close>

instance word :: (len) countable
  by (rule countable_classI [of unat]) (simp add: word_unat_eq_iff)

instance toml_value :: countable
  by countable_datatype

definition number_toml :: toml where
  "number_toml = \<lparr>
     tm_parse = (\<lambda>s. let d = from_nat (length s) in if distinct (map fst d) then Some d else None),
     tm_print = (\<lambda>d. Some (replicate (to_nat d) CHR ''x''))\<rparr>"

lemma number_toml_ok: "toml_ok number_toml"
  by (auto simp: toml_ok_def number_toml_def Let_def split: if_splits)

definition lab_files :: "doc \<Rightarrow> files" where
  "lab_files d = \<lparr>content = [''./bookmarks/lab1.toml'' \<mapsto> replicate (to_nat d) CHR ''x''], denied = (\<lambda>_. False)\<rparr>"

definition alarm_doc :: doc where
  "alarm_doc = [(''alarm-zero'', [Str [], Num 2])]"

lemma sample_paths:
  "book_path ''unit'' = ''./bookmarks/unit.toml''" "book_path ''lab1'' = ''./bookmarks/lab1.toml''"
  "book_path ''lab2'' = ''./bookmarks/lab2.toml''" "book_path ''lab3'' = ''./bookmarks/lab3.toml''"
  "book_path ''previous-failed'' = ''./bookmarks/previous-failed.toml''" "book_path ''mine'' = ''./bookmarks/mine.toml''"
  by (simp_all add: book_path_def last_component_def file_stem_def Let_def)

lemma sample_builtins:
  "BUILTINS number_toml (lab_files alarm_doc) = Some [[], [(''alarm-zero'', Case [] (Some 2) None)], [], [], []]"
  by (simp add: BUILTINS_def BUILTIN_NAMES_def PREVIOUS_FAILED_BOOK_NAME_def read_book_def sample_paths lab_files_def
      number_toml_def alarm_doc_def hm_extend_def)

end
