(* ===== verification/Test_Tool.thy ===== *)
theory Test_Tool
  imports Book
begin

text \<open>
  The test runner (\<open>src/tool/src/test.rs\<close>), the build command (\<open>build.rs\<close>) and the dispatch of the tool
  (\<open>main.rs\<close>, \<open>cli.rs\<close>). The processes that it starts are the parameter \<open>'w host\<close>. A started child is
  described by the time at which it ends, in milliseconds, its status and its output; the
  tool's own steps take no time except for the sleeps. The tool is built with the development profile: an
  overflow panics.
\<close>

section \<open>Processes\<close>

record child =
  ch_done :: "nat option"
  ch_success :: bool
  ch_stdout :: string

text \<open>Starting \<open>cargo\<close> and \<open>make\<close>; the flag that the handler of CTRL-C sets.\<close>

record 'w host =
  h_cargo :: "string list \<Rightarrow> 'w \<Rightarrow> child option \<times> 'w"
  h_make :: "string list \<Rightarrow> 'w \<Rightarrow> bool \<times> 'w"
  h_ctrlc :: "'w \<Rightarrow> bool"

record BuildArgs =
  bu_clean :: bool
  bu_rebuild :: bool
  bu_verbose :: bool

fun make_all :: "'w host \<Rightarrow> string list list \<Rightarrow> 'w \<Rightarrow> (io_error + unit) \<times> 'w" where
  "make_all h [] w = (Inr (), w)"
| "make_all h (a # as) w = (let (ok, w) = h_make h a w in if ok then make_all h as w else (Inl Not_found, w))"

definition build_main :: "'w host \<Rightarrow> BuildArgs \<Rightarrow> 'w \<Rightarrow> (io_error + unit) \<times> 'w" where
  "build_main h args w =
     (if bu_rebuild args then make_all h [[''clean-tacos''], []] w
      else if bu_clean args then make_all h [[''clean-tacos'']] w
      else make_all h [[]] w)"

section \<open>Waiting\<close>

datatype wait = Timeout | Output bool string

definition finished :: "child \<Rightarrow> nat \<Rightarrow> bool" where
  "finished ch t = (case ch_done ch of None \<Rightarrow> False | Some d \<Rightarrow> d \<le> t)"

text \<open>The first second is a busy loop; afterwards the child is polled once per second.\<close>

definition busy_wait :: "child \<Rightarrow> nat" where
  "busy_wait ch = (case ch_done ch of None \<Rightarrow> 1000 | Some d \<Rightarrow> min d 1000)"

function wait_poll :: "child \<Rightarrow> nat \<Rightarrow> nat \<Rightarrow> wait" where
  "wait_poll ch limit t =
     (if finished ch t then Output (ch_success ch) (ch_stdout ch)
      else if limit \<le> (t + 1000) div 1000 then Timeout
      else wait_poll ch limit (t + 1000))"
  by pat_completeness auto
termination by (relation "measure (\<lambda>(ch, limit, t). limit * 1000 - t)") auto

declare wait_poll.simps [simp del]

definition wait_timeout :: "child \<Rightarrow> nat \<Rightarrow> wait" where
  "wait_timeout ch limit =
     (let t = busy_wait ch
      in if limit \<le> t div 1000 then Timeout else wait_poll ch limit t)"

section \<open>The verdict\<close>

text \<open>\<open>str::lines\<close>: a line ends with a line feed, or a carriage return and a line feed.\<close>

definition strip_cr :: "string \<Rightarrow> string" where
  "strip_cr l = (if l \<noteq> [] \<and> last l = CHR 0x0D then butlast l else l)"

function split_lines :: "string \<Rightarrow> string list" where
  "split_lines s =
     (if s = [] then []
      else let l = takeWhile (\<lambda>c. c \<noteq> CHR 0x0A) s;
               rest = drop (length l) s
           in if rest = [] then [l] else strip_cr l # split_lines (tl rest))"
  by pat_completeness auto
termination by (relation "measure length") (auto simp: length_takeWhile_le less_Suc_eq_le Suc_diff_le diff_less_Suc)

declare split_lines.simps [simp del]

definition str_contains :: "string \<Rightarrow> string \<Rightarrow> bool" where
  "str_contains pat s \<longleftrightarrow> list_ex (\<lambda>i. take (length pat) (drop i s) = pat) [0..<Suc (length s)]"

text \<open>The names of the cases that passed, and of those that failed.\<close>

type_synonym test_record = "string list \<times> string list"

definition pass :: "string \<Rightarrow> test_record \<Rightarrow> test_record" where
  "pass k r = (fst r @ [k], snd r)"

definition fail :: "string \<Rightarrow> test_record \<Rightarrow> test_record" where
  "fail k r = (fst r, snd r @ [k])"

definition said_goodbye :: "string \<Rightarrow> bool" where
  "said_goodbye out \<longleftrightarrow> split_lines out \<noteq> [] \<and> str_contains ''Goodbye, World!'' (last (split_lines out))"

text \<open>The output of a failed case is shown from line \<open>len - 10\<close> on, which overflows when there are fewer lines.\<close>

definition check :: "string \<Rightarrow> wait \<Rightarrow> test_record \<Rightarrow> test_record option" where
  "check k out r =
     (case out of
        Timeout \<Rightarrow> Some (fail k r)
      | Output success stdout \<Rightarrow>
          if success then
            if said_goodbye stdout then Some (pass k r)
            else if length (split_lines stdout) < 10 then None
            else Some (fail k r)
          else Some r)"

section \<open>Running the cases\<close>

datatype runner = Dry_run | Verbose_run | Run_case

definition run_case :: "'w host \<Rightarrow> runner \<Rightarrow> bool \<Rightarrow> cases \<Rightarrow> string \<Rightarrow> string list \<Rightarrow> test_record \<Rightarrow> 'w \<Rightarrow> (test_record \<times> 'w) option" where
  "run_case h rn gdb all k args r w =
     (case rn of
        Dry_run \<Rightarrow> Some (r, w)
      | Verbose_run \<Rightarrow> Some (r, snd (h_cargo h args w))
      | Run_case \<Rightarrow>
          (let (ch, w) = h_cargo h args w
           in case ch of
                None \<Rightarrow> Some (r, w)
              | Some ch \<Rightarrow>
                  if gdb then Some (r, w)
                  else do {
                    t \<leftarrow> timeout all k;
                    r \<leftarrow> check k (wait_timeout ch (unat t)) r;
                    Some (r, w)
                  }))"

text \<open>The command lines of \<open>test_krnl\<close>, and of \<open>test_schedule\<close> and \<open>test_user\<close>, with the changes for the debugger.\<close>

definition krnl_args :: "bool \<Rightarrow> string \<Rightarrow> test_case \<Rightarrow> string list" where
  "krnl_args gdb k v =
     (if gdb then [''run'', ''-q'', ''-F'', ''test-'' @ k, ''--'', ''-s'', ''-S'']
      else [''run'', ''-r'', ''-q'', ''-F'', ''test-'' @ k])"

definition append_args :: "string \<Rightarrow> bool \<Rightarrow> string \<Rightarrow> test_case \<Rightarrow> string list" where
  "append_args feature gdb k v =
     (let args = k @ (if case_args v \<noteq> [] then '' '' else []) @ case_args v
      in if gdb then [''run'', ''-q'', ''-F'', feature, ''--'', ''-append'', args, ''-s'', ''-S'']
         else [''run'', ''-r'', ''-q'', ''-F'', feature, ''--'', ''-append'', args])"

fun test_loop :: "'w host \<Rightarrow> runner \<Rightarrow> bool \<Rightarrow> cases \<Rightarrow> (bool \<Rightarrow> string \<Rightarrow> test_case \<Rightarrow> string list) \<Rightarrow> cases \<Rightarrow>
    test_record \<Rightarrow> 'w \<Rightarrow> (test_record \<times> 'w) option" where
  "test_loop h rn gdb all mk [] r w = Some (r, w)"
| "test_loop h rn gdb all mk ((k, v) # cs) r w = do {
     (r, w) \<leftarrow> run_case h rn gdb all k (mk gdb k v) r w;
     if h_ctrlc h w then Some (r, w) else test_loop h rn gdb all mk cs r w
   }"

definition checked_add :: "usize \<Rightarrow> usize \<Rightarrow> usize option" where
  "checked_add a b = (if unat a + unat b < 2 ^ 64 then Some (a + b) else None)"

fun grade_sum :: "cases \<Rightarrow> string list \<Rightarrow> usize \<Rightarrow> usize option" where
  "grade_sum all [] n = Some n"
| "grade_sum all (k # ks) n = do {
     g \<leftarrow> grade all k;
     n \<leftarrow> checked_add n g;
     grade_sum all ks n
   }"

definition grading :: "cases \<Rightarrow> test_record \<Rightarrow> (usize \<times> usize) option" where
  "grading all r = do {
     p \<leftarrow> grade_sum all (fst r) 0;
     t \<leftarrow> grade_sum all (snd r) p;
     Some (p, t)
   }"

definition test_build :: "'w host \<Rightarrow> 'w \<Rightarrow> (io_error + unit) \<times> 'w" where
  "test_build h w = build_main h \<lparr>bu_clean = False, bu_rebuild = True, bu_verbose = False\<rparr> w"

definition suppress :: "TestArgs \<Rightarrow> TestArgs" where
  "suppress args = (if ta_verbose args then args\<lparr>ta_gdb := False, ta_previous_failed := False, ta_grade := False\<rparr> else args)"

text \<open>\<open>main\<close>: the result, the record, the files and the processes.\<close>

definition test_main :: "toml \<Rightarrow> 'w host \<Rightarrow> TestArgs \<Rightarrow> files \<Rightarrow> 'w \<Rightarrow> ((io_error + unit) \<times> test_record \<times> files \<times> 'w) option" where
  "test_main tm h args fs w =
     (let (b, w) = (if ta_dry args then (Inr (), w) else test_build h w)
      in case b of
           Inl e \<Rightarrow> Some (Inl e, ([], []), fs, w)
         | Inr _ \<Rightarrow> do {
             bs \<leftarrow> BUILTINS tm fs;
             (unit, lab1, lab2, lab3) \<leftarrow> test_cases tm fs bs args;
             let args = suppress args;
             let all = ALL_BUILTIN bs;
             rust_assert (ta_gdb args \<longrightarrow> length unit + length lab1 + length lab2 + length lab3 \<le> 1);
             let rn = (if ta_dry args then Dry_run else if ta_verbose args then Verbose_run else Run_case);
             (r, w) \<leftarrow> test_loop h rn (ta_gdb args) all krnl_args unit ([], []) w;
             (r, w) \<leftarrow> test_loop h rn (ta_gdb args) all (append_args ''test-schedule'') lab1 r w;
             (r, w) \<leftarrow> test_loop h rn (ta_gdb args) all (append_args ''test-user'') lab2 r w;
             (r, w) \<leftarrow> test_loop h rn (ta_gdb args) all (append_args ''test-user'') lab3 r w;
             if \<not> ta_dry args \<and> \<not> ta_gdb args \<and> \<not> h_ctrlc h w then do {
               _ \<leftarrow> (if ta_grade args then map_option (\<lambda>_. ()) (grading all r) else Some ());
               (res, fs) \<leftarrow> write_previous_failed tm bs (snd r) fs;
               Some (res, r, fs, w)
             } else Some (Inr (), r, fs, w)
           })"



section \<open>The time limit\<close>

lemma wait_poll_correct:
  assumes d: "ch_done ch = Some d"
  shows "j < limit \<Longrightarrow> wait_poll ch limit (1000 * j) =
    (if d \<le> 1000 * j \<or> d \<le> 1000 * (limit - 1) then Output (ch_success ch) (ch_stdout ch) else Timeout)"
proof (induction "limit - j" arbitrary: j rule: less_induct)
  case less
  show ?case
  proof (cases "d \<le> 1000 * j")
    case True
    then show ?thesis by (subst wait_poll.simps) (simp add: finished_def d)
  next
    case False
    show ?thesis
    proof (cases "Suc j < limit")
      case True
      have "wait_poll ch limit (1000 * Suc j) =
          (if d \<le> 1000 * Suc j \<or> d \<le> 1000 * (limit - 1) then Output (ch_success ch) (ch_stdout ch) else Timeout)"
        by (rule less.hyps) (use True in simp_all)
      moreover have "wait_poll ch limit (1000 * j) = wait_poll ch limit (1000 * Suc j)"
        using False True by (subst wait_poll.simps) (simp add: finished_def d add.commute)
      moreover have "1000 * Suc j \<le> 1000 * (limit - 1)" using True by simp
      ultimately show ?thesis using False by auto
    next
      case last: False
      then have "limit - 1 = j" using less.prems by simp
      then show ?thesis using False last by (subst wait_poll.simps) (simp add: finished_def d)
    qed
  qed
qed

text \<open>
  A case is stopped when it has not ended one second before its limit, since the limit is checked after each sleep and
  before the child is looked at.
\<close>

lemma wait_timeout_correct:
  assumes d: "ch_done ch = Some d"
  shows "wait_timeout ch limit =
    (if 0 < limit \<and> (d < 1000 \<or> d \<le> 1000 * (limit - 1)) then Output (ch_success ch) (ch_stdout ch) else Timeout)"
proof (cases "d < 1000")
  case True
  then show ?thesis
    by (subst wait_timeout_def, subst wait_poll.simps) (auto simp: busy_wait_def d finished_def Let_def)
next
  case False
  then show ?thesis
    using wait_poll_correct [OF d, of 1 limit] by (auto simp: wait_timeout_def busy_wait_def d Let_def)
qed

lemma wait_poll_never:
  assumes "ch_done ch = None"
  shows "wait_poll ch limit t = Timeout"
  using assms
proof (induction ch limit t rule: wait_poll.induct)
  case (1 ch limit t)
  then show ?case by (subst wait_poll.simps) (simp add: finished_def)
qed

section \<open>Verdicts\<close>

datatype verdict = Passed | Failed | No_verdict

definition limit_of :: "cases \<Rightarrow> string \<Rightarrow> nat" where
  "limit_of all k = (case timeout all k of None \<Rightarrow> 0 | Some t \<Rightarrow> unat t)"

definition verdict :: "child option \<Rightarrow> nat \<Rightarrow> verdict" where
  "verdict ch limit =
     (case ch of
        None \<Rightarrow> No_verdict
      | Some ch \<Rightarrow> (case wait_timeout ch limit of
          Timeout \<Rightarrow> Failed
        | Output success stdout \<Rightarrow> if \<not> success then No_verdict else if said_goodbye stdout then Passed else Failed))"

fun verdicts :: "'w host \<Rightarrow> cases \<Rightarrow> (bool \<Rightarrow> string \<Rightarrow> test_case \<Rightarrow> string list) \<Rightarrow> cases \<Rightarrow> 'w \<Rightarrow> (string \<times> verdict) list \<times> 'w" where
  "verdicts h all mk [] w = ([], w)"
| "verdicts h all mk ((k, v) # cs) w =
     (let (ch, w) = h_cargo h (mk False k v) w;
          e = (k, verdict ch (limit_of all k))
      in if h_ctrlc h w then ([e], w) else let (vs, w) = verdicts h all mk cs w in (e # vs, w))"

definition with_verdict :: "verdict \<Rightarrow> (string \<times> verdict) list \<Rightarrow> string list" where
  "with_verdict x vs = map fst (filter (\<lambda>(k, y). y = x) vs)"

text \<open>No kernel stops with fewer than ten lines of output and no farewell.\<close>

definition talkative :: "'w host \<Rightarrow> bool" where
  "talkative h \<longleftrightarrow> (\<forall>args w ch. fst (h_cargo h args w) = Some ch \<longrightarrow> said_goodbye (ch_stdout ch) \<or> 10 \<le> length (split_lines (ch_stdout ch)))"

lemma wait_output: "wait_timeout ch limit = Output s out \<Longrightarrow> out = ch_stdout ch \<and> s = ch_success ch"
proof (cases "ch_done ch")
  case None
  assume "wait_timeout ch limit = Output s out"
  then show ?thesis using wait_poll_never [OF None] by (auto simp: wait_timeout_def Let_def split: if_splits)
next
  case (Some d)
  assume "wait_timeout ch limit = Output s out"
  then show ?thesis by (auto simp: wait_timeout_correct [OF Some] split: if_splits)
qed

lemma timeout_known: "k \<in> names all \<Longrightarrow> \<exists>t. timeout all k = Some t"
  by (auto simp: timeout_def names_def split: option.splits)

lemma run_case_verdict:
  assumes t: "talkative h" and k: "k \<in> names all" and x_def: "x = verdict (fst (h_cargo h args w)) (limit_of all k)"
  shows "run_case h Run_case False all k args r w =
    Some ((fst r @ with_verdict Passed [(k, x)], snd r @ with_verdict Failed [(k, x)]), snd (h_cargo h args w))"
proof (cases "fst (h_cargo h args w)")
  case None
  then show ?thesis by (simp add: run_case_def x_def verdict_def with_verdict_def case_prod_beta Let_def)
next
  case (Some ch)
  obtain n where n: "timeout all k = Some n" using timeout_known [OF k] by blast
  have "said_goodbye (ch_stdout ch) \<or> \<not> length (split_lines (ch_stdout ch)) < 10"
    using t Some unfolding talkative_def by (metis not_less)
  then show ?thesis
    using Some n wait_output [of ch "unat n"]
    by (cases "wait_timeout ch (unat n)")
      (auto simp: run_case_def x_def verdict_def with_verdict_def case_prod_beta Let_def check_def pass_def fail_def limit_of_def)
qed

lemma with_verdict_Cons: "with_verdict x (e # vs) = with_verdict x [e] @ with_verdict x vs"
  by (simp add: with_verdict_def)

text \<open>
  The record of a run. The tool runs the cases one after the other until CTRL-C is pressed. A case is recorded as passed
  exactly if its kernel ended in time, with success, and with the farewell in its last line, and as failed if it
  ran out of time or said something else at the end; a process that could not be started or ended with an error leaves no record.
\<close>

lemma test_loop_verdicts:
  assumes "talkative h" "names cs \<subseteq> names all"
  shows "test_loop h Run_case False all mk cs r w =
    (let (vs, w') = verdicts h all mk cs w
     in Some ((fst r @ with_verdict Passed vs, snd r @ with_verdict Failed vs), w'))"
  using assms(2)
proof (induction cs arbitrary: r w)
  case Nil
  then show ?case by (simp add: with_verdict_def)
next
  case (Cons c cs)
  obtain k v where c: "c = (k, v)" by fastforce
  have k: "k \<in> names all" "names cs \<subseteq> names all" using Cons.prems by (auto simp: names_def c)
  show ?case
    by (simp add: c run_case_verdict [OF assms(1) k(1) refl] Cons.IH [OF k(2)] case_prod_beta Let_def
        with_verdict_Cons [of _ "(k, _)" "fst _"])
qed

text \<open>A host on which one kernel says goodbye and every other one hangs.\<close>

definition sample_host :: "nat host" where
  "sample_host = \<lparr>
     h_cargo = (\<lambda>args w.
       (Some \<lparr>ch_done = (if args ! 4 = ''test-a'' then Some 300 else None), ch_success = True,
          ch_stdout = ''Goodbye, World!'' @ [CHR 0x0A]\<rparr>, Suc w)),
     h_make = (\<lambda>_ w. (True, w)),
     h_ctrlc = (\<lambda>_. False)\<rparr>"

lemma sample_goodbye: "said_goodbye (''Goodbye, World!'' @ [CHR 0x0A])"
  by (simp add: said_goodbye_def split_lines.simps strip_cr_def str_contains_def)

lemma sample_talkative: "talkative sample_host"
  using sample_goodbye by (auto simp: talkative_def sample_host_def)

text \<open>A short output without the farewell makes the tool itself panic.\<close>

lemma short_output_panics: "check ''a'' (Output True ''panicked'') r = None"
  by (simp add: check_def said_goodbye_def split_lines.simps str_contains_def)

section \<open>Grading\<close>

definition points :: "cases \<Rightarrow> string \<Rightarrow> nat" where
  "points all k = (case grade all k of None \<Rightarrow> 0 | Some g \<Rightarrow> unat g)"

lemma grade_known: "k \<in> names all \<Longrightarrow> \<exists>g. grade all k = Some g"
  by (auto simp: grade_def names_def split: option.splits)

lemma grade_sum_correct:
  assumes "set ks \<subseteq> names all"
  shows "unat n + (\<Sum>k \<leftarrow> ks. points all k) < 2 ^ 64 \<Longrightarrow>
    \<exists>m. grade_sum all ks n = Some m \<and> unat m = unat n + (\<Sum>k \<leftarrow> ks. points all k)"
  using assms
proof (induction ks arbitrary: n)
  case (Cons k ks)
  obtain g where g: "grade all k = Some g" using grade_known [of k all] Cons.prems(2) by auto
  then have p: "points all k = unat g" by (simp add: points_def)
  have lt: "unat n + unat g < 2 ^ 64" using Cons.prems(1) p by simp
  then have u: "unat (n + g) = unat n + unat g" by (simp add: unat_add_no_wrap)
  have "unat (n + g) + (\<Sum>k \<leftarrow> ks. points all k) < 2 ^ 64" using Cons.prems(1) p u by simp
  from Cons.IH [OF this] Cons.prems(2) obtain m where
    "grade_sum all ks (n + g) = Some m" "unat m = unat (n + g) + (\<Sum>k \<leftarrow> ks. points all k)" by auto
  then show ?case using g lt p u by (simp add: checked_add_def)
qed simp

text \<open>
  The grade. For recorded cases that are built in, the tool reports the sum of the grades of the cases that passed and that of all
  recorded cases, where a case without a grade counts one point; the first is never more than the second. Below the range of \<open>usize\<close> no
  addition overflows.
\<close>

lemma grading_correct:
  assumes "set (fst r) \<union> set (snd r) \<subseteq> names all"
    and "(\<Sum>k \<leftarrow> fst r @ snd r. points all k) < 2 ^ 64"
  shows "\<exists>p t. grading all r = Some (p, t) \<and> unat p = (\<Sum>k \<leftarrow> fst r. points all k) \<and>
    unat t = (\<Sum>k \<leftarrow> fst r @ snd r. points all k) \<and> p \<le> t"
proof -
  have s: "set (fst r) \<subseteq> names all" "set (snd r) \<subseteq> names all" using assms(1) by auto
  from grade_sum_correct [OF s(1), of 0] assms(2) obtain p where
    p: "grade_sum all (fst r) 0 = Some p" "unat p = (\<Sum>k \<leftarrow> fst r. points all k)" by auto
  from grade_sum_correct [OF s(2), of p] assms(2) p(2) obtain t where
    t: "grade_sum all (snd r) p = Some t" "unat t = unat p + (\<Sum>k \<leftarrow> snd r. points all k)" by auto
  then show ?thesis using p by (simp add: grading_def word_le_nat_alt)
qed

section \<open>Running the failed cases again\<close>

lemma read_book_cong: "content fs' (book_path n) = content fs (book_path n) \<Longrightarrow> read_book tm fs' n = read_book tm fs n"
  by (simp add: read_book_def)

lemma from_builtin_names:
  assumes "cases_ok b"
  shows "names (from_builtin b S) = names b \<inter> S"
proof -
  have "cases_ok (filter (\<lambda>(k, v). k \<in> S) b)"
    using assms by (auto simp: cases_ok_def distinct_map_filter)
  then have "names (from_builtin b S) = names (filter (\<lambda>(k, v). k \<in> S) b)"
    by (simp add: from_builtin_def names_def hm_extend_dom)
  then show ?thesis unfolding names_image [symmetric] by force
qed

lemma failed_book:
  assumes tm: "toml_ok tm" and b: "BUILTINS tm fs = Some bs" and nd: "\<not> denied fs (book_path PREVIOUS_FAILED_BOOK_NAME)"
  shows "\<exists>fs' b4. write_previous_failed tm bs failed fs = Some (Inr (), fs') \<and>
    BUILTINS tm fs' = Some [bs ! 0, bs ! 1, bs ! 2, bs ! 3, b4] \<and> cases_ok b4 \<and>
    names b4 = set failed \<inter> names (ALL_BUILTIN bs)"
proof -
  have ok: "length bs = 5" "\<forall>b \<in> set bs. cases_ok b"
    using read_builtins_ok [OF tm b [unfolded BUILTINS_def]] by (simp_all add: BUILTIN_NAMES_def)
  then have all: "cases_ok (ALL_BUILTIN bs)" using all_builtin_ok [of bs "[]"] by (simp add: ALL_BUILTIN_def)
  from act_cases_names [OF all cases_ok_Nil, of False failed] obtain m where
    m: "act_cases act_insert (Some (ALL_BUILTIN bs)) failed [] = Some m" "cases_ok m"
      "names m = set failed \<inter> names (ALL_BUILTIN bs)"
    by (auto simp: act_of_def act_spec_def) (simp add: names_def)
  from write_read_book [OF tm m(2) nd] obtain s cs where
    w: "write_book tm PREVIOUS_FAILED_BOOK_NAME m fs =
        Some (Inr (), fs\<lparr>content := (content fs)(book_path PREVIOUS_FAILED_BOOK_NAME \<mapsto> s)\<rparr>)"
      "read_book tm (fs\<lparr>content := (content fs)(book_path PREVIOUS_FAILED_BOOK_NAME \<mapsto> s)\<rparr>) PREVIOUS_FAILED_BOOK_NAME = Some (Inr cs)"
      "cases_ok cs" "map_of cs = map_of m" by blast
  define fs' where "fs' = fs\<lparr>content := (content fs)(book_path PREVIOUS_FAILED_BOOK_NAME \<mapsto> s)\<rparr>"
  have same: "read_book tm fs' n = read_book tm fs n" if "n \<in> {''unit'', ''lab1'', ''lab2'', ''lab3''}" for n
    by (rule read_book_cong) (use that in \<open>auto simp: fs'_def PREVIOUS_FAILED_BOOK_NAME_def sample_paths\<close>)
  have "BUILTINS tm fs' = Some [bs ! 0, bs ! 1, bs ! 2, bs ! 3, hm_extend [] cs]"
    using b w(2) [folded fs'_def] same
    by (auto simp: BUILTINS_def BUILTIN_NAMES_def bind_eq_Some_conv)
  moreover have "names (hm_extend [] cs) = names m" using w(3,4) by (simp add: names_def hm_extend_dom)
  ultimately show ?thesis
    using m(1,3) w(1) hm_extend_ok [OF cases_ok_Nil w(3)] by (auto simp: write_previous_failed_def fs'_def)
qed

text \<open>The arguments of \<open>tool test --previous-failed\<close>.\<close>

definition rerun_args :: TestArgs where
  "rerun_args = \<lparr>ta_cases = [], ta_books = [], ta_previous_failed = True, ta_dry = False, ta_gdb = False, ta_grade = False, ta_verbose = False\<rparr>"

lemma rerun_selects:
  assumes tm: "toml_ok tm" and b: "BUILTINS tm fs = Some bs" and nd: "\<not> denied fs (book_path PREVIOUS_FAILED_BOOK_NAME)"
    and w: "write_previous_failed tm bs failed fs = Some (res, fs')"
  shows "res = Inr () \<and> (\<exists>bs' u l1 l2 l3. BUILTINS tm fs' = Some bs' \<and> test_cases tm fs' bs' rerun_args = Some (u, l1, l2, l3) \<and>
    map names [u, l1, l2, l3] = map (\<lambda>b. names b \<inter> set failed) [bs ! 0, bs ! 1, bs ! 2, bs ! 3])"
proof -
  from failed_book [OF tm b nd, of failed] w obtain b4 where
    f: "res = Inr ()" "BUILTINS tm fs' = Some [bs ! 0, bs ! 1, bs ! 2, bs ! 3, b4]" "cases_ok b4"
      "names b4 = set failed \<inter> names (ALL_BUILTIN bs)" by auto
  have ok: "length bs = 5" "\<forall>b \<in> set bs. cases_ok b"
    using read_builtins_ok [OF tm b [unfolded BUILTINS_def]] by (simp_all add: BUILTIN_NAMES_def)
  have sub: "names b \<subseteq> names (ALL_BUILTIN bs)" if "b \<in> set bs" for b
    using all_builtin_ok [OF ok(2) cases_ok_Nil] that by (auto simp: ALL_BUILTIN_def names_def)
  have one: "names (from_builtin b (names b4)) = names b \<inter> set failed" if "b \<in> set bs" for b
    using from_builtin_names [of b "names b4"] ok(2) that sub [OF that] f(4) by auto
  have "test_cases tm fs' [bs ! 0, bs ! 1, bs ! 2, bs ! 3, b4] rerun_args =
      Some (from_builtin (bs ! 0) (names b4), from_builtin (bs ! 1) (names b4), from_builtin (bs ! 2) (names b4), from_builtin (bs ! 3) (names b4))"
    by (simp add: test_cases_def rerun_args_def names_image numeral_3_eq_3 numeral_2_eq_2 Let_def)
  then show ?thesis using f(1,2) one ok(1) by simp
qed

text \<open>
  C39. Running the failed cases again. After a test run that was neither interrupted nor verbose, dry or under the debugger, a run with
  \<open>--previous-failed\<close> selects, in each of the four groups, exactly the cases that are recorded as failed.
\<close>

theorem rerun_failed:
  assumes tm: "toml_ok tm" and b: "BUILTINS tm fs = Some bs" and nd: "\<not> denied fs (book_path PREVIOUS_FAILED_BOOK_NAME)"
    and run: "test_main tm h args fs w = Some (Inr (), r, fs', w')"
    and m: "\<not> ta_dry args" "\<not> ta_gdb args" "\<not> h_ctrlc h w'"
  shows "\<exists>bs' u l1 l2 l3. BUILTINS tm fs' = Some bs' \<and> test_cases tm fs' bs' rerun_args = Some (u, l1, l2, l3) \<and>
    map names [u, l1, l2, l3] = map (\<lambda>b. names b \<inter> set (snd r)) [bs ! 0, bs ! 1, bs ! 2, bs ! 3]"
proof -
  have s: "\<not> ta_dry (suppress args)" "\<not> ta_gdb (suppress args)" using m by (simp_all add: suppress_def)
  have "\<exists>res. write_previous_failed tm bs (snd r) fs = Some (res, fs')"
    using run b m s
    by (auto simp: test_main_def bind_eq_Some_conv Let_def case_prod_beta split: sum.splits if_splits)
  then show ?thesis using rerun_selects [OF tm b nd] by blast
qed

definition alarm_args :: TestArgs where
  "alarm_args = \<lparr>ta_cases = [''alarm-zero''], ta_books = [], ta_previous_failed = False, ta_dry = False, ta_gdb = False, ta_grade = True, ta_verbose = False\<rparr>"

lemma sample_test_run:
  "\<exists>fs'. test_main number_toml sample_host alarm_args (lab_files alarm_doc) 0 = Some (Inr (), ([], [''alarm-zero'']), fs', 1)"
proof -
  let ?c = "(''alarm-zero'', Case [] (Some 2) None)"
  let ?bs = "[[], [?c], [], [], []]"
  have nd: "\<not> denied (lab_files alarm_doc) (book_path PREVIOUS_FAILED_BOOK_NAME)" by (simp add: lab_files_def)
  obtain fs' where f: "write_previous_failed number_toml ?bs [''alarm-zero''] (lab_files alarm_doc) = Some (Inr (), fs')"
    using failed_book [OF number_toml_ok sample_builtins nd] by blast
  have t: "wait_timeout ch 60 = Timeout" if "ch_done ch = None" for ch
    using wait_poll_never [OF that] by (simp add: wait_timeout_def busy_wait_def that Let_def)
  have all: "ALL_BUILTIN ?bs = [?c]" by (simp add: ALL_BUILTIN_def hm_extend_def)
  have c: "test_cases number_toml (lab_files alarm_doc) ?bs alarm_args = Some ([], [?c], [], [])"
    by (simp add: test_cases_def alarm_args_def from_builtin_def hm_extend_def Let_def)
  have "test_loop sample_host Run_case False [?c] (append_args ''test-schedule'') [?c] ([], []) 0 = Some (([], [''alarm-zero'']), 1)"
    by (simp add: run_case_def sample_host_def append_args_def timeout_def DEFAULT_TIMEOUT_def t check_def fail_def Let_def)
  moreover have "test_build sample_host 0 = (Inr (), 0)"
    by (simp add: test_build_def build_main_def sample_host_def)
  moreover have "grading [?c] ([], [''alarm-zero'']) = Some (0, 2)"
    by (simp add: grading_def grade_def checked_add_def)
  ultimately show ?thesis
    using f c sample_builtins all
    by (simp add: test_main_def suppress_def alarm_args_def Let_def) (simp add: sample_host_def)
qed

theorem rerun_failed_witness:
  "\<exists>fs' bs' u l1 l2 l3. BUILTINS number_toml fs' = Some bs' \<and> test_cases number_toml fs' bs' rerun_args = Some (u, l1, l2, l3) \<and>
     names l1 = {''alarm-zero''} \<and> names l2 = {}"
proof -
  obtain fs' where r: "test_main number_toml sample_host alarm_args (lab_files alarm_doc) 0 = Some (Inr (), ([], [''alarm-zero'']), fs', 1)"
    using sample_test_run by blast
  have nd: "\<not> denied (lab_files alarm_doc) (book_path PREVIOUS_FAILED_BOOK_NAME)" by (simp add: lab_files_def)
  from rerun_failed [OF number_toml_ok sample_builtins nd r] obtain bs' u l1 l2 l3 where
    "BUILTINS number_toml fs' = Some bs'" "test_cases number_toml fs' bs' rerun_args = Some (u, l1, l2, l3)"
    "map names [u, l1, l2, l3] = map (\<lambda>b. names b \<inter> {''alarm-zero''}) [[], [(''alarm-zero'', Case [] (Some 2) None)], [], []]"
    by (auto simp: alarm_args_def sample_host_def)
  then show ?thesis
    by (intro exI [of _ fs'] exI [of _ bs'] exI [of _ u] exI [of _ l1] exI [of _ l2] exI [of _ l3]) (simp add: names_def)
qed

text \<open>A verbose run records nothing, and so leaves an empty book of failed cases behind.\<close>

lemma verbose_loop: "\<exists>w'. test_loop h Verbose_run gdb all mk cs r w = Some (r, w')"
  by (induction cs arbitrary: w) (auto simp: run_case_def)

lemma verbose_forgets:
  assumes "test_main tm h args fs w = Some (Inr (), r, fs', w')" "ta_verbose args" "\<not> ta_dry args"
  shows "r = ([], [])"
proof -
  have "test_loop h Verbose_run g all mk cs r1 w1 = Some (r2, w2) \<Longrightarrow> r2 = r1" for g all mk cs r1 w1 r2 w2
    using verbose_loop [of h g all mk cs r1 w1] by auto
  then show ?thesis
    using assms
    by (auto simp: test_main_def suppress_def bind_eq_Some_conv Let_def case_prod_beta split: sum.splits if_splits) metis+
qed

section \<open>Well-formed files\<close>













end
