(* ===== verification/Spec2Isabelle.thy ===== *)
theory Spec2Isabelle
  imports Inmem Condvar Wake Process Kernel_Main Test_Tool
begin

text \<open>
  Verification of Tacos, a teaching kernel for 64-bit RISC-V written in Rust (\<open>src/src\<close>), and of the tool that
  builds and tests it (\<open>src/tool/src\<close>). The definitions translate the source function by function; the
  theorems state what the operations guarantee, on every branch, and where the code does not do what it means to do.

  \<^bold>\<open>The program.\<close> The boot code turns on a first page table and jumps to \<open>main\<close>, which reads the device tree, gives the
  free memory to a buddy allocator for pages and a pool of user pages, builds the page table of the kernel over the kernel
  heap, and enables traps and interrupts. Threads are scheduled by priority, preempted by timer ticks, and synchronise with semaphores,
  sleep locks with priority donation and condition variables. The disk file system stores inodes, a bitmap of free sectors and one
  directory on a virtio block device. User programs are loaded from ELF files into a copy of the kernel's table; they come back to the
  kernel through the trap code. The tool keeps bookmarks of test cases, runs them in an emulator and judges the text of the console.

  \<^bold>\<open>Conventions.\<close> Machine integers are words of their width and wrap around, as in the release profile in which the kernel
  runs; the test tool is built with the development profile, where an overflow panics. A panic is \<open>None\<close>; an
  \<open>Err\<close> is \<open>Inl\<close>. Structures are records, enumerations datatypes, and stateful functions return the new state. Memory is a map from the addresses of
  aligned cells to the 64-bit words in them; where bytes matter they are taken from the cells. Loops that end by their structure are
  \<open>fun\<close>; \<open>while\<close> loops over memory and streams are \<open>partial_function (option)\<close>, with theorems that they return, and no definition
  uses fuel except \<open>wake_due\<close>, whose bound is the length of the sleep queue at its start, which never grows in the loop.
  The kernel runs on one hart. Code that runs with interrupts off, and code under a lock that is not released inside, is
  one transition; a function that may call the scheduler in its middle is cut there, and other threads act between the parts.

  \<^bold>\<open>Parameters.\<close> What is not part of the sources is an argument: the devices behind volatile accesses (\<open>'d mmio\<close> with what they
  do to memory), the firmware and the clock (\<open>'f sbi\<close>), the device tree parser, the ELF parser, the choice of the binary heap among
  equal elements, addresses given by the linker (\<open>lnk\<close>, the list \<open>da\<close> of the eight descriptors of the
  heap, the image), the addresses of buffers and boxed closures, the TOML printer and parser, and the processes that the tool starts. The theorems
  that depend on their behaviour state it as a hypothesis, with a concrete instance in the witness.

  \<^bold>\<open>Foundations.\<close> \<open>Tacos_Prelude\<close>: integer types, errors (\<open>error.rs\<close>), slices, the integer functions of the standard library, shared lemmas.
  \<open>Riscv\<close>: registers, control registers, the instructions of the assembly blocks, traps and \<open>sret\<close>.

  \<^bold>\<open>Memory.\<close> \<open>Mem_Utils\<close> (\<open>mem/layout.rs\<close>, \<open>mem/utils.rs\<close>, \<open>translate\<close> of \<open>mem.rs\<close>): layout constants, rounding, physical
  addresses. \<open>In_Mem_List\<close> (\<open>mem/utils/list.rs\<close>): the free list inside the free memory, related to a list of addresses.
  \<open>Page_Allocator_Spec\<close>: the locale of a page allocator that its clients use. \<open>Buddy\<close> (\<open>mem/palloc.rs\<close>) interprets it: allocation, merging
  and \<open>insert_range\<close> follow the set of free bytes exactly. \<open>Malloc\<close> and \<open>Kernel_Heap\<close> (\<open>mem/malloc.rs\<close>): arenas and descriptors; blocks
  are aligned and disjoint, and freeing gives their bytes back. \<open>Page_Table\<close> and \<open>Kernel_Space\<close>
  (\<open>mem/pagetable.rs\<close>, \<open>mem/pagetable/entry.rs\<close>, \<open>mem.rs\<close>): the tree of tables, \<open>map\<close>, \<open>get_pte\<close>, \<open>destroy\<close>, the table of the kernel
  and \<open>mem::init\<close>.

  \<^bold>\<open>Boot and console.\<close> \<open>Sbi\<close> (\<open>sbi.rs\<close>, \<open>sbi/console.rs\<close>, \<open>sbi/timer.rs\<close>, \<open>sbi/interrupt.rs\<close>, the panic handler): calls of the firmware, lines on the
  console, readings of the clock. \<open>Boot\<close> (\<open>boot.rs\<close>): the entry code, the entry page table, and the Sv39 translation of
  the hardware, which agrees with the software's reading of the tables. \<open>Kernel_Main\<close> (\<open>main.rs\<close>): the initialisation as a whole, the shell, the
  shutdown.

  \<^bold>\<open>Threads.\<close> \<open>Scheduler\<close> (\<open>thread/scheduler\<close>): both schedulers interpret one locale; service is by priority and first come first served among equals.
  \<open>Threads\<close> (\<open>thread.rs\<close>, \<open>thread/imp.rs\<close>, \<open>thread/manager.rs\<close>, \<open>sleepq.rs\<close>): the manager as a transition system with its invariant;
  \<open>Wake\<close>: sleepers are woken by the first tick at which they are due. \<open>Semaphore\<close>, \<open>Sleep_Lock\<close>, \<open>Condvar\<close> (\<open>sync/sema.rs\<close>, \<open>sync/sleep.rs\<close>,
  \<open>sync/condvar.rs\<close>): waking the thread of highest priority, mutual exclusion in every interleaving, donations and their end. \<open>Sync_Prims\<close>
  (\<open>sync/intr.rs\<close>, \<open>spin.rs\<close>, \<open>mutex.rs\<close>, \<open>once.rs\<close>, \<open>lazy.rs\<close>): the trait \<open>Lock\<close> as a locale, one-time initialisation. \<open>Context_Switch\<close> and \<open>Thread_Memory\<close>
  (\<open>thread/switch.rs\<close>, \<open>thread/imp.rs\<close>): saving and restoring registers, the stack of a thread from its creation to its end.

  \<^bold>\<open>Files.\<close> \<open>Io\<close> (\<open>io.rs\<close>, \<open>fs.rs\<close>): byte streams over the locale \<open>vnode\<close> of inodes, which \<open>Inmem\<close> (\<open>fs/inmem.rs\<close>) and \<open>Inode\<close> with
  \<open>Inode_Files\<close> (\<open>fs/disk/inode.rs\<close>) interpret. \<open>Free_Map\<close> (\<open>fs/disk/free_map.rs\<close>): the bitmap of sectors. \<open>Root_Dir\<close> (\<open>fs/disk/dir.rs\<close>): the directory refines a
  finite map from names to inodes. \<open>Disk_Fs\<close> (\<open>fs/disk.rs\<close>, \<open>path.rs\<close>, \<open>swap.rs\<close>): mounting, creating, opening and removing files, and the
  shared inodes.

  \<^bold>\<open>Devices, traps and user programs.\<close> \<open>Plic\<close> and \<open>Virtio\<close> (\<open>device/plic.rs\<close>, \<open>device/virtio.rs\<close>): the registers of the interrupt controller; the
  driver of the disk, which refines an array of sectors. \<open>Trap_Code\<close> and \<open>Trap\<close> (\<open>trap.rs\<close>, \<open>trap/pagefault.rs\<close>, \<open>trap/syscall.rs\<close>,
  \<open>mem/userbuf.rs\<close>): entry and exit code with the frame, the handler, and accesses to user memory that survive page faults. \<open>Load\<close> and \<open>Process\<close> (\<open>userproc.rs\<close>,
  \<open>userproc/load.rs\<close>): the memory of a loaded program, and what happens to files that are not programs.

  \<^bold>\<open>The tool.\<close> \<open>Book\<close> (\<open>tool/src/book.rs\<close>, \<open>cli.rs\<close>): bookmarks as maps from names to cases and their files. \<open>Test_Tool\<close>
  (\<open>tool/src/test.rs\<close>, \<open>build.rs\<close>, \<open>main.rs\<close>): time limits, verdicts, grades, and running the failed cases again. This theory
  joins the two programs: a clean shutdown of the kernel is what the tool takes for a passed case.

  \<^bold>\<open>Not modelled.\<close> The reference counts of threads (\<open>Arc\<close>) and the boxes of their closures; the block of \<open>main\<close> that starts the tests, and all
  code under the feature \<open>debug\<close>; output of the tool; cached translations, and the accessed and dirty bits, which the hardware may
  manage in several ways; the time that instructions take. \<open>src/src/macros.rs\<close> is not compiled; \<open>Cli::parse\<close> is generated. The tests of the kernel, the user
  programs in C and the tool that makes disk images are outside of the Rust implementation.
\<close>

section \<open>The kernel's output and the verdict of the test tool\<close>

text \<open>The bytes that the terminal receives, as text.\<close>

definition console_text :: "usize list \<Rightarrow> string" where
  "console_text cs = map (\<lambda>c. char_of (unat c)) cs"

lemma split_lines_last:
  assumes B: "CHR 0x0A \<notin> set B" "B \<noteq> []" "last B \<noteq> CHR 0x0D"
  shows "\<exists>ls A'. split_lines (A @ B @ [CHR 0x0A]) = ls @ [A' @ B]"
proof (induction "length A" arbitrary: A rule: less_induct)
  case less
  let ?nl = "CHR 0x0A"
  show ?case
  proof (cases "?nl \<in> set A")
    case False
    then have "takeWhile (\<lambda>c. c \<noteq> ?nl) (A @ B @ [?nl]) = A @ B"
      using B(1) by (auto simp: takeWhile_append)
    then have "split_lines (A @ B @ [?nl]) = [A @ B]"
      using B(2,3) by (subst split_lines.simps) (simp add: Let_def strip_cr_def split_lines.simps [of "[]"])
    then show ?thesis by (intro exI [of _ "[]"] exI [of _ A]) simp
  next
    case True
    then obtain l A2 where A: "A = l @ ?nl # A2" "?nl \<notin> set l" using split_list_first by metis
    have "takeWhile (\<lambda>c. c \<noteq> ?nl) (A @ B @ [?nl]) = l" using A(2) by (auto simp: A(1) takeWhile_append)
    then have s: "split_lines (A @ B @ [?nl]) = strip_cr l # split_lines (A2 @ B @ [?nl])"
      by (subst split_lines.simps) (simp add: Let_def A(1))
    have "length A2 < length A" by (simp add: A(1))
    from less [OF this] obtain ls A' where "split_lines (A2 @ B @ [?nl]) = ls @ [A' @ B]" by blast
    then show ?thesis using s by (intro exI [of _ "strip_cr l # ls"] exI [of _ A']) simp
  qed
qed

lemma contains_end: "str_contains pat (A @ pat)"
  unfolding str_contains_def list_ex_iff by (intro bexI [of _ "length A"]) auto

lemma lit_char: "char_of (unat (of_nat (of_char c) :: u32)) = c"
proof -
  have c: "(of_char c :: nat) < 256" by simp
  have "unat (of_nat (of_char c) :: u32) = of_char c" by (rule unat_of_nat_small) (rule less_trans [OF c], simp)
  then show ?thesis by simp
qed

lemma console_text_lit: "console_text (map ucast (lit s)) = s"
  by (simp add: console_text_def lit_def comp_def lit_char)

lemma stamp_chars:
  assumes "c \<in> set (stamp ms)"
  shows "unat c \<noteq> 10 \<and> unat c < 256"
proof -
  have "c \<in> set (lit ''['' @ ESC @ lit ''[38;2;129;165;113;1m'' @ lit '' ms'' @ ESC @ lit ''[0m] '') \<or> c \<in> set (show_dec (unat ms))"
    using assms unfolding stamp_def set_append by blast
  then show ?thesis
  proof
    assume "c \<in> set (show_dec (unat ms))"
    then have "48 \<le> unat c" "unat c \<le> 57" using show_dec_correct by blast+
    then show ?thesis by simp
  next
    assume "c \<in> set (lit ''['' @ ESC @ lit ''[38;2;129;165;113;1m'' @ lit '' ms'' @ ESC @ lit ''[0m] '')"
    then show ?thesis by (auto simp: lit_def ESC_def)
  qed
qed

lemma stamp_no_newline: "CHR 0x0A \<notin> set (console_text (map ucast (stamp ms)))"
proof
  assume "CHR 0x0A \<in> set (console_text (map ucast (stamp ms)))"
  then obtain c where c: "c \<in> set (stamp ms)" "char_of (unat (ucast c :: usize)) = CHR 0x0A"
    by (auto simp: console_text_def)
  have "unat (ucast c :: usize) = unat c" using stamp_chars [OF c(1)] by (simp add: unsigned_ucast_eq take_bit_nat_eq_self)
  then have "of_char (CHR 0x0A) = unat c" using c(2) stamp_chars [OF c(1)] by (metis of_char_of take_bit_nat_eq_self unsigned_of_nat mod_less of_char_mod_256 char_of_def)
  then show False using stamp_chars [OF c(1)] by simp
qed

lemma goodbye_line: "said_goodbye (console_text (xs @ line ms (lit ''Goodbye, World!'')))"
proof -
  let ?st = "console_text (map ucast (stamp ms))"
  have nl: "console_text (map ucast ([10] :: rust_str)) = [CHR 0x0A]" by (simp add: console_text_def char_of_def bit_iff_odd)
  have t: "console_text (xs @ line ms (lit ''Goodbye, World!'')) = console_text xs @ (?st @ ''Goodbye, World!'') @ [CHR 0x0A]"
    using console_text_lit [of "''Goodbye, World!''"] nl by (simp add: console_text_def line_def)
  have "CHR 0x0A \<notin> set (?st @ ''Goodbye, World!'')" using stamp_no_newline by simp
  then obtain ls A where "split_lines (console_text (xs @ line ms (lit ''Goodbye, World!''))) = ls @ [A @ ?st @ ''Goodbye, World!'']"
    unfolding t using split_lines_last [of "?st @ ''Goodbye, World!''" "console_text xs"] by auto
  then show ?thesis using contains_end [of "''Goodbye, World!''" "A @ ?st"] by (simp add: said_goodbye_def)
qed

text \<open>
  C19. A clean shutdown. With the file system mounted and its free map in a file of the right size, \<open>main\<close> ends by flushing the free map,
  saying goodbye and turning the machine off. The map that the next mount loads from the disk is the one the file system had; and the test
  tool, which gets the text of the console from a process that ended with success, records the case as passed.
\<close>

theorem clean_shutdown:
  assumes "prints io out" "resets io out"
    and "inode_ok \<lparr>vdisk = fs_disk f, vmap = fs_map f, ino = i\<rparr>" "id_sector (desc i) = FREE_MAP_SECTOR"
    and "unat (di_len (data i)) = length (bits (fs_map f))" "kernel_buf p (length (bits (fs_map f)))" "0 < size (fs_map f)"
  shows "\<exists>e' f'. main_end io info (translate pte) p cap (Inr f) h = Some (e', Some f') \<and>
    fm_load (translate pte) p (fs_disk f') (size (fs_map f)) = Some (Ok (fs_map f)) \<and>
    check k (Output True (console_text (out e'))) r = Some (pass k r)"
proof -
  from fm_flush_load [OF assms(3-7), of pte] obtain d' where
    d: "fm_flush (translate pte) p (fs_disk f) (fs_map f) = Some (Ok (), d')"
      "fm_load (translate pte) p d' (size (fs_map f)) = Some (Ok (fs_map f))" by blast
  have u: "Option.bind (diskfs_force (translate pte) p cap (Inr f)) (unmount (translate pte) p) = Some (f\<lparr>fs_disk := d'\<rparr>)"
    by (simp add: diskfs_force_def unmount_def d(1))
  from main_end_line [OF assms(1,2) u [symmetric], of info h] obtain e' where
    e: "main_end io info (translate pte) p cap (Inr f) h = Some (e', Some (f\<lparr>fs_disk := d'\<rparr>))"
      "out e' = out (h_env h) @ line (fst (time_ms io (h_env h))) (lit ''Goodbye, World!'')"
    by (auto simp: last_words_def)
  then show ?thesis using d(2) goodbye_line by (auto simp: check_def)
qed

text \<open>A disk of twelve sectors with its free map in sector 3.\<close>

definition map_disk :: disk_fs where
  "map_disk = sample_fs\<lparr>fs_disk := (replicate 12 (replicate 512 0))[0 := encode_inode sample_map_inode],
     fs_map := \<lparr>size = 12, bits = [31, 0]\<rparr>\<rparr>"

definition map_inode :: inode where
  "map_inode = \<lparr>desc = inode_desc_new FREE_MAP_SECTOR 0, data = sample_map_inode\<rparr>"

lemma map_inode_ok: "inode_ok \<lparr>vdisk = fs_disk map_disk, vmap = fs_map map_disk, ino = map_inode\<rparr>"
proof -
  let ?s = "\<lparr>vdisk = fs_disk map_disk, vmap = fs_map map_disk, ino = map_inode\<rparr>"
  have f: "f_len ?s = 2" "f_start ?s = 3" "f_shrink ?s = 0" "f_sector ?s = 0" "size (vmap ?s) = 12"
    by (simp_all add: map_inode_def map_disk_def sample_map_inode_def inode_desc_new_def FREE_MAP_SECTOR_def)
  have r: "run ?s = {3}" unfolding run_def f sectors_def by auto
  have v: "vdisk ?s = (replicate 12 (replicate 512 0))[0 := encode_inode sample_map_inode]"
    by (simp add: map_disk_def del: replicate.simps)
  have "disk_wf (vdisk ?s)"
    unfolding v by (rule disk_wf_update) (simp_all add: disk_wf_def SECTOR_SIZE_def length_encode_inode sample_map_inode_def)
  moreover have "\<forall>j \<in> own ?s. fm_bit (vmap ?s) j"
    unfolding own_def r f by (simp add: map_disk_def fm_bit_def bit_simps)
  ultimately show ?thesis
    unfolding inode_ok_def r f
    by (simp add: sectors_def) (simp add: map_disk_def map_inode_def fm_wf_def sample_map_inode_def)
qed

theorem clean_shutdown_witness:
  "\<exists>e' f'. main_end term_sbi [] (translate (\<lambda>_. None)) VM_BASE 12 (Inr map_disk) \<lparr>h_sie = 0, h_sstatus = 0, h_env = term_env.make [] [] 0 None\<rparr> =
      Some (e', Some f') \<and> check ''halt'' (Output True (console_text (t_out e'))) ([], []) = Some ([''halt''], [])"
proof -
  have l: "unat (di_len (data map_inode)) = length (bits (fs_map map_disk))" "0 < size (fs_map map_disk)"
    "id_sector (desc map_inode) = FREE_MAP_SECTOR"
    by (simp_all add: map_inode_def sample_map_inode_def map_disk_def inode_desc_new_def)
  have k: "kernel_buf VM_BASE (length (bits (fs_map map_disk)))"
    by (simp add: kernel_buf_def in_kernel_space_iff VM_BASE_def map_disk_def)
  from clean_shutdown [OF term_prints term_terminal(2) map_inode_ok l(3,1) k l(2), where r = "([], [])" and k = "''halt''"
      and info = "[]" and cap = 12 and pte = "\<lambda>_. None" and h = "\<lparr>h_sie = 0, h_sstatus = 0, h_env = term_env.make [] [] 0 None\<rparr>"]
  show ?thesis by (auto simp: pass_def)
qed

end
